(* ===== verification/Prelude.thy ===== *)
theory Prelude
  imports Main "HOL-Library.Word" "HOL-Library.Monad_Syntax"
begin

text \<open>
  Shared vocabulary of the development: bytes, C strings, bounds-checked memory, C integer
  conversions, and the generic lemmas and collections that carry the component proofs.

  A \<open>char\<close> of the C code is a \<open>byte\<close> (an 8-bit word); it is read signed (\<open>schar\<close>) where the
  code uses plain \<open>char\<close> in arithmetic or a comparison, and unsigned (\<open>uchar\<close>) where it uses
  \<open>unsigned char\<close>. A C string is the list of its bytes before the terminating 0; \<open>at0 s i\<close> reads
  it at an index, giving the terminator at \<open>length s\<close>. A buffer is a \<open>byte list\<close> whose length is
  its capacity; \<open>rd\<close>, \<open>wr\<close> and \<open>blit\<close> access it and give \<open>None\<close> for an access outside it, so a
  result \<open>Some\<close> says the code stayed in bounds. \<open>int32\<close> is the value a 32-bit \<open>int\<close> keeps.
\<close>

unbundle bit_operations_syntax

type_synonym byte = "8 word"
type_synonym u32 = "32 word"
type_synonym u64 = "64 word"

named_theorems mem_simps \<open>bounds-checked memory accesses\<close>
named_theorems byte_simps \<open>reading bytes as integers\<close>

subsection \<open>Bytes and characters\<close>

abbreviation schar :: "byte \<Rightarrow> int" where
  "schar b \<equiv> sint b"

abbreviation uchar :: "byte \<Rightarrow> int" where
  "uchar b \<equiv> uint b"

definition bytes :: "string \<Rightarrow> byte list" where
  "bytes s = map of_char s"

lemma bytes_simps [simp]:
  "bytes [] = []" "bytes (c # cs) = of_char c # bytes cs" "length (bytes s) = length s"
  by (simp_all add: bytes_def)

lemma bytes_append [simp]: "bytes (s @ t) = bytes s @ bytes t"
  by (simp add: bytes_def)

lemma schar_range: "- 128 \<le> schar b" "schar b < 128"
  using sint_greater_eq [of b] sint_less [of b] by simp_all

lemma uchar_range: "0 \<le> uchar b" "uchar b < 256"
  using unsigned_greater_eq [of b] unsigned_less [of b] by simp_all

subsection \<open>C integer conversions\<close>

definition int32 :: "int \<Rightarrow> int" where
  "int32 x = signed_take_bit 31 x"

definition uint32 :: "int \<Rightarrow> int" where
  "uint32 x = x mod 2 ^ 32"

definition size64 :: "int \<Rightarrow> int" where
  "size64 x = x mod 2 ^ 64"

lemma int32_id: "- (2 ^ 31) \<le> x \<Longrightarrow> x < 2 ^ 31 \<Longrightarrow> int32 x = x"
  by (simp add: int32_def signed_take_bit_int_eq_self)

lemma int32_range: "- (2 ^ 31) \<le> int32 x" "int32 x < 2 ^ 31"
  unfolding int32_def
  using signed_take_bit_int_greater_eq_minus_exp [of 31 x] signed_take_bit_int_less_exp [of 31 x]
  by simp_all

lemma uint32_id: "0 \<le> x \<Longrightarrow> x < 2 ^ 32 \<Longrightarrow> uint32 x = x"
  by (simp add: uint32_def)

lemma size64_id: "0 \<le> x \<Longrightarrow> x < 2 ^ 64 \<Longrightarrow> size64 x = x"
  by (simp add: size64_def)

subsection \<open>C strings\<close>

definition cstr :: "byte list \<Rightarrow> byte list" where
  "cstr b = takeWhile (\<lambda>c. c \<noteq> 0) b"

definition at0 :: "byte list \<Rightarrow> nat \<Rightarrow> byte" where
  "at0 s i = (if i < length s then s ! i else 0)"

abbreviation is_cstr :: "byte list \<Rightarrow> bool" where
  "is_cstr s \<equiv> 0 \<notin> set s"

lemma at0_simps [simp]:
  "at0 [] i = 0" "at0 (c # s) 0 = c" "at0 (c # s) (Suc i) = at0 s i"
  by (simp_all add: at0_def)

lemma at0_Cons_numeral [simp]: "at0 (c # s) (numeral n) = at0 s (pred_numeral n)"
  by (simp add: at0_def numeral_eq_Suc)

lemma at0_in: "i < length s \<Longrightarrow> at0 s i = s ! i"
  by (simp add: at0_def)

lemma at0_out: "length s \<le> i \<Longrightarrow> at0 s i = 0"
  by (simp add: at0_def)

lemma at0_zero_iff: "is_cstr s \<Longrightarrow> at0 s i = 0 \<longleftrightarrow> length s \<le> i"
  by (auto simp: at0_def in_set_conv_nth)

lemma cstr_terminated: "is_cstr s \<Longrightarrow> cstr (s @ 0 # r) = s"
  by (induction s) (auto simp: cstr_def)

lemma cstr_is_cstr [simp]: "is_cstr (cstr b)"
  by (auto simp: cstr_def dest: set_takeWhileD)

lemma cstr_of_cstr: "is_cstr s \<Longrightarrow> cstr s = s"
  by (auto simp: cstr_def takeWhile_eq_all_conv)

subsection \<open>Bounds-checked memory\<close>

definition rd :: "'a list \<Rightarrow> nat \<Rightarrow> 'a option" where
  "rd b i = (if i < length b then Some (b ! i) else None)"

definition wr :: "'a list \<Rightarrow> nat \<Rightarrow> 'a \<Rightarrow> 'a list option" where
  "wr b i v = (if i < length b then Some (b[i := v]) else None)"

definition blit :: "'a list \<Rightarrow> nat \<Rightarrow> 'a list \<Rightarrow> 'a list option" where
  "blit b i xs =
     (if i + length xs \<le> length b then Some (take i b @ xs @ drop (i + length xs) b) else None)"

definition rds :: "'a list \<Rightarrow> nat \<Rightarrow> nat \<Rightarrow> 'a list option" where
  "rds b i n = (if i + n \<le> length b then Some (take n (drop i b)) else None)"

definition seg :: "'a list \<Rightarrow> nat \<Rightarrow> nat \<Rightarrow> 'a list" where
  "seg b i n = take n (drop i b)"

lemma rd_Some [mem_simps]: "i < length b \<Longrightarrow> rd b i = Some (b ! i)"
  by (simp add: rd_def)

lemma rd_None [mem_simps]: "length b \<le> i \<Longrightarrow> rd b i = None"
  by (simp add: rd_def)

lemma wr_Some [mem_simps]: "i < length b \<Longrightarrow> wr b i v = Some (b[i := v])"
  by (simp add: wr_def)

lemma wr_None [mem_simps]: "length b \<le> i \<Longrightarrow> wr b i v = None"
  by (simp add: wr_def)

lemma wr_length: "wr b i v = Some b' \<Longrightarrow> length b' = length b"
  by (auto simp: wr_def split: if_splits)

lemma blit_Some [mem_simps]:
  "i + length xs \<le> length b \<Longrightarrow>
   blit b i xs = Some (take i b @ xs @ drop (i + length xs) b)"
  by (simp add: blit_def)

lemma blit_None [mem_simps]: "length b < i + length xs \<Longrightarrow> blit b i xs = None"
  by (simp add: blit_def)

lemma blit_length: "blit b i xs = Some b' \<Longrightarrow> length b' = length b"
  by (auto simp: blit_def split: if_splits)

lemma rds_Some [mem_simps]: "i + n \<le> length b \<Longrightarrow> rds b i n = Some (take n (drop i b))"
  by (simp add: rds_def)

lemma rds_None [mem_simps]: "length b < i + n \<Longrightarrow> rds b i n = None"
  by (simp add: rds_def)

lemma seg_length: "i + n \<le> length b \<Longrightarrow> length (seg b i n) = n"
  by (simp add: seg_def)

lemma seg_nth: "j < n \<Longrightarrow> i + j < length b \<Longrightarrow> seg b i n ! j = b ! (i + j)"
  by (simp add: seg_def)

lemma seg_all [simp]: "seg b 0 (length b) = b"
  by (simp add: seg_def)

lemma seg_zero [simp]: "seg b i 0 = []"
  by (simp add: seg_def)

subsection \<open>Lists\<close>

lemma list_update_append_at: "(xs @ y # ys)[length xs := z] = xs @ z # ys"
  by (induction xs) auto

lemma take_Suc_snoc: "i < length xs \<Longrightarrow> take (Suc i) xs = take i xs @ [xs ! i]"
  by (rule take_Suc_conv_app_nth)

lemma fold_invariant:
  assumes "P s" and "\<And>x s. x \<in> set xs \<Longrightarrow> P s \<Longrightarrow> P (f x s)"
  shows "P (fold f xs s)"
  using assms by (induction xs arbitrary: s) auto

lemma upt_conv_take: "[0..<m] = take m [0..<n]" if "m \<le> n"
  using that by (simp add: min_def)

subsection \<open>Residues\<close>

lemma mod_shift_neq: "0 < d \<Longrightarrow> d < n \<Longrightarrow> (s + d) mod n \<noteq> s mod (n :: nat)"
  using mod_eq_dvd_iff_nat [of s "s + d" n] by (auto dest: dvd_imp_le)

lemma mod_add_left_inj:
  assumes "k < n" "l < (n :: nat)"
  shows "(a + k) mod n = (a + l) mod n \<longleftrightarrow> k = l"
proof (cases k l rule: linorder_cases)
  case less
  then have "0 < l - k" "l - k < n" "a + k + (l - k) = a + l" using assms by simp_all
  with less show ?thesis using mod_shift_neq [of "l - k" n "a + k"] by simp
next
  case greater
  then have "0 < k - l" "k - l < n" "a + l + (k - l) = a + k" using assms by simp_all
  with greater show ?thesis using mod_shift_neq [of "k - l" n "a + l"] by simp
qed simp

subsection \<open>Loading words from memory\<close>

definition le32 :: "byte \<Rightarrow> byte \<Rightarrow> byte \<Rightarrow> byte \<Rightarrow> u32" where
  "le32 a b c d = ucast a OR push_bit 8 (ucast b) OR push_bit 16 (ucast c) OR push_bit 24 (ucast d)"

text \<open>A 32-bit load on a big-endian (\<open>True\<close>) or little-endian machine.\<close>

definition load32 :: "bool \<Rightarrow> byte \<Rightarrow> byte \<Rightarrow> byte \<Rightarrow> byte \<Rightarrow> u32" where
  "load32 big a b c d = (if big then le32 d c b a else le32 a b c d)"

end
