(* ===== verification/Utils.thy ===== *)
theory Utils
  imports Prelude
begin

text \<open>
  The string, number and random helpers of \<open>xs/xs_utils.h\<close>. A \<open>const char*\<close> argument that the
  code tests for NULL is a \<open>byte list option\<close>; a destination is a buffer (\<open>byte list\<close>), written
  at an offset because callers pass \<open>d+k\<close>. Every write is bounds-checked, so a result \<open>Some\<close>
  is a proof that the function stayed inside the buffer.
\<close>

subsection \<open>Character classes and hex digits\<close>

definition xs_lower :: "int \<Rightarrow> int" where
  "xs_lower a = (if uint32 (a - 65) \<le> 25 then a - (65 - 97) else a)"

definition xs_isalpha :: "int \<Rightarrow> bool" where
  "xs_isalpha c \<longleftrightarrow> (97 \<le> c \<and> c \<le> 122) \<or> (65 \<le> c \<and> c \<le> 90)"

definition xs_isalnum :: "int \<Rightarrow> bool" where
  "xs_isalnum c \<longleftrightarrow>
     (97 \<le> c \<and> c \<le> 122) \<or> (65 \<le> c \<and> c \<le> 90) \<or> (48 \<le> c \<and> c \<le> 57)"

definition xs_isspace :: "byte \<Rightarrow> bool" where
  "xs_isspace b \<longleftrightarrow> b \<noteq> 0 \<and> (b = 9 \<or> b = 32 \<or> b = 13 \<or> b = 10)"

function xs_skipspaces :: "byte list \<Rightarrow> nat \<Rightarrow> bool \<Rightarrow> nat" where
  "xs_skipspaces s i skipSpace =
     (if at0 s i \<noteq> 0 \<and> xs_isspace (at0 s i) = skipSpace
      then xs_skipspaces s (Suc i) skipSpace else i)"
  by pat_completeness auto
termination
  by (relation "measure (\<lambda>(s, i, k). length s - i)") (auto simp: at0_def split: if_splits)

definition xs_fromhex :: "byte \<Rightarrow> int" where
  "xs_fromhex c =
     (if 48 \<le> schar c \<and> schar c \<le> 57 then schar c - 48
      else if 65 \<le> schar c \<and> schar c \<le> 70 then schar c - 65 + 10
      else if 97 \<le> schar c \<and> schar c \<le> 102 then schar c - 97 + 10
      else - 1)"

definition xs_tohex :: "int \<Rightarrow> bool \<Rightarrow> int" where
  "xs_tohex v upper = (if v < 10 then v + 48 else if upper then v + 65 else v + 97)"

subsection \<open>Copying and appending\<close>

fun xs_strlcpy_at :: "byte list \<Rightarrow> nat \<Rightarrow> byte list \<Rightarrow> nat \<Rightarrow> byte list option" where
  "xs_strlcpy_at d i [] n = wr d i 0"
| "xs_strlcpy_at d i (c # s) n =
     (if n > 1 then do { d' \<leftarrow> wr d i c; xs_strlcpy_at d' (Suc i) s (n - 1) } else wr d i 0)"

definition xs_strlcpy :: "byte list \<Rightarrow> byte list option \<Rightarrow> nat \<Rightarrow> byte list option" where
  "xs_strlcpy d s n =
     (if n < 1 then Some d
      else case s of None \<Rightarrow> wr d 0 0 | Some t \<Rightarrow> xs_strlcpy_at d 0 t n)"

primrec xs_strlcat_walk :: "byte list \<Rightarrow> nat \<Rightarrow> nat \<Rightarrow> (nat \<times> nat) option" where
  "xs_strlcat_walk d i 0 = do { c \<leftarrow> rd d i; Some (i, 0) }"
| "xs_strlcat_walk d i (Suc n) =
     do { c \<leftarrow> rd d i; if c \<noteq> 0 \<and> n > 0 then xs_strlcat_walk d (Suc i) n else Some (i, Suc n) }"

definition xs_strlcat_at :: "byte list \<Rightarrow> nat \<Rightarrow> byte list \<Rightarrow> nat \<Rightarrow> byte list option" where
  "xs_strlcat_at d i s n =
     (if n < 1 then Some d
      else do {
        (j, m) \<leftarrow> xs_strlcat_walk d i n;
        if m > 1 then xs_strlcpy_at d j s m else Some d })"

definition xs_strndup :: "byte list \<Rightarrow> nat \<Rightarrow> byte list option" where
  "xs_strndup s n = xs_strlcpy (replicate (n + 1) 0) (Some s) (n + 1)"

definition xs_strdup :: "byte list \<Rightarrow> byte list option" where
  "xs_strdup s = xs_strndup s (length s)"

definition xs_strlappend :: "byte list \<Rightarrow> nat \<Rightarrow> int \<Rightarrow> byte list \<Rightarrow> int \<Rightarrow> (byte list \<times> int) option" where
  "xs_strlappend d i n s l =
     (let l' = (if l \<ge> n then n - 1 else l)
      in if l' < 0 then Some (d, 0)
         else do {
           xs \<leftarrow> rds s 0 (nat l');
           d1 \<leftarrow> blit d i xs;
           d2 \<leftarrow> wr d1 (i + nat l') 0;
           Some (d2, l') })"

definition xs_strappend :: "byte list \<Rightarrow> nat \<Rightarrow> int \<Rightarrow> byte list \<Rightarrow> (byte list \<times> int) option" where
  "xs_strappend d i n s = xs_strlappend d i n s (int (length s))"

subsection \<open>Comparing\<close>

fun strncmp_loop :: "(int \<Rightarrow> int) \<Rightarrow> byte list \<Rightarrow> byte list \<Rightarrow> nat \<Rightarrow> int" where
  "strncmp_loop f [] s2 n = (if n > 0 then f (schar 0) - f (schar (at0 s2 0)) else 0)"
| "strncmp_loop f (a # s1) s2 n =
     (if n > 0
      then let v = f (schar a) - f (schar (at0 s2 0))
           in if v \<noteq> 0 \<or> a = 0 \<or> at0 s2 0 = 0 then v else strncmp_loop f s1 (tl s2) (n - 1)
      else 0)"

definition xs_strncmp_case :: "byte list option \<Rightarrow> byte list option \<Rightarrow> nat \<Rightarrow> int" where
  "xs_strncmp_case s1 s2 n =
     (case (s1, s2) of
        (None, None) \<Rightarrow> 0 | (_, None) \<Rightarrow> 1 | (None, _) \<Rightarrow> - 1
      | (Some a, Some b) \<Rightarrow> strncmp_loop xs_lower a b n)"

definition xs_strcmp_case :: "byte list option \<Rightarrow> byte list option \<Rightarrow> int" where
  "xs_strcmp_case s1 s2 = xs_strncmp_case s1 s2 2147483647"

definition xs_strncmp :: "byte list option \<Rightarrow> byte list option \<Rightarrow> nat \<Rightarrow> int" where
  "xs_strncmp s1 s2 n =
     (case (s1, s2) of
        (None, None) \<Rightarrow> 0 | (_, None) \<Rightarrow> 1 | (None, _) \<Rightarrow> - 1
      | (Some a, Some b) \<Rightarrow> strncmp_loop id a b n)"

definition xs_strcmp :: "byte list option \<Rightarrow> byte list option \<Rightarrow> int" where
  "xs_strcmp s1 s2 = xs_strncmp s1 s2 2147483647"

fun xs_strstr_case_loop :: "byte list \<Rightarrow> byte list \<Rightarrow> nat \<Rightarrow> nat list \<Rightarrow> nat option" where
  "xs_strstr_case_loop b s slen [] = None"
| "xs_strstr_case_loop b s slen (i # js) =
     (if xs_lower (schar (at0 b i)) = xs_lower (schar (at0 s 0))
         \<and> xs_strncmp_case (Some (drop i b)) (Some s) slen = 0
      then Some i else xs_strstr_case_loop b s slen js)"

definition xs_strstr_case :: "byte list \<Rightarrow> byte list \<Rightarrow> nat option" where
  "xs_strstr_case bstr sstr =
     (let dlen = int (length bstr) - int (length sstr)
      in xs_strstr_case_loop bstr sstr (length sstr) [0..<nat (dlen + 1)])"

subsection \<open>Numbers to text\<close>

definition xs_digit :: "int \<Rightarrow> byte" where
  "xs_digit v = word_of_int (if v > 9 then v - 10 + 97 else v + 48)"

function xs_itoa_digits :: "byte list \<Rightarrow> nat \<Rightarrow> int \<Rightarrow> int \<Rightarrow> int \<Rightarrow> (byte list \<times> nat) option" where
  "xs_itoa_digits d p e uval rad =
     (if rad = 0 then None
      else do {
        d' \<leftarrow> wr d p (xs_digit (uval - (uval div rad) * rad));
        if uval div rad > 0 \<and> int (Suc p) < e
        then xs_itoa_digits d' (Suc p) e (uval div rad) rad
        else Some (d', Suc p) })"
  by pat_completeness auto
termination
  by (relation "measure (\<lambda>(d, p, e, u, r). nat (e - int p))") auto

function xs_itoa_rev :: "byte list \<Rightarrow> nat \<Rightarrow> nat \<Rightarrow> byte list option" where
  "xs_itoa_rev d b e = do {
     x \<leftarrow> rd d e; y \<leftarrow> rd d b;
     d1 \<leftarrow> wr d e y; d2 \<leftarrow> wr d1 b x;
     if Suc b < e - 1 then xs_itoa_rev d2 (Suc b) (e - 1) else Some d2 }"
  by pat_completeness auto
termination
  by (relation "measure (\<lambda>(d, b, e). e - b)") auto

definition xs_itoa :: "int \<Rightarrow> byte list option \<Rightarrow> int \<Rightarrow> int \<Rightarrow> (byte list option \<times> nat) option" where
  \<comment> \<open>the buffer afterwards and the returned position; position 0 with an error return\<close>
  "xs_itoa val str maxlength rad =
     (case str of
        None \<Rightarrow> Some (None, 0)
      | Some d \<Rightarrow>
          if maxlength < 2
          then (if maxlength \<noteq> 0 then do { d' \<leftarrow> wr d 0 0; Some (Some d', 0) } else Some (Some d, 0))
          else do {
            d0 \<leftarrow> (if val < 0 then wr d 0 45 else Some d);
            let beg = (if val < 0 then 1 else 0);
            let uval = (if val < 0 then (- val) mod 2 ^ 64 else val);
            let ml = (if val < 0 then maxlength - 1 else maxlength);
            (d1, p) \<leftarrow> xs_itoa_digits d0 beg (int beg + ml - 1) uval (size64 rad);
            d2 \<leftarrow> wr d1 p 0;
            d3 \<leftarrow> xs_itoa_rev d2 beg (p - 1);
            Some (Some d3, p) })"

subsection \<open>The small generator of Bob Jenkins\<close>

record xs_ranctx =
  ra :: u32
  rb :: u32
  rc :: u32
  rd4 :: u32

definition xs_rot32 :: "u32 \<Rightarrow> nat \<Rightarrow> u32" where
  "xs_rot32 x k = push_bit k x OR drop_bit (32 - k) x"

definition xs_ranval :: "xs_ranctx \<Rightarrow> u32 \<times> xs_ranctx" where
  "xs_ranval x =
     (let e = ra x - xs_rot32 (rb x) 27;
          a' = rb x XOR xs_rot32 (rc x) 17;
          b' = rc x + rd4 x;
          c' = rd4 x + e;
          d' = e + a'
      in (d', \<lparr>ra = a', rb = b', rc = c', rd4 = d'\<rparr>))"

definition xs_raninit :: "u32 \<Rightarrow> xs_ranctx" where
  "xs_raninit seed =
     ((\<lambda>x. snd (xs_ranval x)) ^^ 20) \<lparr>ra = 0xf1ea5eed, rb = seed, rc = seed, rd4 = seed\<rparr>"

text \<open>The process-wide generator: \<open>gxs_raninit\<close> and \<open>gxs_seed\<close>.\<close>

type_synonym ran_global = "bool \<times> xs_ranctx"

definition xs_rand :: "ran_global \<Rightarrow> u32 \<times> ran_global" where
  "xs_rand g =
     (let x = (if fst g then snd g else xs_raninit 0x12345678); (v, x') = xs_ranval x
      in (v, (True, x')))"

definition xs_rand_i :: "u32 \<Rightarrow> ran_global \<Rightarrow> (u32 \<times> ran_global) option" where
  \<comment> \<open>\<open>None\<close> for the division by zero\<close>
  "xs_rand_i rng g =
     (if rng = 0 then None else (let (v, g') = xs_rand g in Some (v mod rng, g')))"

subsection \<open>Lemmas: copying and appending\<close>

lemma xs_strlcpy_at_spec:
  assumes "1 \<le> n" and "i + min (length s + 1) n \<le> length d"
  shows "xs_strlcpy_at d i s n =
         Some (take i d @ take (n - 1) s @ 0 # drop (i + min (length s) (n - 1) + 1) d)"
  using assms
proof (induction d i s n rule: xs_strlcpy_at.induct)
  case (1 d i n)
  then show ?case by (simp add: mem_simps upd_conv_take_nth_drop)
next
  case (2 d i c s n)
  show ?case
  proof (cases "n > 1")
    case True
    then have "i < length d" using "2.prems" by simp
    have w: "wr d i c = Some (d[i := c])" using \<open>i < length d\<close> by (simp add: mem_simps)
    obtain m where n: "n = Suc (Suc m)" using True by (cases n; cases "n - 1") auto
    have "take (Suc i) (d[i := c]) = take i d @ [c]"
      using \<open>i < length d\<close> by (simp add: take_Suc_snoc)
    with True n w "2.IH" [of "d[i := c]"] "2.prems" show ?thesis
      by (simp add: min_Suc_Suc)
  next
    case False
    then have "n = 1" using "2.prems" by simp
    then show ?thesis using "2.prems" by (simp add: mem_simps upd_conv_take_nth_drop)
  qed
qed

lemma xs_strlcpy_spec:
  "1 \<le> n \<Longrightarrow> min (length s + 1) n \<le> length d \<Longrightarrow>
   xs_strlcpy d (Some s) n = Some (take (n - 1) s @ 0 # drop (min (length s) (n - 1) + 1) d)"
  by (simp add: xs_strlcpy_def xs_strlcpy_at_spec)

lemma xs_strlcat_walk_spec:
  assumes "is_cstr z" and "n > length z"
  shows "xs_strlcat_walk (p @ z @ 0 # r) (length p) n = Some (length p + length z, n - length z)"
  using assms
proof (induction z arbitrary: p n)
  case Nil
  then show ?case by (cases n) (simp_all add: mem_simps)
next
  case (Cons c z)
  then obtain m where n: "n = Suc m" and m: "m > length z" by (cases n) auto
  have "xs_strlcat_walk ((p @ [c]) @ z @ 0 # r) (length (p @ [c])) m =
        Some (length (p @ [c]) + length z, m - length z)"
    using Cons.prems m by (intro Cons.IH) auto
  with Cons.prems n m show ?case by (simp add: mem_simps nth_append)
qed

lemma xs_strlcat_at_spec:
  assumes "is_cstr z" and "n > length z + 1"
    and "min (length s) (n - length z - 1) \<le> length r"
  shows "xs_strlcat_at (p @ z @ 0 # r) (length p) s n =
         Some (p @ z @ take (n - length z - 1) s @ 0 # drop (min (length s) (n - length z - 1)) r)"
proof -
  have w: "xs_strlcat_walk (p @ z @ 0 # r) (length p) n = Some (length p + length z, n - length z)"
    using assms by (intro xs_strlcat_walk_spec) auto
  have c: "xs_strlcpy_at (p @ z @ 0 # r) (length p + length z) s (n - length z) =
        Some (p @ z @ take (n - length z - 1) s @ 0 # drop (min (length s) (n - length z - 1)) r)"
    using assms by (subst xs_strlcpy_at_spec) auto
  show ?thesis using assms(2) by (simp add: xs_strlcat_at_def w c)
qed

subsection \<open>Lemmas: comparing\<close>

lemma xs_lower_byte:
  "xs_lower (schar c) = (if 65 \<le> schar c \<and> schar c \<le> 90 then schar c + 32 else schar c)"
proof (cases "65 \<le> schar c")
  case True
  then have "uint32 (schar c - 65) = schar c - 65"
    using schar_range [of c] by (intro uint32_id) auto
  with True show ?thesis by (simp add: xs_lower_def)
next
  case False
  have "uint32 (schar c - 65) = schar c - 65 + 2 ^ 32"
    using False schar_range [of c] unfolding uint32_def
    by (subst mod_add_self2 [symmetric], intro mod_pos_pos_trivial) auto
  with False schar_range [of c] show ?thesis by (simp add: xs_lower_def)
qed

abbreviation lower_byte :: "byte \<Rightarrow> int" where
  "lower_byte c \<equiv> xs_lower (schar c)"

lemma schar_zero_iff: "schar c = 0 \<longleftrightarrow> c = 0"
  by (metis sint_0 signed_word_eqI)

lemma lower_byte_zero_iff: "lower_byte c = xs_lower 0 \<longleftrightarrow> c = 0"
proof -
  have "xs_lower 0 = 0" using xs_lower_byte [of 0] by simp
  then show ?thesis using schar_zero_iff [of c] by (auto simp: xs_lower_byte)
qed

lemma strncmp_loop_zero:
  assumes "\<And>c. f (schar c) = f 0 \<longleftrightarrow> c = 0" and "is_cstr a" and "is_cstr b"
  shows "strncmp_loop f a b n = 0 \<longleftrightarrow>
         map (f \<circ> schar) (take n a) = map (f \<circ> schar) (take n b)"
  using assms(2,3)
proof (induction a arbitrary: b n)
  case Nil
  show ?case
  proof (cases b)
    case (Cons c b')
    then have "f (schar c) \<noteq> f 0" using assms(1) Nil.prems by auto
    with Cons show ?thesis by (cases n) auto
  qed simp
next
  case (Cons c a)
  have c: "f (schar c) \<noteq> f 0" "c \<noteq> 0" using assms(1) Cons.prems by auto
  show ?case
  proof (cases n)
    case (Suc m)
    show ?thesis
    proof (cases b)
      case Nil
      then show ?thesis using Suc c by (simp add: Let_def)
    next
      fix e b' assume b: "b = e # b'"
      then have e: "e \<noteq> 0" using Cons.prems by auto
      show ?thesis
      proof (cases "f (schar c) = f (schar e)")
        case True
        have "strncmp_loop f a b' m = 0 \<longleftrightarrow>
            map (f \<circ> schar) (take m a) = map (f \<circ> schar) (take m b')"
          using b Cons.prems by (intro Cons.IH) auto
        then show ?thesis using True Suc b c e by (simp add: comp_def)
      next
        case False
        then show ?thesis using Suc b by simp
      qed
    qed
  qed simp
qed

lemma xs_strncmp_case_zero:
  assumes "is_cstr a" and "is_cstr b"
  shows "xs_strncmp_case (Some a) (Some b) n = 0 \<longleftrightarrow>
         map lower_byte (take n a) = map lower_byte (take n b)"
  using strncmp_loop_zero [of xs_lower, OF lower_byte_zero_iff assms]
  by (simp add: xs_strncmp_case_def comp_def)

lemma xs_strcmp_case_iff:
  assumes "is_cstr a" "is_cstr b" "length a < 2147483647" "length b < 2147483647"
  shows "xs_strcmp_case (Some a) (Some b) = 0 \<longleftrightarrow> map lower_byte a = map lower_byte b"
  using xs_strncmp_case_zero [OF assms(1,2), of 2147483647] assms(3,4) by (simp add: xs_strcmp_case_def)

lemmas lower_eval = xs_lower_def uint32_def

lemma xs_strncmp_zero:
  assumes "is_cstr a" and "is_cstr b"
  shows "xs_strncmp (Some a) (Some b) n = 0 \<longleftrightarrow> take n a = take n b"
proof -
  have "inj (schar :: byte \<Rightarrow> int)" by (metis injI signed_word_eqI)
  then have "map schar xs = map schar ys \<longleftrightarrow> xs = ys" for xs ys :: "byte list"
    by (simp add: inj_map_eq_map)
  then show ?thesis
    using strncmp_loop_zero [of id, OF _ assms] by (simp add: xs_strncmp_def schar_zero_iff)
qed

definition case_match :: "byte list \<Rightarrow> byte list \<Rightarrow> nat \<Rightarrow> bool" where
  "case_match b s i \<longleftrightarrow>
     i + length s \<le> length b \<and> map lower_byte (seg b i (length s)) = map lower_byte s"

lemma xs_strstr_case_loop_find:
  assumes "is_cstr b" "is_cstr s" "s \<noteq> []" "\<And>i. i \<in> set js \<Longrightarrow> i + length s \<le> length b"
  shows "xs_strstr_case_loop b s (length s) js = find (case_match b s) js"
  using assms(4)
proof (induction js)
  case (Cons i js)
  have i: "i + length s \<le> length b" using Cons.prems by simp
  have z: "xs_strncmp_case (Some (drop i b)) (Some s) (length s) = 0 \<longleftrightarrow> case_match b s i"
    using i assms(1,2) xs_strncmp_case_zero [of "drop i b" s "length s"]
    by (auto simp: case_match_def seg_def dest: in_set_dropD)
  have f: "case_match b s i \<Longrightarrow> lower_byte (at0 b i) = lower_byte (at0 s 0)"
    using i assms(3) by (cases s; cases "drop i b")
      (auto simp: case_match_def seg_def at0_def nth_via_drop)
  show ?case using z f Cons by auto
qed simp

lemma xs_strstr_case_find:
  assumes "is_cstr b" "is_cstr s" "s \<noteq> []"
  shows "xs_strstr_case b s = find (case_match b s) [0..<Suc (length b) - length s]"
proof -
  have n: "nat (int (length b) - int (length s) + 1) = Suc (length b) - length s" by linarith
  show ?thesis
    unfolding xs_strstr_case_def Let_def n
    by (rule xs_strstr_case_loop_find [OF assms]) auto
qed

lemma find_upt_Some_iff:
  "find P [0..<n] = Some i \<longleftrightarrow> i < n \<and> P i \<and> (\<forall>j<i. \<not> P j)"
  by (auto simp: find_Some_iff)

subsection \<open>Lemmas: numbers to text\<close>

function num_text :: "int \<Rightarrow> int \<Rightarrow> byte list" where
  "num_text r v =
     (if r < 2 \<or> v < r then [xs_digit v] else num_text r (v div r) @ [xs_digit (v mod r)])"
  by pat_completeness auto
termination
  by (relation "measure (\<lambda>(r, v). nat v)") (auto intro: int_div_less_self)

declare num_text.simps [simp del] xs_itoa_digits.simps [simp del] xs_itoa_rev.simps [simp del]

lemma num_text_nonempty: "num_text r v \<noteq> []"
  by (subst num_text.simps) auto

lemma xs_itoa_digits_spec:
  assumes "2 \<le> r" "0 \<le> v" "p + length (num_text r v) \<le> length d"
    "int p + int (length (num_text r v)) \<le> e"
  shows "xs_itoa_digits d p e v r =
         Some (take p d @ rev (num_text r v) @ drop (p + length (num_text r v)) d,
               p + length (num_text r v))"
  using assms
proof (induction r v arbitrary: d p rule: num_text.induct)
  case (1 r v)
  have pl: "p < length d" using "1.prems" num_text_nonempty [of r v] by (cases "num_text r v") auto
  have w: "wr d p x = Some (d[p := x])" for x using pl by (simp add: mem_simps)
  show ?case
  proof (cases "v < r")
    case True
    then have "v div r = 0" using "1.prems" by (simp add: div_pos_pos_trivial)
    then show ?thesis using True "1.prems" pl
      by (subst xs_itoa_digits.simps)
        (simp add: num_text.simps w upd_conv_take_nth_drop)
  next
    case False
    let ?ds = "num_text r (v div r)"
    have nt: "num_text r v = ?ds @ [xs_digit (v mod r)]"
      using False "1.prems" by (subst num_text.simps) simp
    have pos: "v div r > 0" using False "1.prems" by (simp add: pos_imp_zdiv_pos_iff)
    have dg: "v - v div r * r = v mod r" by (simp add: minus_div_mult_eq_mod)
    have "length ?ds > 0" using num_text_nonempty by auto
    then have pe: "int (Suc p) < e" using arg_cong [OF nt, of length] "1.prems"(4) by (simp del: length_greater_0_conv)
    have "xs_itoa_digits (d[p := xs_digit (v mod r)]) (Suc p) e (v div r) r =
        Some (take (Suc p) (d[p := xs_digit (v mod r)]) @ rev ?ds @
              drop (Suc p + length ?ds) (d[p := xs_digit (v mod r)]), Suc p + length ?ds)"
      using "1.prems" False nt pos by (intro "1.IH") auto
    then show ?thesis using pos dg w "1.prems" pe nt pl
      by (subst xs_itoa_digits.simps) (simp add: take_Suc_snoc)
  qed
qed

lemma xs_itoa_rev_spec:
  assumes "m \<noteq> []"
  shows "xs_itoa_rev (p @ m @ r) (length p) (length p + length m - 1) = Some (p @ rev m @ r)"
  using assms
proof (induction m arbitrary: p r rule: length_induct)
  case (1 m)
  consider (one) x where "m = [x]" | (more) x m' y where "m = x # m' @ [y]"
    by (metis "1.prems" list.exhaust rev_exhaust)
  then show ?case
  proof cases
    case one
    then show ?thesis by (subst xs_itoa_rev.simps) (auto simp: mem_simps)
  next
    case more
    let ?p = "p @ [y]" and ?r = "x # r"
    have swap: "(p @ m @ r)[Suc (length p + length m') := x, length p := y] = ?p @ m' @ ?r"
      using more by (simp add: list_update_append nth_append)
    have step: "xs_itoa_rev (p @ m @ r) (length p) (length p + length m - 1) =
        (if Suc (length p) < length p + length m'
         then xs_itoa_rev (?p @ m' @ ?r) (Suc (length p)) (length p + length m')
         else Some (?p @ m' @ ?r))"
      using more swap by (subst xs_itoa_rev.simps) (simp add: mem_simps nth_append)
    show ?thesis
    proof (cases "m' = []")
      case True
      then show ?thesis using step more by simp
    next
      case False
      have "xs_itoa_rev (?p @ m' @ ?r) (length ?p) (length ?p + length m' - 1) =
          Some (?p @ rev m' @ ?r)"
        using "1.IH" [rule_format, of m' ?p ?r] more False by simp
      moreover have "length m' = 1 \<Longrightarrow> rev m' = m'" by (cases m') auto
      ultimately show ?thesis using step more False
        by (cases "length m' = 1") (auto simp: Suc_lessI)
    qed
  qed
qed

lemma xs_itoa_nonneg:
  assumes "0 \<le> val" "val < 2 ^ 63" "2 \<le> r" "r \<le> 36"
    and "int (length (num_text r val)) < maxlength" and "maxlength \<le> int (length d)"
  shows "xs_itoa val (Some d) maxlength r =
         Some (Some (num_text r val @ 0 # drop (Suc (length (num_text r val))) d),
               length (num_text r val))"
proof -
  let ?t = "num_text r val"
  have ne: "?t \<noteq> []" by (rule num_text_nonempty)
  have dg: "xs_itoa_digits d 0 (maxlength - 1) val r = Some (rev ?t @ drop (length ?t) d, length ?t)"
    using assms by (subst xs_itoa_digits_spec) auto
  have lt: "length ?t < length d" using assms by simp
  have w: "wr (rev ?t @ drop (length ?t) d) (length ?t) 0 =
      Some (rev ?t @ 0 # drop (Suc (length ?t)) d)"
    using lt by (simp add: mem_simps list_update_append Cons_nth_drop_Suc [symmetric])
  have rv: "xs_itoa_rev (rev ?t @ 0 # drop (Suc (length ?t)) d) 0 (length ?t - 1) =
      Some (?t @ 0 # drop (Suc (length ?t)) d)"
    using xs_itoa_rev_spec [of "rev ?t" "[]" "0 # drop (Suc (length ?t)) d"] ne by simp
  have "maxlength \<ge> 2" using assms(5) ne by (cases ?t) auto
  then show ?thesis using assms(1-4) dg w rv
    by (simp add: xs_itoa_def size64_id)
qed

lemma xs_itoa_neg:
  assumes "val < 0" "- (2 ^ 63) \<le> val" "2 \<le> r" "r \<le> 36"
    and "int (length (num_text r (- val))) + 1 < maxlength" and "maxlength \<le> int (length d)"
  shows "xs_itoa val (Some d) maxlength r =
         Some (Some (45 # num_text r (- val) @ 0 # drop (length (num_text r (- val)) + 2) d),
               length (num_text r (- val)) + 1)"
proof -
  let ?t = "num_text r (- val)"
  have ne: "?t \<noteq> []" by (rule num_text_nonempty)
  obtain c d' where d: "d = c # d'" using assms(5,6) by (cases d) auto
  have u: "(- val) mod 2 ^ 64 = - val" using assms by simp
  have dg: "xs_itoa_digits (45 # d') 1 (1 + (maxlength - 1) - 1) (- val) r =
      Some (45 # rev ?t @ drop (length ?t) d', Suc (length ?t))"
    using assms d by (subst xs_itoa_digits_spec) auto
  have lt: "length ?t < length d'" using assms d by simp
  have w: "wr (45 # rev ?t @ drop (length ?t) d') (Suc (length ?t)) 0 =
      Some (45 # rev ?t @ 0 # drop (Suc (length ?t)) d')"
    using lt by (simp add: mem_simps list_update_append Cons_nth_drop_Suc [symmetric])
  have rv: "xs_itoa_rev (45 # rev ?t @ 0 # drop (Suc (length ?t)) d') 1 (length ?t) =
      Some (45 # ?t @ 0 # drop (Suc (length ?t)) d')"
    using xs_itoa_rev_spec [of "rev ?t" "[45]" "0 # drop (Suc (length ?t)) d'"] ne by simp
  have "wr d 0 45 = Some (45 # d')" using d by (simp add: mem_simps)
  then show ?thesis using assms(1-4) dg w rv assms(5) d u
    by (simp add: xs_itoa_def size64_id)
qed

subsection \<open>Lemmas: the generator\<close>

definition xs_ranprev :: "xs_ranctx \<Rightarrow> xs_ranctx" where
  "xs_ranprev y =
     (let e = rd4 y - ra y; d = rc y - e; c = rb y - d; b = ra y XOR xs_rot32 c 17
      in \<lparr>ra = e + xs_rot32 b 27, rb = b, rc = c, rd4 = d\<rparr>)"

lemma xor_cancel_right: "(x XOR y) XOR y = (x :: 'a::len word)"
  by (auto simp: bit_eq_iff bit_simps)

lemma xs_ranprev_ranval: "xs_ranprev (snd (xs_ranval x)) = x"
  by (simp add: xs_ranprev_def xs_ranval_def Let_def xor_cancel_right)

lemma xs_ranval_ranprev: "snd (xs_ranval (xs_ranprev y)) = y"
  by (simp add: xs_ranprev_def xs_ranval_def Let_def xor_cancel_right algebra_simps)

lemma xs_ranval_bij: "bij (\<lambda>x. snd (xs_ranval x))"
  by (rule o_bij [of xs_ranprev]) (simp_all add: fun_eq_iff xs_ranprev_ranval xs_ranval_ranprev)

subsection \<open>Properties\<close>

text \<open>Bounded copy. For a size \<open>n \<ge> 1\<close> and a destination that holds the copied prefix and its
  terminator, \<open>xs_strlcpy\<close> never leaves the buffer, stores the first \<open>n - 1\<close> bytes of the source
  (all of it when it is shorter), terminates it, and keeps every later byte.\<close>

theorem xs_strlcpy_bounded_copy:
  assumes "1 \<le> n" and "min (length s + 1) n \<le> length d"
  shows "\<exists>d'. xs_strlcpy d (Some s) n = Some d' \<and> length d' = length d \<and>
           take (Suc (length (take (n - 1) s))) d' = take (n - 1) s @ [0] \<and>
           drop (Suc (length (take (n - 1) s))) d' = drop (Suc (length (take (n - 1) s))) d"
  using assms xs_strlcpy_spec [OF assms] by (auto simp: min_def split: if_splits)

theorem xs_strlcpy_bounded_copy_witness:
  "\<exists>d'. xs_strlcpy [9, 9, 9, 7] (Some (bytes ''abcd'')) 3 = Some d' \<and> length d' = 4 \<and>
        take 3 d' = [0x61, 0x62, 0] \<and> drop 3 d' = [7]"
  using xs_strlcpy_bounded_copy [of 3 "bytes ''abcd''" "[9, 9, 9, 7]"]
  by (simp add: numeral_eq_Suc)

text \<open>Bounded append. On a buffer that holds the string \<open>z\<close>, \<open>xs_strlcat\<close> with a size \<open>n\<close> larger
  than \<open>length z + 1\<close> appends the longest prefix of \<open>s\<close> for which the whole text and its terminator
  fit in \<open>n\<close> bytes, and touches nothing else of the buffer.\<close>

theorem xs_strlcat_bounded_append:
  assumes "is_cstr z" and "n > length z + 1"
    and "min (length s) (n - length z - 1) \<le> length r"
  shows "xs_strlcat_at (p @ z @ 0 # r) (length p) s n =
           Some (p @ z @ take (n - length z - 1) s @ 0 # drop (min (length s) (n - length z - 1)) r)"
  by (rule xs_strlcat_at_spec [OF assms])

theorem xs_strlcat_bounded_append_witness:
  "xs_strlcat_at ([5] @ [0x61] @ 0 # [1, 2, 3]) (length [5 :: byte]) [0x62, 0x63, 0x64] 4 =
     Some [5, 0x61, 0x62, 0x63, 0, 3]"
  using xs_strlcat_bounded_append [of "[0x61]" 4 "[0x62, 0x63, 0x64]" "[1, 2, 3]" "[5]"]
  by simp

text \<open>Case-insensitive search. For C strings, with a non-empty needle, \<open>xs_strstr_case\<close> gives the
  first offset at which the needle occurs up to ASCII case, and NULL exactly when there is none.\<close>

theorem xs_strstr_case_first:
  assumes "is_cstr b" "is_cstr s" "s \<noteq> []"
  shows "xs_strstr_case b s =
           (if \<exists>i. case_match b s i then Some (LEAST i. case_match b s i) else None)"
proof (cases "\<exists>i. case_match b s i")
  case True
  then have m: "case_match b s (LEAST i. case_match b s i)" by (rule LeastI_ex)
  then have "(LEAST i. case_match b s i) < Suc (length b) - length s"
    by (auto simp: case_match_def)
  then have "xs_strstr_case b s = Some (LEAST i. case_match b s i)"
    using m not_less_Least unfolding xs_strstr_case_find [OF assms] find_upt_Some_iff by blast
  with True show ?thesis by simp
next
  case False
  then show ?thesis by (simp add: xs_strstr_case_find [OF assms] find_None_iff)
qed

theorem xs_strstr_case_first_witness:
  "xs_strstr_case (bytes ''Keep-ALIVE'') (bytes ''alive'') =
     (if \<exists>i. case_match (bytes ''Keep-ALIVE'') (bytes ''alive'') i
      then Some (LEAST i. case_match (bytes ''Keep-ALIVE'') (bytes ''alive'') i) else None)"
  by (rule xs_strstr_case_first) (simp_all add: bytes_def)

text \<open>Case-insensitive comparison. On C strings \<open>xs_strncmp_case\<close> gives 0 exactly when the first
  \<open>n\<close> characters are equal after mapping A-Z to a-z.\<close>

theorem xs_strncmp_case_equal:
  assumes "is_cstr a" and "is_cstr b"
  shows "xs_strncmp_case (Some a) (Some b) n = 0 \<longleftrightarrow>
           map (\<lambda>c. if 65 \<le> schar c \<and> schar c \<le> 90 then schar c + 32 else schar c) (take n a) =
           map (\<lambda>c. if 65 \<le> schar c \<and> schar c \<le> 90 then schar c + 32 else schar c) (take n b)"
  unfolding xs_strncmp_case_zero [OF assms] xs_lower_byte ..

theorem xs_strncmp_case_equal_witness:
  "xs_strncmp_case (Some (bytes ''GET'')) (Some (bytes ''get '')) 3 = 0"
  unfolding xs_strncmp_case_equal [of "bytes ''GET''" "bytes ''get ''" 3, simplified bytes_def, simplified]
  by (simp add: bytes_def xs_strncmp_case_equal)

text \<open>Integer formatting. For a base from 2 to 36 and a buffer of \<open>maxlength\<close> bytes that is long
  enough for the sign, the digits and the terminator, \<open>xs_itoa\<close> stays inside the buffer, writes the
  sign and the positional digits of the value most significant first, terminates them, and returns
  the position of the terminator.\<close>

theorem xs_itoa_prints:
  assumes "- (2 ^ 63) \<le> val" "val < 2 ^ 63" "2 \<le> r" "r \<le> 36"
    and "txt = (if val < 0 then [45] else []) @ num_text r \<bar>val\<bar>"
    and "int (length txt) < maxlength" and "maxlength \<le> int (length d)"
  shows "xs_itoa val (Some d) maxlength r =
           Some (Some (txt @ 0 # drop (Suc (length txt)) d), length txt)"
  using assms xs_itoa_neg [of val r maxlength d] xs_itoa_nonneg [of val r maxlength d]
  by (cases "val < 0") simp_all

theorem xs_itoa_prints_witness:
  "xs_itoa (- 42) (Some (replicate 6 1)) 6 10 = Some (Some [45, 0x34, 0x32, 0, 1, 1], 3)"
proof -
  have t: "num_text 10 42 = [0x34, 0x32]"
    by (simp add: num_text.simps xs_digit_def)
  show ?thesis
    using xs_itoa_prints [of "- 42" 10 "[45, 0x34, 0x32]" 6 "replicate 6 1"] t
    by (simp add: numeral_eq_Suc)
qed

text \<open>The random generator never merges two states: one step of \<open>xs_ranval\<close> is a bijection of
  the 128-bit state, undone by \<open>xs_ranprev\<close>, and the value returned is the new \<open>d\<close>.\<close>

theorem xs_ranval_permutes:
  "bij (\<lambda>x. snd (xs_ranval x)) \<and> xs_ranprev (snd (xs_ranval x)) = x \<and>
   fst (xs_ranval x) = rd4 (snd (xs_ranval x))"
  by (simp add: xs_ranval_bij xs_ranprev_ranval) (simp add: xs_ranval_def Let_def)

end
