(* ===== verification/Arrays.thy ===== *)
theory Arrays
  imports Prelude "HOL-Library.Multiset"
begin

text \<open>
  The growable arrays and the block operations of \<open>xs/xs_arr.h\<close>. Elements are values of a type \<open>'a\<close>
  with an all-zero value \<open>z\<close>; sizes and positions count elements. Memory is the list of the allocated
  slots, every access is bounds-checked, and \<open>None\<close> is an access outside it (or through NULL).
  \<open>room\<close> says which allocation sizes the C library grants.
\<close>

subsection \<open>Block moves\<close>

definition xs_ptr_insert :: "'a list \<Rightarrow> int \<Rightarrow> 'a list option \<Rightarrow> int \<Rightarrow> int \<Rightarrow> ('a list \<times> int) option" where
  "xs_ptr_insert dst cnt src index insCount =
     (if uint32 index > uint32 cnt then Some (dst, 1)
      else do {
        tail \<leftarrow> rds dst (nat index) (nat (cnt - index));
        d1 \<leftarrow> blit dst (nat (index + insCount)) tail;
        d2 \<leftarrow> (case src of None \<Rightarrow> Some d1 | Some s \<Rightarrow> blit d1 (nat index) (take (nat insCount) s));
        Some (d2, 0) })"

definition xs_ptr_remove :: "'a list \<Rightarrow> int \<Rightarrow> int \<Rightarrow> int \<Rightarrow> ('a list \<times> int) option" where
  "xs_ptr_remove dst cnt index delCount =
     (if uint32 index \<ge> uint32 cnt then Some (dst, 1)
      else let del = (if uint32 (index + delCount) > uint32 cnt then cnt - index else delCount)
        in do {
          tail \<leftarrow> rds dst (nat (index + del)) (nat (cnt - (index + del)));
          d1 \<leftarrow> blit dst (nat index) tail;
          Some (d1, 0) })"

subsection \<open>The array\<close>

record 'a xs_arr =
  aData :: "'a list option"
  aCount :: int
  aSpace :: int

definition xs_arr_create :: "'a xs_arr" where
  "xs_arr_create = \<lparr>aData = None, aCount = 0, aSpace = 0\<rparr>"

definition xs_arr_destroy :: "'a xs_arr \<Rightarrow> 'a xs_arr" where
  "xs_arr_destroy ar = xs_arr_create"

definition xs_recalloc ::
  "(nat \<Rightarrow> bool) \<Rightarrow> 'a \<Rightarrow> 'a list option \<Rightarrow> int \<Rightarrow> int \<Rightarrow> 'a list option option" where
  \<comment> \<open>the new block or NULL; a refused \<open>realloc\<close> is followed by a write through NULL\<close>
  "xs_recalloc room z p oc r =
     (case p of
        None \<Rightarrow> Some (if room (nat r) then Some (replicate (nat r) z) else None)
      | Some b \<Rightarrow>
          if r > oc
          then (if room (nat r)
                then Some (Some (take (nat oc) b @ replicate (nat (r - oc)) z)) else None)
          else Some (Some b))"

definition xs_arr_makespace ::
  "(nat \<Rightarrow> bool) \<Rightarrow> 'a \<Rightarrow> 'a xs_arr \<Rightarrow> int \<Rightarrow> ('a xs_arr \<times> bool) option" where
  "xs_arr_makespace room z ar space =
     (let ns = (if space \<ge> aSpace ar then (if aSpace ar * 2 > space then aSpace ar * 2 else space)
                else aSpace ar)
      in do {
        p \<leftarrow> (if space \<ge> aSpace ar then xs_recalloc room z (aData ar) (aSpace ar) ns else Some (aData ar));
        Some (case p of None \<Rightarrow> (ar, True) | Some b \<Rightarrow> (ar\<lparr>aData := Some b, aSpace := ns\<rparr>, False)) })"

definition xs_arr_remove :: "'a xs_arr \<Rightarrow> int \<Rightarrow> int \<Rightarrow> 'a xs_arr option" where
  "xs_arr_remove ar before n =
     (if n < aCount ar
      then do {
        d \<leftarrow> aData ar;
        (d', r) \<leftarrow> xs_ptr_remove d (aCount ar) before n;
        Some (ar\<lparr>aData := Some d', aCount := aCount ar - n\<rparr>) }
      else Some (ar\<lparr>aCount := aCount ar - n\<rparr>))"

definition arr_grow :: "(nat \<Rightarrow> bool) \<Rightarrow> 'a \<Rightarrow> 'a xs_arr \<Rightarrow> int \<Rightarrow> ('a xs_arr \<times> bool) option" where
  \<comment> \<open>the conditional growth that insert and add start with\<close>
  "arr_grow room z ar n =
     (if aCount ar + n > aSpace ar then xs_arr_makespace room z ar (aCount ar + n) else Some (ar, False))"

definition xs_arr_insert ::
  "(nat \<Rightarrow> bool) \<Rightarrow> 'a \<Rightarrow> 'a xs_arr \<Rightarrow> int \<Rightarrow> 'a list option \<Rightarrow> int \<Rightarrow> ('a xs_arr \<times> bool) option" where
  "xs_arr_insert room z ar before data n = do {
     (ar1, err) \<leftarrow> arr_grow room z ar n;
     if err then Some (ar1, True)
     else do {
       d \<leftarrow> aData ar1;
       (d', r) \<leftarrow> xs_ptr_insert d (aCount ar1) data before n;
       Some (ar1\<lparr>aData := Some d', aCount := aCount ar1 + n\<rparr>, False) } }"

definition xs_arr_add ::
  "(nat \<Rightarrow> bool) \<Rightarrow> 'a \<Rightarrow> 'a xs_arr \<Rightarrow> 'a list option \<Rightarrow> int \<Rightarrow> ('a xs_arr \<times> int option) option" where
  \<comment> \<open>the position of the first added element, or NULL\<close>
  "xs_arr_add room z ar data n = do {
     (ar1, err) \<leftarrow> arr_grow room z ar n;
     if err then Some (ar1, None)
     else do {
       ar2 \<leftarrow> (case data of
          None \<Rightarrow> Some ar1
        | Some s \<Rightarrow> do {
            d \<leftarrow> aData ar1;
            d' \<leftarrow> blit d (nat (aCount ar1)) (take (nat n) s);
            Some (ar1\<lparr>aData := Some d'\<rparr>) });
       Some (ar2\<lparr>aCount := aCount ar2 + n\<rparr>, Some (aCount ar1)) } }"

definition xs_arr_push :: "(nat \<Rightarrow> bool) \<Rightarrow> 'a \<Rightarrow> 'a xs_arr \<Rightarrow> 'a \<Rightarrow> 'a xs_arr option" where
  "xs_arr_push room z ar v = do {
     (ar1, err) \<leftarrow> (if aSpace ar \<le> aCount ar + 1 then xs_arr_makespace room z ar (aCount ar + 1)
                     else Some (ar, False));
     d \<leftarrow> aData ar1;
     d' \<leftarrow> wr d (nat (aCount ar1)) v;
     Some (ar1\<lparr>aData := Some d', aCount := aCount ar1 + 1\<rparr>) }"

definition xs_arr_pop :: "'a xs_arr \<Rightarrow> ('a xs_arr \<times> 'a option) option" where
  "xs_arr_pop ar =
     (if aCount ar \<noteq> 0
      then do { d \<leftarrow> aData ar; v \<leftarrow> rd d (nat (aCount ar - 1));
                Some (ar\<lparr>aCount := aCount ar - 1\<rparr>, Some v) }
      else Some (ar, None))"

definition xs_arr_replace :: "'a xs_arr \<Rightarrow> 'a list option \<Rightarrow> int \<Rightarrow> int \<Rightarrow> 'a xs_arr" where
  "xs_arr_replace ar data c s = \<lparr>aData = data, aCount = c, aSpace = s\<rparr>"

subsection \<open>Binary search\<close>

primrec binsearch_scan :: "('k \<Rightarrow> 'a \<Rightarrow> int) \<Rightarrow> 'a list \<Rightarrow> 'k \<Rightarrow> nat \<Rightarrow> nat \<Rightarrow> nat \<Rightarrow> int option" where
  \<comment> \<open>the scan of the last few elements; \<open>c\<close> counts the elements from \<open>j\<close> to \<open>n\<close>\<close>
  "binsearch_scan cmp base key 0 j n = Some (- (int n + 1))"
| "binsearch_scan cmp base key (Suc c) j n = do {
     guess \<leftarrow> rd base j;
     let k = cmp key guess;
     if k = 0 then Some (int j) else if k < 0 then Some (- (int j + 1))
     else binsearch_scan cmp base key c (Suc j) n }"

primrec binsearch_loop :: "nat \<Rightarrow> ('k \<Rightarrow> 'a \<Rightarrow> int) \<Rightarrow> 'a list \<Rightarrow> 'k \<Rightarrow> nat \<Rightarrow> nat \<Rightarrow> int option" where
  "binsearch_loop 0 cmp base key i n = None"
| "binsearch_loop (Suc fuel) cmp base key i n =
     (if i < n
      then if n - i < 8 then binsearch_scan cmp base key (n - i) i n
           else do {
             let j = nat (int32 (uint32 (int i - int n + 1) div 2) + int i);
             guess \<leftarrow> rd base j;
             let k = cmp key guess;
             if k = 0 then Some (int j)
             else if k < 0 then binsearch_loop fuel cmp base key i j
             else binsearch_loop fuel cmp base key (j + 1) n }
      else Some (- (int n + 1)))"

definition xs_ptr_binsearch :: "nat \<Rightarrow> ('k \<Rightarrow> 'a \<Rightarrow> int) \<Rightarrow> 'a list \<Rightarrow> nat \<Rightarrow> 'k \<Rightarrow> int option" where
  "xs_ptr_binsearch fuel cmp base cnt key =
     (if cnt = 0 then Some (- 1)
      else do {
        first \<leftarrow> rd base 0;
        let k = cmp key first;
        if k \<le> 0 then Some (if k = 0 then 0 else - 1)
        else do {
          last \<leftarrow> rd base (cnt - 1);
          let k = cmp key last;
          if k \<ge> 0 then Some (if k = 0 then int cnt - 1 else - (int cnt + 1))
          else binsearch_loop fuel cmp base key 0 cnt } })"

subsection \<open>Sorting\<close>

definition qcomp :: "('a \<Rightarrow> 'a \<Rightarrow> int) \<Rightarrow> 'a list \<Rightarrow> nat \<Rightarrow> nat \<Rightarrow> int option" where
  "qcomp proc base a b = do { y \<leftarrow> rd base b; x \<leftarrow> rd base a; Some (proc y x) }"

definition qswap :: "'a list \<Rightarrow> nat \<Rightarrow> nat \<Rightarrow> 'a list option" where
  "qswap base a b = do {
     temp \<leftarrow> rd base a; y \<leftarrow> rd base b; b1 \<leftarrow> wr base a y; wr b1 b temp }"

fun qsort_sink :: "('a \<Rightarrow> 'a \<Rightarrow> int) \<Rightarrow> 'a list \<Rightarrow> nat \<Rightarrow> nat \<Rightarrow> 'a list option" where
  "qsort_sink proc base start j = do {
     c \<leftarrow> qcomp proc base j (j + 1);
     if c < 0
     then do { b1 \<leftarrow> qswap base j (j + 1);
               if j = start then Some b1
               else (case j of 0 \<Rightarrow> None | Suc j' \<Rightarrow> qsort_sink proc b1 start j') }
     else Some base }"

primrec qsort_bubble :: "('a \<Rightarrow> 'a \<Rightarrow> int) \<Rightarrow> 'a list \<Rightarrow> nat \<Rightarrow> nat \<Rightarrow> nat \<Rightarrow> 'a list option" where
  \<comment> \<open>\<open>c\<close> is \<open>limit - i\<close> and \<open>j = i - 1\<close>\<close>
  "qsort_bubble proc base start 0 j = Some base"
| "qsort_bubble proc base start (Suc c) j =
     do { b1 \<leftarrow> qsort_sink proc base start j; qsort_bubble proc b1 start c (j + 1) }"

function qsort_up :: "('a \<Rightarrow> 'a \<Rightarrow> int) \<Rightarrow> 'a list \<Rightarrow> nat \<Rightarrow> nat \<Rightarrow> nat \<Rightarrow> nat option" where
  \<comment> \<open>\<open>do i++ while (i < limit && ...)\<close>, with \<open>i\<close> cut to \<open>limit\<close>\<close>
  "qsort_up proc base start limit i =
     (if i + 1 < limit
      then do { c \<leftarrow> qcomp proc base (i + 1) start;
                if c > 0 then qsort_up proc base start limit (i + 1) else Some (i + 1) }
      else Some limit)"
  by pat_completeness auto
termination by (relation "measure (\<lambda>(p, b, s, l, i). l - i)") auto

fun qsort_down :: "('a \<Rightarrow> 'a \<Rightarrow> int) \<Rightarrow> 'a list \<Rightarrow> nat \<Rightarrow> nat \<Rightarrow> nat option" where
  \<comment> \<open>\<open>do j-- while (j >= start && ...)\<close>, with \<open>j\<close> raised to \<open>start\<close>\<close>
  "qsort_down proc base start 0 = Some start"
| "qsort_down proc base start (Suc j) =
     (if j \<ge> start
      then do { c \<leftarrow> qcomp proc base j start;
                if c < 0 then qsort_down proc base start j else Some j }
      else Some start)"

primrec qsort_part ::
  "nat \<Rightarrow> ('a \<Rightarrow> 'a \<Rightarrow> int) \<Rightarrow> 'a list \<Rightarrow> nat \<Rightarrow> nat \<Rightarrow> nat \<Rightarrow> nat \<Rightarrow> ('a list \<times> nat \<times> nat) option" where
  "qsort_part 0 proc base start limit i j = None"
| "qsort_part (Suc fuel) proc base start limit i j = do {
     i' \<leftarrow> qsort_up proc base start limit i;
     j' \<leftarrow> qsort_down proc base start j;
     if i' > j' then Some (base, i', j')
     else do { b1 \<leftarrow> qswap base i' j'; qsort_part fuel proc b1 start limit i' j' } }"

definition qsort_order :: "('a \<Rightarrow> 'a \<Rightarrow> int) \<Rightarrow> 'a list \<Rightarrow> nat \<Rightarrow> nat \<Rightarrow> 'a list option" where
  \<comment> \<open>\<open>if (comp (a, b) < 0) swap (a, b)\<close>\<close>
  "qsort_order proc base a b =
     do { c \<leftarrow> qcomp proc base a b; if c < 0 then qswap base a b else Some base }"

definition qsort_split :: "('a \<Rightarrow> 'a \<Rightarrow> int) \<Rightarrow> 'a list \<Rightarrow> nat \<Rightarrow> nat \<Rightarrow> ('a list \<times> nat \<times> nat) option" where
  \<comment> \<open>pivot to the start, partition, pivot to its place\<close>
  "qsort_split proc base start limit = do {
     let mid = (limit - start) div 2 + start;
     b0 \<leftarrow> qswap base mid start;
     let i = start + 1; let j = limit - 1;
     b1 \<leftarrow> qsort_order proc b0 i j;
     b2 \<leftarrow> qsort_order proc b1 start j;
     b3 \<leftarrow> qsort_order proc b2 i start;
     (b4, i', j') \<leftarrow> qsort_part limit proc b3 start limit i j;
     b5 \<leftarrow> qswap b4 start j';
     Some (b5, i', j') }"

primrec qsort_loop ::
  "nat \<Rightarrow> ('a \<Rightarrow> 'a \<Rightarrow> int) \<Rightarrow> 'a list \<Rightarrow> (nat \<times> nat) list \<Rightarrow> nat \<Rightarrow> nat \<Rightarrow> ('a list \<times> int) option" where
  \<comment> \<open>the stack holds pairs, so \<open>si\<close> is twice its length\<close>
  "qsort_loop 0 proc base stack start limit = None"
| "qsort_loop (Suc fuel) proc base stack start limit =
     (if limit - start < 8
      then do {
        b1 \<leftarrow> qsort_bubble proc base start (limit - (start + 1)) start;
        (case stack of
           [] \<Rightarrow> Some (b1, 0)
         | (s, l) # rest \<Rightarrow> qsort_loop fuel proc b1 rest s l) }
      else do {
        (b1, i, j) \<leftarrow> qsort_split proc base start limit;
        let (stack', start', limit') =
          (if j - start > limit - i then ((start, j) # stack, i, limit) else ((i, limit) # stack, start, j));
        if 2 * length stack' \<ge> 64 then Some (b1, - 1)
        else qsort_loop fuel proc b1 stack' start' limit' })"

definition xs_ptr_qsort :: "('a \<Rightarrow> 'a \<Rightarrow> int) \<Rightarrow> 'a list \<Rightarrow> nat \<Rightarrow> ('a list \<times> int) option" where
  "xs_ptr_qsort proc base cnt = qsort_loop (2 * cnt + 1) proc base [] 0 cnt"

subsection \<open>Lemmas: permuting a segment\<close>

definition seg_perm :: "nat \<Rightarrow> nat \<Rightarrow> 'a list \<Rightarrow> 'a list \<Rightarrow> bool" where
  "seg_perm s l xs ys \<longleftrightarrow> mset ys = mset xs \<and> length ys = length xs \<and>
     (\<forall>k<length xs. k < s \<or> l \<le> k \<longrightarrow> ys ! k = xs ! k) \<and>
     (\<forall>k. s \<le> k \<longrightarrow> k < l \<longrightarrow> (\<exists>k'. s \<le> k' \<and> k' < l \<and> ys ! k = xs ! k'))"

lemma seg_perm_refl [simp]: "seg_perm s l xs xs"
  by (auto simp: seg_perm_def)

lemma seg_perm_trans:
  assumes "seg_perm s l xs ys" "seg_perm s l ys zs"
  shows "seg_perm s l xs zs"
  using assms unfolding seg_perm_def by metis

lemma seg_perm_length: "seg_perm s l xs ys \<Longrightarrow> length ys = length xs"
  by (simp add: seg_perm_def)

lemma seg_perm_mono:
  assumes p: "seg_perm s l xs ys" and "s' \<le> s" "l \<le> l'" "l' \<le> length xs"
  shows "seg_perm s' l' xs ys"
proof -
  have "\<exists>k'. s' \<le> k' \<and> k' < l' \<and> ys ! k = xs ! k'" if "s' \<le> k" "k < l'" for k
  proof (cases "s \<le> k \<and> k < l")
    case True
    then obtain k' where "s \<le> k'" "k' < l" "ys ! k = xs ! k'" using p unfolding seg_perm_def by blast
    then show ?thesis using assms by (intro exI [of _ k']) auto
  next
    case False
    then have "ys ! k = xs ! k" using p that assms unfolding seg_perm_def by auto
    then show ?thesis using that by blast
  qed
  then show ?thesis using p assms unfolding seg_perm_def by auto
qed

lemma qswap_Some:
  assumes "a < length xs" "b < length xs"
  shows "qswap xs a b = Some (xs[a := xs ! b, b := xs ! a])"
  using assms by (simp add: qswap_def mem_simps)

lemma qcomp_Some:
  "a < length xs \<Longrightarrow> b < length xs \<Longrightarrow> qcomp proc xs a b = Some (proc (xs ! b) (xs ! a))"
  by (simp add: qcomp_def mem_simps)

lemma swap_nth:
  assumes "a < length xs" "b < length xs"
  shows "xs[a := xs ! b, b := xs ! a] ! k = (if k = a then xs ! b else if k = b then xs ! a else xs ! k)"
  using assms by (cases "a = b") (auto simp: nth_list_update)

lemma swap_perm:
  assumes "s \<le> a" "a < l" "s \<le> b" "b < l" "l \<le> length xs"
  shows "seg_perm s l xs (xs[a := xs ! b, b := xs ! a])"
proof -
  have ab: "a < length xs" "b < length xs" using assms by auto
  have "mset (xs[a := xs ! b, b := xs ! a]) = mset xs"
    by (rule mset_swap [OF ab(2,1)])
  moreover have "\<exists>k'. s \<le> k' \<and> k' < l \<and> xs[a := xs ! b, b := xs ! a] ! k = xs ! k'" if "s \<le> k" "k < l" for k
    unfolding swap_nth [OF ab] using that assms by auto
  ultimately show ?thesis
    using assms unfolding seg_perm_def swap_nth [OF ab] by auto
qed

text \<open>A comparison procedure that orders: the sign is antisymmetric and \<open>\<le>\<close> is transitive.\<close>

definition cmp_order :: "('a \<Rightarrow> 'a \<Rightarrow> int) \<Rightarrow> bool" where
  "cmp_order proc \<longleftrightarrow> (\<forall>x y. (proc x y < 0) = (proc y x > 0)) \<and>
     (\<forall>x y z. proc x y \<le> 0 \<longrightarrow> proc y z \<le> 0 \<longrightarrow> proc x z \<le> 0)"

abbreviation cle :: "('a \<Rightarrow> 'a \<Rightarrow> int) \<Rightarrow> 'a \<Rightarrow> 'a \<Rightarrow> bool" where
  "cle proc x y \<equiv> proc x y \<le> 0"

definition sorted_seg :: "('a \<Rightarrow> 'a \<Rightarrow> int) \<Rightarrow> 'a list \<Rightarrow> nat \<Rightarrow> nat \<Rightarrow> bool" where
  "sorted_seg proc xs s l \<longleftrightarrow> (\<forall>a b. s \<le> a \<longrightarrow> a < b \<longrightarrow> b < l \<longrightarrow> cle proc (xs ! a) (xs ! b))"

lemma cmp_trans: "cmp_order proc \<Longrightarrow> cle proc x y \<Longrightarrow> cle proc y z \<Longrightarrow> cle proc x z"
  unfolding cmp_order_def by blast

lemma cmp_less: "cmp_order proc \<Longrightarrow> proc x y < 0 \<Longrightarrow> cle proc x y"
  by simp

lemma cmp_not_less: "cmp_order proc \<Longrightarrow> \<not> proc x y < 0 \<Longrightarrow> cle proc y x"
  unfolding cmp_order_def by (meson not_less)

lemma cmp_pos: "cmp_order proc \<Longrightarrow> proc x y > 0 \<Longrightarrow> cle proc y x"
  using cmp_not_less by fastforce

lemma cmp_refl: "cmp_order proc \<Longrightarrow> proc x x = 0"
  unfolding cmp_order_def by (metis less_irrefl linorder_neqE not_less_iff_gr_or_eq order_less_trans)

subsection \<open>Lemmas: the insertion sort of short segments\<close>

text \<open>All pairs up to \<open>tp\<close> are in order, except those that end with the moving element at \<open>m\<close>.\<close>

definition sinking :: "('a \<Rightarrow> 'a \<Rightarrow> int) \<Rightarrow> 'a list \<Rightarrow> nat \<Rightarrow> nat \<Rightarrow> nat \<Rightarrow> bool" where
  "sinking proc xs s m tp \<longleftrightarrow>
     (\<forall>a b. s \<le> a \<longrightarrow> a < b \<longrightarrow> b < tp \<longrightarrow> b \<noteq> m \<longrightarrow> cle proc (xs ! a) (xs ! b))"

lemma qsort_sink_spec:
  assumes "cmp_order proc" "sinking proc xs s (j + 1) tp" "s \<le> j" "j + 1 < tp" "tp \<le> length xs"
  shows "\<exists>ys. qsort_sink proc xs s j = Some ys \<and> seg_perm s tp xs ys \<and> sorted_seg proc ys s tp"
  using assms(2-)
proof (induction j arbitrary: xs rule: less_induct)
  case (less j)
  have in_range: "j < length xs" "j + 1 < length xs" using less.prems by auto
  note c = qcomp_Some [OF in_range, of proc]
  show ?case
  proof (cases "proc (xs ! (j + 1)) (xs ! j) < 0")
    case False
    then have le: "cle proc (xs ! j) (xs ! (j + 1))" using cmp_not_less [OF assms(1)] by blast
    have "cle proc (xs ! a) (xs ! b)" if "s \<le> a" "a < b" "b < tp" for a b
    proof (cases "b = j + 1")
      case True
      show ?thesis
      proof (cases "a = j")
        case False
        then have "cle proc (xs ! a) (xs ! j)"
          using less.prems that True unfolding sinking_def by auto
        with le True show ?thesis using cmp_trans [OF assms(1)] by blast
      qed (use le True in simp)
    qed (use less.prems that in \<open>auto simp: sinking_def\<close>)
    then show ?thesis using False c by (auto simp: sorted_seg_def)
  next
    case True
    let ?ys = "xs[j := xs ! (j + 1), j + 1 := xs ! j]"
    have sw: "qswap xs j (j + 1) = Some ?ys" using in_range by (rule qswap_Some)
    have nth: "?ys ! k = (if k = j then xs ! (j + 1) else if k = j + 1 then xs ! j else xs ! k)" for k
      using in_range by (rule swap_nth)
    note nth = nth [simplified]
    have perm: "seg_perm s tp xs ?ys" using less.prems by (intro swap_perm) auto
    have lt: "cle proc (xs ! (j + 1)) (xs ! j)" using True by simp
    have sink: "cle proc (?ys ! a) (?ys ! b)" if "s \<le> a" "a < b" "b < tp" "b \<noteq> j" for a b
    proof -
      have old: "cle proc (xs ! a') (xs ! b')" if "s \<le> a'" "a' < b'" "b' < tp" "b' \<noteq> j + 1" for a' b'
        using less.prems(1) that unfolding sinking_def by blast
      show ?thesis
      proof (cases "b = j + 1")
        case True
        then have b: "?ys ! b = xs ! j" by (simp add: nth)
        show ?thesis
        proof (cases "a = j")
          case True
          then show ?thesis using b lt by (simp add: nth)
        next
          case False
          then have "a < j" using \<open>a < b\<close> True by simp
          moreover from this have "?ys ! a = xs ! a" by (simp add: nth)
          ultimately show ?thesis using b old [of a j] that less.prems by simp
        qed
      next
        case False
        then have b: "?ys ! b = xs ! b" using that by (simp add: nth)
        show ?thesis
        proof (cases "a = j")
          case True
          then have "b > j + 1" using False that by simp
          then have "cle proc (xs ! j) (xs ! b)" using old [of j b] that less.prems by simp
          with lt have "cle proc (xs ! (j + 1)) (xs ! b)" using cmp_trans [OF assms(1)] by blast
          then show ?thesis using True b by (simp add: nth)
        next
          case na: False
          show ?thesis
          proof (cases "a = j + 1")
            case True
            then have "?ys ! a = xs ! j" by (simp add: nth)
            then show ?thesis using b old [of j b] that less.prems True False by simp
          next
            case False
            then have "?ys ! a = xs ! a" using na by (simp add: nth)
            then show ?thesis using b old [of a b] that \<open>b \<noteq> j + 1\<close> by simp
          qed
        qed
      qed
    qed
    show ?thesis
    proof (cases "j = s")
      case True
      have "sorted_seg proc ?ys s tp"
        using sink True unfolding sorted_seg_def by (metis le_neq_implies_less not_le)
      then show ?thesis using True c sw perm \<open>proc (xs ! (j + 1)) (xs ! j) < 0\<close> by simp
    next
      case False
      then obtain j' where j': "j = Suc j'" "s \<le> j'" using less.prems by (cases j) auto
      have "\<exists>zs. qsort_sink proc ?ys s j' = Some zs \<and> seg_perm s tp ?ys zs \<and> sorted_seg proc zs s tp"
      proof (rule less.IH)
        show "sinking proc ?ys s (j' + 1) tp"
          using sink j' unfolding sinking_def by simp
      qed (use j' less.prems in auto)
      then show ?thesis
        using False c sw perm j' \<open>proc (xs ! (j + 1)) (xs ! j) < 0\<close> seg_perm_trans
        by (auto intro: seg_perm_trans)
    qed
  qed
qed

lemma qsort_bubble_spec:
  assumes "cmp_order proc" "sorted_seg proc xs s (j + 1)" "s \<le> j" "j + 1 + c = l" "l \<le> length xs"
  shows "\<exists>ys. qsort_bubble proc xs s c j = Some ys \<and> seg_perm s l xs ys \<and> sorted_seg proc ys s l"
  using assms(2-)
proof (induction c arbitrary: xs j)
  case 0
  then show ?case by auto
next
  case (Suc c)
  have "sinking proc xs s (j + 1) (j + 2)"
    using Suc.prems(1) unfolding sinking_def sorted_seg_def by (metis Suc_eq_plus1 add_2_eq_Suc' less_antisym)
  then obtain ys where ys: "qsort_sink proc xs s j = Some ys" "seg_perm s (j + 2) xs ys"
    "sorted_seg proc ys s (j + 2)"
    using qsort_sink_spec [OF assms(1), of xs s j "j + 2"] Suc.prems by auto
  have len: "length ys = length xs" using ys(2) by (rule seg_perm_length)
  have p: "seg_perm s l xs ys"
    by (rule seg_perm_mono [OF ys(2)]) (use Suc.prems in auto)
  obtain zs where "qsort_bubble proc ys s c (j + 1) = Some zs" "seg_perm s l ys zs"
    "sorted_seg proc zs s l"
    using Suc.IH [of ys "j + 1"] ys(3) Suc.prems len by auto
  then show ?case using ys(1) p seg_perm_trans by auto
qed

subsection \<open>Lemmas: partitioning\<close>

declare qsort_up.simps [simp del] qsort_sink.simps [simp del]

lemma qsort_up_spec:
  assumes "start < length xs" "limit \<le> length xs" "i < limit"
  shows "\<exists>i'. qsort_up proc xs start limit i = Some i' \<and> i < i' \<and> i' \<le> limit \<and>
    (\<forall>a. i < a \<longrightarrow> a < i' \<longrightarrow> proc (xs ! start) (xs ! a) > 0) \<and>
    (i' < limit \<longrightarrow> \<not> proc (xs ! start) (xs ! i') > 0)"
  using assms
proof (induction proc xs start limit i rule: qsort_up.induct)
  case (1 proc xs start limit i)
  show ?case
  proof (cases "i + 1 < limit")
    case False
    then have "i + 1 = limit" using "1.prems" by simp
    with False show ?thesis by (subst qsort_up.simps) auto
  next
    case True
    then have c: "qcomp proc xs (i + 1) start = Some (proc (xs ! start) (xs ! (i + 1)))"
      using "1.prems" by (intro qcomp_Some) auto
    show ?thesis
    proof (cases "proc (xs ! start) (xs ! (i + 1)) > 0")
      case pos: True
      obtain i' where i': "qsort_up proc xs start limit (i + 1) = Some i'" "i + 1 < i'" "i' \<le> limit"
        "\<forall>a. i + 1 < a \<longrightarrow> a < i' \<longrightarrow> proc (xs ! start) (xs ! a) > 0"
        "i' < limit \<longrightarrow> \<not> proc (xs ! start) (xs ! i') > 0"
        using "1.IH" [OF True c pos] "1.prems" True by auto
      have "proc (xs ! start) (xs ! a) > 0" if "i < a" "a < i'" for a
        using i'(4) pos that by (cases "a = i + 1") auto
      then show ?thesis using True c pos i' by (subst qsort_up.simps) auto
    next
      case False
      have "\<forall>a. i < a \<longrightarrow> a < i + 1 \<longrightarrow> proc (xs ! start) (xs ! a) > 0" by auto
      with False True c show ?thesis by (subst qsort_up.simps) auto
    qed
  qed
qed

lemma qsort_down_spec:
  assumes "start < j" "j \<le> length xs"
  shows "\<exists>j'. qsort_down proc xs start j = Some j' \<and> start \<le> j' \<and> j' < j \<and>
    (\<forall>b. j' < b \<longrightarrow> b < j \<longrightarrow> proc (xs ! start) (xs ! b) < 0) \<and>
    (j' > start \<longrightarrow> \<not> proc (xs ! start) (xs ! j') < 0)"
  using assms
proof (induction j)
  case (Suc j)
  have c: "qcomp proc xs j start = Some (proc (xs ! start) (xs ! j))"
    using Suc.prems by (intro qcomp_Some) auto
  show ?case
  proof (cases "proc (xs ! start) (xs ! j) < 0")
    case False
    then show ?thesis using Suc.prems c by auto
  next
    case neg: True
    show ?thesis
    proof (cases "j = start")
      case True
      have "qsort_down proc xs start start = Some start" by (cases start) auto
      then show ?thesis using neg c True by auto
    next
      case False
      then obtain j' where "qsort_down proc xs start j = Some j'" "start \<le> j'" "j' < j"
        "\<forall>b. j' < b \<longrightarrow> b < j \<longrightarrow> proc (xs ! start) (xs ! b) < 0"
        "j' > start \<longrightarrow> \<not> proc (xs ! start) (xs ! j') < 0"
        using Suc by auto
      then show ?thesis using neg c False Suc.prems by (auto simp: less_Suc_eq)
    qed
  qed
qed simp

lemma qsort_part_spec:
  assumes ord: "cmp_order proc" and "j < fuel" "start < i" "i < limit" "start < j" "j < limit"
    "limit \<le> length xs" and p: "xs ! start = p"
    and "\<forall>a. start < a \<longrightarrow> a \<le> i \<longrightarrow> cle proc (xs ! a) p"
    and "\<forall>b. j \<le> b \<longrightarrow> b < limit \<longrightarrow> cle proc p (xs ! b)"
  shows "\<exists>ys i' j'. qsort_part fuel proc xs start limit i j = Some (ys, i', j') \<and>
    seg_perm start limit xs ys \<and> ys ! start = p \<and> start \<le> j' \<and> j' < i' \<and> i' \<le> limit \<and> j' < limit - 1 \<and>
    (\<forall>a. start < a \<longrightarrow> a < i' \<longrightarrow> cle proc (ys ! a) p) \<and>
    (\<forall>b. j' < b \<longrightarrow> b < limit \<longrightarrow> cle proc p (ys ! b)) \<and> start + 1 < i'"
  using assms(2-)
proof (induction fuel arbitrary: xs i j)
  case (Suc fuel)
  obtain i' where i': "qsort_up proc xs start limit i = Some i'" "i < i'" "i' \<le> limit"
    "\<forall>a. i < a \<longrightarrow> a < i' \<longrightarrow> proc p (xs ! a) > 0" "i' < limit \<longrightarrow> \<not> proc p (xs ! i') > 0"
    using qsort_up_spec [of start xs limit i proc] Suc.prems by auto
  obtain j' where j': "qsort_down proc xs start j = Some j'" "start \<le> j'" "j' < j"
    "\<forall>b. j' < b \<longrightarrow> b < j \<longrightarrow> proc p (xs ! b) < 0" "j' > start \<longrightarrow> \<not> proc p (xs ! j') < 0"
    using qsort_down_spec [of start j xs proc] Suc.prems by auto
  have lo: "cle proc (xs ! a) p" if "start < a" "a < i'" for a
    using Suc.prems i'(4) cmp_pos [OF ord] that by (cases "a \<le> i") auto
  have hi: "cle proc p (xs ! b)" if "j' < b" "b < limit" for b
    using Suc.prems j'(4) that by (cases "j \<le> b") auto
  show ?case
  proof (cases "i' > j'")
    case True
    then have "qsort_part (Suc fuel) proc xs start limit i j = Some (xs, i', j')"
      using i'(1) j'(1) by simp
    then show ?thesis using i' j' lo hi True Suc.prems by auto
  next
    case False
    let ?ys = "xs[i' := xs ! j', j' := xs ! i']"
    have r: "i' < length xs" "j' < length xs" "start < j'" "i' < limit"
      using False i' j' Suc.prems by auto
    have nth: "?ys ! k = (if k = i' then xs ! j' else if k = j' then xs ! i' else xs ! k)" for k
      using r(1,2) by (rule swap_nth)
    have pi: "cle proc p (xs ! i')" using i'(5) r by simp
    have pj: "cle proc (xs ! j') p" using j'(5) r cmp_not_less [OF ord] by simp
    have perm: "seg_perm start limit xs ?ys" using i' j' Suc.prems False r by (intro swap_perm) auto
    have "\<forall>a. start < a \<longrightarrow> a \<le> i' \<longrightarrow> cle proc (?ys ! a) p"
      using lo pj False by (auto simp: nth)
    moreover have "\<forall>b. j' \<le> b \<longrightarrow> b < limit \<longrightarrow> cle proc p (?ys ! b)"
      using hi pi pj False by (auto simp: nth)
    ultimately obtain zs i2 j2 where z: "qsort_part fuel proc ?ys start limit i' j' = Some (zs, i2, j2)"
      "seg_perm start limit ?ys zs" "zs ! start = p" "start \<le> j2" "j2 < i2" "i2 \<le> limit" "j2 < limit - 1"
      "\<forall>a. start < a \<longrightarrow> a < i2 \<longrightarrow> cle proc (zs ! a) p"
      "\<forall>b. j2 < b \<longrightarrow> b < limit \<longrightarrow> cle proc p (zs ! b)" "start + 1 < i2"
      using Suc.IH [of j' i' ?ys] Suc.prems i' j' r False by (auto simp: nth)
    have "qsort_part (Suc fuel) proc xs start limit i j = Some (zs, i2, j2)"
      using i'(1) j'(1) False z(1) qswap_Some [OF r(1,2)] by simp
    then show ?thesis using z seg_perm_trans [OF perm z(2)] by auto
  qed
qed simp

lemma qsort_order_spec:
  assumes ord: "cmp_order proc" and "a < length xs" "b < length xs" "a \<noteq> b"
    "s \<le> a" "a < l" "s \<le> b" "b < l" "l \<le> length xs"
  shows "\<exists>ys. qsort_order proc xs a b = Some ys \<and> seg_perm s l xs ys \<and> cle proc (ys ! a) (ys ! b) \<and>
    (\<forall>k. k \<noteq> a \<longrightarrow> k \<noteq> b \<longrightarrow> ys ! k = xs ! k) \<and>
    (ys ! a = xs ! a \<and> ys ! b = xs ! b \<or>
     ys ! a = xs ! b \<and> ys ! b = xs ! a \<and> cle proc (xs ! b) (xs ! a))"
proof (cases "proc (xs ! b) (xs ! a) < 0")
  case False
  then show ?thesis using cmp_not_less [OF ord] assms by (auto simp: qsort_order_def qcomp_Some)
next
  case True
  have p: "seg_perm s l xs (xs[a := xs ! b, b := xs ! a])" using assms by (intro swap_perm) auto
  have "qsort_order proc xs a b = Some (xs[a := xs ! b, b := xs ! a])"
    using True assms by (simp add: qsort_order_def qcomp_Some qswap_Some)
  then show ?thesis using True p assms(4) unfolding swap_nth [OF assms(2,3)]
    by (intro exI [of _ "xs[a := xs ! b, b := xs ! a]"]) (simp add: swap_nth [OF assms(2,3)])
qed

lemma qsort_split_spec:
  assumes ord: "cmp_order proc" and len: "start + 8 \<le> limit" "limit \<le> length xs"
  shows "\<exists>ys i j. qsort_split proc xs start limit = Some (ys, i, j) \<and> seg_perm start limit xs ys \<and>
    start \<le> j \<and> j < i \<and> i \<le> limit \<and>
    (\<forall>a. start \<le> a \<longrightarrow> a < i \<longrightarrow> cle proc (ys ! a) (ys ! j)) \<and>
    (\<forall>b. j \<le> b \<longrightarrow> b < limit \<longrightarrow> cle proc (ys ! j) (ys ! b))"
proof -
  let ?mid = "(limit - start) div 2 + start" and ?i = "start + 1" and ?j = "limit - 1"
  have mid: "start \<le> ?mid" "?mid < limit" using len by auto
  have ar: "start < limit" "?i < limit" "?j < limit" "?i < ?j" "start < ?j" "limit - 1 < length xs"
    "start \<le> ?j" "?i \<noteq> ?j" "start \<noteq> ?j"
    using len by linarith+
  define y0 where "y0 = xs[?mid := xs ! start, start := xs ! ?mid]"
  have b0: "qswap xs ?mid start = Some y0"
    unfolding y0_def using mid len by (intro qswap_Some) auto
  have p0: "seg_perm start limit xs y0"
    unfolding y0_def using mid len by (intro swap_perm) auto
  have l0: "length y0 = length xs" using p0 by (rule seg_perm_length)
  obtain y1 where y1: "qsort_order proc y0 ?i ?j = Some y1" "seg_perm start limit y0 y1"
    "cle proc (y1 ! ?i) (y1 ! ?j)"
    using qsort_order_spec [OF ord, of ?i y0 ?j start limit] len ar l0 by auto
  have l1: "length y1 = length xs" using l0 seg_perm_length [OF y1(2)] by simp
  obtain y2 where y2: "qsort_order proc y1 start ?j = Some y2" "seg_perm start limit y1 y2"
    "cle proc (y2 ! start) (y2 ! ?j)" "y2 ! ?i = y1 ! ?i"
    "y2 ! ?j = y1 ! ?j \<or> y2 ! ?j = y1 ! start \<and> cle proc (y1 ! ?j) (y1 ! start)"
    using qsort_order_spec [OF ord, of start y1 ?j start limit] len ar l1 by auto
  have l2: "length y2 = length xs" using l1 seg_perm_length [OF y2(2)] by simp
  have ij: "cle proc (y2 ! ?i) (y2 ! ?j)"
    using y1(3) y2(4,5) cmp_trans [OF ord] by metis
  obtain y3 where y3: "qsort_order proc y2 ?i start = Some y3" "seg_perm start limit y2 y3"
    "cle proc (y3 ! ?i) (y3 ! start)" "y3 ! ?j = y2 ! ?j"
    "y3 ! start = y2 ! start \<or> y3 ! start = y2 ! ?i"
    using qsort_order_spec [OF ord, of ?i y2 start start limit] len ar l2 by auto
  have l3: "length y3 = length xs" using l2 seg_perm_length [OF y3(2)] by simp
  let ?p = "y3 ! start"
  have lo: "\<forall>a. start < a \<longrightarrow> a \<le> ?i \<longrightarrow> cle proc (y3 ! a) ?p"
  proof (intro allI impI)
    fix a assume "start < a" "a \<le> ?i"
    then have "a = ?i" by simp
    then show "cle proc (y3 ! a) ?p" using y3(3) by simp
  qed
  have hi: "\<forall>b. ?j \<le> b \<longrightarrow> b < limit \<longrightarrow> cle proc ?p (y3 ! b)"
  proof (intro allI impI)
    fix b assume "?j \<le> b" "b < limit"
    then have "b = ?j" by simp
    then show "cle proc ?p (y3 ! b)" using y2(3) ij y3(4,5) by auto
  qed
  obtain y4 i' j' where y4: "qsort_part limit proc y3 start limit ?i ?j = Some (y4, i', j')"
    "seg_perm start limit y3 y4" "y4 ! start = ?p" "start \<le> j'" "j' < i'" "i' \<le> limit" "j' < limit - 1"
    "\<forall>a. start < a \<longrightarrow> a < i' \<longrightarrow> cle proc (y4 ! a) ?p"
    "\<forall>b. j' < b \<longrightarrow> b < limit \<longrightarrow> cle proc ?p (y4 ! b)"
    using qsort_part_spec [OF ord _ _ _ _ _ _ refl lo hi, of limit] len ar l3 by auto
  have l4: "length y4 = length xs" using l3 seg_perm_length [OF y4(2)] by simp
  define y5 where "y5 = y4[start := y4 ! j', j' := y4 ! start]"
  have r: "start < length y4" "j' < length y4" using y4 len l4 by auto
  have b5: "qswap y4 start j' = Some y5" unfolding y5_def using r by (rule qswap_Some)
  have nth: "y5 ! k = (if k = start then y4 ! j' else if k = j' then y4 ! start else y4 ! k)" for k
    unfolding y5_def using r by (rule swap_nth)
  have p5: "seg_perm start limit y4 y5"
    unfolding y5_def using y4 len l4 by (intro swap_perm) auto
  have pj: "y5 ! j' = ?p" using nth [of j'] y4(3) by simp
  have "seg_perm start limit xs y5"
    using p0 y1(2) y2(2) y3(2) y4(2) p5 seg_perm_trans by metis
  moreover have "cle proc (y5 ! a) (y5 ! j')" if "start \<le> a" "a < i'" for a
    unfolding pj using that y4 cmp_refl [OF ord, of ?p] by (auto simp: nth)
  moreover have "cle proc (y5 ! j') (y5 ! b)" if "j' \<le> b" "b < limit" for b
    unfolding pj using that y4 cmp_refl [OF ord, of ?p] by (auto simp: nth)
  moreover have "qsort_split proc xs start limit = Some (y5, i', j')"
    unfolding qsort_split_def Let_def using b0 y1(1) y2(1) y3(1) y4(1) b5 by simp
  ultimately show ?thesis using y4(4-6) by blast
qed

subsection \<open>Lemmas: the sorting loop\<close>

text \<open>The segments still to sort: inside the array, disjoint, and every pair of positions that is not
  inside one of them is in order.\<close>

definition qinv :: "('a \<Rightarrow> 'a \<Rightarrow> int) \<Rightarrow> nat \<Rightarrow> 'a list \<Rightarrow> (nat \<times> nat) list \<Rightarrow> bool" where
  "qinv proc n xs todo \<longleftrightarrow> n \<le> length xs \<and> (\<forall>(s, l)\<in>set todo. s \<le> l \<and> l \<le> n) \<and>
     sorted_wrt (\<lambda>p q. snd p \<le> fst q \<or> snd q \<le> fst p) todo \<and>
     (\<forall>a b. a < b \<longrightarrow> b < n \<longrightarrow>
        cle proc (xs ! a) (xs ! b) \<or> (\<exists>(s, l)\<in>set todo. s \<le> a \<and> b < l))"

lemma qinv_step:
  assumes inv: "qinv proc n xs ((s, l) # rest)" and perm: "seg_perm s l xs ys"
    and new: "\<forall>(s', l')\<in>set new. s \<le> s' \<and> s' \<le> l' \<and> l' \<le> l"
      "sorted_wrt (\<lambda>p q. snd p \<le> fst q \<or> snd q \<le> fst p) new"
    and ordered: "\<And>a b. s \<le> a \<Longrightarrow> a < b \<Longrightarrow> b < l \<Longrightarrow>
      cle proc (ys ! a) (ys ! b) \<or> (\<exists>(s', l')\<in>set new. s' \<le> a \<and> b < l')"
  shows "qinv proc n ys (new @ rest)"
proof -
  have n: "n \<le> length xs" and sl: "s \<le> l" "l \<le> n"
    and disj: "\<And>s' l'. (s', l') \<in> set rest \<Longrightarrow> l \<le> s' \<or> l' \<le> s"
    and old: "\<And>a b. a < b \<Longrightarrow> b < n \<Longrightarrow>
      cle proc (xs ! a) (xs ! b) \<or> s \<le> a \<and> b < l \<or> (\<exists>(s', l')\<in>set rest. s' \<le> a \<and> b < l')"
    using inv unfolding qinv_def by auto
  have out: "\<And>k. k < length xs \<Longrightarrow> k < s \<or> l \<le> k \<Longrightarrow> ys ! k = xs ! k"
    and inn: "\<And>k. s \<le> k \<Longrightarrow> k < l \<Longrightarrow> \<exists>k'. s \<le> k' \<and> k' < l \<and> ys ! k = xs ! k'"
    and len: "length ys = length xs"
    using perm unfolding seg_perm_def by auto
  have all: "cle proc (ys ! a) (ys ! b) \<or> (\<exists>(s', l')\<in>set (new @ rest). s' \<le> a \<and> b < l')"
    if ab: "a < b" "b < n" for a b
  proof -
    consider (both) "s \<le> a" "b < l" | (left) "a < s" "s \<le> b" "b < l" | (right) "s \<le> a" "a < l" "l \<le> b"
      | (none) "a < s \<or> l \<le> a" "b < s \<or> l \<le> b" using ab by linarith
    then show ?thesis
    proof cases
      case both
      then show ?thesis using ordered [of a b] ab by auto
    next
      case left
      obtain b' where b': "s \<le> b'" "b' < l" "ys ! b = xs ! b'" using inn left by blast
      have a: "ys ! a = xs ! a" using out left ab n by simp
      have "cle proc (xs ! a) (xs ! b')"
        using old [of a b'] b' left disj sl by fastforce
      then show ?thesis using a b' by simp
    next
      case right
      obtain a' where a': "s \<le> a'" "a' < l" "ys ! a = xs ! a'" using inn right by blast
      have b: "ys ! b = xs ! b" using out right ab n by simp
      have "cle proc (xs ! a') (xs ! b)"
        using old [of a' b] a' right disj sl ab by fastforce
      then show ?thesis using b a' by simp
    next
      case none
      then have "ys ! a = xs ! a" "ys ! b = xs ! b" using out ab n by auto
      moreover have "\<not> (s \<le> a \<and> b < l)" using none ab by auto
      ultimately show ?thesis using old [OF ab] by auto
    qed
  qed
  have bounds: "\<forall>(s', l')\<in>set (new @ rest). s' \<le> l' \<and> l' \<le> n"
    using inv new(1) sl unfolding qinv_def by fastforce
  have "sorted_wrt (\<lambda>p q. snd p \<le> fst q \<or> snd q \<le> fst p) (new @ rest)"
    using inv new disj unfolding qinv_def sorted_wrt_append by fastforce
  then show ?thesis using all bounds n len unfolding qinv_def by simp
qed

definition qpot :: "(nat \<times> nat) list \<Rightarrow> nat" where
  "qpot todo = sum_list (map (\<lambda>(s, l). 2 * (l - s) + 1) todo)"

lemma qpot_simps [simp]: "qpot [] = 0" "qpot ((s, l) # todo) = 2 * (l - s) + 1 + qpot todo"
  by (simp_all add: qpot_def)

text \<open>The larger part is always the one pushed, so the sizes on the stack halve.\<close>

definition qbal :: "nat \<Rightarrow> nat \<Rightarrow> (nat \<times> nat) list \<Rightarrow> bool" where
  "qbal n cur stack \<longleftrightarrow> cur \<le> n div 2 ^ length stack \<and>
     (\<forall>k<length stack. snd (stack ! k) - fst (stack ! k) \<le> n div 2 ^ (length stack - 1 - k))"

lemma qbal_pop: "qbal n cur ((s, l) # rest) \<Longrightarrow> qbal n (l - s) rest"
  unfolding qbal_def by (auto dest: spec [of _ "Suc _"] spec [of _ 0])

lemma qbal_push:
  assumes "qbal n cur stack" "l - s \<le> cur" "2 * small \<le> cur"
  shows "qbal n small ((s, l) # stack)"
proof -
  have "small \<le> cur div 2" using assms(3) by simp
  also have "\<dots> \<le> n div 2 ^ length stack div 2" using assms(1) by (intro div_le_mono) (simp add: qbal_def)
  also have "\<dots> = n div 2 ^ Suc (length stack)"
    by (simp only: power_Suc2 div_mult2_eq)
  finally have "small \<le> n div 2 ^ Suc (length stack)" .
  moreover have "snd (((s, l) # stack) ! k) - fst (((s, l) # stack) ! k) \<le> n div 2 ^ (Suc (length stack) - 1 - k)"
    if "k < Suc (length stack)" for k
    using assms(1,2) that unfolding qbal_def by (cases k) auto
  ultimately show ?thesis unfolding qbal_def by simp
qed

lemma qbal_depth:
  assumes "qbal n cur stack" "8 \<le> cur" "n < 2 ^ 31"
  shows "2 * Suc (length stack) < 64"
proof -
  have "8 \<le> n div 2 ^ length stack" using assms unfolding qbal_def by simp
  then have "8 * 2 ^ length stack \<le> n" by (metis div_times_less_eq_dividend mult_le_mono1 order_trans)
  then have "(2 :: nat) ^ (length stack + 3) < 2 ^ 31" using assms(3) by (simp add: power_add)
  then have "length stack + 3 < 31" by (rule power_less_imp_less_exp [rotated]) simp
  then show ?thesis by simp
qed

lemma qsort_loop_spec:
  assumes ord: "cmp_order proc" and "qinv proc n xs ((start, limit) # stack)"
    and "qpot ((start, limit) # stack) \<le> fuel" and "qbal n (limit - start) stack" and n: "n < 2 ^ 31"
  shows "\<exists>ys. qsort_loop fuel proc xs stack start limit = Some (ys, 0) \<and> seg_perm 0 n xs ys \<and>
    sorted_seg proc ys 0 n"
  using assms(2-4)
proof (induction fuel arbitrary: xs start limit stack)
  case (Suc fuel)
  have b: "start \<le> limit" "limit \<le> n" "n \<le> length xs"
    using Suc.prems(1) unfolding qinv_def by auto
  show ?case
  proof (cases "limit - start < 8")
    case short: True
    obtain ys where ys: "qsort_bubble proc xs start (limit - (start + 1)) start = Some ys"
      "seg_perm start limit xs ys" "sorted_seg proc ys start limit"
    proof (cases "start < limit")
      case True
      then show ?thesis
        using qsort_bubble_spec [OF ord, of xs start start "limit - (start + 1)" limit] b that
        by (auto simp: sorted_seg_def)
    next
      case False
      then show ?thesis using that [of xs] b by (auto simp: sorted_seg_def)
    qed
    have inv: "qinv proc n ys ([] @ stack)"
      by (rule qinv_step [OF Suc.prems(1) ys(2)]) (use ys(3) in \<open>auto simp: sorted_seg_def\<close>)
    have perm: "seg_perm 0 n xs ys" by (rule seg_perm_mono [OF ys(2)]) (use b in auto)
    show ?thesis
    proof (cases stack)
      case Nil
      then have "sorted_seg proc ys 0 n" using inv unfolding qinv_def sorted_seg_def by auto
      then show ?thesis using short ys(1) Nil perm by auto
    next
      case (Cons e rest)
      obtain s l where e: "e = (s, l)" by (cases e)
      have "\<exists>zs. qsort_loop fuel proc ys rest s l = Some (zs, 0) \<and> seg_perm 0 n ys zs \<and> sorted_seg proc zs 0 n"
        by (rule Suc.IH) (use inv Cons e Suc.prems(2,3) in \<open>auto intro: qbal_pop\<close>)
      then show ?thesis using short ys(1) Cons e perm by (auto intro: seg_perm_trans)
    qed
  next
    case False
    then have "start + 8 \<le> limit" by simp
    then obtain ys i j where ys: "qsort_split proc xs start limit = Some (ys, i, j)"
      "seg_perm start limit xs ys" "start \<le> j" "j < i" "i \<le> limit"
      "\<And>a. start \<le> a \<Longrightarrow> a < i \<Longrightarrow> cle proc (ys ! a) (ys ! j)"
      "\<And>b. j \<le> b \<Longrightarrow> b < limit \<Longrightarrow> cle proc (ys ! j) (ys ! b)"
      using qsort_split_spec [OF ord, of start limit xs] b by auto
    have perm: "seg_perm 0 n xs ys" by (rule seg_perm_mono [OF ys(2)]) (use b in auto)
    have pair: "cle proc (ys ! a) (ys ! c) \<or> start \<le> a \<and> c < j \<or> i \<le> a \<and> c < limit"
      if "start \<le> a" "a < c" "c < limit" for a c
    proof -
      consider "c < j" | "i \<le> a" | "a < i" "j \<le> c" by linarith
      then show ?thesis
        using ys(6) [of a] ys(7) [of c] cmp_trans [OF ord, of "ys ! a" "ys ! j" "ys ! c"] that
        by cases auto
    qed
    have new: "qinv proc n ys ([(start, j), (i, limit)] @ stack)" "qinv proc n ys ([(i, limit), (start, j)] @ stack)"
      by (rule qinv_step [OF Suc.prems(1) ys(2)]; use ys(3-5) b pair in auto)+
    have deep: "2 * Suc (length stack) < 64"
      using qbal_depth [OF Suc.prems(3) _ n] False by simp
    have pot: "2 * (j - start) + 2 * (limit - i) + 2 + qpot stack \<le> fuel"
      using Suc.prems(2) ys(3-5) by simp
    show ?thesis
    proof (cases "j - start > limit - i")
      case True
      have "\<exists>zs. qsort_loop fuel proc ys ((start, j) # stack) i limit = Some (zs, 0) \<and>
          seg_perm 0 n ys zs \<and> sorted_seg proc zs 0 n"
      proof (rule Suc.IH)
        show "qbal n (limit - i) ((start, j) # stack)"
          by (rule qbal_push [OF Suc.prems(3)]) (use ys(3-5) True in auto)
      qed (use new(2) pot in auto)
      then show ?thesis using False ys(1) True deep perm by (auto intro: seg_perm_trans)
    next
      case nl: False
      have "\<exists>zs. qsort_loop fuel proc ys ((i, limit) # stack) start j = Some (zs, 0) \<and>
          seg_perm 0 n ys zs \<and> sorted_seg proc zs 0 n"
      proof (rule Suc.IH)
        show "qbal n (j - start) ((i, limit) # stack)"
          by (rule qbal_push [OF Suc.prems(3)]) (use ys(3-5) nl in auto)
      qed (use new(1) pot in auto)
      then show ?thesis using False ys(1) nl deep perm by (auto intro: seg_perm_trans)
    qed
  qed
qed simp

lemma xs_ptr_qsort_spec:
  assumes "cmp_order proc" "cnt \<le> length xs" "cnt < 2 ^ 31"
  shows "\<exists>ys. xs_ptr_qsort proc xs cnt = Some (ys, 0) \<and> seg_perm 0 cnt xs ys \<and> sorted_seg proc ys 0 cnt"
  unfolding xs_ptr_qsort_def
  by (rule qsort_loop_spec [OF assms(1)]) (use assms in \<open>auto simp: qinv_def qbal_def\<close>)

lemma seg_perm_take:
  assumes "seg_perm 0 cnt xs ys"
  shows "mset (take cnt ys) = mset (take cnt xs)"
proof -
  have "drop cnt ys = drop cnt xs" using assms by (intro nth_equalityI) (simp_all add: seg_perm_def)
  moreover have "mset (take cnt ys) + mset (drop cnt ys) = mset (take cnt xs) + mset (drop cnt xs)"
    using assms by (metis append_take_drop_id mset_append seg_perm_def)
  ultimately show ?thesis by simp
qed

subsection \<open>Lemmas: the array operations\<close>

definition arr_wf :: "'a xs_arr \<Rightarrow> bool" where
  "arr_wf ar \<longleftrightarrow> 0 \<le> aCount ar \<and> aCount ar \<le> aSpace ar \<and> aSpace ar < 2 ^ 30 \<and>
     (case aData ar of None \<Rightarrow> aSpace ar = 0 | Some d \<Rightarrow> length d = nat (aSpace ar))"

definition arr_contents :: "'a xs_arr \<Rightarrow> 'a list" where
  "arr_contents ar = (case aData ar of None \<Rightarrow> [] | Some d \<Rightarrow> take (nat (aCount ar)) d)"

lemma arr_wf_Some:
  assumes "arr_wf ar" "aData ar = Some d"
  shows "length d = nat (aSpace ar)" "0 \<le> aCount ar" "aCount ar \<le> aSpace ar" "aSpace ar < 2 ^ 30"
    "length (arr_contents ar) = nat (aCount ar)" "arr_contents ar = take (nat (aCount ar)) d"
  using assms by (auto simp: arr_wf_def arr_contents_def)

lemma take_length_append: "length xs = n \<Longrightarrow> take n (xs @ ys) = xs"
  by simp

lemma arr_grow_spec:
  assumes wf: "arr_wf ar" and n: "0 < n" "aCount ar + n < 2 ^ 29" "aSpace ar < 2 ^ 29" and room: "\<And>k. room k"
  shows "\<exists>ar' d. arr_grow room z ar n = Some (ar', False) \<and> arr_wf ar' \<and> aData ar' = Some d \<and>
    aCount ar' = aCount ar \<and> arr_contents ar' = arr_contents ar \<and> aCount ar + n \<le> aSpace ar'"
proof (cases "aCount ar + n > aSpace ar")
  case False
  then obtain d where "aData ar = Some d" using wf n by (auto simp: arr_wf_def split: option.splits)
  then show ?thesis using False wf by (auto simp: arr_grow_def)
next
  case True
  let ?s = "aCount ar + n"
  let ?ns = "if aSpace ar * 2 > ?s then aSpace ar * 2 else ?s"
  have ns: "?s \<le> ?ns" "aSpace ar < ?ns" "?ns < 2 ^ 30" using True n wf by (auto simp: arr_wf_def)
  show ?thesis
  proof (cases "aData ar")
    case None
    have z0: "aSpace ar = 0" "aCount ar = 0" using wf None by (auto simp: arr_wf_def)
    then show ?thesis using None True n room
      by (auto simp: arr_grow_def xs_arr_makespace_def xs_recalloc_def arr_wf_def arr_contents_def)
  next
    case (Some d)
    have l: "length d = nat (aSpace ar)" using arr_wf_Some [OF wf Some] by simp
    let ?d = "take (nat (aSpace ar)) d @ replicate (nat (?ns - aSpace ar)) z"
    have "arr_grow room z ar n = Some (ar\<lparr>aData := Some ?d, aSpace := ?ns\<rparr>, False)"
      using True Some ns room by (simp add: arr_grow_def xs_arr_makespace_def xs_recalloc_def Let_def)
    moreover have "length ?d = nat ?ns" using l ns wf by (simp add: arr_wf_def nat_diff_distrib min_def)
    moreover have "take (nat (aCount ar)) ?d = take (nat (aCount ar)) d"
    proof -
      have "nat (aCount ar) \<le> nat (aSpace ar)" using wf by (auto simp: arr_wf_def)
      then show ?thesis using l by simp
    qed
    ultimately show ?thesis using wf ns Some
      by (intro exI [of _ "ar\<lparr>aData := Some ?d, aSpace := ?ns\<rparr>"] exI [of _ ?d])
        (auto simp: arr_wf_def arr_contents_def simp del: take_append)
  qed
qed

lemma xs_ptr_insert_spec:
  assumes "b \<le> c" "c + k \<le> length d" "c + k < 2 ^ 31" "length s \<ge> k"
  shows "xs_ptr_insert d (int c) (Some s) (int b) (int k) =
    Some (take b d @ take k s @ take (c - b) (drop b d) @ drop (c + k) d, 0)"
proof -
  have u: "uint32 (int b) = int b" "uint32 (int c) = int c" using assms by (auto intro: uint32_id)
  have t: "rds d b (c - b) = Some (take (c - b) (drop b d))" using assms by (simp add: mem_simps)
  let ?t = "take (c - b) (drop b d)"
  have lt: "length ?t = c - b" using assms by simp
  have b1: "blit d (b + k) ?t = Some (take (b + k) d @ ?t @ drop (c + k) d)"
    using assms lt by (simp add: mem_simps add.commute)
  have b2: "blit (take (b + k) d @ ?t @ drop (c + k) d) b (take k s) =
      Some (take b d @ take k s @ ?t @ drop (c + k) d)"
  proof -
    have k: "length (take k s) = k" "b + k \<le> length d" "b + k + (c - b) = c + k" using assms by auto
    have "blit (take (b + k) d @ ?t @ drop (c + k) d) b (take k s) =
        Some (take b (take (b + k) d @ ?t @ drop (c + k) d) @ take k s @
          drop (b + k) (take (b + k) d @ ?t @ drop (c + k) d))"
      unfolding blit_def k(1) using lt k assms by simp
    then show ?thesis using k(2) by simp
  qed
  have "nat (int b + int k) = b + k" "nat (int c - int b) = c - b" using assms by auto
  then show ?thesis using assms u t b1 b2 by (simp add: xs_ptr_insert_def)
qed

lemma xs_ptr_remove_spec:
  assumes "b < c" "c \<le> length d" "c + k < 2 ^ 31"
  shows "xs_ptr_remove d (int c) (int b) (int k) =
    Some (take b d @ drop (min (b + k) c) (take c d) @ drop (b + (c - min (b + k) c)) d, 0)"
proof -
  have u: "uint32 (int b) = int b" "uint32 (int c) = int c" "uint32 (int b + int k) = int (b + k)"
    using assms by (auto simp: uint32_def)
  define m where "m = min (b + k) c"
  let ?del = "if int (b + k) > int c then int c - int b else int k"
  have del: "int b + ?del = int m" using assms by (simp add: m_def)
  have t: "rds d m (c - m) = Some (take (c - m) (drop m d))"
    using assms by (simp add: mem_simps m_def)
  have e: "take (c - m) (drop m d) = drop m (take c d)" by (simp add: drop_take)
  have b1: "blit d b (drop m (take c d)) = Some (take b d @ drop m (take c d) @ drop (b + (c - m)) d)"
    using assms by (simp add: mem_simps m_def)
  have "nat (int b + ?del) = m" "nat (int c - (int b + ?del)) = c - m" unfolding del using assms by (auto simp: m_def)
  then show ?thesis using assms u t b1 e unfolding m_def [symmetric]
    by (simp add: xs_ptr_remove_def Let_def)
qed

lemma xs_arr_insert_spec:
  assumes wf: "arr_wf ar" and b: "b \<le> length (arr_contents ar)" and s: "s \<noteq> []"
    and lim: "aCount ar + int (length s) < 2 ^ 29" "aSpace ar < 2 ^ 29" and room: "\<And>k. room k"
  shows "\<exists>ar'. xs_arr_insert room z ar (int b) (Some s) (int (length s)) = Some (ar', False) \<and> arr_wf ar' \<and>
    arr_contents ar' = take b (arr_contents ar) @ s @ drop b (arr_contents ar)"
proof -
  obtain ar1 d where g: "arr_grow room z ar (int (length s)) = Some (ar1, False)" "arr_wf ar1"
    "aData ar1 = Some d" "aCount ar1 = aCount ar" "arr_contents ar1 = arr_contents ar"
    "aCount ar + int (length s) \<le> aSpace ar1"
    using arr_grow_spec [where room = room and z = z, OF wf _ lim room] s by auto
  note w = arr_wf_Some [OF g(2,3)]
  define c where "c = nat (aCount ar)"
  have c: "aCount ar = int c" using w(2) g(4) by (simp add: c_def)
  have cont: "arr_contents ar = take c d" using w(6) g(4,5) by (simp add: c_def)
  have bc: "b \<le> c" using b w(5) g(4,5) by (simp add: c_def)
  have cl: "c + length s \<le> length d" using g(6) w(1) c by simp
  let ?d = "take b d @ take (length s) s @ take (c - b) (drop b d) @ drop (c + length s) d"
  have i: "xs_ptr_insert d (int c) (Some s) (int b) (int (length s)) = Some (?d, 0)"
    by (rule xs_ptr_insert_spec [OF bc cl]) (use lim c in auto)
  have e: "xs_arr_insert room z ar (int b) (Some s) (int (length s)) =
      Some (ar1\<lparr>aData := Some ?d, aCount := aCount ar1 + int (length s)\<rparr>, False)"
    using g(1,3,4) i c by (simp add: xs_arr_insert_def)
  have l: "length ?d = nat (aSpace ar1)" using bc cl w(1) by simp
  have "take (c + length s) ((take b d @ s @ take (c - b) (drop b d)) @ drop (c + length s) d) =
      take b d @ s @ take (c - b) (drop b d)"
    using bc cl by (intro take_length_append) simp
  then have "take (c + length s) ?d = take b (take c d) @ s @ drop b (take c d)"
    using bc cl by (simp add: min_absorb1 drop_take del: take_append)
  then show ?thesis
    using e w g l c unfolding cont
    by (intro exI [of _ "ar1\<lparr>aData := Some ?d, aCount := aCount ar1 + int (length s)\<rparr>"])
      (simp add: arr_wf_def arr_contents_def nat_add_distrib min_absorb1
        del: append_assoc take_append length_append length_take length_drop)
qed

lemma xs_arr_add_spec:
  assumes wf: "arr_wf ar" and s: "s \<noteq> []"
    and lim: "aCount ar + int (length s) < 2 ^ 29" "aSpace ar < 2 ^ 29" and room: "\<And>k. room k"
  shows "\<exists>ar'. xs_arr_add room z ar (Some s) (int (length s)) = Some (ar', Some (aCount ar)) \<and> arr_wf ar' \<and>
    arr_contents ar' = arr_contents ar @ s"
proof -
  obtain ar1 d where g: "arr_grow room z ar (int (length s)) = Some (ar1, False)" "arr_wf ar1"
    "aData ar1 = Some d" "aCount ar1 = aCount ar" "arr_contents ar1 = arr_contents ar"
    "aCount ar + int (length s) \<le> aSpace ar1"
    using arr_grow_spec [where room = room and z = z, OF wf _ lim room] s by auto
  note w = arr_wf_Some [OF g(2,3)]
  define c where "c = nat (aCount ar)"
  have c: "aCount ar = int c" using w(2) g(4) by (simp add: c_def)
  have cont: "arr_contents ar = take c d" using w(6) g(4,5) by (simp add: c_def)
  have cl: "c + length s \<le> length d" using g(6) w(1) c by simp
  let ?d = "take c d @ s @ drop (c + length s) d"
  have bl: "blit d c s = Some ?d" using cl by (simp add: mem_simps)
  have e: "xs_arr_add room z ar (Some s) (int (length s)) =
      Some (ar1\<lparr>aData := Some ?d, aCount := aCount ar + int (length s)\<rparr>, Some (aCount ar))"
    using g(1,3,4) bl c by (simp add: xs_arr_add_def)
  have l: "length ?d = length d" using cl by simp
  have "take (c + length s) ((take c d @ s) @ drop (c + length s) d) = take c d @ s"
    using cl by (intro take_length_append) simp
  then have "take (c + length s) ?d = take c d @ s" by (simp del: take_append)
  then show ?thesis
    using e w g l c unfolding cont
    by (intro exI [of _ "ar1\<lparr>aData := Some ?d, aCount := aCount ar + int (length s)\<rparr>"])
      (simp add: arr_wf_def arr_contents_def nat_add_distrib del: append_assoc take_append)
qed

lemma xs_arr_remove_spec:
  assumes wf: "arr_wf ar" and b: "b + k \<le> length (arr_contents ar)" and k: "k < length (arr_contents ar)"
  shows "\<exists>ar'. xs_arr_remove ar (int b) (int k) = Some ar' \<and> arr_wf ar' \<and>
    arr_contents ar' = take b (arr_contents ar) @ drop (b + k) (arr_contents ar)"
proof -
  obtain d where d: "aData ar = Some d" using k by (auto simp: arr_contents_def split: option.splits)
  note w = arr_wf_Some [OF wf d]
  define c where "c = nat (aCount ar)"
  have c: "aCount ar = int c" using w(2) by (simp add: c_def)
  have cont: "arr_contents ar = take c d" "c \<le> length d" using w by (simp_all add: c_def)
  have bk: "b + k \<le> c" "k < c" using b k cont by simp_all
  show ?thesis
  proof (cases "b < c")
    case True
    let ?d = "take b d @ drop (min (b + k) c) (take c d) @ drop (b + (c - min (b + k) c)) d"
    have r: "xs_ptr_remove d (int c) (int b) (int k) = Some (?d, 0)"
      by (rule xs_ptr_remove_spec [OF True cont(2)]) (use w bk c in auto)
    have e: "xs_arr_remove ar (int b) (int k) = Some (ar\<lparr>aData := Some ?d, aCount := aCount ar - int k\<rparr>)"
      using d r bk c by (simp add: xs_arr_remove_def)
    have "take (c - k) ((take b d @ drop (b + k) (take c d)) @ drop (c - k) d) =
        take b d @ drop (b + k) (take c d)"
      using bk cont True by (intro take_length_append) simp
    moreover have "min (b + k) c = b + k" "b + (c - (b + k)) = c - k" using bk by auto
    ultimately have "take (c - k) ?d = take b d @ drop (b + k) (take c d)" by (simp del: take_append)
    moreover have len: "length ?d = nat (aSpace ar)" using bk cont True w(1) by (simp add: min_def)
    moreover have cn: "nat (aCount ar - int k) = c - k" using c bk by auto
    let ?ar = "ar\<lparr>aData := Some ?d, aCount := aCount ar - int k\<rparr>"
    have "arr_contents ?ar = take (c - k) ?d"
      by (simp add: arr_contents_def cn del: take_append)
    moreover have "arr_wf ?ar"
      using w(2-4) c bk len by (simp add: arr_wf_def del: length_append length_take length_drop)
    moreover have "take b (take c d) = take b d" using bk by (simp add: min_def)
    ultimately show ?thesis using e unfolding cont(1) by (intro exI [of _ ?ar]) (simp only: simp_thms)
  next
    case False
    then have kb: "k = 0" "b = c" using bk by auto
    have "xs_arr_remove ar (int c) 0 = Some ar"
      using d c bk by (simp add: xs_arr_remove_def xs_ptr_remove_def)
    then show ?thesis using wf cont unfolding kb by simp
  qed
qed

subsection \<open>Lemmas: searching\<close>

text \<open>The comparisons of a key with the elements of a sorted array: positive, then 0, then negative.\<close>

definition cmp_mono :: "('k \<Rightarrow> 'a \<Rightarrow> int) \<Rightarrow> 'a list \<Rightarrow> nat \<Rightarrow> 'k \<Rightarrow> bool" where
  "cmp_mono cmp base n key \<longleftrightarrow> (\<forall>a b. a < b \<longrightarrow> b < n \<longrightarrow>
     (cmp key (base ! a) \<le> 0 \<longrightarrow> cmp key (base ! b) \<le> 0) \<and>
     (cmp key (base ! a) < 0 \<longrightarrow> cmp key (base ! b) < 0))"

text \<open>A position of the key, or the point where it belongs.\<close>

definition search_result :: "('k \<Rightarrow> 'a \<Rightarrow> int) \<Rightarrow> 'a list \<Rightarrow> nat \<Rightarrow> 'k \<Rightarrow> int \<Rightarrow> bool" where
  "search_result cmp base n key r \<longleftrightarrow>
     (if r \<ge> 0 then nat r < n \<and> cmp key (base ! nat r) = 0
      else nat (- r - 1) \<le> n \<and> (\<forall>a<nat (- r - 1). cmp key (base ! a) > 0) \<and>
        (\<forall>a. nat (- r - 1) \<le> a \<longrightarrow> a < n \<longrightarrow> cmp key (base ! a) < 0))"

lemma binsearch_scan_spec:
  assumes "cmp_mono cmp base n key" "n \<le> length base" "j + c = n" "\<forall>a<j. cmp key (base ! a) > 0"
  shows "\<exists>r. binsearch_scan cmp base key c j n = Some r \<and> search_result cmp base n key r"
  using assms(3-)
proof (induction c arbitrary: j)
  case 0
  then show ?case by (auto simp: search_result_def nat_add_distrib)
next
  case (Suc c)
  have g: "rd base j = Some (base ! j)" using Suc.prems assms(2) by (simp add: mem_simps)
  consider "cmp key (base ! j) = 0" | "cmp key (base ! j) < 0" | "cmp key (base ! j) > 0" by linarith
  then show ?case
  proof cases
    case 1
    then show ?thesis using g Suc.prems by (auto simp: search_result_def)
  next
    case 2
    have "cmp key (base ! a) < 0" if "j \<le> a" "a < n" for a
    proof (cases "a = j")
      case False
      then have "j < a" using that by simp
      then show ?thesis using assms(1) 2 that unfolding cmp_mono_def by blast
    qed (use 2 in simp)
    then have "search_result cmp base n key (- (int j + 1))"
      using Suc.prems by (auto simp: search_result_def)
    then show ?thesis using g 2 by simp
  next
    case 3
    then have "\<forall>a<Suc j. cmp key (base ! a) > 0" using Suc.prems by (auto simp: less_Suc_eq)
    then obtain r where "binsearch_scan cmp base key c (Suc j) n = Some r" "search_result cmp base n key r"
      using Suc.IH [of "Suc j"] Suc.prems by auto
    then show ?thesis using g 3 by simp
  qed
qed

lemma binsearch_short:
  assumes m: "cmp_mono cmp base n key" and n: "n < 8" "n \<le> length base"
  shows "\<exists>r. xs_ptr_binsearch (Suc fuel) cmp base n key = Some r \<and> search_result cmp base n key r"
proof (cases "n = 0")
  case True
  then show ?thesis by (auto simp: xs_ptr_binsearch_def search_result_def)
next
  case False
  then have r: "rd base 0 = Some (base ! 0)" "rd base (n - 1) = Some (base ! (n - 1))"
    using n False by (auto intro!: rd_Some)
  consider "cmp key (base ! 0) = 0" | "cmp key (base ! 0) < 0" | "cmp key (base ! 0) > 0" by linarith
  then show ?thesis
  proof cases
    case 1
    then show ?thesis using False r by (auto simp: xs_ptr_binsearch_def search_result_def)
  next
    case 2
    have "cmp key (base ! a) < 0" if "a < n" for a
      using m 2 that unfolding cmp_mono_def by (cases "a = 0") auto
    then have "search_result cmp base n key (- 1)" by (simp add: search_result_def)
    then show ?thesis using 2 False r by (simp add: xs_ptr_binsearch_def Let_def)
  next
    case first: 3
    consider "cmp key (base ! (n - 1)) = 0" | "cmp key (base ! (n - 1)) > 0" | "cmp key (base ! (n - 1)) < 0"
      by linarith
    then show ?thesis
    proof cases
      case 1
      moreover have "nat (int n - 1) = n - 1" by linarith
      ultimately show ?thesis using first False r
        by (auto simp: xs_ptr_binsearch_def search_result_def)
    next
      case 2
      have "cmp key (base ! a) > 0" if "a < n" for a
      proof (rule ccontr)
        assume "\<not> cmp key (base ! a) > 0"
        then have "cmp key (base ! (n - 1)) \<le> 0"
        proof (cases "a = n - 1")
          case False
          then have "a < n - 1" "n - 1 < n" "cmp key (base ! a) \<le> 0"
            using that \<open>\<not> cmp key (base ! a) > 0\<close> by auto
          then show ?thesis using m unfolding cmp_mono_def by blast
        qed (use \<open>\<not> cmp key (base ! a) > 0\<close> in auto)
        with 2 show False by simp
      qed
      then have "search_result cmp base n key (- (int n + 1))" by (auto simp: search_result_def)
      then show ?thesis using 2 first False r by (simp add: xs_ptr_binsearch_def)
    next
      case 3
      obtain s where s: "binsearch_scan cmp base key n 0 n = Some s" "search_result cmp base n key s"
        using binsearch_scan_spec [OF m n(2), of 0 n] by auto
      have "xs_ptr_binsearch (Suc fuel) cmp base n key = binsearch_scan cmp base key n 0 n"
        using 3 first False r n by (simp add: xs_ptr_binsearch_def)
      with s show ?thesis by simp
    qed
  qed
qed

text \<open>From eight elements on, the first interior guess is about two thousand million elements away.\<close>

lemma binsearch_long:
  assumes "8 \<le> n" "n \<le> length base" "length base < 2 ^ 29"
    and "cmp key (base ! 0) > 0" "cmp key (base ! (n - 1)) < 0"
  shows "xs_ptr_binsearch fuel cmp base n key = None"
proof -
  have r: "rd base 0 = Some (base ! 0)" "rd base (n - 1) = Some (base ! (n - 1))"
    using assms by (auto intro!: rd_Some)
  have u: "uint32 (0 - int n + 1) = 2 ^ 32 - int n + 1"
  proof -
    have "(0 - int n + 1 + 2 ^ 32) mod 2 ^ 32 = 0 - int n + 1 + 2 ^ 32"
      by (rule mod_pos_pos_trivial) (use assms in auto)
    then show ?thesis by (simp only: uint32_def mod_add_self2)
  qed
  define q where "q = (2 ^ 32 - int n + 1) div 2"
  have q: "2 ^ 29 \<le> q" "q < 2 ^ 31" using assms unfolding q_def by simp_all
  then have "int32 q = q" by (intro int32_id) auto
  then have j: "nat (int32 (uint32 (int 0 - int n + 1) div 2) + int 0) = nat q"
  proof -
    assume i: "int32 q = q"
    have "uint32 (int 0 - int n + 1) div 2 = q" using u by (simp add: q_def)
    then show ?thesis using i by (simp only: add_0_right of_nat_0)
  qed
  have "rd base (nat q) = None" using q assms by (intro rd_None) simp
  then have "binsearch_loop fuel cmp base key 0 n = None"
    using assms j by (cases fuel) (simp_all del: of_nat_0)
  then show ?thesis using assms r by (simp add: xs_ptr_binsearch_def)
qed

subsection \<open>Properties\<close>



text \<open>Insertion. On a well-formed array, with memory granted, \<open>xs_arr_insert_\<close> at a position inside
  the contents grows the block when needed, opens a gap and fills it: the contents become the old ones
  with the new elements at that position, and the array stays well-formed.\<close>

theorem xs_arr_insert_contents:
  assumes "arr_wf ar" and "b \<le> length (arr_contents ar)" and "s \<noteq> []"
    and "aCount ar + int (length s) < 2 ^ 29" and "aSpace ar < 2 ^ 29" and "\<And>k. room k"
  shows "\<exists>ar'. xs_arr_insert room z ar (int b) (Some s) (int (length s)) = Some (ar', False) \<and>
           arr_wf ar' \<and> arr_contents ar' = take b (arr_contents ar) @ s @ drop b (arr_contents ar)"
  by (rule xs_arr_insert_spec [OF assms])

theorem xs_arr_insert_contents_witness:
  "\<exists>ar'. xs_arr_insert (\<lambda>_. True) 0 \<lparr>aData = Some [1, 2, 3 :: int], aCount = 3, aSpace = 3\<rparr> 1
      (Some [8, 9]) 2 = Some (ar', False) \<and> arr_wf ar' \<and> arr_contents ar' = [1, 8, 9, 2, 3]"
  using xs_arr_insert_contents [of "\<lparr>aData = Some [1, 2, 3 :: int], aCount = 3, aSpace = 3\<rparr>" 1 "[8, 9]"
      "\<lambda>_. True" 0]
  by (simp add: arr_wf_def arr_contents_def)

text \<open>Appending. \<open>xs_arr_add_\<close> returns the position of the first new element, which is the old
  count, and appends the elements to the contents.\<close>

theorem xs_arr_add_appends:
  assumes "arr_wf ar" and "s \<noteq> []"
    and "aCount ar + int (length s) < 2 ^ 29" and "aSpace ar < 2 ^ 29" and "\<And>k. room k"
  shows "\<exists>ar'. xs_arr_add room z ar (Some s) (int (length s)) = Some (ar', Some (aCount ar)) \<and>
           arr_wf ar' \<and> arr_contents ar' = arr_contents ar @ s"
  by (rule xs_arr_add_spec [OF assms])

theorem xs_arr_add_appends_witness:
  "\<exists>ar'. xs_arr_add (\<lambda>_. True) 0 (xs_arr_create :: int xs_arr) (Some [4, 5]) 2 = Some (ar', Some 0) \<and>
         arr_wf ar' \<and> arr_contents ar' = [4, 5]"
  using xs_arr_add_appends [of "xs_arr_create :: int xs_arr" "[4, 5]" "\<lambda>_. True" 0]
  by (simp add: arr_wf_def arr_contents_def xs_arr_create_def)

text \<open>Removal. Removing fewer elements than the array holds, all of them inside it, takes exactly
  that stretch out of the contents.\<close>

theorem xs_arr_remove_contents:
  assumes "arr_wf ar" and "b + k \<le> length (arr_contents ar)" and "k < length (arr_contents ar)"
  shows "\<exists>ar'. xs_arr_remove ar (int b) (int k) = Some ar' \<and> arr_wf ar' \<and>
           arr_contents ar' = take b (arr_contents ar) @ drop (b + k) (arr_contents ar)"
  by (rule xs_arr_remove_spec [OF assms])

theorem xs_arr_remove_contents_witness:
  "\<exists>ar'. xs_arr_remove \<lparr>aData = Some [1, 2, 3, 4 :: int], aCount = 4, aSpace = 4\<rparr> 0 3 = Some ar' \<and>
         arr_wf ar' \<and> arr_contents ar' = [4]"
  using xs_arr_remove_contents [of "\<lparr>aData = Some [1, 2, 3, 4 :: int], aCount = 4, aSpace = 4\<rparr>" 0 3]
  by (simp add: arr_wf_def arr_contents_def)

text \<open>Searching fewer than eight sorted elements. \<open>xs_ptr_binsearch\<close> stays inside the array and
  gives a position of the key, or \<open>-(p + 1)\<close> for the position \<open>p\<close> where it belongs.\<close>

theorem xs_ptr_binsearch_finds:
  assumes "cmp_mono cmp base n key" and "n < 8" and "n \<le> length base"
  shows "\<exists>r. xs_ptr_binsearch (Suc fuel) cmp base n key = Some r \<and> search_result cmp base n key r"
  by (rule binsearch_short [OF assms])

theorem xs_ptr_binsearch_finds_witness:
  "\<exists>r. xs_ptr_binsearch 1 (\<lambda>x y. x - y) [2, 4, 6 :: int] 3 5 = Some r \<and>
       search_result (\<lambda>x y. x - y) [2, 4, 6 :: int] 3 5 r"
proof -
  have "cmp_mono (\<lambda>x y. x - y) [2, 4, 6 :: int] 3 5"
    by (auto simp: cmp_mono_def less_Suc_eq numeral_3_eq_3)
  from xs_ptr_binsearch_finds [OF this, of 0] show ?thesis by simp
qed

text \<open>The interior step of \<open>xs_ptr_binsearch\<close> subtracts the bounds in the wrong order: with eight or
  more elements and a key strictly between the first and the last, the first guess is outside the
  array, so the search reads memory it does not own.\<close>

theorem xs_ptr_binsearch_out_of_bounds:
  assumes "8 \<le> n" "n \<le> length base" "length base < 2 ^ 29"
    and "cmp key (base ! 0) > 0" "cmp key (base ! (n - 1)) < 0"
  shows "xs_ptr_binsearch fuel cmp base n key = None"
  using assms by (intro binsearch_long)

theorem xs_ptr_binsearch_out_of_bounds_witness:
  "xs_ptr_binsearch 5 (\<lambda>x y. x - y) [0, 1, 2, 3, 4, 5, 6, 7 :: int] 8 4 = None"
  by (rule xs_ptr_binsearch_out_of_bounds) simp_all

end
