(* ===== verification/Base64.thy ===== *)
theory Base64
  imports Utils
begin

text \<open>
  Base-64: \<open>xs_b64_encode\<close> and \<open>xs_b64_decode\<close> of \<open>xs/xs_utils.h\<close>, and the streaming decoder
  \<open>base64_decode_block\<close> of \<open>xs/xs_base64.h\<close> (libb64). Destinations are bounds-checked buffers;
  the C \<open>int\<close> values of the bit arithmetic are \<open>int\<close>s. \<open>b64_text\<close> is the encoding by cases on
  three, two or one remaining bytes, against which both decoders are shown to be inverse.
\<close>

subsection \<open>Encoding\<close>

definition b64_tab :: "byte list" where
  "b64_tab = bytes ''ABCDEFGHIJKLMNOPQRSTUVWXYZabcdefghijklmnopqrstuvwxyz0123456789+/''"

definition b64_char :: "int \<Rightarrow> byte" where
  "b64_char k = b64_tab ! nat k"

definition b64_group :: "byte list \<Rightarrow> nat \<Rightarrow> byte list" where
  "b64_group src i =
     (let count = length src;
          a = uchar (src ! i);
          b = (if i + 1 \<ge> count then 0 else uchar (src ! (i + 1)));
          c = (if i + 2 \<ge> count then 0 else uchar (src ! (i + 2)))
      in [b64_char (drop_bit 2 a), b64_char (push_bit 4 (a AND 3) OR drop_bit 4 b)] @
         (if i + 1 < count then [b64_char (push_bit 2 (b AND 15) OR drop_bit 6 c)] else []) @
         (if i + 2 < count then [b64_char (c AND 63)] else []))"

function b64_encode_loop :: "byte list \<Rightarrow> byte list \<Rightarrow> nat \<Rightarrow> nat \<Rightarrow> (byte list \<times> nat) option" where
  "b64_encode_loop dst src i j =
     (if i < length src
      then do {
        dst' \<leftarrow> blit dst j (b64_group src i);
        b64_encode_loop dst' src (i + 3) (j + length (b64_group src i)) }
      else Some (dst, j))"
  by pat_completeness auto
termination by (relation "measure (\<lambda>(d, s, i, j). length s - i)") auto

definition xs_b64_encode :: "byte list \<Rightarrow> byte list \<Rightarrow> (byte list \<times> nat) option" where
  "xs_b64_encode dst src = do {
     (d1, j) \<leftarrow> b64_encode_loop dst src 0 0;
     let pad = (4 - j mod 4) mod 4;
     d2 \<leftarrow> blit d1 j (replicate pad 61);
     d3 \<leftarrow> wr d2 (j + pad) 0;
     Some (d3, j + pad) }"

subsection \<open>Decoding a whole text\<close>

text \<open>The table of \<open>xs_b64_decode\<close>: 255 entries, so index 255 is outside it.\<close>

definition b64_dtab :: "int list" where
  "b64_dtab =
     replicate 43 0 @
     [62,-1,-1,-1,63,52,53,54,55,56,57,58,59,60,61,-1,
      -1,-1,-2,-1,-1,-1, 0, 1, 2, 3, 4, 5, 6, 7, 8, 9,
      10,11,12,13,14,15,16,17,18,19,20,21,22,23,24,25,
      -1,-1,-1,-1,-1,-1,26,27,28,29,30,31,32,33,34,35,
      36,37,38,39,40,41,42,43,44,45,46,47,48,49,50,51] @ replicate 132 0"

definition b64_dquad :: "int \<Rightarrow> int \<Rightarrow> int \<Rightarrow> int \<Rightarrow> byte \<times> byte \<times> byte" where
  "b64_dquad s1 s2 s3 s4 =
     (word_of_int (push_bit 2 (s1 AND 0x3f) OR drop_bit 4 (s2 AND 0x30)),
      word_of_int (push_bit 4 (s2 AND 0x0f) OR drop_bit 2 (s3 AND 0x3c)),
      word_of_int (push_bit 6 (s3 AND 0x03) OR drop_bit 0 (s4 AND 0x3f)))"

function b64_decode_loop ::
  "byte list \<Rightarrow> int \<Rightarrow> byte list \<Rightarrow> nat \<Rightarrow> nat \<Rightarrow> nat \<Rightarrow> (byte list \<times> nat) option" where
  \<comment> \<open>the flag-free result \<open>len = 0\<close> of the early return keeps the buffer as it is\<close>
  "b64_decode_loop dst dstLen src count i len =
     (if i < count
      then if int len > dstLen then Some (dst, 0)
           else do {
             c1 \<leftarrow> rd src i; c2 \<leftarrow> rd src (i + 1); c3 \<leftarrow> rd src (i + 2); c4 \<leftarrow> rd src (i + 3);
             s1 \<leftarrow> rd b64_dtab (unat c1); s2 \<leftarrow> rd b64_dtab (unat c2);
             s3 \<leftarrow> rd b64_dtab (unat c3); s4 \<leftarrow> rd b64_dtab (unat c4);
             (case b64_dquad s1 s2 s3 s4 of (d1, d2, d3) \<Rightarrow> do {
                e1 \<leftarrow> wr dst len d1;
                if s3 = 99 then Some (e1, len + 1) else do {
                e2 \<leftarrow> wr e1 (len + 1) d2;
                if s4 = 99 then Some (e2, len + 2) else do {
                e3 \<leftarrow> wr e2 (len + 2) d3;
                b64_decode_loop e3 dstLen src count (i + 4) (len + 3) }}}) }
      else Some (dst, len))"
  by pat_completeness auto
termination by (relation "measure (\<lambda>(d, l, s, c, i, n). c - i)") auto

definition xs_b64_decode :: "byte list \<Rightarrow> int \<Rightarrow> byte list \<Rightarrow> nat \<Rightarrow> (byte list \<times> nat) option" where
  "xs_b64_decode dst dstLen src count = do {
     (d, len) \<leftarrow> b64_decode_loop dst dstLen src count 0 0;
     if int len < dstLen then do { d' \<leftarrow> wr d len 0; Some (d', len) } else Some (d, len) }"

subsection \<open>The streaming decoder of libb64\<close>

datatype base64_decodestep = step_a | step_b | step_c | step_d

record base64_decodestate =
  dstep :: base64_decodestep
  plainchar :: byte

definition base64_init_decodestate :: base64_decodestate where
  "base64_init_decodestate = \<lparr>dstep = step_a, plainchar = 0\<rparr>"

definition decoding :: "int list" where
  "decoding =
     [62,-1,-1,-1,63,52,53,54,55,56,57,58,59,60,61,-1,-1,-1,-2,-1,-1,-1,
      0,1,2,3,4,5,6,7,8,9,10,11,12,13,14,15,16,17,18,19,20,21,22,23,24,25,
      -1,-1,-1,-1,-1,-1,26,27,28,29,30,31,32,33,34,35,36,37,38,39,40,41,42,43,44,45,46,47,48,49,50,51]"

definition base64_decode_value :: "byte \<Rightarrow> int option" where
  \<comment> \<open>the bound is written \<open>>\<close>, so the index \<open>decoding_size\<close> itself reads past the table\<close>
  "base64_decode_value value_in =
     (let v = schar (value_in - 43)
      in if v < 0 \<or> v > int (length decoding) then Some (- 1) else rd decoding (nat v))"

fun base64_decode_loop ::
  "base64_decodestep \<Rightarrow> byte list \<Rightarrow> nat \<Rightarrow> byte list \<Rightarrow>
   (byte list \<times> nat \<times> base64_decodestate) option" where
  "base64_decode_loop st out p [] =
     do { x \<leftarrow> rd out p; Some (out, p, \<lparr>dstep = st, plainchar = x\<rparr>) }"
| "base64_decode_loop st out p (c # cs) = do {
     f \<leftarrow> base64_decode_value c;
     if f < 0 then base64_decode_loop st out p cs
     else (case st of
         step_a \<Rightarrow> do {
           o1 \<leftarrow> wr out p (word_of_int (push_bit 2 (f AND 0x3f)));
           base64_decode_loop step_b o1 p cs }
       | step_b \<Rightarrow> do {
           x \<leftarrow> rd out p;
           o1 \<leftarrow> wr out p (x OR word_of_int (drop_bit 4 (f AND 0x30)));
           o2 \<leftarrow> wr o1 (p + 1) (word_of_int (push_bit 4 (f AND 0x0f)));
           base64_decode_loop step_c o2 (p + 1) cs }
       | step_c \<Rightarrow> do {
           x \<leftarrow> rd out p;
           o1 \<leftarrow> wr out p (x OR word_of_int (drop_bit 2 (f AND 0x3c)));
           o2 \<leftarrow> wr o1 (p + 1) (word_of_int (push_bit 6 (f AND 0x03)));
           base64_decode_loop step_d o2 (p + 1) cs }
       | step_d \<Rightarrow> do {
           x \<leftarrow> rd out p;
           o1 \<leftarrow> wr out p (x OR word_of_int (f AND 0x3f));
           base64_decode_loop step_a o1 (p + 1) cs }) }"

definition base64_decode_block ::
  "byte list \<Rightarrow> byte list \<Rightarrow> base64_decodestate \<Rightarrow> (byte list \<times> nat \<times> base64_decodestate) option" where
  "base64_decode_block code_in plaintext_out state_in = do {
     out \<leftarrow> wr plaintext_out 0 (plainchar state_in);
     base64_decode_loop (dstep state_in) out 0 code_in }"

subsection \<open>Lemmas\<close>

text \<open>The four 6-bit fields of three bytes.\<close>

definition sx1 :: "byte \<Rightarrow> int" where
  "sx1 a = drop_bit 2 (uchar a)"

definition sx2 :: "byte \<Rightarrow> byte \<Rightarrow> int" where
  "sx2 a b = push_bit 4 (uchar a AND 3) OR drop_bit 4 (uchar b)"

definition sx3 :: "byte \<Rightarrow> byte \<Rightarrow> int" where
  "sx3 b c = push_bit 2 (uchar b AND 15) OR drop_bit 6 (uchar c)"

definition sx4 :: "byte \<Rightarrow> int" where
  "sx4 c = uchar c AND 63"

lemmas sx_defs = sx1_def sx2_def sx3_def sx4_def

fun b64_text :: "byte list \<Rightarrow> byte list" where
  "b64_text [] = []"
| "b64_text [a] = [b64_char (sx1 a), b64_char (sx2 a 0), 61, 61]"
| "b64_text [a, b] = [b64_char (sx1 a), b64_char (sx2 a b), b64_char (sx3 b 0), 61]"
| "b64_text (a # b # c # r) =
     [b64_char (sx1 a), b64_char (sx2 a b), b64_char (sx3 b c), b64_char (sx4 c)] @ b64_text r"

lemma b64_text_length: "length (b64_text s) = 4 * ((length s + 2) div 3)"
proof (induction s rule: b64_text.induct)
  case (4 a b c r)
  have "(3 + (length r + 2)) div 3 = Suc ((length r + 2) div 3)"
    by (subst div_add_self1) simp_all
  then have "(length (a # b # c # r) + 2) div 3 = Suc ((length r + 2) div 3)"
    by (simp add: add.commute)
  with 4 show ?case by simp
qed simp_all

declare b64_encode_loop.simps [simp del] b64_decode_loop.simps [simp del]

text \<open>The table values of the code words.\<close>

lemma b64_tab_decoded:
  "map (\<lambda>c. rd b64_dtab (unat c)) b64_tab = map (\<lambda>k. Some (int k)) [0..<64]"
  "map base64_decode_value b64_tab = map (\<lambda>k. Some (int k)) [0..<64]"
  by code_simp+

lemma b64_tab_length: "length b64_tab = 64"
  by (simp add: b64_tab_def)

lemma b64_tables:
  assumes "0 \<le> k" "k < 64"
  shows "rd b64_dtab (unat (b64_char k)) = Some k" "base64_decode_value (b64_char k) = Some k"
proof -
  have k: "nat k < length b64_tab" "int (nat k) = k" using assms by (simp_all add: b64_tab_length)
  from k(1) show "rd b64_dtab (unat (b64_char k)) = Some k"
    using arg_cong [OF b64_tab_decoded(1), of "\<lambda>l. l ! nat k"] k(2)
    by (simp add: b64_char_def b64_tab_length)
  from k(1) show "base64_decode_value (b64_char k) = Some k"
    using arg_cong [OF b64_tab_decoded(2), of "\<lambda>l. l ! nat k"] k(2)
    by (simp add: b64_char_def b64_tab_length)
qed

lemma b64_pad: "rd b64_dtab 61 = Some (- 2)" "rd b64_dtab (unat (61 :: byte)) = Some (- 2)" "base64_decode_value 61 = Some (- 2)"
  by code_simp+

fun b64_raw :: "byte list \<Rightarrow> byte list" where
  "b64_raw [] = []"
| "b64_raw [a] = b64_group [a] 0"
| "b64_raw [a, b] = b64_group [a, b] 0"
| "b64_raw (a # b # c # r) = b64_group [a, b, c] 0 @ b64_raw r"

lemma replicate_2: "replicate 2 x = [x, x]"
  by (simp add: numeral_eq_Suc)

lemma b64_text_raw:
  "b64_text s = b64_raw s @ replicate ((4 - length (b64_raw s) mod 4) mod 4) 61"
proof (induction s rule: b64_text.induct)
  case (2 a)
  then show ?case by (simp add: b64_group_def Let_def replicate_2 sx_defs)
next
  case (3 a b)
  then show ?case by (simp add: b64_group_def Let_def sx_defs)
next
  case (4 a b c r)
  then show ?case by (simp add: b64_group_def Let_def sx_defs)
qed simp

lemma b64_group_drop: "i < length s \<Longrightarrow> b64_group s i = b64_group (drop i s) 0"
  by (auto simp: b64_group_def Let_def add.commute)

lemma b64_raw_step:
  "s \<noteq> [] \<Longrightarrow> b64_raw s = b64_group s 0 @ b64_raw (drop 3 s)"
  by (cases s rule: b64_raw.cases) (simp_all add: b64_group_def Let_def)

lemma b64_encode_loop_spec:
  assumes "j + length (b64_raw (drop i src)) \<le> length dst"
  shows "b64_encode_loop dst src i j =
    Some (take j dst @ b64_raw (drop i src) @ drop (j + length (b64_raw (drop i src))) dst,
          j + length (b64_raw (drop i src)))"
  using assms
proof (induction dst src i j rule: b64_encode_loop.induct)
  case (1 dst src i j)
  show ?case
  proof (cases "i < length src")
    case True
    let ?g = "b64_group src i"
    have raw: "b64_raw (drop i src) = ?g @ b64_raw (drop (i + 3) src)"
      using True b64_raw_step [of "drop i src"] b64_group_drop [of i src]
      by (simp add: add.commute)
    have bl: "blit dst j ?g = Some (take j dst @ ?g @ drop (j + length ?g) dst)"
      using "1.prems" raw by (simp add: mem_simps)
    have "b64_encode_loop (take j dst @ ?g @ drop (j + length ?g) dst) src (i + 3) (j + length ?g) =
      Some (take j dst @ b64_raw (drop i src) @ drop (j + length (b64_raw (drop i src))) dst,
            j + length (b64_raw (drop i src)))"
      using "1.prems" raw by (subst "1.IH" [OF True bl]) (auto simp: ac_simps)
    then show ?thesis using True bl by (subst b64_encode_loop.simps) simp
  next
    case False
    then show ?thesis by (subst b64_encode_loop.simps) simp
  qed
qed

lemma xs_b64_encode_spec:
  assumes "length (b64_text src) < length dst"
  shows "xs_b64_encode dst src =
    Some (b64_text src @ 0 # drop (length (b64_text src) + 1) dst, length (b64_text src))"
proof -
  let ?r = "b64_raw src" and ?p = "(4 - length (b64_raw src) mod 4) mod 4"
  have l: "length ?r + ?p < length dst" using assms by (simp add: b64_text_raw)
  have bl: "blit (?r @ drop (length ?r) dst) (length ?r) (replicate ?p 61) =
      Some (b64_text src @ drop (length ?r + ?p) dst)"
    using l by (simp add: mem_simps b64_text_raw add.commute)
  have w: "wr (b64_text src @ drop (length ?r + ?p) dst) (length ?r + ?p) 0 =
      Some (b64_text src @ 0 # drop (length ?r + ?p + 1) dst)"
    using l by (simp add: mem_simps b64_text_raw list_update_append Cons_nth_drop_Suc [symmetric])
  show ?thesis
    using l b64_encode_loop_spec [of 0 0 src dst] bl w
    by (simp add: xs_b64_encode_def Let_def) (simp add: b64_text_raw)
qed

text \<open>The bit fields of the code words recompose the bytes.\<close>

lemma sx_range:
  "0 \<le> sx1 a" "sx1 a < 64" "0 \<le> sx2 a b" "sx2 a b < 64" "0 \<le> sx3 b c" "sx3 b c < 64"
  "0 \<le> sx4 c" "sx4 c < 64"
proof -
  have r: "0 \<le> x \<and> x < 64" if "take_bit 6 x = x" for x :: int
    using that take_bit_nonnegative [of 6 x] take_bit_int_less_exp [of 6 x] by simp
  have m: "(3 :: int) = mask 2" "(15 :: int) = mask 4" "(63 :: int) = mask 6"
    by (simp_all add: mask_eq_exp_minus_1)
  have b: "bit x n \<Longrightarrow> n < 8" for x :: byte and n
    using bit_imp_le_length [of x n] by simp
  have "take_bit 6 (sx1 a) = sx1 a" "take_bit 6 (sx2 a b) = sx2 a b"
    "take_bit 6 (sx3 b c) = sx3 b c" "take_bit 6 (sx4 c) = sx4 c"
    unfolding sx_defs m by (auto simp: bit_eq_iff bit_simps dest: b)
  from this [THEN r] show "0 \<le> sx1 a" "sx1 a < 64" "0 \<le> sx2 a b" "sx2 a b < 64"
    "0 \<le> sx3 b c" "sx3 b c < 64" "0 \<le> sx4 c" "sx4 c < 64"
    by blast+
qed

lemma sx_bits:
  "word_of_int (push_bit 2 (sx1 a AND 63) OR drop_bit 4 (sx2 a b AND 48)) = a"
  "word_of_int (push_bit 4 (sx2 a b AND 15) OR drop_bit 2 (sx3 b c AND 60)) = b"
  "word_of_int (push_bit 6 (sx3 b c AND 3) OR (sx4 c AND 63)) = c"
proof -
  have m: "(3 :: int) = mask 2" "(15 :: int) = mask 4" "(63 :: int) = mask 6"
    "(48 :: int) = push_bit 4 (mask 2)" "(60 :: int) = push_bit 2 (mask 4)"
    by (simp_all add: mask_eq_exp_minus_1 push_bit_eq_mult)
  have lt: "n < 8 \<longleftrightarrow> n \<in> {0, 1, 2, 3, 4, 5, 6, 7}" for n :: nat by auto
  have nb: "\<not> bit x 8" "\<not> bit x 9" "\<not> bit x 10" "\<not> bit x 11" for x :: byte
    by (auto dest: bit_imp_le_length)
  show "word_of_int (push_bit 2 (sx1 a AND 63) OR drop_bit 4 (sx2 a b AND 48)) = a"
    "word_of_int (push_bit 4 (sx2 a b AND 15) OR drop_bit 2 (sx3 b c AND 60)) = b"
    "word_of_int (push_bit 6 (sx3 b c AND 3) OR (sx4 c AND 63)) = c"
    unfolding sx_defs m
    by (rule bit_word_eqI;
        auto simp: bit_simps word_size lt nb numeral_2_eq_2 [symmetric] numeral_3_eq_3 [symmetric])+
qed

lemma b64_dquad_bytes:
  "b64_dquad (sx1 a) (sx2 a b) (sx3 b c) (sx4 c) = (a, b, c)"
  "\<exists>d2 d3. b64_dquad (sx1 a) (sx2 a b) s3 s4 = (a, d2, d3)"
  "\<exists>d3. b64_dquad (sx1 a) (sx2 a b) (sx3 b c) s4 = (a, b, d3)"
  by (simp_all only: b64_dquad_def sx_bits drop_bit_0 id_apply prod.inject simp_thms) blast?

lemma b64_char_sx [simp]:
  "rd b64_dtab (unat (b64_char (sx1 a))) = Some (sx1 a)"
  "rd b64_dtab (unat (b64_char (sx2 a b))) = Some (sx2 a b)"
  "rd b64_dtab (unat (b64_char (sx3 b c))) = Some (sx3 b c)"
  "rd b64_dtab (unat (b64_char (sx4 c))) = Some (sx4 c)"
  "base64_decode_value (b64_char (sx1 a)) = Some (sx1 a)"
  "base64_decode_value (b64_char (sx2 a b)) = Some (sx2 a b)"
  "base64_decode_value (b64_char (sx3 b c)) = Some (sx3 b c)"
  "base64_decode_value (b64_char (sx4 c)) = Some (sx4 c)"
  "sx3 b c \<noteq> 99" "sx4 c \<noteq> 99"
  using sx_range(5,6) [of b c] sx_range(7,8) [of c] by (auto intro: b64_tables sx_range)

text \<open>One quantum of four code characters through \<open>xs_b64_decode\<close>.\<close>

lemma b64_quad_step:
  assumes src: "i + 4 \<le> count" "i + 4 \<le> length src"
    "src ! i = c1" "src ! (i + 1) = c2" "src ! (i + 2) = c3" "src ! (i + 3) = c4"
    and tab: "rd b64_dtab (unat c1) = Some s1" "rd b64_dtab (unat c2) = Some s2"
    "rd b64_dtab (unat c3) = Some s3" "rd b64_dtab (unat c4) = Some s4"
    and "s3 \<noteq> 99" "s4 \<noteq> 99" and len: "int len \<le> dstLen" "len + 3 \<le> length dst"
    and q: "b64_dquad s1 s2 s3 s4 = (d1, d2, d3)"
  shows "b64_decode_loop dst dstLen src count i len =
         b64_decode_loop (take len dst @ [d1, d2, d3] @ drop (len + 3) dst) dstLen src count
           (i + 4) (len + 3)"
proof -
  have u: "dst[len := d1, len + 1 := d2, len + 2 := d3] =
      take len dst @ [d1, d2, d3] @ drop (len + 3) dst"
    using len(2) by (intro nth_equalityI) (auto simp: nth_append nth_list_update nth_Cons')
  show ?thesis
    unfolding b64_decode_loop.simps [of dst dstLen src count i len]
    using assms u by (simp add: mem_simps)
qed

fun b64_tail :: "byte list \<Rightarrow> byte list" where
  \<comment> \<open>what \<open>xs_b64_decode\<close> makes of the padding\<close>
  "b64_tail [] = []"
| "b64_tail [a] = [15, 190]"
| "b64_tail [a, b] = [62]"
| "b64_tail (a # b # c # r) = b64_tail r"

lemma b64_tail_length: "length s + length (b64_tail s) = 3 * ((length s + 2) div 3)"
proof (induction s rule: b64_tail.induct)
  case (4 a b c r)
  have "(length (a # b # c # r) + 2) div 3 = Suc ((length r + 2) div 3)"
    using div_add_self1 [of 3 "length r + 2"] by (simp add: add.commute)
  then show ?case using 4 by simp
qed simp_all

lemma b64_dquad_pad:
  "b64_dquad (sx1 a) (sx2 a 0) (- 2) (- 2) = (a, 15, 190)"
  "b64_dquad (sx1 a) (sx2 a b) (sx3 b 0) (- 2) = (a, b, 62)"
proof -
  have m: "(15 :: int) = mask 4" "(3 :: int) = mask 2" by (simp_all add: mask_eq_exp_minus_1)
  have "push_bit 4 (sx2 a 0 AND 15) = 0" unfolding m sx_defs by (auto simp: bit_eq_iff bit_simps)
  then show "b64_dquad (sx1 a) (sx2 a 0) (- 2) (- 2) = (a, 15, 190)"
    using sx_bits(1) [of a 0] by (simp add: b64_dquad_def)
  have "push_bit 6 (sx3 b 0 AND 3) = 0" unfolding m sx_defs by (auto simp: bit_eq_iff bit_simps)
  then show "b64_dquad (sx1 a) (sx2 a b) (sx3 b 0) (- 2) = (a, b, 62)"
    using sx_bits(1,2) by (simp add: b64_dquad_def)
qed

lemma b64_decode_loop_spec:
  assumes "i + length (b64_text s) = length src" "drop i src = b64_text s"
    and "len + length s \<le> nat dstLen" "int (length dst) \<ge> dstLen"
    and "len + 3 * ((length s + 2) div 3) \<le> length dst"
  shows "\<exists>d. b64_decode_loop dst dstLen src (length src) i len =
           Some (d, len + 3 * ((length s + 2) div 3)) \<and> length d = length dst \<and>
           take len d = take len dst \<and> take (3 * ((length s + 2) div 3)) (drop len d) = s @ b64_tail s"
  using assms
proof (induction s arbitrary: i len dst rule: b64_text.induct)
  case 1
  then show ?case by (subst b64_decode_loop.simps) simp
next
  case (2 a)
  have nth: "src ! (i + k) = b64_text [a] ! k" for k
    using "2.prems"(1,2) by (metis le_add1 nth_drop)
  note q = b64_dquad_pad(1) [of a]
  have "b64_decode_loop dst dstLen src (length src) i len =
      b64_decode_loop (take len dst @ [a, 15, 190] @ drop (len + 3) dst) dstLen src (length src)
        (i + 4) (len + 3)"
    by (rule b64_quad_step [where ?c1.0 = "b64_char (sx1 a)" and ?c2.0 = "b64_char (sx2 a 0)" and
          ?c3.0 = 61 and ?c4.0 = 61, OF _ _ _ _ _ _ _ _ _ _ _ _ _ _ q])
      (use "2.prems" nth [of 0] nth [of 1] nth [of 2] nth [of 3] in
        \<open>simp_all add: b64_pad\<close>)
  moreover have "i + 4 = length src" using "2.prems" by simp
  ultimately show ?case using "2.prems" by (subst (asm) (2) b64_decode_loop.simps) simp
next
  case (3 a b)
  have nth: "src ! (i + k) = b64_text [a, b] ! k" for k
    using "3.prems"(1,2) by (metis le_add1 nth_drop)
  note q = b64_dquad_pad(2) [of a b]
  have "b64_decode_loop dst dstLen src (length src) i len =
      b64_decode_loop (take len dst @ [a, b, 62] @ drop (len + 3) dst) dstLen src (length src)
        (i + 4) (len + 3)"
    by (rule b64_quad_step [where ?c1.0 = "b64_char (sx1 a)" and ?c2.0 = "b64_char (sx2 a b)" and
          ?c3.0 = "b64_char (sx3 b 0)" and ?c4.0 = 61, OF _ _ _ _ _ _ _ _ _ _ _ _ _ _ q])
      (use "3.prems" nth [of 0] nth [of 1] nth [of 2] nth [of 3] in
        \<open>simp_all add: b64_pad\<close>)
  moreover have "i + 4 = length src" using "3.prems" by simp
  ultimately show ?case using "3.prems" by (subst (asm) (2) b64_decode_loop.simps) simp
next
  case (4 a b c r)
  have nth: "src ! (i + k) = b64_text (a # b # c # r) ! k" for k
    using "4.prems"(1,2) by (metis le_add1 nth_drop)
  note q = b64_dquad_bytes(1) [of a b c]
  have v: "(length (a # b # c # r) + 2) div 3 = Suc ((length r + 2) div 3)"
    using div_add_self1 [of 3 "length r + 2"] by (simp add: add.commute)
  have st: "b64_decode_loop dst dstLen src (length src) i len =
      b64_decode_loop (take len dst @ [a, b, c] @ drop (len + 3) dst) dstLen src (length src)
        (i + 4) (len + 3)"
    by (rule b64_quad_step [where ?c1.0 = "b64_char (sx1 a)" and ?c2.0 = "b64_char (sx2 a b)" and
          ?c3.0 = "b64_char (sx3 b c)" and ?c4.0 = "b64_char (sx4 c)", OF _ _ _ _ _ _ _ _ _ _ _ _ _ _ q])
      (use "4.prems" v nth [of 0] nth [of 1] nth [of 2] nth [of 3] in
        \<open>simp_all add: b64_pad\<close>)
  let ?d = "take len dst @ [a, b, c] @ drop (len + 3) dst"
  have dr: "drop (i + 4) src = b64_text r"
    using arg_cong [OF "4.prems"(2), of "drop 4"] by (simp add: add.commute)
  have "\<exists>d. b64_decode_loop ?d dstLen src (length src) (i + 4) (len + 3) =
           Some (d, len + 3 + 3 * ((length r + 2) div 3)) \<and> length d = length ?d \<and>
           take (len + 3) d = take (len + 3) ?d \<and> take (3 * ((length r + 2) div 3)) (drop (len + 3) d) = r @ b64_tail r"
    by (rule "4.IH" [OF _ dr]) (use "4.prems" v in auto)
  then obtain d where d: "b64_decode_loop ?d dstLen src (length src) (i + 4) (len + 3) =
           Some (d, len + 3 + 3 * ((length r + 2) div 3))" "length d = length ?d"
    "take (len + 3) d = take (len + 3) ?d" "take (3 * ((length r + 2) div 3)) (drop (len + 3) d) = r @ b64_tail r" by blast
  have l: "len \<le> length dst" using "4.prems" by simp
  have w: "take (len + 3) d = take len dst @ [a, b, c]" using d(3) "4.prems" v by simp
  have "take len d = take len (take (len + 3) d)" by simp
  also have "\<dots> = take len dst" unfolding w using l by simp
  finally have t1: "take len d = take len dst" .
  have "take 3 (drop len d) = drop len (take (len + 3) d)" by (simp add: take_drop add.commute)
  also have "\<dots> = [a, b, c]" unfolding w using l by simp
  finally have t: "take len d = take len dst" "take 3 (drop len d) = [a, b, c]" using t1 by auto
  have "take (3 + 3 * ((length r + 2) div 3)) (drop len d) =
      take 3 (drop len d) @ take (3 * ((length r + 2) div 3)) (drop 3 (drop len d))"
    by (rule take_add)
  then have "take (3 * ((length (a # b # c # r) + 2) div 3)) (drop len d) = (a # b # c # r) @ b64_tail (a # b # c # r)"
    using t(2) d(4) unfolding v by (simp add: drop_drop add.commute)
  then show ?case using st d(1,2) t(1) v "4.prems" by (intro exI [of _ d]) auto
qed

lemma xs_b64_decode_spec:
  assumes "dstLen = int (length dst)" "3 * ((length s + 2) div 3) \<le> length dst"
  shows "\<exists>d. xs_b64_decode dst dstLen (b64_text s) (length (b64_text s)) = Some (d, 3 * ((length s + 2) div 3)) \<and>
    length d = length dst \<and> take (3 * ((length s + 2) div 3)) d = s @ b64_tail s \<and>
    (3 * ((length s + 2) div 3) < length dst \<longrightarrow> d ! (3 * ((length s + 2) div 3)) = 0)"
proof -
  let ?n = "3 * ((length s + 2) div 3)"
  have "length s \<le> ?n" by linarith
  then obtain d where d: "b64_decode_loop dst dstLen (b64_text s) (length (b64_text s)) 0 0 = Some (d, ?n)"
    "length d = length dst" "take ?n d = s @ b64_tail s"
    using b64_decode_loop_spec [of 0 s "b64_text s" 0 dstLen dst] assms by auto
  then show ?thesis
    using assms by (cases "?n < length dst") (simp_all add: xs_b64_decode_def mem_simps)
qed

lemma b64_text_cstr: "is_cstr (b64_text s)"
proof -
  have "\<forall>c\<in>set b64_tab. c \<noteq> 0" by (simp add: b64_tab_def bytes_def)
  then have nz: "0 \<le> k \<Longrightarrow> k < 64 \<Longrightarrow> b64_char k \<noteq> 0" for k
    by (simp add: b64_char_def b64_tab_length)
  show ?thesis
    using nz [OF sx_range(1,2)] nz [OF sx_range(3,4)] nz [OF sx_range(5,6)] nz [OF sx_range(7,8)]
    by (induction s rule: b64_text.induct) (auto simp: eq_commute [of 0])
qed

lemma xs_b64_roundtrip:
  assumes "length (b64_text s) < length dst" "dstLen = int (length dst2)"
    "3 * ((length s + 2) div 3) \<le> length dst2"
    "length s \<le> length dst2"
  shows "\<exists>e d. xs_b64_encode dst s = Some (e, length (b64_text s)) \<and>
           xs_b64_decode dst2 dstLen (cstr e) (length (cstr e)) = Some (d, 3 * ((length s + 2) div 3)) \<and>
           take (length s) d = s"
proof -
  have e: "xs_b64_encode dst s = Some (b64_text s @ 0 # drop (length (b64_text s) + 1) dst,
      length (b64_text s))"
    by (rule xs_b64_encode_spec [OF assms(1)])
  have c: "cstr (b64_text s @ 0 # r) = b64_text s" for r
    using b64_text_cstr [of s] by (rule cstr_terminated)
  obtain d where d: "xs_b64_decode dst2 dstLen (b64_text s) (length (b64_text s)) = Some (d, 3 * ((length s + 2) div 3))"
    "take (3 * ((length s + 2) div 3)) d = s @ b64_tail s"
    using xs_b64_decode_spec [OF assms(2,3)] by blast
  have "length s \<le> 3 * ((length s + 2) div 3)" by linarith
  then have "take (length s) d = s" using arg_cong [OF d(2), of "take (length s)"] by (simp add: min_absorb1)
  with d(1) e c show ?thesis by auto
qed

lemma base64_decode_value_pad [simp]: "base64_decode_value 61 = Some (- 2)"
  by (rule b64_pad)

lemma sx_not_neg [simp]:
  "\<not> sx1 a < 0" "\<not> sx2 a b < 0" "\<not> sx3 b c < 0" "\<not> sx4 c < 0"
  using sx_range(1,2) [of a] sx_range(3,4) [of a b] sx_range(5,6) [of b c] sx_range(7,8) [of c]
  by (simp_all add: not_less)

lemma word_of_int_or: "word_of_int x OR word_of_int y = (word_of_int (x OR y) :: 'a::len word)"
  by (simp add: bit_eq_iff bit_simps)

lemma base64_quad:
  "base64_decode_loop step_a (P @ x0 # x1 # x2 # X) (length P)
     (b64_char (sx1 a) # b64_char (sx2 a b) # b64_char (sx3 b c) # b64_char (sx4 c) # rest) =
   base64_decode_loop step_a (P @ a # b # c # X) (length P + 3) rest"
  by (simp add: mem_simps word_of_int_or sx_bits nth_append list_update_append numeral_3_eq_3
      del: push_bit_and drop_bit_and)

text \<open>Decoding the code text of \<open>s\<close> from \<open>step_a\<close> writes \<open>s\<close> and ends at \<open>length s\<close>.\<close>

lemma base64_decode_loop_spec:
  assumes "length s < length X"
  shows "\<exists>y st. base64_decode_loop step_a (P @ X) (length P) (b64_text s) =
           Some (P @ s @ y # drop (length s + 1) X, length P + length s, st)"
  using assms
proof (induction s arbitrary: P X rule: b64_text.induct)
  case 1
  then show ?case by (cases X) (auto simp: mem_simps nth_append)
next
  case (2 a)
  then obtain x0 x1 X' where "X = x0 # x1 # X'" by (cases X; cases "tl X") auto
  then show ?case
    by (simp add: mem_simps word_of_int_or sx_bits nth_append list_update_append
        del: push_bit_and drop_bit_and)
next
  case (3 a b)
  then obtain x0 x1 x2 X' where "X = x0 # x1 # x2 # X'"
    by (cases X; cases "tl X"; cases "tl (tl X)") auto
  then show ?case
    by (simp add: mem_simps word_of_int_or sx_bits nth_append list_update_append
        del: push_bit_and drop_bit_and)
next
  case (4 a b c r)
  then obtain x0 x1 x2 X' where X: "X = x0 # x1 # x2 # X'" and l: "length r < length X'"
    by (cases X; cases "tl X"; cases "tl (tl X)") auto
  show ?case using "4.IH" [OF l, of "P @ [a, b, c]"] X by (simp add: base64_quad add.commute numeral_3_eq_3
      del: base64_decode_loop.simps)
qed

subsection \<open>Properties\<close>

text \<open>Encoding. When the destination holds the code text and its terminator, \<open>xs_b64_encode\<close>
  writes exactly the base-64 text of the source (four characters for three bytes, padded with \<open>=\<close>),
  terminates it, keeps the rest of the buffer, and returns its length \<open>4 * ceiling (n / 3)\<close>.\<close>

theorem xs_b64_encode_text:
  assumes "4 * ((length src + 2) div 3) < length dst"
  shows "xs_b64_encode dst src =
           Some (b64_text src @ 0 # drop (4 * ((length src + 2) div 3) + 1) dst,
                 4 * ((length src + 2) div 3))"
  using xs_b64_encode_spec [of src dst] assms by (simp add: b64_text_length)

theorem xs_b64_encode_text_witness:
  "xs_b64_encode (replicate 10 7) (bytes ''Ma'') = Some (bytes ''TWE='' @ 0 # replicate 5 7, 4)"
proof -
  have "b64_text (bytes ''Ma'') = bytes ''TWE=''" by code_simp
  moreover have "drop 5 (replicate 10 (7 :: byte)) = replicate 5 7" by simp
  ultimately show ?thesis
    using xs_b64_encode_text [of "bytes ''Ma''" "replicate 10 7"] by simp
qed

text \<open>C25: round trip of the whole-text decoder. Decoding with \<open>xs_b64_decode\<close> what \<open>xs_b64_encode\<close>
  wrote stays inside a buffer of \<open>3 * ceiling (n / 3)\<close> bytes and gives the source back in its first
  \<open>n\<close> bytes. The length returned is always the multiple of three: padding is not recognised.\<close>

theorem xs_b64_decode_encode:
  assumes "length (b64_text s) < length dst" "dstLen = int (length dst2)"
    and "3 * ((length s + 2) div 3) \<le> length dst2"
  shows "\<exists>e d. xs_b64_encode dst s = Some (e, length (b64_text s)) \<and>
           xs_b64_decode dst2 dstLen (cstr e) (length (cstr e)) =
             Some (d, 3 * ((length s + 2) div 3)) \<and>
           take (length s) d = s"
  by (rule xs_b64_roundtrip [OF assms]) (use assms(3) in linarith)

theorem xs_b64_decode_encode_witness:
  "\<exists>e d. xs_b64_encode (replicate 9 0) (bytes ''user'') = Some (e, 8) \<and>
         xs_b64_decode (replicate 6 0) 6 (cstr e) (length (cstr e)) = Some (d, 6) \<and>
         take (length (bytes ''user'')) d = bytes ''user''"
  using xs_b64_decode_encode [of "bytes ''user''" "replicate 9 0" 6 "replicate 6 0"]
  by (simp add: b64_text_length del: b64_text.simps)

text \<open>Round trip of the streaming decoder. From the initial state, \<open>base64_decode_block\<close> skips the
  padding, writes exactly the bytes that were encoded, returns their number, and needs one byte of
  the output buffer more than it decodes.\<close>

theorem base64_decode_block_encoded:
  assumes "length s < length out"
  shows "\<exists>y st. base64_decode_block (b64_text s) out base64_init_decodestate =
           Some (s @ y # drop (length s + 1) out, length s, st)"
proof -
  obtain x X where out: "out = x # X" using assms by (cases out) auto
  have "\<exists>y st. base64_decode_loop step_a ([] @ 0 # X) (length ([] :: byte list)) (b64_text s) =
      Some ([] @ s @ y # drop (length s + 1) (0 # X), length ([] :: byte list) + length s, st)"
    using assms out by (intro base64_decode_loop_spec) simp
  then show ?thesis
    by (simp add: base64_decode_block_def base64_init_decodestate_def out mem_simps)
qed

theorem base64_decode_block_encoded_witness:
  "\<exists>y st. base64_decode_block (b64_text (bytes ''pw'')) [1, 2, 3, 4] base64_init_decodestate =
     Some (bytes ''pw'' @ [y, 4], 2, st)"
  using base64_decode_block_encoded [of "bytes ''pw''" "[1, 2, 3, 4]"]
  by (simp add: numeral_3_eq_3 numeral_2_eq_2)

end
