(* ===== verification/BlockHash.thy ===== *)
theory BlockHash
  imports Prelude
begin

text \<open>
  What SHA-1 (\<open>xs/xs_sha1.h\<close>) and MD5 (\<open>xs/xs_md5.h\<close>) share: data is absorbed in 64-byte blocks, an
  incomplete block waits in the context, and a 64-bit counter holds the length in bits. The locale
  \<open>block_hash\<close> is the contract of an update operation; the clients are the callers that feed a
  message in pieces and the padding of the final operations.
\<close>

subsection \<open>Absorbing blocks\<close>

function absorb :: "('s \<Rightarrow> byte list \<Rightarrow> 's) \<Rightarrow> 's \<Rightarrow> byte list \<Rightarrow> 's" where
  "absorb cmpr s xs =
     (if length xs < 64 then s else absorb cmpr (cmpr s (take 64 xs)) (drop 64 xs))"
  by pat_completeness auto
termination by (relation "measure (\<lambda>(c, s, xs). length xs)") auto

definition remainder :: "byte list \<Rightarrow> byte list" where
  "remainder xs = drop (64 * (length xs div 64)) xs"

declare absorb.simps [simp del]

lemma absorb_short: "length xs < 64 \<Longrightarrow> absorb cmpr s xs = s"
  by (subst absorb.simps) simp

lemma absorb_block:
  "length b = 64 \<Longrightarrow> absorb cmpr s (b @ xs) = absorb cmpr (cmpr s b) xs"
  by (subst absorb.simps) simp

lemma remainder_short: "length xs < 64 \<Longrightarrow> remainder xs = xs"
  by (simp add: remainder_def)

lemma remainder_length: "length (remainder xs) = length xs mod 64"
  by (simp add: remainder_def minus_mult_div_eq_mod)

lemma remainder_block: "length b = 64 \<Longrightarrow> remainder (b @ xs) = remainder xs"
  by (simp add: remainder_def div_add_self1)

text \<open>Both are determined blockwise: a long list is a block and a rest.\<close>

lemma block_induct [case_names short block]:
  assumes "\<And>xs. length xs < 64 \<Longrightarrow> P xs"
    and "\<And>b xs. length b = 64 \<Longrightarrow> P xs \<Longrightarrow> P (b @ xs)"
  shows "P (xs :: byte list)"
proof (induction xs rule: length_induct)
  case (1 xs)
  show ?case
  proof (cases "length xs < 64")
    case False
    then have "P (take 64 xs @ drop 64 xs)" using 1 by (intro assms(2)) auto
    then show ?thesis by simp
  qed (rule assms(1))
qed

lemma absorb_append:
  "absorb cmpr s (xs @ ys) = absorb cmpr (absorb cmpr s xs) (remainder xs @ ys)"
proof (induction xs arbitrary: s rule: block_induct)
  case (short xs)
  then show ?case by (simp add: absorb_short remainder_short)
next
  case (block b xs)
  then show ?case by (simp add: absorb_block remainder_block)
qed

lemma remainder_append: "remainder (xs @ ys) = remainder (remainder xs @ ys)"
proof (induction xs rule: block_induct)
  case (short xs)
  then show ?case by (simp add: remainder_short)
next
  case (block b xs)
  then show ?case by (simp add: remainder_block)
qed

lemma absorb_fold:
  assumes "\<And>b. b \<in> set bs \<Longrightarrow> length b = 64"
  shows "absorb cmpr s (concat bs) = foldl cmpr s bs"
  using assms by (induction bs arbitrary: s) (simp_all add: absorb_short absorb_block)

subsection \<open>Counters, bytes and padding\<close>

lemma and_63: "unat (x AND 63) = unat x mod 64" for x :: u32
proof -
  have "x AND 63 = take_bit 6 x" by (simp add: take_bit_eq_mask mask_eq_exp_minus_1)
  moreover have "unat (take_bit 6 x) = take_bit 6 (unat x)" by (rule unsigned_take_bit_eq)
  ultimately show ?thesis by (simp only:) (simp add: take_bit_eq_mod)
qed

lemma unat_drop: "unat (drop_bit n x) = unat x div 2 ^ n" for x :: u32
  by (rule trans [OF unat_drop_bit_eq drop_bit_eq_div])

text \<open>The two-word bit counter of both contexts.\<close>

lemma counter_add:
  fixes c0 c1 len :: u32
  shows "(let n0 = c0 + push_bit 3 len; n1 = (if n0 < c0 then c1 + 1 else c1) + drop_bit 29 len
     in (unat n0 + 2 ^ 32 * unat n1) mod 2 ^ 64) =
     (unat c0 + 2 ^ 32 * unat c1 + 8 * unat len) mod 2 ^ 64"
proof -
  define P D where "P = (8 * unat len) mod 2 ^ 32" and "D = (8 * unat len) div 2 ^ 32"
  define n0 where "n0 = c0 + push_bit 3 len"
  define k where "k = (if n0 < c0 then 1 else 0 :: nat)"
  have p: "unat (push_bit 3 len) = P"
    by (simp add: P_def push_bit_eq_mult unat_word_ariths mult.commute)
  have "(8 * unat len) div (8 * 2 ^ 29) = unat len div 2 ^ 29"
    by (rule div_mult_mult1) simp
  then have d: "unat (drop_bit 29 len) = D"
    by (simp add: D_def unat_drop)
  have n0: "unat n0 = (unat c0 + P) mod 2 ^ 32"
    using p by (simp add: n0_def unat_word_ariths)
  have "unat c0 < 2 ^ LENGTH(32)" by (rule unsigned_less)
  then have b: "unat c0 < 2 ^ 32" "P < 2 ^ 32" by (simp_all add: P_def)
  have s: "unat n0 + 2 ^ 32 * k = unat c0 + P"
  proof (cases "unat c0 + P < 2 ^ 32")
    case True
    then have "unat n0 = unat c0 + P" using n0 by simp
    then show ?thesis by (simp add: k_def word_less_nat_alt)
  next
    case False
    then have e: "unat n0 = unat c0 + P - 2 ^ 32"
      using n0 b by (simp add: mod_if [of "unat c0 + P"])
    then have "unat n0 < unat c0" using b False by linarith
    then show ?thesis using e False by (simp add: k_def word_less_nat_alt)
  qed
  have n1: "unat ((if n0 < c0 then c1 + 1 else c1) + drop_bit 29 len) = (unat c1 + k + D) mod 2 ^ 32"
    using d by (simp add: k_def unat_word_ariths mod_simps)
  have "(unat n0 + 2 ^ 32 * ((unat c1 + k + D) mod 2 ^ 32)) mod 2 ^ 64 =
      (unat n0 + 2 ^ 32 * (unat c1 + k + D)) mod 2 ^ 64"
  proof -
    have "(2 ^ 32 * m) mod 2 ^ 64 = 2 ^ 32 * (m mod 2 ^ 32)" for m :: nat
      using mult_mod_right [of "2 ^ 32" m "2 ^ 32"] by (simp flip: power_add)
    then show ?thesis by (metis mod_add_right_eq mod_mod_trivial)
  qed
  also have "unat n0 + 2 ^ 32 * (unat c1 + k + D) = (unat n0 + 2 ^ 32 * k) + 2 ^ 32 * unat c1 + 2 ^ 32 * D"
    by (simp add: algebra_simps)
  also have "\<dots> = unat c0 + 2 ^ 32 * unat c1 + 8 * unat len"
  proof -
    have "P + 2 ^ 32 * D = 8 * unat len" unfolding P_def D_def by (rule mod_mult_div_eq)
    then show ?thesis unfolding s by linarith
  qed
  finally show ?thesis unfolding Let_def n0_def [symmetric] n1 .
qed

lemma byte_of_word:
  "ucast (drop_bit (8 * k) x AND 255) = (word_of_nat (unat (x :: u32) div 256 ^ k) :: byte)"
proof -
  have m: "(255 :: u32) = mask 8" by (simp add: mask_eq_exp_minus_1)
  have "ucast (drop_bit (8 * k) x AND 255) = (ucast (drop_bit (8 * k) x) :: byte)"
    unfolding m by (rule bit_word_eqI) (auto simp: bit_simps)
  also have "\<dots> = word_of_nat (unat (drop_bit (8 * k) x))" by (rule of_nat_unat [symmetric])
  finally show ?thesis by (simp add: unat_drop power_mult)
qed

text \<open>The number of zero bytes that the final operation adds after the byte 0x80.\<close>

definition zeros :: "nat \<Rightarrow> nat" where
  "zeros p = (if p \<le> 56 then 56 - p else 120 - p)"

lemma zeros_step:
  "p < 64 \<Longrightarrow> p \<noteq> 56 \<Longrightarrow> zeros p = Suc (zeros ((p + 1) mod 64))" "zeros p = 0 \<Longrightarrow> p < 64 \<Longrightarrow> p = 56"
proof -
  assume "p < 64" "p \<noteq> 56"
  then show "zeros p = Suc (zeros ((p + 1) mod 64))"
    by (cases "p = 63") (auto simp: zeros_def)
qed (auto simp: zeros_def split: if_splits)

lemma bytes_hi: "a < 2 ^ 32 \<Longrightarrow> (a + 2 ^ 32 * b) div 256 ^ (4 + k) = b div (256 :: nat) ^ k"
proof -
  assume "a < 2 ^ 32"
  moreover have "(256 :: nat) ^ (4 + k) = 2 ^ 32 * 256 ^ k" by (simp add: power_add)
  ultimately show ?thesis by (simp add: div_mult2_eq)
qed

lemma bytes_lo:
  assumes "k < 4"
  shows "(word_of_nat ((a + 2 ^ 32 * b) div 256 ^ k) :: byte) = word_of_nat (a div 256 ^ k)"
proof -
  have "(2 :: nat) ^ 32 = 256 ^ k * (256 * 256 ^ (3 - k))"
    using assms by (cases k; cases "k - 1"; cases "k - 2") auto
  then have e: "2 ^ 32 * b = 256 ^ k * (256 * 256 ^ (3 - k) * b)" by (simp only: mult.assoc)
  have "(256 :: nat) ^ k \<noteq> 0" by simp
  then have "(a + 2 ^ 32 * b) div 256 ^ k = 256 * 256 ^ (3 - k) * b + a div 256 ^ k"
    unfolding e by (rule div_mult_self2)
  moreover have "(word_of_nat (256 * 256 ^ (3 - k) * b) :: byte) = 0"
  proof -
    have "(word_of_nat 256 :: byte) = 0" by simp
    then show ?thesis by (simp only: of_nat_mult mult_zero_left)
  qed
  ultimately show ?thesis by simp
qed

text \<open>Both ways the contexts detect the carry of the low counter word.\<close>

lemma carry_iff: "(x + y < x) = (x + y < (y :: u32))"
proof -
  have b: "unat x < 2 ^ 32" "unat y < 2 ^ 32"
    using unsigned_less [of x] unsigned_less [of y] by simp_all
  have s: "unat (x + y) = (unat x + unat y) mod 2 ^ 32" by (simp add: unat_word_ariths)
  show ?thesis
  proof (cases "unat x + unat y < 2 ^ 32")
    case True
    then show ?thesis by (simp add: word_less_nat_alt s)
  next
    case False
    then have "(unat x + unat y) mod 2 ^ 32 = unat x + unat y - 2 ^ 32"
      using b by (simp add: le_mod_geq)
    then show ?thesis using False b unfolding word_less_nat_alt s by linarith
  qed
qed

text \<open>Splitting off the bytes after an incomplete block.\<close>

lemma remainder_offset:
  assumes "i \<le> length (d :: byte list)"
  shows "drop (length d - length (remainder (drop i d))) d = remainder (drop i d)"
proof -
  have "64 * (length (drop i d) div 64) + i = length d - length (remainder (drop i d))"
    using assms mult_div_mod_eq [of 64 "length (drop i d)"] unfolding remainder_length length_drop
    by linarith
  then show ?thesis by (simp add: remainder_def)
qed

subsection \<open>The contract of an update operation\<close>

locale block_hash =
  fixes cmpr :: "'s \<Rightarrow> byte list \<Rightarrow> 's"
    and upd :: "'c \<Rightarrow> byte list \<Rightarrow> 'c"
    and chain :: "'c \<Rightarrow> 's"
    and pend :: "'c \<Rightarrow> byte list"
    and bits :: "'c \<Rightarrow> nat"
    and ok :: "'c \<Rightarrow> bool"
    and lim :: nat
  assumes upd_ok: "ok c \<Longrightarrow> length d \<le> lim \<Longrightarrow> ok (upd c d)"
    and pend_short: "ok c \<Longrightarrow> length (pend c) < 64"
    and pend_bits: "ok c \<Longrightarrow> (bits c div 8) mod 64 = length (pend c)"
    and upd_chain: "ok c \<Longrightarrow> length d \<le> lim \<Longrightarrow> chain (upd c d) = absorb cmpr (chain c) (pend c @ d)"
    and upd_pend: "ok c \<Longrightarrow> length d \<le> lim \<Longrightarrow> pend (upd c d) = remainder (pend c @ d)"
    and upd_bits: "ok c \<Longrightarrow> length d \<le> lim \<Longrightarrow> bits (upd c d) = (bits c + 8 * length d) mod 2 ^ 64"
begin

text \<open>Two contexts that no later operation can tell apart.\<close>

definition same :: "'c \<Rightarrow> 'c \<Rightarrow> bool" where
  "same c d \<longleftrightarrow> chain c = chain d \<and> pend c = pend d \<and> bits c = bits d"

lemma upd_append:
  assumes "ok c" "length (xs @ ys) \<le> lim"
  shows "same (upd (upd c xs) ys) (upd c (xs @ ys))"
proof -
  have ok: "ok (upd c xs)" using assms by (intro upd_ok) auto
  have "bits (upd (upd c xs) ys) = ((bits c + 8 * length xs) mod 2 ^ 64 + 8 * length ys) mod 2 ^ 64"
    using assms ok by (simp add: upd_bits)
  also have "\<dots> = bits (upd c (xs @ ys))"
    using assms by (simp add: upd_bits mod_simps add.assoc distrib_left)
  finally have "bits (upd (upd c xs) ys) = bits (upd c (xs @ ys))" .
  moreover have "chain (upd (upd c xs) ys) = chain (upd c (xs @ ys))"
    using assms ok absorb_append [of cmpr "chain c" "pend c @ xs" ys]
    by (simp add: upd_chain upd_pend)
  moreover have "pend (upd (upd c xs) ys) = pend (upd c (xs @ ys))"
    using assms ok remainder_append [of "pend c @ xs" ys] by (simp add: upd_pend)
  ultimately show ?thesis by (simp add: same_def)
qed

lemma fold_upd:
  assumes "ok c" "\<And>p. p \<in> set ps \<Longrightarrow> length p \<le> lim"
  shows "ok (foldl upd c ps) \<and>
    chain (foldl upd c ps) = absorb cmpr (chain c) (pend c @ concat ps) \<and>
    pend (foldl upd c ps) = remainder (pend c @ concat ps) \<and>
    bits (foldl upd c ps) mod 2 ^ 64 = (bits c + 8 * length (concat ps)) mod 2 ^ 64"
  using assms
proof (induction ps arbitrary: c)
  case Nil
  then show ?case using pend_short [of c] by (simp add: absorb_short remainder_short)
next
  case (Cons p ps)
  have ok: "ok (upd c p)" and p: "length p \<le> lim" using Cons.prems upd_ok by auto
  from Cons.IH [OF ok] Cons.prems have IH: "ok (foldl upd (upd c p) ps)"
    "chain (foldl upd (upd c p) ps) = absorb cmpr (chain (upd c p)) (pend (upd c p) @ concat ps)"
    "pend (foldl upd (upd c p) ps) = remainder (pend (upd c p) @ concat ps)"
    "bits (foldl upd (upd c p) ps) mod 2 ^ 64 =
      (bits (upd c p) + 8 * length (concat ps)) mod 2 ^ 64" by auto
  have b: "bits (foldl upd (upd c p) ps) mod 2 ^ 64 =
      (bits c + 8 * length (concat (p # ps))) mod 2 ^ 64"
    unfolding IH(4) using Cons.prems p by (simp add: upd_bits mod_simps add.assoc distrib_left)
  show ?case
    using IH(1-3) b Cons.prems p absorb_append [of cmpr "chain c" "pend c @ p" "concat ps"]
      remainder_append [of "pend c @ p" "concat ps"]
    by (simp add: upd_chain upd_pend)
qed

end

end
