(* ===== verification/Sha1.thy ===== *)
theory Sha1
  imports BlockHash
begin

text \<open>
  SHA-1 of \<open>xs/xs_sha1.h\<close>. The five local variables of \<open>SHA1Transform\<close> are a record, the 80 macro
  calls a list that names the macro and the variables it is given, in the order of the source, and
  the union block is the list of its sixteen words as the machine loads them. The reference is the
  standard's formulation: the 80-word message schedule and one round that shifts the variables.
\<close>

subsection \<open>The transformation\<close>

definition rol :: "u32 \<Rightarrow> nat \<Rightarrow> u32" where
  "rol value bits = push_bit bits value OR drop_bit (32 - bits) value"

datatype sha_var = A | B | C | D | E

datatype sha_macro = R0 | R1 | R2 | R3 | R4

type_synonym sha_vars = "sha_var \<Rightarrow> u32"

definition blk0 :: "bool \<Rightarrow> u32 list \<Rightarrow> nat \<Rightarrow> u32 list" where
  "blk0 big block i =
     (if \<not> big
      then block[i := (rol (block ! i) 24 AND 0xFF00FF00) OR (rol (block ! i) 8 AND 0x00FF00FF)]
      else block)"

definition blk :: "u32 list \<Rightarrow> nat \<Rightarrow> u32 list" where
  "blk block i =
     block[i mod 16 := rol (block ! ((i + 13) mod 16) XOR block ! ((i + 8) mod 16) XOR
       block ! ((i + 2) mod 16) XOR block ! (i mod 16)) 1]"

fun sha_mix :: "sha_macro \<Rightarrow> u32 \<Rightarrow> u32 \<Rightarrow> u32 \<Rightarrow> u32" where
  "sha_mix R0 w x y = (w AND (x XOR y)) XOR y"
| "sha_mix R1 w x y = (w AND (x XOR y)) XOR y"
| "sha_mix R2 w x y = w XOR x XOR y"
| "sha_mix R3 w x y = ((w OR x) AND y) OR (w AND x)"
| "sha_mix R4 w x y = w XOR x XOR y"

fun sha_const :: "sha_macro \<Rightarrow> u32" where
  "sha_const R0 = 0x5A827999"
| "sha_const R1 = 0x5A827999"
| "sha_const R2 = 0x6ED9EBA1"
| "sha_const R3 = 0x8F1BBCDC"
| "sha_const R4 = 0xCA62C1D6"

type_synonym sha_call = "sha_macro \<times> sha_var \<times> sha_var \<times> sha_var \<times> sha_var \<times> sha_var \<times> nat"

fun sha_apply :: "bool \<Rightarrow> sha_call \<Rightarrow> sha_vars \<times> u32 list \<Rightarrow> sha_vars \<times> u32 list" where
  "sha_apply big (m, v, w, x, y, z, i) (r, block) =
     (let block' = (if m = R0 then blk0 big block i else blk block i);
          word = (if m = R0 then block' ! i else block' ! (i mod 16));
          r1 = r(z := r z + (sha_mix m (r w) (r x) (r y) + word + sha_const m + rol (r v) 5))
      in (r1(w := rol (r1 w) 30), block'))"

definition sha_calls :: "sha_call list" where
  "sha_calls =
    [(R0, A, B, C, D, E, 0), (R0, E, A, B, C, D, 1), (R0, D, E, A, B, C, 2), (R0, C, D, E, A, B, 3),
     (R0, B, C, D, E, A, 4), (R0, A, B, C, D, E, 5), (R0, E, A, B, C, D, 6), (R0, D, E, A, B, C, 7),
     (R0, C, D, E, A, B, 8), (R0, B, C, D, E, A, 9), (R0, A, B, C, D, E, 10), (R0, E, A, B, C, D, 11),
     (R0, D, E, A, B, C, 12), (R0, C, D, E, A, B, 13), (R0, B, C, D, E, A, 14), (R0, A, B, C, D, E, 15),
     (R1, E, A, B, C, D, 16), (R1, D, E, A, B, C, 17), (R1, C, D, E, A, B, 18), (R1, B, C, D, E, A, 19),
     (R2, A, B, C, D, E, 20), (R2, E, A, B, C, D, 21), (R2, D, E, A, B, C, 22), (R2, C, D, E, A, B, 23),
     (R2, B, C, D, E, A, 24), (R2, A, B, C, D, E, 25), (R2, E, A, B, C, D, 26), (R2, D, E, A, B, C, 27),
     (R2, C, D, E, A, B, 28), (R2, B, C, D, E, A, 29), (R2, A, B, C, D, E, 30), (R2, E, A, B, C, D, 31),
     (R2, D, E, A, B, C, 32), (R2, C, D, E, A, B, 33), (R2, B, C, D, E, A, 34), (R2, A, B, C, D, E, 35),
     (R2, E, A, B, C, D, 36), (R2, D, E, A, B, C, 37), (R2, C, D, E, A, B, 38), (R2, B, C, D, E, A, 39),
     (R3, A, B, C, D, E, 40), (R3, E, A, B, C, D, 41), (R3, D, E, A, B, C, 42), (R3, C, D, E, A, B, 43),
     (R3, B, C, D, E, A, 44), (R3, A, B, C, D, E, 45), (R3, E, A, B, C, D, 46), (R3, D, E, A, B, C, 47),
     (R3, C, D, E, A, B, 48), (R3, B, C, D, E, A, 49), (R3, A, B, C, D, E, 50), (R3, E, A, B, C, D, 51),
     (R3, D, E, A, B, C, 52), (R3, C, D, E, A, B, 53), (R3, B, C, D, E, A, 54), (R3, A, B, C, D, E, 55),
     (R3, E, A, B, C, D, 56), (R3, D, E, A, B, C, 57), (R3, C, D, E, A, B, 58), (R3, B, C, D, E, A, 59),
     (R4, A, B, C, D, E, 60), (R4, E, A, B, C, D, 61), (R4, D, E, A, B, C, 62), (R4, C, D, E, A, B, 63),
     (R4, B, C, D, E, A, 64), (R4, A, B, C, D, E, 65), (R4, E, A, B, C, D, 66), (R4, D, E, A, B, C, 67),
     (R4, C, D, E, A, B, 68), (R4, B, C, D, E, A, 69), (R4, A, B, C, D, E, 70), (R4, E, A, B, C, D, 71),
     (R4, D, E, A, B, C, 72), (R4, C, D, E, A, B, 73), (R4, B, C, D, E, A, 74), (R4, A, B, C, D, E, 75),
     (R4, E, A, B, C, D, 76), (R4, D, E, A, B, C, 77), (R4, C, D, E, A, B, 78), (R4, B, C, D, E, A, 79)]"

definition load_words :: "bool \<Rightarrow> byte list \<Rightarrow> u32 list" where
  "load_words big b =
     map (\<lambda>i. load32 big (b ! (4 * i)) (b ! (4 * i + 1)) (b ! (4 * i + 2)) (b ! (4 * i + 3))) [0..<16]"

definition SHA1Transform :: "bool \<Rightarrow> u32 list \<Rightarrow> byte list \<Rightarrow> u32 list" where
  "SHA1Transform big state buffer =
     (let vars = (\<lambda>x. case x of A \<Rightarrow> state ! 0 | B \<Rightarrow> state ! 1 | C \<Rightarrow> state ! 2 | D \<Rightarrow> state ! 3 | E \<Rightarrow> state ! 4);
          (r, block) = fold (sha_apply big) sha_calls (vars, load_words big buffer)
      in [state ! 0 + r A, state ! 1 + r B, state ! 2 + r C, state ! 3 + r D, state ! 4 + r E])"

subsection \<open>Init, update, final\<close>

record SHA1_CTX =
  sstate :: "u32 list"
  scount0 :: u32
  scount1 :: u32
  sbuffer :: "byte list"

definition SHA1Init :: "SHA1_CTX \<Rightarrow> SHA1_CTX" where
  "SHA1Init context =
     context\<lparr>sstate := [0x67452301, 0xEFCDAB89, 0x98BADCFE, 0x10325476, 0xC3D2E1F0],
       scount0 := 0, scount1 := 0\<rparr>"

function sha_blocks :: "bool \<Rightarrow> u32 list \<Rightarrow> byte list \<Rightarrow> nat \<Rightarrow> u32 list \<times> nat" where
  \<comment> \<open>the loop over the full blocks of the data from offset \<open>i\<close>\<close>
  "sha_blocks big state data i =
     (if i + 63 < length data
      then sha_blocks big (SHA1Transform big state (seg data i 64)) data (i + 64)
      else (state, i))"
  by pat_completeness auto
termination by (relation "measure (\<lambda>(b, s, d, i). length d - i)") auto

definition SHA1Update :: "bool \<Rightarrow> SHA1_CTX \<Rightarrow> byte list \<Rightarrow> SHA1_CTX" where
  "SHA1Update big context data =
     (let len = word_of_nat (length data) :: u32;
          j0 = scount0 context;
          c0 = scount0 context + push_bit 3 len;
          c1 = (if c0 < j0 then scount1 context + 1 else scount1 context) + drop_bit 29 len;
          j = unat (drop_bit 3 j0 AND 63)
      in if j + length data > 63
         then let i = 64 - j;
                  buf = take j (sbuffer context) @ take i data;
                  (st, i') = sha_blocks big (SHA1Transform big (sstate context) buf) data i
              in \<lparr>sstate = st, scount0 = c0, scount1 = c1,
                   sbuffer = drop i' data @ drop (length data - i') buf\<rparr>
         else \<lparr>sstate = sstate context, scount0 = c0, scount1 = c1,
               sbuffer = take j (sbuffer context) @ data @ drop (j + length data) (sbuffer context)\<rparr>)"

fun sha_pad :: "bool \<Rightarrow> nat \<Rightarrow> SHA1_CTX \<Rightarrow> SHA1_CTX option" where
  \<comment> \<open>the zero-byte loop of \<open>SHA1Final\<close>, with fuel\<close>
  "sha_pad big fuel context =
     (if scount0 context AND 504 \<noteq> 448
      then (case fuel of 0 \<Rightarrow> None | Suc n \<Rightarrow> sha_pad big n (SHA1Update big context [0]))
      else Some context)"

definition sha_finalcount :: "SHA1_CTX \<Rightarrow> byte list" where
  "sha_finalcount context =
     map (\<lambda>i. ucast (drop_bit ((3 - i mod 4) * 8)
            (if i \<ge> 4 then scount0 context else scount1 context) AND 255)) [0..<8]"

definition SHA1Final :: "bool \<Rightarrow> SHA1_CTX \<Rightarrow> byte list option" where
  \<comment> \<open>the digest; the context is cleared afterwards\<close>
  "SHA1Final big context =
     (let finalcount = sha_finalcount context in do {
        c1 \<leftarrow> sha_pad big 64 (SHA1Update big context [0x80]);
        let c2 = SHA1Update big c1 finalcount;
        Some (map (\<lambda>i. ucast (drop_bit ((3 - i mod 4) * 8) (sstate c2 ! (i div 4)) AND 255)) [0..<20]) })"

subsection \<open>The standard's formulation\<close>

function sha_W :: "u32 list \<Rightarrow> nat \<Rightarrow> u32" where
  "sha_W M t =
     (if t < 16 then M ! t
      else rol (sha_W M (t - 3) XOR sha_W M (t - 8) XOR sha_W M (t - 14) XOR sha_W M (t - 16)) 1)"
  by pat_completeness auto
termination by (relation "measure snd") auto

definition sha_f :: "nat \<Rightarrow> u32 \<Rightarrow> u32 \<Rightarrow> u32 \<Rightarrow> u32" where
  "sha_f t b c d =
     (if t < 20 then (b AND c) OR (NOT b AND d)
      else if t < 40 then b XOR c XOR d
      else if t < 60 then (b AND c) OR (b AND d) OR (c AND d)
      else b XOR c XOR d)"

definition sha_K :: "nat \<Rightarrow> u32" where
  "sha_K t = (if t < 20 then 0x5A827999 else if t < 40 then 0x6ED9EBA1
     else if t < 60 then 0x8F1BBCDC else 0xCA62C1D6)"

type_synonym sha_regs = "u32 \<times> u32 \<times> u32 \<times> u32 \<times> u32"

fun sha_round :: "u32 list \<Rightarrow> nat \<Rightarrow> sha_regs \<Rightarrow> sha_regs" where
  "sha_round M t (a, b, c, d, e) =
     (rol a 5 + sha_f t b c d + e + sha_K t + sha_W M t, a, rol b 30, c, d)"

definition sha_block_words :: "byte list \<Rightarrow> u32 list" where
  "sha_block_words b =
     map (\<lambda>i. le32 (b ! (4 * i + 3)) (b ! (4 * i + 2)) (b ! (4 * i + 1)) (b ! (4 * i))) [0..<16]"

definition sha_compress :: "u32 list \<Rightarrow> byte list \<Rightarrow> u32 list" where
  "sha_compress H b =
     (case fold (sha_round (sha_block_words b)) [0..<80] (H ! 0, H ! 1, H ! 2, H ! 3, H ! 4) of
        (x0, x1, x2, x3, x4) \<Rightarrow> [H ! 0 + x0, H ! 1 + x1, H ! 2 + x2, H ! 3 + x3, H ! 4 + x4])"

declare sha_W.simps [simp del]

subsection \<open>The macro calls are the rounds\<close>

text \<open>The variable that plays the role \<open>k\<close> (0 for \<open>v\<close>, 4 for \<open>z\<close>) in call \<open>t\<close>.\<close>

definition svar :: "nat \<Rightarrow> sha_var" where
  "svar k = [A, B, C, D, E] ! (k mod 5)"

definition smacro :: "nat \<Rightarrow> sha_macro" where
  "smacro t = (if t < 16 then R0 else if t < 20 then R1 else if t < 40 then R2
     else if t < 60 then R3 else R4)"

lemma sha_calls_regular:
  "sha_calls = map (\<lambda>t. (smacro t, svar (4 * t), svar (4 * t + 1), svar (4 * t + 2),
     svar (4 * t + 3), svar (4 * t + 4), t)) [0..<80]"
  by code_simp

lemma svar_mod: "svar (k mod 5) = svar k"
  by (simp add: svar_def)

lemma svar_add5 [simp]: "svar (k + 5) = svar k"
  by (simp add: svar_def)

lemma svar_eq_iff: "svar k = svar l \<longleftrightarrow> k mod 5 = l mod 5"
proof -
  have "k mod 5 \<in> {0, 1, 2, 3, 4}" "l mod 5 \<in> {0, 1, 2, 3, 4}" by auto
  then show ?thesis unfolding svar_def by (elim insertE emptyE) (simp_all only:, simp_all)
qed

lemma sha_mix_f: "sha_mix (smacro t) b c d = sha_f t b c d"
proof -
  have "(b AND (c XOR d)) XOR d = (b AND c) OR (NOT b AND d)"
    by (rule bit_word_eqI) (auto simp: bit_simps)
  moreover have "((b OR c) AND d) OR (b AND c) = (b AND c) OR (b AND d) OR (c AND d)"
    by (rule bit_word_eqI) (auto simp: bit_simps)
  ultimately show ?thesis by (simp add: smacro_def sha_f_def)
qed

lemma sha_const_K: "sha_const (smacro t) = sha_K t"
  by (simp add: smacro_def sha_K_def)

text \<open>The sixteen words in place against the schedule.\<close>

definition sched :: "bool \<Rightarrow> byte list \<Rightarrow> nat \<Rightarrow> u32 list \<Rightarrow> bool" where
  "sched big b t block \<longleftrightarrow> length block = 16 \<and>
     (\<forall>s<t. t \<le> s + 16 \<longrightarrow> block ! (s mod 16) = sha_W (sha_block_words b) s) \<and>
     (\<forall>s. t \<le> s \<longrightarrow> s < 16 \<longrightarrow> block ! s = load_words big b ! s)"

lemma swap_le32:
  "(rol (le32 a b c d) 24 AND 0xFF00FF00) OR (rol (le32 a b c d) 8 AND 0x00FF00FF) = le32 d c b a"
proof -
  have m: "(0xFF00FF00 :: u32) = push_bit 8 (mask 8) OR push_bit 24 (mask 8)"
    "(0x00FF00FF :: u32) = mask 8 OR push_bit 16 (mask 8)"
    by (simp_all add: mask_eq_exp_minus_1 push_bit_eq_mult)
  show ?thesis
  proof (rule bit_word_eqI)
    fix n assume n: "n < LENGTH(32)"
    then consider "n < 8" | "8 \<le> n" "n < 16" | "16 \<le> n" "n < 24" | "24 \<le> n" "n < 32"
      by (auto simp: not_less [symmetric])
    then show "bit ((rol (le32 a b c d) 24 AND 0xFF00FF00) OR (rol (le32 a b c d) 8 AND 0x00FF00FF)) n =
        bit (le32 d c b a) n"
      unfolding m le32_def rol_def
      by cases (auto simp: bit_simps dest: bit_imp_le_length)
  qed
qed

lemma sched_init: "sched big b 0 (load_words big b)"
  by (simp add: sched_def load_words_def)

lemma sched_blk0:
  assumes "sched big b t block" "t < 16"
  shows "sched big b (Suc t) (blk0 big block t)"
    and "blk0 big block t ! t = sha_W (sha_block_words b) t"
proof -
  have len: "length block = 16" and
    old: "\<forall>s<t. block ! s = sha_W (sha_block_words b) s" and
    raw: "\<forall>s. t \<le> s \<longrightarrow> s < 16 \<longrightarrow> block ! s = load_words big b ! s"
    using assms by (auto simp: sched_def)
  have w: "sha_W (sha_block_words b) t =
      le32 (b ! (4 * t + 3)) (b ! (4 * t + 2)) (b ! (4 * t + 1)) (b ! (4 * t))"
    using assms by (subst sha_W.simps) (simp add: sha_block_words_def)
  have bt: "block ! t = load32 big (b ! (4 * t)) (b ! (4 * t + 1)) (b ! (4 * t + 2)) (b ! (4 * t + 3))"
    using raw assms(2) by (simp add: load_words_def)
  show at: "blk0 big block t ! t = sha_W (sha_block_words b) t"
    using len assms(2) by (cases big) (simp_all add: blk0_def w bt load32_def swap_le32)
  have other: "blk0 big block t ! s = block ! s" if "s \<noteq> t" for s
    using that by (simp add: blk0_def)
  have "length (blk0 big block t) = 16" using len by (simp add: blk0_def)
  moreover have "\<forall>s<Suc t. blk0 big block t ! s = sha_W (sha_block_words b) s"
    using at old other by (auto simp: less_Suc_eq)
  ultimately show "sched big b (Suc t) (blk0 big block t)"
    using assms(2) raw other by (auto simp: sched_def)
qed

lemma sched_blk:
  assumes "sched big b t block" "16 \<le> t"
  shows "sched big b (Suc t) (blk block t)"
    and "blk block t ! (t mod 16) = sha_W (sha_block_words b) t"
proof -
  have len: "length block = 16" and
    old: "\<And>s. s < t \<Longrightarrow> t \<le> s + 16 \<Longrightarrow> block ! (s mod 16) = sha_W (sha_block_words b) s"
    using assms by (auto simp: sched_def)
  have m: "(t + 13) mod 16 = (t - 3) mod 16" "(t + 8) mod 16 = (t - 8) mod 16"
    "(t + 2) mod 16 = (t - 14) mod 16" "t mod 16 = (t - 16) mod 16"
  proof -
    have e: "t + 13 = (t - 3) + 16" "t + 8 = (t - 8) + 16" "t + 2 = (t - 14) + 16"
      using assms(2) by simp_all
    have "((t - 16) + 16) mod 16 = (t - 16) mod 16" by (simp only: mod_add_self2)
    then show "(t + 13) mod 16 = (t - 3) mod 16" "(t + 8) mod 16 = (t - 8) mod 16"
      "(t + 2) mod 16 = (t - 14) mod 16" "t mod 16 = (t - 16) mod 16"
      using assms(2) by (simp_all only: e mod_add_self2 le_add_diff_inverse2)
  qed
  have w: "sha_W (sha_block_words b) t = rol (block ! ((t + 13) mod 16) XOR block ! ((t + 8) mod 16)
      XOR block ! ((t + 2) mod 16) XOR block ! (t mod 16)) 1"
    using assms(2) old [of "t - 3"] old [of "t - 8"] old [of "t - 14"] old [of "t - 16"]
    unfolding m by (subst sha_W.simps) simp
  show at: "blk block t ! (t mod 16) = sha_W (sha_block_words b) t"
    using len by (simp add: blk_def w)
  have "blk block t ! (s mod 16) = sha_W (sha_block_words b) s" if "s < Suc t" "Suc t \<le> s + 16" for s
  proof (cases "s = t")
    case False
    then have "s mod 16 \<noteq> t mod 16" using that mod_shift_neq [of "t - s" 16 s] by (simp add: eq_commute)
    then show ?thesis using old [of s] that False by (simp add: blk_def)
  qed (simp add: at)
  then show "sched big b (Suc t) (blk block t)"
    using len assms(2) by (simp add: sched_def blk_def)
qed

definition sregs :: "nat \<Rightarrow> sha_vars \<Rightarrow> sha_regs" where
  "sregs t r = (r (svar (4 * t)), r (svar (4 * t + 1)), r (svar (4 * t + 2)), r (svar (4 * t + 3)),
     r (svar (4 * t + 4)))"

lemma sha_step_sim:
  assumes "sched big b t block"
    and "sha_apply big (smacro t, svar (4 * t), svar (4 * t + 1), svar (4 * t + 2),
      svar (4 * t + 3), svar (4 * t + 4), t) (r, block) = (r', block')"
  shows "sched big b (Suc t) block' \<and>
    sregs (Suc t) r' = sha_round (sha_block_words b) t (sregs t r)"
proof -
  have m0: "smacro t = R0 \<longleftrightarrow> t < 16" by (simp add: smacro_def)
  have idx: "svar (4 * Suc t) = svar (4 * t + 4)" "svar (4 * Suc t + 1) = svar (4 * t)"
    "svar (4 * Suc t + 2) = svar (4 * t + 1)" "svar (4 * Suc t + 3) = svar (4 * t + 2)"
    "svar (4 * Suc t + 4) = svar (4 * t + 3)"
    using svar_add5 [of "4 * t"] svar_add5 [of "4 * t + 1"] svar_add5 [of "4 * t + 2"]
      svar_add5 [of "4 * t + 3"] by (simp_all add: algebra_simps del: svar_add5)
  define v w x y z where roles: "v = svar (4 * t)" "w = svar (4 * t + 1)" "x = svar (4 * t + 2)"
    "y = svar (4 * t + 3)" "z = svar (4 * t + 4)"
  have dist: "distinct [v, w, x, y, z]"
  proof -
    have ne: "svar (4 * t + k) = svar (4 * t + l) \<longleftrightarrow> k = l" if "k < 5" "l < 5" for k l
      unfolding svar_eq_iff using that by (rule mod_add_left_inj)
    show ?thesis
      unfolding roles
      using ne [of 0 1] ne [of 0 2] ne [of 0 3] ne [of 0 4] ne [of 1 2] ne [of 1 3] ne [of 1 4] ne [of 2 3] ne [of 2 4] ne [of 3 4]
      by simp
  qed
  define blk' where "blk' = (if t < 16 then blk0 big block t else blk block t)"
  have sch: "sched big b (Suc t) blk'"
    and wd: "(if t < 16 then blk' ! t else blk' ! (t mod 16)) = sha_W (sha_block_words b) t"
    using sched_blk0 [OF assms(1)] sched_blk [OF assms(1)] by (auto simp: blk'_def)
  have b': "block' = blk'" using assms(2) by (simp add: m0 blk'_def Let_def)
  let ?z = "r z + (sha_f t (r w) (r x) (r y) + sha_W (sha_block_words b) t + sha_K t + rol (r v) 5)"
  have r': "r' = r(z := ?z, w := rol (r w) 30)"
  proof -
    have "fst (sha_apply big (smacro t, v, w, x, y, z, t) (r, block)) = r'"
      using assms(2) by (simp only: roles fst_conv)
    then show ?thesis
      unfolding sha_apply.simps Let_def fst_conv m0 blk'_def [symmetric] wd sha_mix_f sha_const_K
      using dist by simp
  qed
  have "sregs (Suc t) r' = (?z, r v, rol (r w) 30, r x, r y)"
    using dist unfolding sregs_def idx roles [symmetric] r' by auto
  moreover have "sregs t r = (r v, r w, r x, r y, r z)"
    by (simp only: sregs_def roles)
  ultimately show ?thesis
    using sch unfolding b' by (simp add: ac_simps)
qed

lemma sha_fold_sim:
  assumes "n \<le> 80"
  shows "case fold (sha_apply big) (take n sha_calls) (r, load_words big b) of (r', block') \<Rightarrow>
    sched big b n block' \<and> sregs n r' = fold (sha_round (sha_block_words b)) [0..<n] (sregs 0 r)"
  using assms
proof (induction n)
  case 0
  then show ?case by (simp add: sched_init)
next
  case (Suc n)
  obtain r' blk' where f: "fold (sha_apply big) (take n sha_calls) (r, load_words big b) = (r', blk')"
    by (cases "fold (sha_apply big) (take n sha_calls) (r, load_words big b)")
  have call: "take (Suc n) sha_calls = take n sha_calls @ [(smacro n, svar (4 * n), svar (4 * n + 1),
      svar (4 * n + 2), svar (4 * n + 3), svar (4 * n + 4), n)]"
    using Suc.prems by (simp add: sha_calls_regular take_map take_upt)
  obtain r2 blk2 where s: "sha_apply big (smacro n, svar (4 * n), svar (4 * n + 1),
      svar (4 * n + 2), svar (4 * n + 3), svar (4 * n + 4), n) (r', blk') = (r2, blk2)"
    by (metis surj_pair)
  from Suc f have "sched big b n blk'"
    "sregs n r' = fold (sha_round (sha_block_words b)) [0..<n] (sregs 0 r)" by auto
  with sha_step_sim [OF _ s] have "sched big b (Suc n) blk2 \<and>
      sregs (Suc n) r2 = fold (sha_round (sha_block_words b)) [0..<Suc n] (sregs 0 r)" by simp
  moreover have "fold (sha_apply big) (take (Suc n) sha_calls) (r, load_words big b) = (r2, blk2)"
    by (simp only: call fold_append fold.simps comp_apply id_apply f s)
  ultimately show ?case by simp
qed

lemma SHA1Transform_compress:
  "SHA1Transform big H b = sha_compress H b"
proof -
  let ?v = "\<lambda>x. case x of A \<Rightarrow> H ! 0 | B \<Rightarrow> H ! 1 | C \<Rightarrow> H ! 2 | D \<Rightarrow> H ! 3 | E \<Rightarrow> H ! 4"
  obtain r block where f: "fold (sha_apply big) sha_calls (?v, load_words big b) = (r, block)"
    by (cases "fold (sha_apply big) sha_calls (?v, load_words big b)")
  have l: "take 80 sha_calls = sha_calls" by (simp add: sha_calls_regular)
  have e: "sregs 80 r = fold (sha_round (sha_block_words b)) [0..<80] (sregs 0 ?v)"
    using sha_fold_sim [OF order_refl, of big b ?v] unfolding l f prod.case by blast
  have s: "sregs 80 r = (r A, r B, r C, r D, r E)"
    "sregs 0 ?v = (H ! 0, H ! 1, H ! 2, H ! 3, H ! 4)"
    by (simp_all add: sregs_def svar_def)
  show ?thesis
    unfolding SHA1Transform_def sha_compress_def Let_def f e [unfolded s, symmetric] by simp
qed

subsection \<open>The update operation keeps the contract of a block hash\<close>

definition sha_pend :: "SHA1_CTX \<Rightarrow> byte list" where
  "sha_pend c = take (unat (drop_bit 3 (scount0 c) AND 63)) (sbuffer c)"

definition sha_bits :: "SHA1_CTX \<Rightarrow> nat" where
  "sha_bits c = unat (scount0 c) + 2 ^ 32 * unat (scount1 c)"

definition sha_ok :: "SHA1_CTX \<Rightarrow> bool" where
  "sha_ok c \<longleftrightarrow> length (sbuffer c) = 64"

lemma sha_blocks_absorb:
  "i \<le> length data \<Longrightarrow>
   sha_blocks big st data i = (absorb (SHA1Transform big) st (drop i data),
     length data - length (remainder (drop i data)))"
proof (induction big st data i rule: sha_blocks.induct)
  case (1 big st data i)
  show ?case
  proof (cases "i + 63 < length data")
    case True
    have d: "drop i data = seg data i 64 @ drop (i + 64) data"
      using append_take_drop_id [of 64 "drop i data"] by (simp add: seg_def add.commute)
    have l: "length (seg data i 64) = 64" using True by (simp add: seg_def)
    show ?thesis
      using 1 True unfolding d by (simp add: absorb_block [OF l] remainder_block [OF l])
  next
    case False
    then show ?thesis using 1 by (subst sha_blocks.simps)
      (simp add: absorb_short remainder_short del: sha_blocks.simps)
  qed
qed

definition sha_lim :: nat where
  "sha_lim = 2 ^ 32 - 64"

lemma sha_pend_length: "sha_ok c \<Longrightarrow> length (sha_pend c) = unat (scount0 c) div 8 mod 64"
  by (simp add: sha_pend_def sha_ok_def and_63 unat_drop min_def) 

lemma sha_update_counts:
  "scount0 (SHA1Update big c d) = scount0 c + push_bit 3 (word_of_nat (length d))"
  "scount1 (SHA1Update big c d) =
     (if scount0 c + push_bit 3 (word_of_nat (length d)) < scount0 c then scount1 c + 1 else scount1 c) +
     drop_bit 29 (word_of_nat (length d))"
  unfolding SHA1Update_def Let_def
  by (simp_all only: SHA1_CTX.select_convs simp_thms split: prod.split if_split) 

lemma sha_update_count:
  assumes "length d \<le> sha_lim"
  shows "sha_bits (SHA1Update big c d) = (sha_bits c + 8 * length d) mod 2 ^ 64"
proof -
  have l: "unat (word_of_nat (length d) :: u32) = length d"
    using assms by (simp add: sha_lim_def unat_of_nat)
  have m: "(unat (x :: u32) + 2 ^ 32 * unat (y :: u32)) mod 2 ^ 64 = unat x + 2 ^ 32 * unat y" for x y
  proof -
    have "unat x < 2 ^ LENGTH(32)" "unat y < 2 ^ LENGTH(32)" by (rule unsigned_less)+
    then have "unat x + 2 ^ 32 * unat y < 2 ^ 64" by simp
    then show ?thesis by simp
  qed
  have "sha_bits (SHA1Update big c d) = (sha_bits c + 8 * length d) mod 2 ^ 64"
    using counter_add [of "scount0 c" "word_of_nat (length d)" "scount1 c"]
    unfolding Let_def m l sha_bits_def sha_update_counts .
  then show ?thesis .
qed

lemma sha_update_absorb:
  assumes ok: "sha_ok c" and lim: "length d \<le> sha_lim"
  shows "sstate (SHA1Update big c d) = absorb (SHA1Transform big) (sstate c) (sha_pend c @ d)"
    and "sha_pend (SHA1Update big c d) = remainder (sha_pend c @ d)"
    and "sha_ok (SHA1Update big c d)"
proof -
  let ?j = "unat (drop_bit 3 (scount0 c) AND 63)" and ?T = "SHA1Transform big"
  have j: "?j < 64" by (simp add: and_63)
  have buf: "length (sbuffer c) = 64" using ok by (simp add: sha_ok_def)
  have pend: "sha_pend c = take ?j (sbuffer c)" "length (sha_pend c) = ?j"
    using j buf by (simp_all add: sha_pend_def)
  let ?n = "scount0 c + push_bit 3 (word_of_nat (length d))"
  have nj: "unat (drop_bit 3 ?n AND 63) = (?j + length d) mod 64"
  proof -
    have "sha_bits (SHA1Update big c d) mod 2 ^ 32 div 8 mod 64 =
        (sha_bits c + 8 * length d) mod 2 ^ 64 mod 2 ^ 32 div 8 mod 64"
      using lim by (simp only: sha_update_count)
    moreover have "unat (scount0 x) = sha_bits x mod 2 ^ 32" for x
    proof -
      have "unat (scount0 x) < 2 ^ LENGTH(32)" by (rule unsigned_less)
      then show ?thesis by (simp add: sha_bits_def)
    qed
    moreover have "scount0 (SHA1Update big c d) = ?n"
      by (rule sha_update_counts)
    moreover have "m mod 2 ^ 64 mod 2 ^ 32 = m mod 2 ^ 32" for m :: nat
      by (simp add: mod_mod_cancel)
    ultimately have e: "unat ?n div 8 mod 64 = (sha_bits c + 8 * length d) mod 2 ^ 32 div 8 mod 64"
      by metis
    have r: "m mod 2 ^ 32 div 8 mod 64 = m div 8 mod 64" for m :: nat
    proof -
      have "m mod (8 * q) div 8 = m div 8 mod q" for q by (simp add: mod_mult2_eq)
      from this [of "2 ^ 29"] show ?thesis by (simp add: mod_mod_cancel)
    qed
    have "(sha_bits c + 8 * length d) div 8 = sha_bits c div 8 + length d" by simp
    moreover have "sha_bits c div 8 mod 64 = unat (scount0 c) div 8 mod 64"
      using r [of "sha_bits c"] \<open>\<And>x. unat (scount0 x) = sha_bits x mod 2 ^ 32\<close> by simp
    ultimately have "unat ?n div 8 mod 64 = (unat (scount0 c) div 8 mod 64 + length d) mod 64"
      using e r by (metis add.commute mod_add_left_eq)
    then show ?thesis by (simp add: and_63 unat_drop)
  qed
  have main: "sstate (SHA1Update big c d) = absorb ?T (sstate c) (sha_pend c @ d) \<and>
    sha_pend (SHA1Update big c d) = remainder (sha_pend c @ d) \<and>
    length (sbuffer (SHA1Update big c d)) = 64"
  proof (cases "?j + length d > 63")
    case False
    then have "length (sha_pend c @ d) < 64" using pend by simp
    moreover have "(?j + length d) mod 64 = ?j + length d" using False by simp
    ultimately show ?thesis
      using False buf j nj pend by (simp add: SHA1Update_def Let_def absorb_short remainder_short
          sha_pend_def min_def)
  next
    case True
    let ?i = "64 - ?j"
    let ?b = "take ?j (sbuffer c) @ take ?i d"
    let ?r = "remainder (drop ?i d)"
    have lb: "length ?b = 64" using True j buf by simp
    have split: "sha_pend c @ d = ?b @ drop ?i d" by (simp add: pend)
    have i: "?i \<le> length d" using True by simp
    note bl = sha_blocks_absorb [OF i, of big "?T (sstate c) ?b"]
    have rl: "length ?r = length (drop ?i d) mod 64" by (rule remainder_length)
    have rd: "drop (length d - length ?r) d = ?r"
    proof -
      have "?r = drop (64 * (length (drop ?i d) div 64) + ?i) d"
        by (simp add: remainder_def)
      moreover have "64 * (length (drop ?i d) div 64) + ?i = length d - length ?r"
        using i mult_div_mod_eq [of 64 "length (drop ?i d)"] unfolding rl length_drop by linarith
      ultimately show ?thesis by simp
    qed
    have jr: "(?j + length d) mod 64 = length ?r"
    proof -
      have "?j + length d = 64 + length (drop ?i d)" using True j by simp
      then show ?thesis by (simp only: rl mod_add_self1)
    qed
    have up: "sstate (SHA1Update big c d) = absorb ?T (?T (sstate c) ?b) (drop ?i d)"
      "sbuffer (SHA1Update big c d) = ?r @ drop (length ?r) ?b"
      "scount0 (SHA1Update big c d) = ?n"
      using True rd bl rl by (simp_all add: SHA1Update_def Let_def)
    have r64: "length ?r < 64" by (simp add: rl)
    have "length (sbuffer (SHA1Update big c d)) = 64"
    proof -
      have "length (drop (length ?r) ?b) = 64 - length ?r" by (simp only: length_drop lb)
      then have "length (?r @ drop (length ?r) ?b) = length ?r + (64 - length ?r)"
        by (simp only: length_append [of ?r])
      then show ?thesis unfolding up(2) using r64 by linarith
    qed
    moreover have "sha_pend (SHA1Update big c d) = ?r"
      unfolding sha_pend_def up(2,3) nj jr by (simp only: append_eq_conv_conj [THEN iffD1] take_append
          diff_self_eq_0 take0 append_Nil2 take_all order_refl)
    ultimately show ?thesis
      unfolding split absorb_block [OF lb] remainder_block [OF lb] up(1) by (simp only: simp_thms)
  qed
  then show "sstate (SHA1Update big c d) = absorb ?T (sstate c) (sha_pend c @ d)"
    "sha_pend (SHA1Update big c d) = remainder (sha_pend c @ d)"
    "sha_ok (SHA1Update big c d)"
    by (simp_all add: sha_ok_def)
qed

lemma sha_pend_bits: "sha_ok c \<Longrightarrow> sha_bits c div 8 mod 64 = length (sha_pend c)"
proof -
  assume "sha_ok c"
  have "sha_bits c = unat (scount0 c) + 8 * (64 * (2 ^ 23 * unat (scount1 c)))"
    by (simp add: sha_bits_def)
  then have "sha_bits c div 8 = 64 * (2 ^ 23 * unat (scount1 c)) + unat (scount0 c) div 8"
    by (simp only: div_mult_self2 [of 8] zero_neq_numeral not_False_eq_True)
  then have "sha_bits c div 8 mod 64 = unat (scount0 c) div 8 mod 64"
    by (simp only: mod_mult_self4)
  then show ?thesis using sha_pend_length [OF \<open>sha_ok c\<close>] by simp
qed

interpretation sha: block_hash sha_compress "SHA1Update big" sstate sha_pend sha_bits sha_ok sha_lim
  for big
proof unfold_locales
  fix c and d :: "byte list"
  have T: "SHA1Transform big = sha_compress" by (simp add: fun_eq_iff SHA1Transform_compress)
  assume ok: "sha_ok c"
  then show "length (sha_pend c) < 64" by (simp add: sha_pend_length)
  show "sha_bits c div 8 mod 64 = length (sha_pend c)" by (rule sha_pend_bits [OF ok])
  assume lim: "length d \<le> sha_lim"
  show "sha_ok (SHA1Update big c d)"
    "sstate (SHA1Update big c d) = absorb sha_compress (sstate c) (sha_pend c @ d)"
    "sha_pend (SHA1Update big c d) = remainder (sha_pend c @ d)"
    using sha_update_absorb [OF ok lim, of big] by (simp_all add: T)
  show "sha_bits (SHA1Update big c d) = (sha_bits c + 8 * length d) mod 2 ^ 64"
    by (rule sha_update_count [OF lim])
qed

subsection \<open>Padding\<close>

lemma and_504: "(x AND 504 = 448) \<longleftrightarrow> unat x div 8 mod 64 = 56" for x :: u32
proof -
  have "x AND 504 = push_bit 3 (drop_bit 3 x AND 63)"
  proof -
    have m: "(504 :: u32) = push_bit 3 (mask 6)" "(63 :: u32) = mask 6"
      by (simp_all add: mask_eq_exp_minus_1 push_bit_eq_mult)
    show ?thesis unfolding m by (rule bit_word_eqI) (auto simp: bit_simps)
  qed
  moreover have "(448 :: u32) = push_bit 3 56" by (simp add: push_bit_eq_mult)
  moreover have "push_bit 3 (drop_bit 3 x AND 63) = push_bit 3 (56 :: u32) \<longleftrightarrow> drop_bit 3 x AND 63 = 56"
  proof
    assume a: "push_bit 3 (drop_bit 3 x AND 63) = push_bit 3 (56 :: u32)"
    have m: "(63 :: u32) = mask 6" by (simp add: mask_eq_exp_minus_1)
    have "drop_bit 3 (push_bit 3 (drop_bit 3 x AND 63)) = drop_bit 3 x AND 63"
      unfolding m by (rule bit_word_eqI) (auto simp: bit_simps dest: bit_imp_le_length)
    moreover have "drop_bit 3 (push_bit 3 (56 :: u32)) = 56"
      by (simp add: push_bit_eq_mult)
    ultimately show "drop_bit 3 x AND 63 = 56" using a by metis
  qed simp
  moreover have "drop_bit 3 x AND 63 = 56 \<longleftrightarrow> unat (drop_bit 3 x AND 63) = 56"
    by (simp add: word_unat_eq_iff)
  ultimately show ?thesis by (simp add: and_63 unat_drop)
qed

lemma sha_pad_spec:
  assumes "sha_ok c" "zeros (length (sha_pend c)) \<le> fuel"
  shows "sha_pad big fuel c =
    Some (foldl (SHA1Update big) c (replicate (zeros (length (sha_pend c))) [0]))"
  using assms
proof (induction fuel arbitrary: c)
  case 0
  then have p: "length (sha_pend c) = 56" using sha.pend_short [of c] zeros_step(2) by auto
  then have "scount0 c AND 504 = 448"
    using sha_pend_length [of c] 0 by (simp add: and_504)
  with p show ?case by (simp add: zeros_def)
next
  case (Suc n)
  show ?case
  proof (cases "length (sha_pend c) = 56")
    case True
    then have "scount0 c AND 504 = 448"
      using sha_pend_length [of c] Suc.prems by (simp add: and_504)
    with True show ?thesis by (simp add: zeros_def)
  next
    case False
    let ?c = "SHA1Update big c [0]"
    have lt: "length (sha_pend c) < 64" using sha.pend_short Suc.prems by blast
    have one: "length [0 :: byte] \<le> sha_lim" by (simp add: sha_lim_def)
    have ok: "sha_ok ?c" by (rule sha.upd_ok [OF Suc.prems(1) one])
    have "sha_pend ?c = remainder (sha_pend c @ [0])" by (rule sha.upd_pend [OF Suc.prems(1) one])
    then have l: "length (sha_pend ?c) = (length (sha_pend c) + 1) mod 64"
      by (simp add: remainder_length)
    then have z: "zeros (length (sha_pend c)) = Suc (zeros (length (sha_pend ?c)))"
      using zeros_step(1) [OF lt False] by simp
    have "scount0 c AND 504 \<noteq> 448"
      using False sha_pend_length [of c] Suc.prems by (simp add: and_504)
    then have "sha_pad big (Suc n) c = sha_pad big n ?c" by simp
    also have "\<dots> = Some (foldl (SHA1Update big) ?c (replicate (zeros (length (sha_pend ?c))) [0]))"
      by (rule Suc.IH [OF ok]) (use z Suc.prems in simp)
    finally show ?thesis by (simp add: z del: sha_pad.simps)
  qed
qed

definition be64 :: "nat \<Rightarrow> byte list" where
  "be64 n = map (\<lambda>i. word_of_nat (n div 256 ^ (7 - i))) [0..<8]"

definition words_be :: "u32 list \<Rightarrow> byte list" where
  "words_be ws = concat (map (\<lambda>w. [ucast (drop_bit 24 w), ucast (drop_bit 16 w), ucast (drop_bit 8 w), ucast w]) ws)"

text \<open>The padded message and the digest of the standard.\<close>

definition sha1_padded :: "byte list \<Rightarrow> byte list" where
  "sha1_padded m =
     m @ [0x80] @ replicate (zeros ((length m + 1) mod 64)) 0 @ be64 (8 * length m)"

definition sha1_H0 :: "u32 list" where
  "sha1_H0 = [0x67452301, 0xEFCDAB89, 0x98BADCFE, 0x10325476, 0xC3D2E1F0]"

definition sha1_digest :: "byte list \<Rightarrow> byte list" where
  "sha1_digest m = words_be (absorb sha_compress sha1_H0 (sha1_padded m))"

lemma finalcount_be64: "sha_finalcount c = be64 (sha_bits c)"
proof -
  let ?a = "unat (scount0 c)" and ?b = "unat (scount1 c)"
  have a: "?a < 2 ^ 32" using unsigned_less [of "scount0 c"] by simp
  have hi: "(?a + 2 ^ 32 * ?b) div 256 ^ (4 + k) = ?b div 256 ^ k" for k
    using bytes_hi [OF a] .
  have lo: "(word_of_nat ((?a + 2 ^ 32 * ?b) div 256 ^ k) :: byte) = word_of_nat (?a div 256 ^ k)"
    if "k < 4" for k using bytes_lo [OF that] .
  have i: "[0..<8] = [0, 1, 2, 3, 4, 5, 6, 7 :: nat]" by code_simp
  show ?thesis
    using byte_of_word [of 0 "scount0 c"] byte_of_word [of 1 "scount0 c"]
      byte_of_word [of 2 "scount0 c"] byte_of_word [of 3 "scount0 c"]
      byte_of_word [of 0 "scount1 c"] byte_of_word [of 1 "scount1 c"]
      byte_of_word [of 2 "scount1 c"] byte_of_word [of 3 "scount1 c"]
      lo [of 0] lo [of 1] lo [of 2] lo [of 3] hi [of 0] hi [of 1] hi [of 2] hi [of 3]
    by (simp add: sha_finalcount_def be64_def sha_bits_def i)
qed

lemma sha_final_words:
  assumes "length ws = 5"
  shows "map (\<lambda>i. ucast (drop_bit ((3 - i mod 4) * 8) (ws ! (i div 4)) AND 255)) [0..<20] =
    words_be ws"
proof -
  obtain a b c d e where ws: "ws = [a, b, c, d, e]"
    using assms by (auto simp: numeral_eq_Suc length_Suc_conv)
  have i: "[0..<20] = [0, 1, 2, 3, 4, 5, 6, 7, 8, 9, 10, 11, 12, 13, 14, 15, 16, 17, 18, 19 :: nat]"
    by code_simp
  have m: "ucast (x AND 255) = (ucast x :: byte)" for x :: u32
  proof -
    have m: "(255 :: u32) = mask 8" by (simp add: mask_eq_exp_minus_1)
    show ?thesis unfolding m by (rule bit_word_eqI) (auto simp: bit_simps)
  qed
  show ?thesis unfolding i ws words_be_def by (simp add: m)
qed

lemma sha_compress_length: "length (sha_compress H b) = 5"
  by (simp add: sha_compress_def split: prod.split)

lemma absorb_sha_length: "length H = 5 \<Longrightarrow> length (absorb sha_compress H xs) = 5"
  by (induction sha_compress H xs rule: absorb.induct)
    (subst absorb.simps, simp add: sha_compress_length)

lemma SHA1_digest:
  assumes "\<And>p. p \<in> set ps \<Longrightarrow> length p \<le> sha_lim" "8 * length (concat ps) < 2 ^ 64"
    "length (sbuffer c) = 64"
  shows "SHA1Final big (foldl (SHA1Update big) (SHA1Init c) ps) = Some (sha1_digest (concat ps))"
proof -
  let ?U = "SHA1Update big" and ?m = "concat ps"
  let ?c0 = "SHA1Init c"
  let ?c1 = "foldl ?U ?c0 ps"
  have ok0: "sha_ok ?c0" and p0: "sha_pend ?c0 = []" and b0: "sha_bits ?c0 = 0"
    and h0: "sstate ?c0 = sha1_H0"
    using assms(3) by (simp_all add: SHA1Init_def sha_ok_def sha_pend_def sha_bits_def sha1_H0_def)
  have lim: "length q \<le> sha_lim" if "length q \<le> 64" for q :: "byte list"
    using that by (simp add: sha_lim_def)
  note f1 = sha.fold_upd [OF ok0 assms(1), of ps big, unfolded p0 b0 h0 append_Nil add_0]
  then have ok1: "sha_ok ?c1" and pend1: "sha_pend ?c1 = remainder ?m" by auto
  have "sha_bits ?c1 < 2 ^ 64"
  proof -
    have "unat (scount0 ?c1) < 2 ^ LENGTH(32)" "unat (scount1 ?c1) < 2 ^ LENGTH(32)"
      by (rule unsigned_less)+
    then show ?thesis by (simp add: sha_bits_def)
  qed
  then have bits1: "sha_bits ?c1 = 8 * length ?m" using f1 assms(2) by auto
  let ?z = "zeros ((length ?m + 1) mod 64)"
  let ?c2 = "?U ?c1 [0x80]"
  have ok2: "sha_ok ?c2" by (rule sha.upd_ok [OF ok1 lim]) simp
  have "sha_pend ?c2 = remainder (remainder ?m @ [0x80])"
    unfolding pend1 [symmetric] by (rule sha.upd_pend [OF ok1 lim]) simp
  then have l2: "length (sha_pend ?c2) = (length ?m + 1) mod 64"
    by (simp add: remainder_length mod_simps)
  have "zeros q \<le> 64" if "q < 64" for q using that by (auto simp: zeros_def)
  then have pad: "sha_pad big 64 ?c2 = Some (foldl ?U ?c2 (replicate ?z [0]))"
    using sha_pad_spec [OF ok2, of 64 big] unfolding l2 by simp
  let ?ps = "ps @ [[0x80]] @ replicate ?z [0] @ [be64 (8 * length ?m)]"
  have all: "length p \<le> sha_lim" if "p \<in> set ?ps" for p
    using that assms(1) by (auto simp: be64_def sha_lim_def)
  have cat: "concat ?ps = sha1_padded ?m"
  proof -
    have "concat (replicate n [0]) = replicate n (0 :: byte)" for n by (induction n) auto
    then show ?thesis by (simp add: sha1_padded_def)
  qed
  have "sstate (foldl ?U ?c0 ?ps) = absorb sha_compress sha1_H0 (sha1_padded ?m)"
    using sha.fold_upd [OF ok0 all, of ?ps big, unfolded p0 b0 h0 append_Nil cat] by blast
  moreover have "foldl ?U ?c0 ?ps = ?U (foldl ?U ?c2 (replicate ?z [0])) (be64 (8 * length ?m))"
    by simp
  moreover have "length (absorb sha_compress sha1_H0 (sha1_padded ?m)) = 5"
    by (rule absorb_sha_length) (simp add: sha1_H0_def)
  ultimately show ?thesis
    by (simp add: SHA1Final_def Let_def pad finalcount_be64 bits1 sha1_digest_def sha_final_words
        del: sha_pad.simps)
qed

subsection \<open>Properties\<close>

text \<open>C22: the transformation. For every chaining value and block, on either byte order, the 80
  macro calls over the in-place 16-word block compute the compression function of the standard with
  its 80-word message schedule.\<close>

theorem SHA1Transform_standard: "SHA1Transform big H b = sha_compress H b"
  by (rule SHA1Transform_compress)

text \<open>C14: the hash. However a message is cut into pieces, initialising, updating with the pieces and
  finalising returns (the padding loop ends) the standard's digest of the whole message: padding with
  0x80, zeros and the 64-bit big-endian bit length, compressed block by block.\<close>

theorem SHA1_message_digest:
  assumes "\<And>p. p \<in> set ps \<Longrightarrow> length p \<le> 2 ^ 32 - 64" and "8 * length (concat ps) < 2 ^ 64"
    and "length (sbuffer c) = 64"
  shows "SHA1Final big (foldl (SHA1Update big) (SHA1Init c) ps) = Some (sha1_digest (concat ps))"
  using assms by (intro SHA1_digest) (auto simp: sha_lim_def)

theorem SHA1_message_digest_witness:
  "SHA1Final False (foldl (SHA1Update False)
      (SHA1Init \<lparr>sstate = [], scount0 = 9, scount1 = 9, sbuffer = replicate 64 7\<rparr>)
      [bytes ''ab'', bytes ''c'']) = Some (sha1_digest (bytes ''abc''))"
proof -
  have "bytes ''abc'' = concat [bytes ''ab'', bytes ''c'']" by simp
  then show ?thesis
    by (simp only:) (rule SHA1_message_digest, auto)
qed

end
