(* ===== verification/Md5.thy ===== *)
theory Md5
  imports BlockHash
begin

text \<open>
  MD5 of \<open>xs/xs_md5.h\<close>: the constants as the macros write them, the 64 \<open>SET\<close> calls in source order
  over the four local variables, init, append and finish, \<open>xs_bin2str\<close> and \<open>xs_md5\<close>. The reference
  is the formulation of RFC 1321 with its constant table and index formulas.
\<close>

subsection \<open>Constants and steps\<close>

definition T_MASK :: u32 where
  "T_MASK = NOT 0"

definition md5_T :: "u32 list" where
  "md5_T =
    [T_MASK XOR 0x28955b87, T_MASK XOR 0x173848a9, 0x242070db, T_MASK XOR 0x3e423111,
     T_MASK XOR 0x0a83f050, 0x4787c62a, T_MASK XOR 0x57cfb9ec, T_MASK XOR 0x02b96afe,
     0x698098d8, T_MASK XOR 0x74bb0850, T_MASK XOR 0x0000a44e, T_MASK XOR 0x76a32841,
     0x6b901122, T_MASK XOR 0x02678e6c, T_MASK XOR 0x5986bc71, 0x49b40821,
     T_MASK XOR 0x09e1da9d, T_MASK XOR 0x3fbf4cbf, 0x265e5a51, T_MASK XOR 0x16493855,
     T_MASK XOR 0x29d0efa2, 0x02441453, T_MASK XOR 0x275e197e, T_MASK XOR 0x182c0437,
     0x21e1cde6, T_MASK XOR 0x3cc8f829, T_MASK XOR 0x0b2af278, 0x455a14ed,
     T_MASK XOR 0x561c16fa, T_MASK XOR 0x03105c07, 0x676f02d9, T_MASK XOR 0x72d5b375,
     T_MASK XOR 0x0005c6bd, T_MASK XOR 0x788e097e, 0x6d9d6122, T_MASK XOR 0x021ac7f3,
     T_MASK XOR 0x5b4115bb, 0x4bdecfa9, T_MASK XOR 0x0944b49f, T_MASK XOR 0x4140438f,
     0x289b7ec6, T_MASK XOR 0x155ed805, T_MASK XOR 0x2b10cf7a, 0x04881d05,
     T_MASK XOR 0x262b2fc6, T_MASK XOR 0x1924661a, 0x1fa27cf8, T_MASK XOR 0x3b53a99a,
     T_MASK XOR 0x0bd6ddbb, 0x432aff97, T_MASK XOR 0x546bdc58, T_MASK XOR 0x036c5fc6,
     0x655b59c3, T_MASK XOR 0x70f3336d, T_MASK XOR 0x00100b82, T_MASK XOR 0x7a7ba22e,
     0x6fa87e4f, T_MASK XOR 0x01d3191f, T_MASK XOR 0x5cfebceb, 0x4e0811a1,
     T_MASK XOR 0x08ac817d, T_MASK XOR 0x42c50dca, 0x2ad7d2bb, T_MASK XOR 0x14792c6e]"

definition ROTATE_LEFT :: "u32 \<Rightarrow> nat \<Rightarrow> u32" where
  "ROTATE_LEFT x n = push_bit n x OR drop_bit (32 - n) x"

datatype md5_macro = MF | MG | MH | MI

datatype md5_var = Ra | Rb | Rc | Rd

type_synonym md5_vars = "md5_var \<Rightarrow> u32"

type_synonym md5_call = "md5_macro \<times> md5_var \<times> md5_var \<times> md5_var \<times> md5_var \<times> nat \<times> nat \<times> nat"

fun md5_mix :: "md5_macro \<Rightarrow> u32 \<Rightarrow> u32 \<Rightarrow> u32 \<Rightarrow> u32" where
  "md5_mix MF x y z = (x AND y) OR (NOT x AND z)"
| "md5_mix MG x y z = (x AND z) OR (y AND NOT z)"
| "md5_mix MH x y z = x XOR y XOR z"
| "md5_mix MI x y z = y XOR (x OR NOT z)"

fun md5_SET :: "u32 list \<Rightarrow> md5_call \<Rightarrow> md5_vars \<Rightarrow> md5_vars" where
  "md5_SET X (m, a, b, c, d, k, s, Ti) r =
     (let t = r a + md5_mix m (r b) (r c) (r d) + X ! k + md5_T ! (Ti - 1)
      in r(a := ROTATE_LEFT t s + r b))"

definition md5_calls :: "md5_call list" where
  "md5_calls =
    [(MF, Ra, Rb, Rc, Rd, 0, 7, 1), (MF, Rd, Ra, Rb, Rc, 1, 12, 2), (MF, Rc, Rd, Ra, Rb, 2, 17, 3), (MF, Rb, Rc, Rd, Ra, 3, 22, 4),
     (MF, Ra, Rb, Rc, Rd, 4, 7, 5), (MF, Rd, Ra, Rb, Rc, 5, 12, 6), (MF, Rc, Rd, Ra, Rb, 6, 17, 7), (MF, Rb, Rc, Rd, Ra, 7, 22, 8),
     (MF, Ra, Rb, Rc, Rd, 8, 7, 9), (MF, Rd, Ra, Rb, Rc, 9, 12, 10), (MF, Rc, Rd, Ra, Rb, 10, 17, 11), (MF, Rb, Rc, Rd, Ra, 11, 22, 12),
     (MF, Ra, Rb, Rc, Rd, 12, 7, 13), (MF, Rd, Ra, Rb, Rc, 13, 12, 14), (MF, Rc, Rd, Ra, Rb, 14, 17, 15), (MF, Rb, Rc, Rd, Ra, 15, 22, 16),
     (MG, Ra, Rb, Rc, Rd, 1, 5, 17), (MG, Rd, Ra, Rb, Rc, 6, 9, 18), (MG, Rc, Rd, Ra, Rb, 11, 14, 19), (MG, Rb, Rc, Rd, Ra, 0, 20, 20),
     (MG, Ra, Rb, Rc, Rd, 5, 5, 21), (MG, Rd, Ra, Rb, Rc, 10, 9, 22), (MG, Rc, Rd, Ra, Rb, 15, 14, 23), (MG, Rb, Rc, Rd, Ra, 4, 20, 24),
     (MG, Ra, Rb, Rc, Rd, 9, 5, 25), (MG, Rd, Ra, Rb, Rc, 14, 9, 26), (MG, Rc, Rd, Ra, Rb, 3, 14, 27), (MG, Rb, Rc, Rd, Ra, 8, 20, 28),
     (MG, Ra, Rb, Rc, Rd, 13, 5, 29), (MG, Rd, Ra, Rb, Rc, 2, 9, 30), (MG, Rc, Rd, Ra, Rb, 7, 14, 31), (MG, Rb, Rc, Rd, Ra, 12, 20, 32),
     (MH, Ra, Rb, Rc, Rd, 5, 4, 33), (MH, Rd, Ra, Rb, Rc, 8, 11, 34), (MH, Rc, Rd, Ra, Rb, 11, 16, 35), (MH, Rb, Rc, Rd, Ra, 14, 23, 36),
     (MH, Ra, Rb, Rc, Rd, 1, 4, 37), (MH, Rd, Ra, Rb, Rc, 4, 11, 38), (MH, Rc, Rd, Ra, Rb, 7, 16, 39), (MH, Rb, Rc, Rd, Ra, 10, 23, 40),
     (MH, Ra, Rb, Rc, Rd, 13, 4, 41), (MH, Rd, Ra, Rb, Rc, 0, 11, 42), (MH, Rc, Rd, Ra, Rb, 3, 16, 43), (MH, Rb, Rc, Rd, Ra, 6, 23, 44),
     (MH, Ra, Rb, Rc, Rd, 9, 4, 45), (MH, Rd, Ra, Rb, Rc, 12, 11, 46), (MH, Rc, Rd, Ra, Rb, 15, 16, 47), (MH, Rb, Rc, Rd, Ra, 2, 23, 48),
     (MI, Ra, Rb, Rc, Rd, 0, 6, 49), (MI, Rd, Ra, Rb, Rc, 7, 10, 50), (MI, Rc, Rd, Ra, Rb, 14, 15, 51), (MI, Rb, Rc, Rd, Ra, 5, 21, 52),
     (MI, Ra, Rb, Rc, Rd, 12, 6, 53), (MI, Rd, Ra, Rb, Rc, 3, 10, 54), (MI, Rc, Rd, Ra, Rb, 10, 15, 55), (MI, Rb, Rc, Rd, Ra, 1, 21, 56),
     (MI, Ra, Rb, Rc, Rd, 8, 6, 57), (MI, Rd, Ra, Rb, Rc, 15, 10, 58), (MI, Rc, Rd, Ra, Rb, 6, 15, 59), (MI, Rb, Rc, Rd, Ra, 13, 21, 60),
     (MI, Ra, Rb, Rc, Rd, 4, 6, 61), (MI, Rd, Ra, Rb, Rc, 11, 10, 62), (MI, Rc, Rd, Ra, Rb, 2, 15, 63), (MI, Rb, Rc, Rd, Ra, 9, 21, 64)]"

definition md5_X :: "bool \<Rightarrow> byte list \<Rightarrow> u32 list" where
  \<comment> \<open>loaded in place on a little-endian machine, assembled from the bytes on a big-endian one\<close>
  "md5_X big data =
     map (\<lambda>i. if big
        then ucast (data ! (4 * i)) + push_bit 8 (ucast (data ! (4 * i + 1))) +
          push_bit 16 (ucast (data ! (4 * i + 2))) + push_bit 24 (ucast (data ! (4 * i + 3)))
        else load32 big (data ! (4 * i)) (data ! (4 * i + 1)) (data ! (4 * i + 2)) (data ! (4 * i + 3)))
       [0..<16]"

definition md5_process :: "bool \<Rightarrow> u32 list \<Rightarrow> byte list \<Rightarrow> u32 list" where
  "md5_process big abcd data =
     (let vars = (\<lambda>x. case x of Ra \<Rightarrow> abcd ! 0 | Rb \<Rightarrow> abcd ! 1 | Rc \<Rightarrow> abcd ! 2 | Rd \<Rightarrow> abcd ! 3);
          r = fold (md5_SET (md5_X big data)) md5_calls vars
      in [abcd ! 0 + r Ra, abcd ! 1 + r Rb, abcd ! 2 + r Rc, abcd ! 3 + r Rd])"

subsection \<open>Init, append, finish\<close>

record md5_state_t =
  mcount0 :: u32
  mcount1 :: u32
  mabcd :: "u32 list"
  mbuf :: "byte list"

definition md5_init :: "md5_state_t \<Rightarrow> md5_state_t" where
  "md5_init pms = pms\<lparr>mcount0 := 0, mcount1 := 0,
     mabcd := [0x67452301, T_MASK XOR 0x10325476, T_MASK XOR 0x67452301, 0x10325476]\<rparr>"

function md5_blocks :: "bool \<Rightarrow> u32 list \<Rightarrow> byte list \<Rightarrow> nat \<Rightarrow> nat \<Rightarrow> u32 list \<times> nat \<times> nat" where
  \<comment> \<open>the loop over the full blocks from position \<open>p\<close> with \<open>left\<close> bytes to go\<close>
  "md5_blocks big abcd data p left =
     (if left \<ge> 64
      then md5_blocks big (md5_process big abcd (seg data p 64)) data (p + 64) (left - 64)
      else (abcd, p, left))"
  by pat_completeness auto
termination by (relation "measure (\<lambda>(b, a, d, p, l). l)") auto

definition md5_append :: "bool \<Rightarrow> md5_state_t \<Rightarrow> byte list \<Rightarrow> md5_state_t" where
  "md5_append big pms data =
     (let nbytes = length data;
          offset = unat (drop_bit 3 (mcount0 pms) AND 63);
          nbits = word_of_nat (8 * nbytes) :: u32
      in if nbytes = 0 then pms
         else let c1 = mcount1 pms + word_of_nat (nbytes div 2 ^ 29);
                  c0 = mcount0 pms + nbits;
                  c1' = (if c0 < nbits then c1 + 1 else c1);
                  copy = (if offset \<noteq> 0 then (if offset + nbytes > 64 then 64 - offset else nbytes) else 0);
                  buf1 = (if offset \<noteq> 0
                    then take offset (mbuf pms) @ take copy data @ drop (offset + copy) (mbuf pms)
                    else mbuf pms)
              in if offset \<noteq> 0 \<and> offset + copy < 64
                 then \<lparr>mcount0 = c0, mcount1 = c1', mabcd = mabcd pms, mbuf = buf1\<rparr>
                 else let st1 = (if offset \<noteq> 0 then md5_process big (mabcd pms) buf1 else mabcd pms);
                          (st2, p, left) = md5_blocks big st1 data copy (nbytes - copy);
                          buf2 = (if left \<noteq> 0 then seg data p left @ drop left buf1 else buf1)
                      in \<lparr>mcount0 = c0, mcount1 = c1', mabcd = st2, mbuf = buf2\<rparr>)"

definition md5_pad :: "byte list" where
  "md5_pad = 0x80 # replicate 63 0"

definition md5_count_bytes :: "md5_state_t \<Rightarrow> byte list" where
  "md5_count_bytes pms =
     map (\<lambda>i. ucast (drop_bit (8 * (i mod 4)) (if i div 4 = 0 then mcount0 pms else mcount1 pms))) [0..<8]"

definition md5_finish :: "bool \<Rightarrow> md5_state_t \<Rightarrow> md5_state_t \<times> byte list" where
  "md5_finish big pms =
     (let data = md5_count_bytes pms;
          n = unat ((55 - drop_bit 3 (mcount0 pms)) AND 63) + 1;
          p1 = md5_append big pms (take n md5_pad);
          p2 = md5_append big p1 data
      in (p2, map (\<lambda>i. ucast (drop_bit (8 * (i mod 4)) (mabcd p2 ! (i div 4)))) [0..<16]))"

definition hex_digits :: "byte list" where
  "hex_digits = bytes ''0123456789abcdef''"

primrec xs_bin2str :: "byte list \<Rightarrow> byte list" where
  \<comment> \<open>the text before the terminator\<close>
  "xs_bin2str [] = []"
| "xs_bin2str (p # ps) =
     hex_digits ! unat (drop_bit 4 p) # hex_digits ! unat (p AND 0x0f) # xs_bin2str ps"

definition xs_md5 :: "bool \<Rightarrow> md5_state_t \<Rightarrow> byte list list \<Rightarrow> byte list" where
  \<comment> \<open>\<open>ctx\<close> is the uninitialised local context\<close>
  "xs_md5 big ctx strs =
     xs_bin2str (snd (md5_finish big (foldl (md5_append big) (md5_init ctx) strs)))"

subsection \<open>The formulation of RFC 1321\<close>

definition rfc_T :: "u32 list" where
  "rfc_T =
    [0xd76aa478, 0xe8c7b756, 0x242070db, 0xc1bdceee,
     0xf57c0faf, 0x4787c62a, 0xa8304613, 0xfd469501,
     0x698098d8, 0x8b44f7af, 0xffff5bb1, 0x895cd7be,
     0x6b901122, 0xfd987193, 0xa679438e, 0x49b40821,
     0xf61e2562, 0xc040b340, 0x265e5a51, 0xe9b6c7aa,
     0xd62f105d, 0x02441453, 0xd8a1e681, 0xe7d3fbc8,
     0x21e1cde6, 0xc33707d6, 0xf4d50d87, 0x455a14ed,
     0xa9e3e905, 0xfcefa3f8, 0x676f02d9, 0x8d2a4c8a,
     0xfffa3942, 0x8771f681, 0x6d9d6122, 0xfde5380c,
     0xa4beea44, 0x4bdecfa9, 0xf6bb4b60, 0xbebfbc70,
     0x289b7ec6, 0xeaa127fa, 0xd4ef3085, 0x04881d05,
     0xd9d4d039, 0xe6db99e5, 0x1fa27cf8, 0xc4ac5665,
     0xf4292244, 0x432aff97, 0xab9423a7, 0xfc93a039,
     0x655b59c3, 0x8f0ccc92, 0xffeff47d, 0x85845dd1,
     0x6fa87e4f, 0xfe2ce6e0, 0xa3014314, 0x4e0811a1,
     0xf7537e82, 0xbd3af235, 0x2ad7d2bb, 0xeb86d391]"

definition rfc_k :: "nat \<Rightarrow> nat" where
  "rfc_k i = (if i < 16 then i else if i < 32 then (5 * i + 1) mod 16
     else if i < 48 then (3 * i + 5) mod 16 else (7 * i) mod 16)"

definition rfc_s :: "nat \<Rightarrow> nat" where
  "rfc_s i = (if i < 16 then [7, 12, 17, 22] else if i < 32 then [5, 9, 14, 20]
     else if i < 48 then [4, 11, 16, 23] else [6, 10, 15, 21]) ! (i mod 4)"

definition rfc_f :: "nat \<Rightarrow> u32 \<Rightarrow> u32 \<Rightarrow> u32 \<Rightarrow> u32" where
  "rfc_f i b c d = (if i < 16 then (b AND c) OR (NOT b AND d)
     else if i < 32 then (b AND d) OR (c AND NOT d)
     else if i < 48 then b XOR c XOR d else c XOR (b OR NOT d))"

type_synonym md5_regs = "u32 \<times> u32 \<times> u32 \<times> u32"

fun rfc_step :: "u32 list \<Rightarrow> nat \<Rightarrow> md5_regs \<Rightarrow> md5_regs" where
  "rfc_step X i (a, b, c, d) =
     (d, b + ROTATE_LEFT (a + rfc_f i b c d + X ! rfc_k i + rfc_T ! i) (rfc_s i), b, c)"

definition rfc_words :: "byte list \<Rightarrow> u32 list" where
  "rfc_words b =
     map (\<lambda>i. le32 (b ! (4 * i)) (b ! (4 * i + 1)) (b ! (4 * i + 2)) (b ! (4 * i + 3))) [0..<16]"

definition md5_compress :: "u32 list \<Rightarrow> byte list \<Rightarrow> u32 list" where
  "md5_compress H b =
     (case fold (rfc_step (rfc_words b)) [0..<64] (H ! 0, H ! 1, H ! 2, H ! 3) of
        (a, b, c, d) \<Rightarrow> [H ! 0 + a, H ! 1 + b, H ! 2 + c, H ! 3 + d])"

subsection \<open>The macro calls are the steps\<close>

lemma md5_T_rfc: "md5_T = rfc_T"
  by (simp add: md5_T_def rfc_T_def T_MASK_def)

definition mvar :: "nat \<Rightarrow> md5_var" where
  "mvar k = [Ra, Rb, Rc, Rd] ! (k mod 4)"

definition mmacro :: "nat \<Rightarrow> md5_macro" where
  "mmacro i = (if i < 16 then MF else if i < 32 then MG else if i < 48 then MH else MI)"

lemma md5_calls_regular:
  "md5_calls = map (\<lambda>i. (mmacro i, mvar (3 * i), mvar (3 * i + 1), mvar (3 * i + 2), mvar (3 * i + 3),
     rfc_k i, rfc_s i, i + 1)) [0..<64]"
  by code_simp

lemma mvar_add4 [simp]: "mvar (k + 4) = mvar k"
  by (simp add: mvar_def)

lemma mvar_eq_iff: "mvar k = mvar l \<longleftrightarrow> k mod 4 = l mod 4"
proof -
  have "k mod 4 \<in> {0, 1, 2, 3}" "l mod 4 \<in> {0, 1, 2, 3}" by auto
  then show ?thesis unfolding mvar_def by (elim insertE emptyE) (simp_all only:, simp_all)
qed

lemma md5_mix_f: "md5_mix (mmacro i) b c d = rfc_f i b c d"
  by (simp add: mmacro_def rfc_f_def)

lemma md5_X_words: "md5_X big b = rfc_words b"
proof -
  have "ucast a + push_bit 8 (ucast b) + push_bit 16 (ucast c) + push_bit 24 (ucast d) = le32 a b c d"
    for a b c d :: byte
  proof -
    have z: "ucast a AND push_bit 8 (ucast b) = (0 :: u32)"
      "(ucast a OR push_bit 8 (ucast b)) AND push_bit 16 (ucast c) = (0 :: u32)"
      "(ucast a OR push_bit 8 (ucast b) OR push_bit 16 (ucast c)) AND push_bit 24 (ucast d) = (0 :: u32)"
      by (rule bit_word_eqI, auto simp: bit_simps dest: bit_imp_le_length)+
    show ?thesis
      using z by (simp add: le32_def disjunctive_add_eq_or or.assoc)
  qed
  then show ?thesis by (simp add: md5_X_def rfc_words_def load32_def)
qed

definition mregs :: "nat \<Rightarrow> md5_vars \<Rightarrow> md5_regs" where
  "mregs i r = (r (mvar (3 * i)), r (mvar (3 * i + 1)), r (mvar (3 * i + 2)), r (mvar (3 * i + 3)))"

lemma md5_step_sim:
  "mregs (Suc i) (md5_SET X (mmacro i, mvar (3 * i), mvar (3 * i + 1), mvar (3 * i + 2),
     mvar (3 * i + 3), rfc_k i, rfc_s i, i + 1) r) = rfc_step X i (mregs i r)"
proof -
  have idx: "mvar (3 * Suc i) = mvar (3 * i + 3)" "mvar (3 * Suc i + 1) = mvar (3 * i)"
    "mvar (3 * Suc i + 2) = mvar (3 * i + 1)" "mvar (3 * Suc i + 3) = mvar (3 * i + 2)"
    using mvar_add4 [of "3 * i"] mvar_add4 [of "3 * i + 1"] mvar_add4 [of "3 * i + 2"]
    by (simp_all add: algebra_simps del: mvar_add4)
  define a b c d where roles: "a = mvar (3 * i)" "b = mvar (3 * i + 1)" "c = mvar (3 * i + 2)"
    "d = mvar (3 * i + 3)"
  have dist: "distinct [a, b, c, d]"
  proof -
    have ne: "mvar (3 * i + k) = mvar (3 * i + l) \<longleftrightarrow> k = l" if "k < 4" "l < 4" for k l
      unfolding mvar_eq_iff using that by (rule mod_add_left_inj)
    show ?thesis
      unfolding roles using ne [of 0 1] ne [of 0 2] ne [of 0 3] ne [of 1 2] ne [of 1 3] ne [of 2 3]
      by simp
  qed
  have ne: "b \<noteq> a" "c \<noteq> a" "d \<noteq> a" using dist by auto
  show ?thesis
    unfolding mregs_def idx roles [symmetric]
    by (simp add: md5_mix_f md5_T_rfc add.commute Let_def ne)
qed

lemma md5_process_compress: "md5_process big H b = md5_compress H b"
proof -
  let ?v = "\<lambda>x. case x of Ra \<Rightarrow> H ! 0 | Rb \<Rightarrow> H ! 1 | Rc \<Rightarrow> H ! 2 | Rd \<Rightarrow> H ! 3"
  have "n \<le> 64 \<Longrightarrow> mregs n (fold (md5_SET X) (take n md5_calls) r) =
      fold (rfc_step X) [0..<n] (mregs 0 r)" for n X r
  proof (induction n)
    case (Suc n)
    have call: "take (Suc n) md5_calls = take n md5_calls @ [(mmacro n, mvar (3 * n), mvar (3 * n + 1),
        mvar (3 * n + 2), mvar (3 * n + 3), rfc_k n, rfc_s n, n + 1)]"
      using Suc.prems by (simp add: md5_calls_regular take_map take_upt)
    show ?case
      using Suc unfolding call fold_append comp_apply fold.simps id_apply md5_step_sim by simp
  qed simp
  from this [of 64]
  have e: "mregs 64 (fold (md5_SET (rfc_words b)) md5_calls ?v) =
      fold (rfc_step (rfc_words b)) [0..<64] (mregs 0 ?v)"
    by (simp add: md5_calls_regular)
  have "mregs 64 r = (r Ra, r Rb, r Rc, r Rd)" "mregs 0 ?v = (H ! 0, H ! 1, H ! 2, H ! 3)" for r
    by (simp_all add: mregs_def mvar_def)
  note e = e [unfolded this]
  show ?thesis
    unfolding md5_process_def md5_compress_def Let_def md5_X_words e [symmetric] by simp
qed

subsection \<open>The append operation keeps the contract of a block hash\<close>

definition md5_pend :: "md5_state_t \<Rightarrow> byte list" where
  "md5_pend c = take (unat (drop_bit 3 (mcount0 c) AND 63)) (mbuf c)"

definition md5_bits :: "md5_state_t \<Rightarrow> nat" where
  "md5_bits c = unat (mcount0 c) + 2 ^ 32 * unat (mcount1 c)"

definition md5_ok :: "md5_state_t \<Rightarrow> bool" where
  "md5_ok c \<longleftrightarrow> length (mbuf c) = 64"

text \<open>The shift \<open>nbytes << 3\<close> stays inside an \<open>int\<close> up to this length.\<close>

definition md5_lim :: nat where
  "md5_lim = 2 ^ 28 - 1"

declare md5_blocks.simps [simp del]

lemma md5_blocks_absorb:
  "p + left = length data \<Longrightarrow>
   md5_blocks big st data p left = (absorb (md5_process big) st (drop p data),
     length data - length (remainder (drop p data)), length (remainder (drop p data)))"
proof (induction big st data p left rule: md5_blocks.induct)
  case (1 big st data p left)
  show ?case
  proof (cases "left \<ge> 64")
    case True
    have d: "drop p data = seg data p 64 @ drop (p + 64) data"
      using append_take_drop_id [of 64 "drop p data"] by (simp add: seg_def add.commute)
    have l: "length (seg data p 64) = 64" using True 1 by (simp add: seg_def)
    show ?thesis
      using 1 True unfolding d
      by (simp add: absorb_block [OF l] remainder_block [OF l] md5_blocks.simps [of _ _ _ p])
  next
    case False
    then show ?thesis using 1 by (subst md5_blocks.simps)
      (auto simp: absorb_short remainder_short simp del: md5_blocks.simps)
  qed
qed

lemma md5_append_counts:
  "mcount0 (md5_append big c d) = mcount0 c + word_of_nat (8 * length d)"
  "mcount1 (md5_append big c d) =
     (if mcount0 c + word_of_nat (8 * length d) < (word_of_nat (8 * length d) :: u32)
      then mcount1 c + word_of_nat (length d div 2 ^ 29) + 1
      else mcount1 c + word_of_nat (length d div 2 ^ 29))"
  unfolding md5_append_def Let_def
  by (auto split: prod.split)

lemma md5_append_count:
  assumes "length d \<le> md5_lim"
  shows "md5_bits (md5_append big c d) = (md5_bits c + 8 * length d) mod 2 ^ 64"
proof -
  have l: "unat (word_of_nat (length d) :: u32) = length d"
    using assms by (simp add: md5_lim_def unat_of_nat)
  have m: "(unat (x :: u32) + 2 ^ 32 * unat (y :: u32)) mod 2 ^ 64 = unat x + 2 ^ 32 * unat y" for x y
  proof -
    have "unat x < 2 ^ LENGTH(32)" "unat y < 2 ^ LENGTH(32)" by (rule unsigned_less)+
    then have "unat x + 2 ^ 32 * unat y < 2 ^ 64" by simp
    then show ?thesis by simp
  qed
  have p: "push_bit 3 (word_of_nat (length d)) = (word_of_nat (8 * length d) :: u32)"
    by (simp add: push_bit_eq_mult mult.commute)
  have dr: "drop_bit 29 (word_of_nat (length d) :: u32) = word_of_nat (length d div 2 ^ 29)"
    by (rule unsigned_word_eqI [where 'a = nat])
      (use assms l in \<open>simp add: unat_drop md5_lim_def unat_of_nat\<close>)
  show ?thesis
    using counter_add [of "mcount0 c" "word_of_nat (length d)" "mcount1 c"]
    unfolding Let_def m l md5_bits_def md5_append_counts p dr carry_iff [of "mcount0 c"]
    by (simp add: add_ac split: if_splits)
qed

lemma mod_8_64: "m mod 2 ^ 32 div 8 mod 64 = m div 8 mod (64 :: nat)"
proof -
  have "m mod (8 * q) div 8 = m div 8 mod q" for q by (simp add: mod_mult2_eq)
  from this [of "2 ^ 29"] show ?thesis by (simp add: mod_mod_cancel)
qed

lemma mod64_of_bits:
  fixes a b :: nat
  assumes "a = (b + 8 * n) mod 2 ^ 64"
  shows "a mod 2 ^ 32 div 8 mod 64 = (b mod 2 ^ 32 div 8 mod 64 + n) mod 64"
proof -
  note r = mod_8_64
  have "a mod 2 ^ 32 = (b + 8 * n) mod 2 ^ 32" unfolding assms by (simp add: mod_mod_cancel)
  then have "a mod 2 ^ 32 div 8 mod 64 = (b + 8 * n) div 8 mod 64" by (simp only: r)
  also have "(b + 8 * n) div 8 = b div 8 + n" by simp
  also have "(b div 8 + n) mod 64 = (b mod 2 ^ 32 div 8 mod 64 + n) mod 64"
    unfolding r by (simp add: mod_simps)
  finally show ?thesis .
qed

lemma md5_offset: "unat (drop_bit 3 (mcount0 c) AND 63) = md5_bits c mod 2 ^ 32 div 8 mod 64"
proof -
  have "unat (mcount0 c) < 2 ^ LENGTH(32)" by (rule unsigned_less)
  then have "md5_bits c mod 2 ^ 32 = unat (mcount0 c)" by (simp add: md5_bits_def)
  then show ?thesis by (simp only: and_63 unat_drop) simp
qed

lemma md5_append_absorb:
  assumes ok: "md5_ok c" and lim: "length d \<le> md5_lim"
  shows "mabcd (md5_append big c d) = absorb (md5_process big) (mabcd c) (md5_pend c @ d)"
    and "md5_pend (md5_append big c d) = remainder (md5_pend c @ d)"
    and "md5_ok (md5_append big c d)"
proof -
  let ?j = "unat (drop_bit 3 (mcount0 c) AND 63)" and ?T = "md5_process big"
  let ?u = "md5_append big c d"
  have j: "?j < 64" by (simp add: and_63)
  have buf: "length (mbuf c) = 64" using ok by (simp add: md5_ok_def)
  have pend: "md5_pend c = take ?j (mbuf c)" "length (md5_pend c) = ?j"
    using j buf by (simp_all add: md5_pend_def)
  have nj: "unat (drop_bit 3 (mcount0 ?u) AND 63) = (?j + length d) mod 64"
    unfolding md5_offset by (rule mod64_of_bits [OF md5_append_count [OF lim]])
  have pu: "md5_pend ?u = take ((?j + length d) mod 64) (mbuf ?u)"
    unfolding md5_pend_def nj ..
  have main: "mabcd ?u = absorb ?T (mabcd c) (md5_pend c @ d) \<and>
    md5_pend ?u = remainder (md5_pend c @ d) \<and> length (mbuf ?u) = 64"
  proof (cases "length d = 0")
    case True
    then show ?thesis using pend j buf
      by (simp add: md5_append_def absorb_short remainder_short)
  next
    case ne: False
    show ?thesis
    proof (cases "?j + length d < 64")
      case short: True
      then have a: "length (md5_pend c @ d) < 64" using pend by simp
      show ?thesis
      proof (cases "?j = 0")
        case True
        have "md5_blocks big (mabcd c) d 0 (length d) = (mabcd c, 0, length d)"
          using short by (subst md5_blocks.simps) simp
        then have "mabcd ?u = mabcd c" "mbuf ?u = d @ drop (length d) (mbuf c)"
          using True ne by (simp_all add: md5_append_def Let_def seg_def)
        then show ?thesis using pu short True buf pend a
          by (simp add: absorb_short remainder_short)
      next
        case False
        then have "mabcd ?u = mabcd c"
          "mbuf ?u = take ?j (mbuf c) @ d @ drop (?j + length d) (mbuf c)"
          using short ne by (simp_all add: md5_append_def Let_def)
        then show ?thesis using pu short buf pend a j
          by (simp add: absorb_short remainder_short)
      qed
    next
      case long: False
      let ?i = "if ?j = 0 then 0 else 64 - ?j"
      let ?b = "take ?j (mbuf c) @ take ?i d"
      let ?r = "remainder (drop ?i d)"
      have i: "?i \<le> length d" using long j by auto
      have bl: "md5_blocks big st d ?i (length d - ?i) =
          (absorb ?T st (drop ?i d), length d - length ?r, length ?r)" for st
        by (rule md5_blocks_absorb) (use i in simp)
      have rl: "length ?r = length (drop ?i d) mod 64" by (rule remainder_length)
      have r64: "length ?r < 64" by (simp add: rl)
      have sr: "seg d (length d - length ?r) (length ?r) = ?r"
        using remainder_offset [OF i] unfolding seg_def by simp
      have jr: "(?j + length d) mod 64 = length ?r"
      proof (cases "?j = 0")
        case True
        then show ?thesis by (simp add: remainder_length)
      next
        case False
        then have "?j + length d = 64 + length (drop ?i d)" using long j by simp
        then show ?thesis by (simp only: rl mod_add_self1)
      qed
      define buf1 where "buf1 = (if ?j = 0 then mbuf c else ?b)"
      have b1: "length buf1 = 64" using buf j i by (auto simp: buf1_def)
      define st1 where "st1 = (if ?j = 0 then mabcd c else ?T (mabcd c) buf1)"
      have cp: "(if ?j \<noteq> 0 then if 64 < ?j + length d then 64 - ?j else length d else 0) = ?i"
        using long by auto
      have full: "?j \<noteq> 0 \<Longrightarrow> ?j + ?i = 64" using j by simp
      have up: "mabcd ?u = absorb ?T st1 (drop ?i d)"
        "mbuf ?u = (if length ?r \<noteq> 0 then ?r @ drop (length ?r) buf1 else buf1)"
      proof -
        have e: "(if ?j \<noteq> 0 then take ?j (mbuf c) @ take ?i d @ drop (?j + ?i) (mbuf c)
            else mbuf c) = buf1"
          using full buf by (auto simp: buf1_def)
        have n: "\<not> (?j \<noteq> 0 \<and> ?j + ?i < 64)" using full by auto
        have s: "(if ?j \<noteq> 0 then ?T (mabcd c) buf1 else mabcd c) = st1"
          by (simp add: st1_def)
        show "mabcd ?u = absorb ?T st1 (drop ?i d)"
          "mbuf ?u = (if length ?r \<noteq> 0 then ?r @ drop (length ?r) buf1 else buf1)"
          unfolding md5_append_def Let_def cp e s bl prod.case if_not_P [OF n] if_not_P [OF ne] sr
          by (simp_all only: md5_state_t.select_convs)
      qed
      have ab: "absorb ?T (mabcd c) (md5_pend c @ d) = absorb ?T st1 (drop ?i d) \<and>
          remainder (md5_pend c @ d) = ?r"
      proof (cases "?j = 0")
        case True
        then show ?thesis by (simp add: st1_def pend)
      next
        case False
        then have s: "md5_pend c @ d = buf1 @ drop ?i d" by (simp add: pend buf1_def)
        show ?thesis unfolding s absorb_block [OF b1] remainder_block [OF b1]
          using False by (simp add: st1_def)
      qed
      have lb: "length (mbuf ?u) = 64" unfolding up(2) using b1 r64 by simp
      have "md5_pend ?u = ?r" unfolding pu jr up(2) by simp
      with up(1) ab lb show ?thesis by (simp only: simp_thms)
    qed
  qed
  then show "mabcd ?u = absorb ?T (mabcd c) (md5_pend c @ d)"
    "md5_pend ?u = remainder (md5_pend c @ d)" "md5_ok ?u"
    by (simp_all add: md5_ok_def)
qed

interpretation md5: block_hash md5_compress "md5_append big" mabcd md5_pend md5_bits md5_ok md5_lim
  for big
proof unfold_locales
  fix c and d :: "byte list"
  have T: "md5_process big = md5_compress" by (simp add: fun_eq_iff md5_process_compress)
  assume ok: "md5_ok c"
  then have l: "length (md5_pend c) = unat (drop_bit 3 (mcount0 c) AND 63)"
    by (simp add: md5_pend_def md5_ok_def and_63)
  then show "length (md5_pend c) < 64" by (simp add: and_63)
  show "md5_bits c div 8 mod 64 = length (md5_pend c)"
    unfolding l md5_offset mod_8_64 ..
  assume lim: "length d \<le> md5_lim"
  show "md5_ok (md5_append big c d)"
    "mabcd (md5_append big c d) = absorb md5_compress (mabcd c) (md5_pend c @ d)"
    "md5_pend (md5_append big c d) = remainder (md5_pend c @ d)"
    using md5_append_absorb [OF ok lim, of big] by (simp_all add: T)
  show "md5_bits (md5_append big c d) = (md5_bits c + 8 * length d) mod 2 ^ 64"
    by (rule md5_append_count [OF lim])
qed

subsection \<open>The digest\<close>

definition le64 :: "nat \<Rightarrow> byte list" where
  "le64 n = map (\<lambda>i. word_of_nat (n div 256 ^ i)) [0..<8]"

definition words_le :: "u32 list \<Rightarrow> byte list" where
  "words_le ws =
     concat (map (\<lambda>w. [ucast w, ucast (drop_bit 8 w), ucast (drop_bit 16 w), ucast (drop_bit 24 w)]) ws)"

definition md5_padded :: "byte list \<Rightarrow> byte list" where
  "md5_padded m =
     m @ [0x80] @ replicate (zeros ((length m + 1) mod 64)) 0 @ le64 (8 * length m)"

definition md5_H0 :: "u32 list" where
  "md5_H0 = [0x67452301, 0xEFCDAB89, 0x98BADCFE, 0x10325476]"

definition md5_digest :: "byte list \<Rightarrow> byte list" where
  "md5_digest m = words_le (absorb md5_compress md5_H0 (md5_padded m))"

lemma count_bytes_le64: "md5_count_bytes c = le64 (md5_bits c)"
proof -
  let ?a = "unat (mcount0 c)" and ?b = "unat (mcount1 c)"
  have m: "ucast (x AND 255) = (ucast x :: byte)" for x :: u32
  proof -
    have m: "(255 :: u32) = mask 8" by (simp add: mask_eq_exp_minus_1)
    show ?thesis unfolding m by (rule bit_word_eqI) (auto simp: bit_simps)
  qed
  have a: "?a < 2 ^ 32" using unsigned_less [of "mcount0 c"] by simp
  have hi: "(?a + 2 ^ 32 * ?b) div 256 ^ (4 + k) = ?b div 256 ^ k" for k
    using bytes_hi [OF a] .
  have lo: "(word_of_nat ((?a + 2 ^ 32 * ?b) div 256 ^ k) :: byte) = word_of_nat (?a div 256 ^ k)"
    if "k < 4" for k using bytes_lo [OF that] .
  have i: "[0..<8] = [0, 1, 2, 3, 4, 5, 6, 7 :: nat]" by code_simp
  show ?thesis
    using byte_of_word [of 0 "mcount0 c"] byte_of_word [of 1 "mcount0 c"]
      byte_of_word [of 2 "mcount0 c"] byte_of_word [of 3 "mcount0 c"]
      byte_of_word [of 0 "mcount1 c"] byte_of_word [of 1 "mcount1 c"]
      byte_of_word [of 2 "mcount1 c"] byte_of_word [of 3 "mcount1 c"]
      lo [of 0] lo [of 1] lo [of 2] lo [of 3] hi [of 0] hi [of 1] hi [of 2] hi [of 3]
    by (simp add: md5_count_bytes_def le64_def md5_bits_def i m)
qed

lemma md5_pad_count:
  "unat ((55 - drop_bit 3 (x :: u32)) AND 63) + 1 = 1 + zeros ((unat x div 8 + 1) mod 64)"
proof -
  let ?y = "drop_bit 3 x"
  have "unat (55 - ?y) mod 64 = (2 ^ 32 + 55 - unat ?y) mod 64"
  proof (cases "unat ?y \<le> 55")
    case True
    then have "unat (55 - ?y) = 55 - unat ?y" by (subst unat_sub) (simp_all add: word_le_nat_alt)
    moreover have "2 ^ 32 + 55 - unat ?y = 64 * 2 ^ 26 + (55 - unat ?y)" using True by simp
    ultimately show ?thesis by (simp only: mod_mult_self4)
  next
    case False
    define u where "u = uint ?y"
    have "unat ?y = nat u" by (simp only: u_def unat_eq_nat_uint)
    moreover have u: "55 < u" "u < 2 ^ 32"
    proof -
      show "55 < u" using False \<open>unat ?y = nat u\<close> by linarith
      have "uint ?y < 2 ^ LENGTH(32)" by (rule unsigned_less)
      then show "u < 2 ^ 32" by (simp add: u_def)
    qed
    moreover have "uint (55 - ?y) = (55 - u) mod 2 ^ 32" by (simp add: u_def uint_word_ariths)
    moreover have "(55 - u) mod 2 ^ 32 = 55 - u + 2 ^ 32"
      using mod_add_self2 [of "55 - u" "2 ^ 32"] u by simp
    ultimately have "unat (55 - ?y) = nat (55 - u + 2 ^ 32)" "unat ?y = nat u"
      by (simp_all only: unat_eq_nat_uint)
    then have "unat (55 - ?y) = 2 ^ 32 + 55 - unat ?y" using u by simp
    then show ?thesis by simp
  qed
  moreover have "unat ?y < 2 ^ LENGTH(32)" by (rule unsigned_less)
  moreover have "(2 ^ 32 + 55 - q) mod 64 = zeros ((q + 1) mod 64)" if "q < 2 ^ 32" for q :: nat
  proof -
    define k r where "k = q div 64" and "r = q mod 64"
    then have q: "q = 64 * k + r" "r < 64" "k < 2 ^ 26" using that by auto
    show ?thesis
    proof (cases "r \<le> 55")
      case True
      have "2 ^ 32 + 55 - q = 64 * (2 ^ 26 - k) + (55 - r)" using q True by simp
      then have "(2 ^ 32 + 55 - q) mod 64 = (55 - r) mod 64" by (simp only: mod_mult_self4)
      moreover have "(q + 1) mod 64 = r + 1" using q True by simp
      ultimately show ?thesis using True by (simp add: zeros_def)
    next
      case False
      have "2 ^ 32 + 55 - q = 64 * (2 ^ 26 - k - 1) + (119 - r)" using q False by simp
      then have "(2 ^ 32 + 55 - q) mod 64 = (119 - r) mod 64" by (simp only: mod_mult_self4)
      then have m: "(2 ^ 32 + 55 - q) mod 64 = 119 - r" using q False by simp
      show ?thesis
      proof (cases "r = 63")
        case True
        then have "(q + 1) mod 64 = 0" using q by simp
        then show ?thesis using m True by (simp add: zeros_def)
      next
        case ne: False
        then have "(q + 1) mod 64 = r + 1" using q False by simp
        then show ?thesis using m False by (simp add: zeros_def)
      qed
    qed
  qed
  ultimately show ?thesis by (simp add: and_63 unat_drop)
qed

lemma md5_final_words:
  assumes "length ws = 4"
  shows "map (\<lambda>i. ucast (drop_bit (8 * (i mod 4)) (ws ! (i div 4)))) [0..<16] = words_le ws"
proof -
  obtain a b c d where ws: "ws = [a, b, c, d]"
    using assms by (auto simp: numeral_eq_Suc length_Suc_conv)
  have i: "[0..<16] = [0, 1, 2, 3, 4, 5, 6, 7, 8, 9, 10, 11, 12, 13, 14, 15 :: nat]" by code_simp
  show ?thesis unfolding i ws words_le_def by simp
qed

lemma absorb_md5_length: "length H = 4 \<Longrightarrow> length (absorb md5_compress H xs) = 4"
  by (induction md5_compress H xs rule: absorb.induct)
    (subst absorb.simps, simp add: md5_compress_def split: prod.split)

lemma md5_finish_digest:
  assumes "\<And>p. p \<in> set ps \<Longrightarrow> length p \<le> md5_lim" "8 * length (concat ps) < 2 ^ 64"
    "length (mbuf c) = 64"
  shows "snd (md5_finish big (foldl (md5_append big) (md5_init c) ps)) = md5_digest (concat ps)"
proof -
  let ?U = "md5_append big" and ?m = "concat ps"
  let ?c0 = "md5_init c"
  let ?c1 = "foldl ?U ?c0 ps"
  have ok0: "md5_ok ?c0" and p0: "md5_pend ?c0 = []" and b0: "md5_bits ?c0 = 0"
    and h0: "mabcd ?c0 = md5_H0"
    using assms(3) by (simp_all add: md5_init_def md5_ok_def md5_pend_def md5_bits_def md5_H0_def T_MASK_def)
  note f1 = md5.fold_upd [OF ok0 assms(1), of ps big, unfolded p0 b0 h0 append_Nil add_0]
  then have ok1: "md5_ok ?c1" and pend1: "md5_pend ?c1 = remainder ?m" by auto
  have "unat (mcount0 ?c1) < 2 ^ LENGTH(32)" "unat (mcount1 ?c1) < 2 ^ LENGTH(32)"
    by (rule unsigned_less)+
  then have "md5_bits ?c1 < 2 ^ 64" by (simp add: md5_bits_def)
  then have bits1: "md5_bits ?c1 = 8 * length ?m" using f1 assms(2) by auto
  let ?z = "zeros ((length ?m + 1) mod 64)"
  have n: "unat ((55 - drop_bit 3 (mcount0 ?c1)) AND 63) + 1 = 1 + ?z"
  proof -
    have "unat (mcount0 ?c1) div 8 mod 64 = length ?m mod 64"
      using md5_offset [of ?c1] unfolding mod_8_64 bits1 by (simp add: and_63 unat_drop)
    then have "(unat (mcount0 ?c1) div 8 + 1) mod 64 = (length ?m + 1) mod 64"
      by (metis mod_add_left_eq)
    then show ?thesis by (simp only: md5_pad_count)
  qed
  have zl: "?z < 64" by (auto simp: zeros_def)
  have pad: "take (1 + ?z) md5_pad = [0x80] @ replicate ?z 0"
    using zl by (simp add: md5_pad_def min_def)
  let ?ps = "ps @ [[0x80] @ replicate ?z 0] @ [le64 (8 * length ?m)]"
  have all: "length p \<le> md5_lim" if "p \<in> set ?ps" for p
    using that assms(1) zl by (auto simp: le64_def md5_lim_def)
  have cat: "concat ?ps = md5_padded ?m" by (simp add: md5_padded_def)
  have "mabcd (foldl ?U ?c0 ?ps) = absorb md5_compress md5_H0 (md5_padded ?m)"
    using md5.fold_upd [OF ok0 all, of ?ps big, unfolded p0 b0 h0 append_Nil cat] by blast
  moreover have "foldl ?U ?c0 ?ps = ?U (?U ?c1 ([0x80] @ replicate ?z 0)) (le64 (8 * length ?m))"
    by simp
  moreover have "length (absorb md5_compress md5_H0 (md5_padded ?m)) = 4"
    by (rule absorb_md5_length) (simp add: md5_H0_def)
  ultimately show ?thesis
    unfolding md5_finish_def Let_def n pad count_bytes_le64 bits1 md5_digest_def
    by (simp add: md5_final_words)
qed

subsection \<open>Properties\<close>

text \<open>The block step. For every chaining value and block, on either byte order, the 64 \<open>SET\<close>
  calls with the constants as written compute the compression function of RFC 1321, with its table,
  index and shift formulas.\<close>

theorem md5_process_rfc: "md5_process big H b = md5_compress H b"
  by (rule md5_process_compress)

text \<open>C23: \<open>xs_md5\<close> of a list of strings is the hexadecimal text of the RFC digest of their
  concatenation, independent of how the text is cut, of the byte order and of what the local context
  held before.\<close>

theorem xs_md5_of_strings:
  assumes "\<And>p. p \<in> set ps \<Longrightarrow> length p < 2 ^ 28" and "8 * length (concat ps) < 2 ^ 64"
    and "length (mbuf c) = 64"
  shows "xs_md5 big c ps = xs_bin2str (md5_digest (concat ps))"
proof -
  have "length p \<le> md5_lim" if "p \<in> set ps" for p
    using assms(1) [OF that] by (simp add: md5_lim_def)
  then show ?thesis using md5_finish_digest [OF _ assms(2,3)] by (simp add: xs_md5_def)
qed

theorem xs_md5_of_strings_witness:
  "xs_md5 True \<lparr>mcount0 = 5, mcount1 = 6, mabcd = [], mbuf = replicate 64 1\<rparr>
     [bytes ''user:'', bytes ''realm''] = xs_bin2str (md5_digest (bytes ''user:realm''))"
proof -
  have "bytes ''user:realm'' = concat [bytes ''user:'', bytes ''realm'']" by simp
  then show ?thesis
    by (simp only:) (rule xs_md5_of_strings, auto)
qed

end
