(* ===== verification/Uri.thy ===== *)
theory Uri
  imports Utils
begin

text \<open>
  The URI utilities of \<open>xs/xs_connection.h\<close>: percent decoding, percent encoding and
  \<open>xs_uri_create\<close>, which splits a URI into protocol, host, port, path, query and hash.

  \<open>xs_uri_decode\<close> is called in place (\<open>src == dst\<close>), so it is modelled on one memory with two
  offsets into it. \<open>xs_uri_create\<close> builds its strings in the block it allocates behind the struct;
  the block is the field \<open>ubuf\<close> and the string pointers are offsets into it.
\<close>

subsection \<open>Library calls\<close>

fun strchr_from :: "byte list \<Rightarrow> nat \<Rightarrow> byte \<Rightarrow> nat option" where
  "strchr_from [] i c = None"
| "strchr_from (x # s) 0 c = (if x = c then Some 0 else map_option Suc (strchr_from s 0 c))"
| "strchr_from (x # s) (Suc i) c = map_option Suc (strchr_from s i c)"

primrec dec_digits :: "int \<Rightarrow> byte list \<Rightarrow> int" where
  "dec_digits v [] = v"
| "dec_digits v (c # s) =
     (if 48 \<le> schar c \<and> schar c \<le> 57 then dec_digits (v * 10 + (schar c - 48)) s else v)"

fun c_atoi :: "byte list \<Rightarrow> int" where
  "c_atoi [] = 0"
| "c_atoi (c # s) =
     (if c \<in> {9, 10, 11, 12, 13, 32} then c_atoi s
      else if c = 45 then int32 (- dec_digits 0 s)
      else if c = 43 then int32 (dec_digits 0 s)
      else int32 (dec_digits 0 (c # s)))"

subsection \<open>Percent decoding and encoding\<close>

definition xs_http_okchar :: "int \<Rightarrow> bool" where
  "xs_http_okchar a \<longleftrightarrow> a = 13 \<or> a = 10 \<or> a = 9 \<or> uint32 (a - 32) < 127 - 32"

function uri_decode_loop ::
  "byte list \<Rightarrow> nat \<Rightarrow> int \<Rightarrow> nat \<Rightarrow> int \<Rightarrow> byte \<Rightarrow> int \<Rightarrow> nat \<Rightarrow> nat \<Rightarrow>
   (byte list \<times> int \<times> nat \<times> nat) option" where
  "uri_decode_loop m dst dlen src slen form err s d =
     (if int s < slen \<and> int d < dlen
      then case rd m (src + s) of
        None \<Rightarrow> None
      | Some c \<Rightarrow>
          if c = 0 then Some (m, err, s, d)
          else if c = form then
            (case wr m (dst + d) 32 of None \<Rightarrow> None
             | Some m1 \<Rightarrow> uri_decode_loop m1 dst dlen src slen form err (s + 1) (d + 1))
          else if c \<noteq> 37 then
            (case wr m (dst + d) c of None \<Rightarrow> None
             | Some m1 \<Rightarrow> uri_decode_loop m1 dst dlen src slen form err (s + 1) (d + 1))
          else if int s + 2 < slen \<and> int d + 1 < dlen then
            (case (rd m (src + s + 1), rd m (src + s + 2)) of
               (Some a, Some b) \<Rightarrow>
                 (if xs_fromhex a < 0 \<or> xs_fromhex b < 0
                  then uri_decode_loop m dst dlen src slen form (- 1) (s + 3) d
                  else case wr m (dst + d) (word_of_int (xs_fromhex a * 16) + word_of_int (xs_fromhex b)) of
                      None \<Rightarrow> None
                    | Some m1 \<Rightarrow> uri_decode_loop m1 dst dlen src slen form err (s + 3) (d + 1))
             | _ \<Rightarrow> None)
          else Some (m, - 1, s, d)
      else Some (m, err, s, d))"
  by pat_completeness auto
termination
  by (relation "measure (\<lambda>(m, dst, dlen, src, slen, form, err, s, d). nat (slen - int s))") auto

declare uri_decode_loop.simps [simp del]

definition plus_char :: "bool \<Rightarrow> byte" where
  \<comment> \<open>\<open>if (formencoded) formencoded = '+'\<close>\<close>
  "plus_char formencoded = (if formencoded then 43 else 0)"

definition xs_uri_decode ::
  "byte list \<Rightarrow> nat \<Rightarrow> int \<Rightarrow> nat \<Rightarrow> int \<Rightarrow> bool \<Rightarrow> (byte list \<times> int) option" where
  "xs_uri_decode m dst dlen0 src slen formencoded =
     (let dlen = dlen0 - 1 in
      if dlen \<le> 0 then Some (m, - 50)
      else do {
        (m1, err, s, d) \<leftarrow> uri_decode_loop m dst dlen src slen (plus_char formencoded) 0 0 0;
        (m2, d2) \<leftarrow>
          (if err = 0 \<and> slen - int s \<noteq> 0 \<and> int d + (slen - int s) \<le> dlen
           then if slen - int s < 0 then None
                else do {
                  xs \<leftarrow> rds m1 (src + s) (nat (slen - int s));
                  m2 \<leftarrow> blit m1 (dst + d) xs;
                  Some (m2, d + nat (slen - int s)) }
           else Some (m1, d));
        m3 \<leftarrow> wr m2 (dst + d2) 0;
        Some (m3, err) })"

text \<open>The encoder neither advances nor stops when an escape no longer fits, so it runs on fuel.\<close>

primrec uri_encode_loop ::
  "nat \<Rightarrow> byte list \<Rightarrow> int \<Rightarrow> byte list \<Rightarrow> int \<Rightarrow> byte \<Rightarrow> nat \<Rightarrow> nat \<Rightarrow> (byte list \<times> nat) option" where
  "uri_encode_loop 0 m dlen src slen form s d = None"
| "uri_encode_loop (Suc fuel) m dlen src slen form s d =
     (if int s < slen \<and> int d < dlen \<and> at0 src s \<noteq> 0
      then let c = at0 src s in
        if c = form then do { m1 \<leftarrow> wr m d 43; uri_encode_loop fuel m1 dlen src slen form (s + 1) (d + 1) }
        else if xs_http_okchar (schar c) \<and> c \<noteq> 37
        then do { m1 \<leftarrow> wr m d c; uri_encode_loop fuel m1 dlen src slen form (s + 1) (d + 1) }
        else if int d + 2 < dlen
        then do {
          m1 \<leftarrow> wr m d 37;
          m2 \<leftarrow> wr m1 (d + 1) (word_of_int (xs_tohex (drop_bit 4 (schar c)) True));
          m3 \<leftarrow> wr m2 (d + 2) (word_of_int (xs_tohex (schar c AND 15) True));
          uri_encode_loop fuel m3 dlen src slen form (s + 1) (d + 3) }
        else uri_encode_loop fuel m dlen src slen form s d
      else Some (m, d))"

definition xs_uri_encode ::
  "nat \<Rightarrow> byte list \<Rightarrow> int \<Rightarrow> byte list \<Rightarrow> int \<Rightarrow> bool \<Rightarrow> (byte list \<times> int) option" where
  "xs_uri_encode fuel m dlen0 src slen formencoded =
     (let dlen = dlen0 - 1 in
      if dlen \<le> 0 then Some (m, - 50)
      else do {
        (m1, d) \<leftarrow> uri_encode_loop fuel m dlen src slen (if formencoded then 32 else 0) 0 0;
        m2 \<leftarrow> wr m1 d 0;
        Some (m2, 0) })"

subsection \<open>Splitting a URI\<close>

record xs_uri =
  uport :: int
  uprotocol :: "nat option"
  uhost :: "nat option"
  upath :: "nat option"
  uquery :: "nat option"
  uhash :: "nat option"
  ubuf :: "byte list"

definition ustr :: "byte list \<Rightarrow> nat option \<Rightarrow> byte list option" where
  \<comment> \<open>the C string a pointer into the block denotes\<close>
  "ustr m p = map_option (\<lambda>i. cstr (drop i m)) p"

definition ustrcpy :: "byte list \<Rightarrow> nat \<Rightarrow> byte list \<Rightarrow> nat \<Rightarrow> nat \<Rightarrow> byte list option" where
  \<comment> \<open>\<open>memcpy (buf, str, c); buf[c] = 0\<close>\<close>
  "ustrcpy m b str i c = do { m1 \<leftarrow> blit m b (seg (str @ [0]) i c); wr m1 (b + c) 0 }"

function uri_span :: "byte list \<Rightarrow> nat \<Rightarrow> byte set \<Rightarrow> nat \<Rightarrow> nat" where
  \<comment> \<open>\<open>while (str[c] && str[c] != ...) c++\<close>\<close>
  "uri_span str i stops c =
     (if at0 str (i + c) \<noteq> 0 \<and> at0 str (i + c) \<notin> stops then uri_span str i stops (Suc c) else c)"
  by pat_completeness auto
termination
  by (relation "measure (\<lambda>(str, i, stops, c). length str - (i + c))") (auto simp: at0_def split: if_splits)

function uri_slashes :: "byte list \<Rightarrow> nat \<Rightarrow> nat \<Rightarrow> nat" where
  "uri_slashes str i c =
     (if at0 str (i + c) = 47 \<or> at0 str (i + c) = 92 then uri_slashes str i (Suc c) else c)"
  by pat_completeness auto
termination
  by (relation "measure (\<lambda>(str, i, c). length str - (i + c))") (auto simp: at0_def split: if_splits)

declare uri_span.simps [simp del] uri_slashes.simps [simp del]

definition default_port :: "byte list \<Rightarrow> int \<Rightarrow> int" where
  "default_port proto port =
     (if xs_strcmp (Some proto) (Some (bytes ''http'')) = 0 then 80
      else if xs_strcmp (Some proto) (Some (bytes ''https'')) = 0 then 443
      else if xs_strcmp (Some proto) (Some (bytes ''ws'')) = 0 then 80
      else if xs_strcmp (Some proto) (Some (bytes ''wss'')) = 0 then 443
      else if xs_strcmp (Some proto) (Some (bytes ''ftp'')) = 0 then 21
      else port)"

definition uri_find_protocol :: "byte list \<Rightarrow> xs_uri \<Rightarrow> (xs_uri \<times> nat \<times> nat) option" where
  \<comment> \<open>the struct, \<open>buf\<close> and \<open>str\<close> after the protocol\<close>
  "uri_find_protocol str u =
     (let c = uri_span str 0 {58, 47, 92, 91} 0 in
      if at0 str c = 58 then
        if c > 1 then do {
          m \<leftarrow> ustrcpy (ubuf u) 0 str 0 c;
          Some (u\<lparr>uprotocol := Some 0, ubuf := m,
                  uport := default_port (cstr m) (uport u)\<rparr>, c + 1, c + 1) }
        else if c > 0 then do {
          m \<leftarrow> xs_strlcpy_at (ubuf u) 0 (bytes ''file://'') (length (ubuf u));
          Some (u\<lparr>uprotocol := Some 0, ubuf := m\<rparr>, length (cstr m) + 1, 0) }
        else Some (u, 0, 0)
      else Some (u, 0, 0))"

definition uri_wants_host :: "byte list \<Rightarrow> nat \<Rightarrow> int \<Rightarrow> byte list option \<Rightarrow> nat option \<Rightarrow> bool" where
  "uri_wants_host str i forceHost proto p \<longleftrightarrow>
     (proto = None \<or> xs_strcmp_case proto (Some (bytes ''file://'')) \<noteq> 0) \<and>
     (forceHost \<noteq> 0 \<or> (at0 str i = 47 \<and> at0 str (i + 1) = 47) \<or> p \<noteq> None \<or>
      (proto \<noteq> None \<and>
        (xs_strcmp_case proto (Some (bytes ''http'')) = 0 \<or>
         xs_strcmp_case proto (Some (bytes ''https'')) = 0 \<or>
         xs_strcmp_case proto (Some (bytes ''ftp'')) = 0 \<or>
         xs_strcmp_case proto (Some (bytes ''ftps'')) = 0 \<or>
         xs_strcmp_case proto (Some (bytes ''ws'')) = 0 \<or>
         xs_strcmp_case proto (Some (bytes ''wss'')) = 0)) \<or>
      (proto \<noteq> None \<and> strchr_from str i 47 = None \<and> strchr_from str i 92 = None))"

definition uri_host_v6 :: "byte list \<Rightarrow> nat \<Rightarrow> nat \<Rightarrow> xs_uri \<Rightarrow> nat \<Rightarrow> (xs_uri \<times> nat \<times> nat) option" where
  \<comment> \<open>\<open>[address]\<close> and an optional port; \<open>p\<close> is the closing bracket\<close>
  "uri_host_v6 str i0 p u b0 =
     (let i = i0 + 1 in do {
       m1 \<leftarrow> ustrcpy (ubuf u) b0 str i (p - i);
       let b = b0 + (p - i) + 1;
       let i2 = p + 1;
       let c = uri_span str i2 {47, 92} 0;
       (m2, port) \<leftarrow>
         (if at0 str i2 = 58
          then do { m \<leftarrow> ustrcpy m1 b str (i2 + 1) (c - 1); Some (m, c_atoi (cstr (drop b m))) }
          else Some (m1, uport u));
       Some (u\<lparr>uhost := Some b0, ubuf := m2, uport := port\<rparr>, b, i2 + c) })"

definition uri_host_name :: "byte list \<Rightarrow> nat \<Rightarrow> xs_uri \<Rightarrow> nat \<Rightarrow> (xs_uri \<times> nat \<times> nat) option" where
  "uri_host_name str i0 u b0 =
     (let i = i0 + uri_slashes str i0 0;
          c = uri_span str i {47, 92} 0 in
      if c > 0 then do {
        m1 \<leftarrow> ustrcpy (ubuf u) b0 str i c;
        case strchr_from (cstr (drop b0 m1)) 0 58 of
          None \<Rightarrow> Some (u\<lparr>uhost := Some b0, ubuf := m1\<rparr>, b0 + c + 1, i + c)
        | Some k \<Rightarrow> do {
            m2 \<leftarrow> wr m1 (b0 + k) 0;
            Some (u\<lparr>uhost := Some b0, ubuf := m2, uport := c_atoi (cstr (drop (b0 + k + 1) m2))\<rparr>,
                  b0 + k + 1, i + c) } }
      else Some (u, b0, i))"

definition uri_find_host :: "byte list \<Rightarrow> int \<Rightarrow> xs_uri \<Rightarrow> nat \<Rightarrow> nat \<Rightarrow> (xs_uri \<times> nat \<times> nat) option" where
  "uri_find_host str forceHost u b i =
     (let p = (if at0 str i = 91 then strchr_from str i 93 else None) in
      if uri_wants_host str i forceHost (ustr (ubuf u) (uprotocol u)) p
      then case p of Some q \<Rightarrow> uri_host_v6 str i q u b | None \<Rightarrow> uri_host_name str i u b
      else Some (u, b, i))"

definition uri_find_path :: "byte list \<Rightarrow> xs_uri \<Rightarrow> nat \<Rightarrow> nat \<Rightarrow> (xs_uri \<times> nat \<times> nat) option" where
  "uri_find_path str u b i =
     (let c = uri_span str i {63, 35} 0;
          nofile = (xs_strcmp_case (ustr (ubuf u) (uprotocol u)) (Some (bytes ''file://'')) \<noteq> 0) in
      if c > 0 then do {
        (m1, b1) \<leftarrow> (if at0 str i \<noteq> 47 \<and> nofile
                     then do { m \<leftarrow> wr (ubuf u) b 47; Some (m, b + 1) } else Some (ubuf u, b));
        m2 \<leftarrow> ustrcpy m1 b1 str i c;
        Some (u\<lparr>upath := Some b, ubuf := m2\<rparr>, b1 + c + 1, i + c) }
      else if nofile then do {
        m \<leftarrow> xs_strlcpy_at (ubuf u) b (bytes ''/'') (length (ubuf u) - b);
        Some (u\<lparr>upath := Some b, ubuf := m\<rparr>, b + 2, i) }
      else Some (u, b, i))"

definition uri_find_query :: "byte list \<Rightarrow> xs_uri \<Rightarrow> nat \<Rightarrow> nat \<Rightarrow> (xs_uri \<times> nat \<times> nat) option" where
  "uri_find_query str u b i0 =
     (if at0 str i0 = 63
      then let i = i0 + 1; c = uri_span str i {35} 0 in
        if c > 0 then do {
          m \<leftarrow> ustrcpy (ubuf u) b str i c;
          Some (u\<lparr>uquery := Some b, ubuf := m\<rparr>, b + c + 1, i + c) }
        else Some (u, b, i)
      else Some (u, b, i0))"

definition uri_find_hash :: "byte list \<Rightarrow> xs_uri \<Rightarrow> nat \<Rightarrow> nat \<Rightarrow> (xs_uri \<times> nat \<times> nat) option" where
  "uri_find_hash str u b i0 =
     (if at0 str i0 = 35
      then let i = i0 + 1; c = length str - i in
        if c > 0 then do {
          m \<leftarrow> ustrcpy (ubuf u) b str i c;
          Some (u\<lparr>uhash := Some b, ubuf := m\<rparr>, b + c + 1, i + c) }
        else Some (u, b, i)
      else Some (u, b, i0))"

definition xs_uri_create :: "byte list option \<Rightarrow> int \<Rightarrow> xs_uri option option" where
  \<comment> \<open>the inner \<open>None\<close> is the NULL result; the outer one a write outside the block\<close>
  "xs_uri_create instr forceHost =
     (case instr of
        None \<Rightarrow> Some None
      | Some str \<Rightarrow>
          if str = [] then Some None
          else do {
            let u0 = \<lparr>uport = 0, uprotocol = None, uhost = None, upath = None, uquery = None,
                      uhash = None, ubuf = replicate (length str + 15) 0\<rparr>;
            (u1, b1, i1) \<leftarrow> uri_find_protocol str u0;
            let (u2, b2, i2) = (if forceHost = 2 \<and> uport u1 = 0
                                then (u1\<lparr>uprotocol := None\<rparr>, 0, 0) else (u1, b1, i1));
            (u3, b3, i3) \<leftarrow> uri_find_host str forceHost u2 b2 i2;
            (u4, b4, i4) \<leftarrow> uri_find_path str u3 b3 i3;
            (u5, b5, i5) \<leftarrow> uri_find_query str u4 b4 i4;
            (u6, b6, i6) \<leftarrow> uri_find_hash str u5 b5 i5;
            Some (Some u6) })"

subsection \<open>Lemmas: scanning\<close>

lemma drop_at0: "i < length s \<Longrightarrow> drop i s = at0 s i # drop (Suc i) s"
  by (simp add: at0_def Cons_nth_drop_Suc)

lemma uri_span_takeWhile:
  "uri_span str i stops c = c + length (takeWhile (\<lambda>x. x \<noteq> 0 \<and> x \<notin> stops) (drop (i + c) str))"
proof (induction str i stops c rule: uri_span.induct)
  case (1 str i stops c)
  show ?case
  proof (cases "at0 str (i + c) \<noteq> 0 \<and> at0 str (i + c) \<notin> stops")
    case True
    then have "i + c < length str" by (auto simp: at0_def split: if_splits)
    then show ?thesis using 1 True by (subst uri_span.simps) (simp add: drop_at0)
  next
    case False
    then show ?thesis
      by (subst uri_span.simps) (cases "i + c < length str"; auto simp: drop_at0)
  qed
qed

lemma uri_slashes_takeWhile:
  "uri_slashes str i c = c + length (takeWhile (\<lambda>x. x = 47 \<or> x = 92) (drop (i + c) str))"
proof (induction str i c rule: uri_slashes.induct)
  case (1 str i c)
  show ?case
  proof (cases "at0 str (i + c) = 47 \<or> at0 str (i + c) = 92")
    case True
    then have "i + c < length str" by (auto simp: at0_def split: if_splits)
    then show ?thesis using 1 True by (subst uri_slashes.simps) (auto simp: drop_at0)
  next
    case False
    then show ?thesis
      by (subst uri_slashes.simps) (cases "i + c < length str"; auto simp: drop_at0)
  qed
qed

lemma uri_span_le: "i \<le> length str \<Longrightarrow> i + uri_span str i stops 0 \<le> length str"
  using length_takeWhile_le [of "\<lambda>x. x \<noteq> 0 \<and> x \<notin> stops" "drop i str"]
  by (simp add: uri_span_takeWhile)

lemma uri_span_pos: "at0 str i \<noteq> 0 \<Longrightarrow> at0 str i \<notin> stops \<Longrightarrow> 0 < uri_span str i stops 0"
  by (cases "i < length str") (auto simp: uri_span_takeWhile drop_at0 at0_out)

lemma uri_slashes_le: "i \<le> length str \<Longrightarrow> i + uri_slashes str i 0 \<le> length str"
  using length_takeWhile_le [of "\<lambda>x. x = 47 \<or> x = 92" "drop i str"]
  by (simp add: uri_slashes_takeWhile)

lemma strchr_from_Some:
  "strchr_from s i c = Some k \<Longrightarrow> i \<le> k \<and> k < length s \<and> s ! k = c"
  by (induction s i c arbitrary: k rule: strchr_from.induct) (auto split: if_splits)

lemma strchr_from_None_iff: "strchr_from s i c = None \<longleftrightarrow> c \<notin> set (drop i s)"
  by (induction s i c rule: strchr_from.induct) auto

lemma strchr_from_first: "c \<notin> set a \<Longrightarrow> strchr_from (a @ c # s) 0 c = Some (length a)"
  by (induction a) auto

subsection \<open>Lemmas: strings in the block\<close>

lemma ustrcpy_Some:
  assumes "i + c \<le> length str" "b + c < length m" 
  shows "ustrcpy m b str i c = Some (take b m @ seg str i c @ 0 # drop (b + c + 1) m)"
proof -
  have s: "seg (str @ [0]) i c = seg str i c" "length (seg str i c) = c"
    using assms by (simp_all add: seg_def)
  have d: "drop (b + c) m = m ! (b + c) # drop (b + c + 1) m"
    using assms by (simp add: Cons_nth_drop_Suc)
  show ?thesis
    using assms s unfolding ustrcpy_def by (simp add: mem_simps list_update_append d del: drop_drop)
qed

lemma xs_strlcpy_at_fits:
  "b + length s < length m \<Longrightarrow> length s < n \<Longrightarrow>
   xs_strlcpy_at m b s n = Some (take b m @ s @ 0 # drop (b + length s + 1) m)"
proof (induction m b s n rule: xs_strlcpy_at.induct)
  case (1 d i n)
  then show ?case by (simp add: mem_simps upd_conv_take_nth_drop)
next
  case (2 d i c s n)
  then show ?case
    by (simp add: mem_simps take_Suc_conv_app_nth drop_update_cancel take_update_cancel)
qed

lemma cstr_prefix:
  "is_cstr s \<Longrightarrow> cstr (s @ 0 # r) = s"
  by (rule cstr_terminated)

text \<open>A string that ends before \<open>b\<close> is not changed by writes from \<open>b\<close> on.\<close>

definition str_at :: "byte list \<Rightarrow> nat \<Rightarrow> nat \<Rightarrow> byte list \<Rightarrow> bool" where
  "str_at m o1 b s \<longleftrightarrow> is_cstr s \<and> o1 + length s < b \<and> b \<le> length m \<and>
     take (length s + 1) (drop o1 m) = s @ [0]"

lemma str_at_cstr: "str_at m o1 b s \<Longrightarrow> cstr (drop o1 m) = s"
  by (metis append_Cons append_Nil append_assoc append_take_drop_id cstr_prefix str_at_def)

lemma str_at_mono:
  assumes "str_at m o1 b s" "take b m' = take b m" "b \<le> b'" "b' \<le> length m'"
  shows "str_at m' o1 b' s"
proof -
  have le: "length s + 1 \<le> b - o1" using assms(1) by (auto simp: str_at_def)
  have cut: "take (length s + 1) (drop o1 x) = take (length s + 1) (drop o1 (take b x))" for x :: "byte list"
    using le by (simp add: drop_take min_def)
  have "take (length s + 1) (drop o1 m') = take (length s + 1) (drop o1 m)"
    by (subst (1 2) cut) (simp only: assms(2))
  then show ?thesis using assms by (simp add: str_at_def)
qed

subsection \<open>Lemmas: xs_uri_create stays in its block\<close>

definition uri_room :: "byte list \<Rightarrow> nat \<Rightarrow> xs_uri \<times> nat \<times> nat \<Rightarrow> bool" where
  \<comment> \<open>the write position is at most \<open>k\<close> ahead of the read position\<close>
  "uri_room str k = (\<lambda>(u, b, i). i \<le> length str \<and> b \<le> i + k \<and> length (ubuf u) = length str + 15)"

lemma ustrcpy_fits:
  "i + c \<le> length str \<Longrightarrow> b + c < length m \<Longrightarrow>
   \<exists>m'. ustrcpy m b str i c = Some m' \<and> length m' = length m"
  by (simp add: ustrcpy_Some seg_def)

lemma uri_find_protocol_room:
  assumes "length (ubuf u) = length str + 15"
  shows "\<exists>r. uri_find_protocol str u = Some r \<and> uri_room str 8 r"
proof -
  let ?c = "uri_span str 0 {58, 47, 92, 91} 0"
  have c: "?c \<le> length str" using uri_span_le [of 0 str] by simp
  have lt: "?c < length str" if "at0 str ?c = 58"
    using that by (auto simp: at0_def split: if_splits)
  show ?thesis
  proof (cases "at0 str ?c = 58 \<and> ?c > 1")
    case True
    moreover have "?c < length (ubuf u)" using c assms by simp
    ultimately show ?thesis
      using lt assms ustrcpy_fits [of 0 ?c str 0 "ubuf u"]
      by (auto simp: uri_find_protocol_def uri_room_def Let_def)
  next
    case F: False
    show ?thesis
    proof (cases "at0 str ?c = 58 \<and> ?c > 0")
      case True
      let ?m = "take 0 (ubuf u) @ bytes ''file://'' @ 0 # drop (0 + length (bytes ''file://'') + 1) (ubuf u)"
      have w: "xs_strlcpy_at (ubuf u) 0 (bytes ''file://'') (length (ubuf u)) = Some ?m"
        using assms by (intro xs_strlcpy_at_fits) simp_all
      have "cstr ?m = bytes ''file://''" by (simp only: take_0 append_Nil) (rule cstr_terminated, simp)
      then show ?thesis using F True assms
        by (auto simp: uri_find_protocol_def uri_room_def Let_def w [unfolded assms] bytes_simps(3) simp del: bytes_simps(1,2))
    next
      case False
      then show ?thesis using F assms
        by (auto simp: uri_find_protocol_def uri_room_def Let_def)
    qed
  qed
qed

lemma uri_host_v6_room:
  assumes "uri_room str 8 (u, b, i)" "i < p" "p < length str"
  shows "\<exists>r. uri_host_v6 str i p u b = Some r \<and> uri_room str 9 r"
proof -
  have len: "length (ubuf u) = length str + 15" "b \<le> i + 8"
    using assms by (simp_all add: uri_room_def)
  have "i + 1 + (p - (i + 1)) \<le> length str" "b + (p - (i + 1)) < length (ubuf u)"
    using assms(2,3) len by simp_all
  then obtain m1 where m1: "ustrcpy (ubuf u) b str (i + 1) (p - (i + 1)) = Some m1"
    "length m1 = length str + 15"
    using ustrcpy_fits len(1) by metis
  let ?c = "uri_span str (p + 1) {47, 92} 0" and ?b = "b + (p - (i + 1)) + 1"
  have c: "p + 1 + ?c \<le> length str" using assms uri_span_le [of "p + 1" str] by simp
  obtain m2 where m2: "ustrcpy m1 ?b str (p + 1 + 1) (?c - 1) = Some m2"
    "length m2 = length str + 15" if "at0 str (p + 1) = 58"
  proof (cases "?c > 0")
    case True
    then have "p + 1 + 1 + (?c - 1) \<le> length str" "?b + (?c - 1) < length m1"
      using c len assms m1 by simp_all
    then show ?thesis using that ustrcpy_fits m1(2) by metis
  next
    case False
    then show ?thesis using that uri_span_pos [of str "p + 1" "{47, 92}"] by force
  qed
  show ?thesis
    using m1 m2 c len assms
    by (cases "at0 str (p + 1) = 58") (auto simp: uri_host_v6_def uri_room_def Let_def)
qed

lemma uri_host_name_room:
  assumes "uri_room str 8 (u, b, i)"
  shows "\<exists>r. uri_host_name str i u b = Some r \<and> uri_room str 9 r"
proof -
  have len: "length (ubuf u) = length str + 15" "b \<le> i + 8" "i \<le> length str"
    using assms by (simp_all add: uri_room_def)
  define j where "j = i + uri_slashes str i 0"
  define c where "c = uri_span str j {47, 92} 0"
  have j: "i \<le> j" "j \<le> length str" using uri_slashes_le len by (auto simp: j_def)
  have c: "j + c \<le> length str" using uri_span_le j by (auto simp: c_def)
  obtain m1 where m1: "ustrcpy (ubuf u) b str j c = Some m1" "length m1 = length str + 15"
    using ustrcpy_fits [of j c str b "ubuf u"] c j len by auto
  have k: "b + k < length m1 \<and> k \<le> length (cstr (drop b m1))"
    if "strchr_from (cstr (drop b m1)) 0 58 = Some k" for k
  proof -
    have "k < length (cstr (drop b m1))" using strchr_from_Some [OF that] by simp
    moreover have "length (cstr (drop b m1)) \<le> length (drop b m1)"
      unfolding cstr_def by (rule length_takeWhile_le)
    ultimately show ?thesis by simp
  qed
  have "length (cstr (drop b m1)) \<le> c"
  proof -
    have "b + c < length (ubuf u)" using c j len by simp
    then have "m1 = take b (ubuf u) @ seg str j c @ 0 # drop (b + c + 1) (ubuf u)"
      using m1(1) c by (simp add: ustrcpy_Some)
    moreover have "length (take b (ubuf u)) = b" using c j len by simp
    ultimately have "drop b m1 = seg str j c @ 0 # drop (b + c + 1) (ubuf u)"
      by simp
    moreover have "length (cstr (s @ 0 # r)) \<le> length s" for s r
      by (induction s) (auto simp: cstr_def)
    moreover have "length (seg str j c) = c" using c by (simp add: seg_length)
    ultimately show ?thesis by metis
  qed
  with k show ?thesis
    using m1 c j len
    by (fastforce simp: uri_host_name_def uri_room_def Let_def j_def [symmetric] c_def [symmetric]
        mem_simps split: option.splits)
qed

lemma uri_find_host_room:
  assumes "uri_room str 8 (u, b, i)"
  shows "\<exists>r. uri_find_host str f u b i = Some r \<and> uri_room str 9 r"
proof -
  have skip: "uri_room str 9 (u, b, i)" using assms by (simp add: uri_room_def)
  let ?p = "if at0 str i = 91 then strchr_from str i 93 else None"
  show ?thesis
  proof (cases "uri_wants_host str i f (ustr (ubuf u) (uprotocol u)) ?p")
    case True
    show ?thesis
    proof (cases ?p)
      case None
      with True show ?thesis using uri_host_name_room [OF assms] by (simp add: uri_find_host_def)
    next
      case (Some q)
      then have c: "at0 str i = 91" "strchr_from str i 93 = Some q" by (simp_all split: if_splits)
      have "i \<le> q" "q < length str" "str ! q = 93" using strchr_from_Some [OF c(2)] by simp_all
      moreover have "i \<noteq> q" using c \<open>q < length str\<close> \<open>str ! q = 93\<close> by (auto simp: at0_def)
      ultimately have "i < q" "q < length str" by simp_all
      then show ?thesis
        using uri_host_v6_room [OF assms, of q] True Some by (simp add: uri_find_host_def Let_def)
    qed
  next
    case False
    then show ?thesis using skip by (simp add: uri_find_host_def Let_def)
  qed
qed

lemma uri_find_path_room:
  assumes "uri_room str 9 (u, b, i)"
  shows "\<exists>r. uri_find_path str u b i = Some r \<and> uri_room str 11 r"
proof -
  have len: "length (ubuf u) = length str + 15" "b \<le> i + 9" "i \<le> length str"
    using assms by (simp_all add: uri_room_def)
  define c where "c = uri_span str i {63, 35} 0"
  have c: "i + c \<le> length str" using uri_span_le len by (auto simp: c_def)
  have w: "xs_strlcpy_at (ubuf u) b (bytes ''/'') (length str + 15 - b) =
    Some (take b (ubuf u) @ bytes ''/'' @ 0 # drop (b + length (bytes ''/'') + 1) (ubuf u))"
    using len by (intro xs_strlcpy_at_fits) simp_all
  have "\<exists>m'. ustrcpy m b1 str i c = Some m' \<and> length m' = length str + 15"
    if "length m = length str + 15" "b1 \<le> b + 1" for m b1
    using ustrcpy_fits [of i c str b1 m] that c len by simp
  note cp = this
  obtain m1 where m1: "ustrcpy (ubuf u) b str i c = Some m1" "length m1 = length str + 15"
    using cp [of "ubuf u" b] len(1) by auto
  obtain m2 where m2: "ustrcpy ((ubuf u)[b := 47]) (b + 1) str i c = Some m2"
      "length m2 = length str + 15"
    using cp [of "(ubuf u)[b := 47]" "b + 1"] len(1) by auto
  have wr: "wr (ubuf u) b 47 = Some ((ubuf u)[b := 47])" using len by (simp add: mem_simps)
  show ?thesis
    using len c m1 m2 wr w
    by (auto simp: uri_find_path_def uri_room_def Let_def c_def [symmetric] simp del: bytes_simps)
      (simp_all add: bytes_simps(3))
qed

lemma uri_find_query_room:
  assumes "uri_room str 11 (u, b, i)"
  shows "\<exists>r. uri_find_query str u b i = Some r \<and> uri_room str 11 r"
proof (cases "at0 str i = 63")
  case True
  then have i: "i < length str" by (auto simp: at0_def split: if_splits)
  define c where "c = uri_span str (Suc i) {35} 0"
  have c: "i + 1 + c \<le> length str" using uri_span_le [of "Suc i" str] i by (simp add: c_def)
  have "length (ubuf u) = length str + 15" "b \<le> i + 11"
    using assms by (simp_all add: uri_room_def)
  then show ?thesis
    using True c ustrcpy_fits [of "i + 1" c str b "ubuf u"]
    by (auto simp: uri_find_query_def uri_room_def Let_def c_def [symmetric])
next
  case False
  then show ?thesis using assms by (simp add: uri_find_query_def)
qed

lemma uri_find_hash_room:
  assumes "uri_room str 11 (u, b, i)"
  shows "\<exists>r. uri_find_hash str u b i = Some r \<and> uri_room str 11 r"
proof (cases "at0 str i = 35")
  case True
  then have i: "i < length str" by (auto simp: at0_def split: if_splits)
  define c where "c = length str - Suc i"
  have c: "i + 1 + c = length str" using i by (simp add: c_def)
  have "length (ubuf u) = length str + 15" "b \<le> i + 11"
    using assms by (simp_all add: uri_room_def)
  then show ?thesis
    using True c i ustrcpy_fits [of "i + 1" c str b "ubuf u"]
    by (auto simp: uri_find_hash_def uri_room_def Let_def c_def [symmetric])
next
  case False
  then show ?thesis using assms by (simp add: uri_find_hash_def)
qed

text \<open>C32: \<open>xs_uri_create\<close> never writes outside the block it allocates: whatever the string and the
  \<open>forceHost\<close> mode, the model gives a result (NULL exactly for a NULL or empty string), and no write
  of the splitting was out of bounds.\<close>

theorem xs_uri_create_in_bounds:
  "\<exists>r. xs_uri_create instr forceHost = Some r \<and> (r = None \<longleftrightarrow> instr = None \<or> instr = Some [])"
proof (cases "instr = None \<or> instr = Some []")
  case True
  then show ?thesis by (auto simp: xs_uri_create_def)
next
  case False
  then obtain str where str: "instr = Some str" "str \<noteq> []" by auto
  let ?u0 = "\<lparr>uport = 0, uprotocol = None, uhost = None, upath = None, uquery = None,
              uhash = None, ubuf = replicate (length str + 15) (0 :: byte)\<rparr>"
  obtain u1 b1 i1 where 1: "uri_find_protocol str ?u0 = Some (u1, b1, i1)" "uri_room str 8 (u1, b1, i1)"
    using uri_find_protocol_room [of ?u0 str] by auto
  obtain u2 b2 i2 where 2: "(if forceHost = 2 \<and> uport u1 = 0
      then (u1\<lparr>uprotocol := None\<rparr>, 0, 0) else (u1, b1, i1)) = (u2, b2, i2)"
    using prod_cases3 by blast
  then have "uri_room str 8 (u2, b2, i2)" using 1(2) by (auto simp: uri_room_def split: if_splits)
  then obtain u3 b3 i3 where 3: "uri_find_host str forceHost u2 b2 i2 = Some (u3, b3, i3)"
      "uri_room str 9 (u3, b3, i3)"
    using uri_find_host_room by (metis prod_cases3)
  then obtain u4 b4 i4 where 4: "uri_find_path str u3 b3 i3 = Some (u4, b4, i4)"
      "uri_room str 11 (u4, b4, i4)"
    using uri_find_path_room by (metis prod_cases3)
  then obtain u5 b5 i5 where 5: "uri_find_query str u4 b4 i4 = Some (u5, b5, i5)"
      "uri_room str 11 (u5, b5, i5)"
    using uri_find_query_room by (metis prod_cases3)
  then obtain u6 b6 i6 where 6: "uri_find_hash str u5 b5 i5 = Some (u6, b6, i6)"
    using uri_find_hash_room by (metis prod_cases3)
  show ?thesis
    unfolding xs_uri_create_def using str 1(1) 2 3(1) 4(1) 5(1) 6 by simp
qed

subsection \<open>Percent decoding against its specification\<close>

fun pct_decode :: "byte \<Rightarrow> byte list \<Rightarrow> byte list" where
  \<comment> \<open>the text a percent-encoded string stands for; \<open>form\<close> is \<open>+\<close> for form encoding\<close>
  "pct_decode form [] = []"
| "pct_decode form [c] = [if c = form then 32 else c]"
| "pct_decode form [c, a] = (if c = form then 32 else c) # pct_decode form [a]"
| "pct_decode form (c # a # b # s) =
     (if c = form then 32 # pct_decode form (a # b # s)
      else if c \<noteq> 37 then c # pct_decode form (a # b # s)
      else word_of_int (xs_fromhex a * 16 + xs_fromhex b) # pct_decode form s)"

fun pct_ok :: "byte \<Rightarrow> byte list \<Rightarrow> bool" where
  \<comment> \<open>every percent sign starts an escape of two hex digits\<close>
  "pct_ok form [] = True"
| "pct_ok form [c] = (c \<noteq> 37)"
| "pct_ok form [c, a] = (c \<noteq> 37 \<and> a \<noteq> 37)"
| "pct_ok form (c # a # b # s) =
     (if c \<noteq> 37 then pct_ok form (a # b # s)
      else 0 \<le> xs_fromhex a \<and> 0 \<le> xs_fromhex b \<and> pct_ok form s)"

definition hexdig :: "int \<Rightarrow> byte" where
  "hexdig v = word_of_int (if v < 10 then 48 + v else 55 + v)"

fun pct_encode :: "(byte \<Rightarrow> bool) \<Rightarrow> byte list \<Rightarrow> byte list" where
  \<comment> \<open>RFC 3986: the bytes outside \<open>safe\<close> are escaped\<close>
  "pct_encode safe [] = []"
| "pct_encode safe (c # s) =
     (if safe c then c # pct_encode safe s
      else 37 # hexdig (uint c div 16) # hexdig (uint c mod 16) # pct_encode safe s)"

lemma xs_fromhex_hexdig: "0 \<le> v \<Longrightarrow> v < 16 \<Longrightarrow> xs_fromhex (hexdig v) = v"
proof -
  assume "0 \<le> v" "v < 16"
  then have "v \<in> {0, 1, 2, 3, 4, 5, 6, 7, 8, 9, 10, 11, 12, 13, 14, 15}" by simp arith
  then show ?thesis by (auto simp: hexdig_def xs_fromhex_def)
qed

lemma wr_at: "w \<noteq> [] \<Longrightarrow> length pre = i \<Longrightarrow> wr (pre @ w @ r) i x = Some ((pre @ [x]) @ tl w @ r)"
  by (cases w) (auto simp: wr_def list_update_append)

lemma rd_at: "length pre + length mid = i \<Longrightarrow> rd (pre @ mid @ c # r) i = Some c"
  by (auto simp: rd_def nth_append)

lemma pct_decode_char: "c \<noteq> 37 \<Longrightarrow> pct_decode form (c # r) = (if c = form then 32 else c) # pct_decode form r"
  by (cases r rule: remdups_adj.cases) auto

lemma pct_ok_char: "c \<noteq> 37 \<Longrightarrow> pct_ok form (c # r) = pct_ok form r"
  by (cases r rule: remdups_adj.cases) auto

lemma pct_ok_escape:
  "pct_ok form (37 # r) \<Longrightarrow> \<exists>a b r'. r = a # b # r' \<and> 0 \<le> xs_fromhex a \<and> 0 \<le> xs_fromhex b \<and> pct_ok form r'"
  by (cases r rule: remdups_adj.cases) auto

lemma uri_decode_char:
  assumes "c \<noteq> 0" "c \<noteq> 37" "length pre = p + d" "length mid + d = s" "s < n"
  shows "uri_decode_loop (pre @ mid @ c # r) p (int n) p (int n + 1) form 0 s d =
    uri_decode_loop ((pre @ [if c = form then 32 else c]) @ tl (mid @ [c]) @ r) p (int n) p (int n + 1)
      form 0 (Suc s) (Suc d)"
proof -
  have "rd (pre @ mid @ c # r) (p + s) = Some c" using assms by (intro rd_at) simp
  moreover have "wr (pre @ mid @ c # r) (p + d) x = Some ((pre @ [x]) @ tl (mid @ [c]) @ r)" for x
    using wr_at [of "mid @ [c]" pre "p + d" r x] assms by simp
  ultimately show ?thesis using assms by (cases "c = form") (subst uri_decode_loop.simps, simp)+
qed

lemma uri_decode_escape:
  assumes "form \<noteq> 37" "length pre = p + d" "length mid + d = s" "s + 2 < n + 1" "0 \<le> xs_fromhex a" "0 \<le> xs_fromhex b"
  shows "uri_decode_loop (pre @ mid @ 37 # a # b # r) p (int n) p (int n + 1) form 0 s d =
    uri_decode_loop ((pre @ [word_of_int (xs_fromhex a * 16 + xs_fromhex b)]) @ tl (mid @ [37, a, b]) @ r)
      p (int n) p (int n + 1) form 0 (s + 3) (Suc d)"
proof -
  let ?m = "pre @ mid @ 37 # a # b # r"
  have "rd ?m (p + s) = Some 37" "rd ?m (p + s + 1) = Some a" "rd ?m (p + s + 2) = Some b"
    using rd_at [of pre mid "p + s" 37 "a # b # r"] rd_at [of pre "mid @ [37]" "p + s + 1" a "b # r"]
      rd_at [of pre "mid @ [37, a]" "p + s + 2" b r] assms by simp_all
  moreover have "wr ?m (p + d) x = Some ((pre @ [x]) @ tl (mid @ [37, a, b]) @ r)" for x
    using wr_at [of "mid @ [37, a, b]" pre "p + d" r x] assms by simp
  ultimately show ?thesis using assms by (subst uri_decode_loop.simps) simp
qed

lemma uri_decode_loop_ok:
  assumes "is_cstr rest" "pct_ok form rest" "form = 0 \<or> form = 43"
    and "length pre = p + d" "length mid + d = s" "n = s + length rest"
  shows "\<exists>mid'. length mid' + length (pct_decode form rest) = length mid + length rest \<and>
    uri_decode_loop (pre @ mid @ rest @ 0 # post) p (int n) p (int n + 1) form 0 s d =
      Some (pre @ pct_decode form rest @ mid' @ 0 # post, 0, n, d + length (pct_decode form rest))"
  using assms
proof (induction "length rest" arbitrary: rest pre mid s d rule: less_induct)
  case less
  show ?case
  proof (cases rest)
    case Nil
    have "rd (pre @ mid @ 0 # post) (p + s) = Some 0" using less.prems by (intro rd_at) simp
    then show ?thesis using less.prems Nil by (subst uri_decode_loop.simps) auto
  next
    case (Cons c r)
    then have c0: "c \<noteq> 0" using less.prems by auto
    show ?thesis
    proof (cases "c = 37")
      case False
      let ?x = "if c = form then 32 else c"
      have "\<exists>mid'. length mid' + length (pct_decode form r) = length (tl (mid @ [c])) + length r \<and>
        uri_decode_loop ((pre @ [?x]) @ tl (mid @ [c]) @ r @ 0 # post) p (int n) p (int n + 1) form 0
          (Suc s) (Suc d) =
        Some ((pre @ [?x]) @ pct_decode form r @ mid' @ 0 # post, 0, n, Suc d + length (pct_decode form r))"
        using less.prems Cons False by (intro less.hyps) (auto simp: pct_ok_char)
      then show ?thesis
        using uri_decode_char [OF c0 False less.prems(4,5), of n "r @ 0 # post" form] Cons False less.prems
        by (auto simp: pct_decode_char)
    next
      case True
      then obtain a b r' where r: "r = a # b # r'" "0 \<le> xs_fromhex a" "0 \<le> xs_fromhex b" "pct_ok form r'"
        using less.prems(2) Cons pct_ok_escape by blast
      have f: "form \<noteq> 37" using less.prems(3) by auto
      let ?x = "word_of_int (xs_fromhex a * 16 + xs_fromhex b) :: byte"
      have "\<exists>mid'. length mid' + length (pct_decode form r') = length (tl (mid @ [37, a, b])) + length r' \<and>
        uri_decode_loop ((pre @ [?x]) @ tl (mid @ [37, a, b]) @ r' @ 0 # post) p (int n) p (int n + 1) form 0
          (s + 3) (Suc d) =
        Some ((pre @ [?x]) @ pct_decode form r' @ mid' @ 0 # post, 0, n, Suc d + length (pct_decode form r'))"
        using less.prems Cons r by (intro less.hyps) auto
      then show ?thesis
        using uri_decode_escape [OF f less.prems(4,5), of n a b "r' @ 0 # post"] Cons True less.prems r f
        by (auto simp: add_ac)
    qed
  qed
qed

text \<open>C33: in-place percent decoding. For a C string whose percent signs all start an escape of two
  hex digits, standing anywhere in memory, \<open>xs_uri_decode\<close> called in place with the string's size
  reports success and leaves exactly the decoded text there, terminated; it touches nothing before
  the string nor after its terminator. Decoding undoes RFC 3986 percent encoding.\<close>

theorem xs_uri_decode_in_place:
  assumes "is_cstr s" "pct_ok (plus_char form) s" "s \<noteq> []"
  shows "\<exists>rest. length rest + length (pct_decode (plus_char form) s) = length s \<and>
    xs_uri_decode (pre @ s @ 0 # post) (length pre) (int (length s) + 1)
        (length pre) (int (length s) + 1) form =
      Some (pre @ pct_decode (plus_char form) s @ 0 # rest @ post, 0)"
proof -
  let ?f = "plus_char form"
  let ?t = "pct_decode ?f s"
  have f: "?f = 0 \<or> ?f = 43" by (simp add: plus_char_def)
  obtain mid where mid: "length mid + length ?t = length s"
    "uri_decode_loop (pre @ [] @ s @ 0 # post) (length pre) (int (length s)) (length pre)
       (int (length s) + 1) ?f 0 0 0 = Some (pre @ ?t @ mid @ 0 # post, 0, length s, 0 + length ?t)"
    using uri_decode_loop_ok [of s ?f pre "length pre" 0 "[]" 0 "length s" post] assms f by auto
  show ?thesis
  proof (cases mid)
    case Nil
    have "wr (pre @ ?t @ 0 # post) (length pre + length ?t) 0 = Some (pre @ ?t @ 0 # post)"
      using wr_at [of "[0]" "pre @ ?t" "length pre + length ?t" post 0] by simp
    then show ?thesis
      using mid assms Nil by (intro exI [of _ "[]"]) (auto simp: xs_uri_decode_def)
  next
    case (Cons x xs)
    let ?m = "pre @ ?t @ x # xs @ 0 # post"
    have ls: "length s = length ?t + Suc (length xs)" using mid(1) Cons by simp
    have r: "rds ?m (length pre + length s) 1 = Some [0]"
      using ls by (simp add: rds_def)
    have b: "blit ?m (length pre + length ?t) [0] = Some (pre @ ?t @ 0 # xs @ 0 # post)"
      by (simp add: blit_def)
    have w: "\<exists>rest. length rest + length ?t = length s \<and>
      wr (pre @ ?t @ 0 # xs @ 0 # post) (length pre + (length ?t + 1)) 0 = Some (pre @ ?t @ 0 # rest @ post)"
    proof (cases xs)
      case Nil
      then show ?thesis using mid(1) Cons ls by (intro exI [of _ "[0]"]) (simp add: wr_def list_update_append)
    next
      case (Cons y ys)
      then show ?thesis using mid(1) ls \<open>mid = x # xs\<close>
        by (intro exI [of _ "0 # ys @ [0]"]) (simp add: wr_def list_update_append)
    qed
    show ?thesis
      using mid Cons assms r b w by (auto simp: xs_uri_decode_def)
  qed
qed

theorem xs_uri_decode_in_place_witness:
  "\<exists>rest. length rest = Suc (Suc 0) \<and>
     xs_uri_decode (bytes ''/a%20b'' @ [0]) 0 7 0 7 False = Some (bytes ''/a b'' @ 0 # rest, 0)"
  using xs_uri_decode_in_place [of "bytes ''/a%20b''" False "[]" "[]"] by (simp add: xs_fromhex_def plus_char_def)

lemma hexdig_pct: "0 \<le> v \<Longrightarrow> v < 16 \<Longrightarrow> 0 \<le> xs_fromhex (hexdig v)"
  by (simp add: xs_fromhex_hexdig)

lemma pct_decode_encode:
  assumes "\<not> safe 37" "\<not> safe form" "form \<noteq> 37"
  shows "pct_decode form (pct_encode safe s) = s" "pct_ok form (pct_encode safe s)"
proof (induction s)
  case (Cons c s)
  have h: "0 \<le> uint c div 16" "uint c div 16 < 16" "0 \<le> uint c mod 16" "uint c mod 16 < 16"
    using uchar_range [of c] by (simp_all add: pos_imp_zdiv_nonneg_iff)
  have c: "word_of_int (uint c div 16 * 16 + uint c mod 16) = c" by simp
  {
    case 1
    show ?case
    proof (cases "safe c")
      case True
      then have "c \<noteq> 37" "c \<noteq> form" using assms by auto
      then show ?thesis using Cons True by (simp add: pct_decode_char)
    next
      case False
      then show ?thesis using Cons assms h c by (simp add: xs_fromhex_hexdig)
    qed
  next
    case 2
    show ?case
    proof (cases "safe c")
      case True
      then have "c \<noteq> 37" using assms by auto
      then show ?thesis using Cons True by (simp add: pct_ok_char)
    next
      case False
      then show ?thesis using Cons assms h by (simp add: xs_fromhex_hexdig)
    qed
  }
qed simp_all

text \<open>The encoder of \<open>xs_uri_encode\<close> does not write hexadecimal: \<open>xs_tohex\<close> adds the digit value
  to \<open>'A'\<close> without taking 10 off, so the escape of a byte from 127 to 255 with a hex digit above 9
  has a letter from \<open>K\<close> to \<open>P\<close> there, which \<open>xs_uri_decode\<close> rejects.\<close>

theorem xs_uri_encode_bad_hex:
  "xs_uri_encode (Suc (Suc n)) [0, 0, 0, 0, 0, 0] 6 [0x7F] 1 False = Some (bytes ''%7P'' @ [0, 0, 0], 0) \<and>
   xs_uri_decode (bytes ''%7P'' @ [0, 0, 0]) 0 4 0 4 False = Some (0 # bytes ''7P'' @ [0, 0, 0], - 1)"
  by (simp_all add: xs_uri_encode_def xs_uri_decode_def uri_decode_loop.simps plus_char_def xs_fromhex_def
      xs_tohex_def xs_http_okchar_def uint32_def mem_simps)

end
