(* ===== verification/Http.thy ===== *)
theory Http
  imports Uri
begin

text \<open>
  HTTP parsing of \<open>xs/xs_connection.h\<close>: recognising a complete header, the request or response
  line, the header fields, chunk sizes, and the request object with its accessors.

  The request object owns a copy of the header text, which the parser cuts into C strings by
  writing zeros into it. Here that copy is the field \<open>q_buf\<close> (the memory behind the struct), and
  the string pointers are offsets into it. \<open>headers\<close> is the used part of the header table, so
  \<open>numheaders\<close> is its length. A read or write outside a buffer gives \<open>None\<close>.
\<close>

subsection \<open>Library calls\<close>

definition cstr_at :: "byte list \<Rightarrow> nat \<Rightarrow> byte list option" where
  \<comment> \<open>the C string at an offset, which must be terminated inside the buffer\<close>
  "cstr_at b i = (if 0 \<in> set (drop i b) then Some (cstr (drop i b)) else None)"

primrec memeq_at :: "byte list \<Rightarrow> nat \<Rightarrow> byte list \<Rightarrow> bool option" where
  \<comment> \<open>\<open>memcmp (b + i, s, length s) == 0\<close>, which stops at the first difference\<close>
  "memeq_at b i [] = Some True"
| "memeq_at b i (x # s) = do { y \<leftarrow> rd b i; if y = x then memeq_at b (Suc i) s else Some False }"

definition is_digit :: "byte \<Rightarrow> bool" where
  "is_digit c \<longleftrightarrow> 48 \<le> schar c \<and> schar c \<le> 57"

definition digits_nat :: "byte list \<Rightarrow> nat" where
  "digits_nat ds = foldl (\<lambda>v c. v * 10 + nat (schar c - 48)) 0 ds"

fun bit_count :: "nat \<Rightarrow> nat" where
  "bit_count n = (if n = 0 then 0 else Suc (bit_count (n div 2)))"

declare bit_count.simps [simp del]

definition round_even :: "nat \<Rightarrow> nat \<Rightarrow> nat" where
  "round_even a b =
     (let q = a div b; r = a mod b in if 2 * r > b \<or> (2 * r = b \<and> odd q) then q + 1 else q)"

definition double_trunc :: "nat \<Rightarrow> nat \<Rightarrow> nat" where
  \<comment> \<open>the integer part of the double nearest to \<open>n / d\<close>\<close>
  "double_trunc n d =
     (let k = bit_count (n div d) in
      if k > 53 then round_even n (d * 2 ^ (k - 53)) * 2 ^ (k - 53)
      else round_even (n * 2 ^ (53 - k)) d div 2 ^ (53 - k))"

definition strtod_exponent :: "byte list \<Rightarrow> int" where
  "strtod_exponent r =
     (case r of
        c # r1 \<Rightarrow>
          if c = 69 \<or> c = 101 then
            (case r1 of
               s # r2 \<Rightarrow> if s = 45 then - int (digits_nat (takeWhile is_digit r2))
                         else if s = 43 then int (digits_nat (takeWhile is_digit r2))
                         else int (digits_nat (takeWhile is_digit r1))
             | [] \<Rightarrow> 0)
          else 0
      | [] \<Rightarrow> 0)"

definition strtod_abs :: "byte list \<Rightarrow> nat" where
  "strtod_abs t =
     (let ip = takeWhile is_digit t;
          r = dropWhile is_digit t;
          fp = (if r \<noteq> [] \<and> hd r = 46 then takeWhile is_digit (tl r) else []);
          r2 = (if r \<noteq> [] \<and> hd r = 46 then dropWhile is_digit (tl r) else r);
          e = strtod_exponent r2 - int (length fp);
          m = digits_nat (ip @ fp)
      in if ip @ fp = [] then 0
         else if e \<ge> 0 then double_trunc (m * 10 ^ nat e) 1 else double_trunc m (10 ^ nat (- e)))"

text \<open>
  The truncated value of the decimal number \<open>strtod\<close> reads, rounded to a double as C does; the
  hexadecimal, infinity and NaN spellings are read as 0. The conversions to \<open>int\<close> and \<open>size_t\<close>
  are those of an x86-64 compiler where C leaves an out-of-range value undefined.
\<close>

definition strtod_int :: "byte list \<Rightarrow> int" where
  "strtod_int s =
     (let t = dropWhile (\<lambda>c. c \<in> {9, 10, 11, 12, 13, 32}) s in
      if t \<noteq> [] \<and> hd t = 45 then - int (strtod_abs (tl t))
      else if t \<noteq> [] \<and> hd t = 43 then int (strtod_abs (tl t))
      else int (strtod_abs t))"

definition double_to_int :: "int \<Rightarrow> int" where
  "double_to_int v = (if - (2 ^ 31) \<le> v \<and> v < 2 ^ 31 then v else - (2 ^ 31))"

definition double_to_size :: "int \<Rightarrow> nat" where
  "double_to_size v =
     (if - (2 ^ 63) \<le> v \<and> v < 2 ^ 64 then nat (v mod 2 ^ 64) else if v < 0 then 2 ^ 63 else 0)"

subsection \<open>The request object\<close>

abbreviation exs_Conn_Pending :: int where "exs_Conn_Pending \<equiv> 100"
abbreviation exs_Conn_Header :: int where "exs_Conn_Header \<equiv> 101"
abbreviation exs_Conn_Response :: int where "exs_Conn_Response \<equiv> 102"
abbreviation exs_Conn_Redirect :: int where "exs_Conn_Redirect \<equiv> 103"
abbreviation exs_Conn_Complete :: int where "exs_Conn_Complete \<equiv> 104"
abbreviation exs_Conn_LastState :: int where "exs_Conn_LastState \<equiv> 105"
abbreviation exs_Max_Headers :: nat where "exs_Max_Headers \<equiv> 64"

datatype req_attr =
  exs_Req_Method | exs_Req_Version | exs_Req_URI | exs_Req_Query | exs_Req_ContentLen
| exs_Req_Status | exs_Req_KeepAlive | exs_Req_Upgrade | exs_Req_Counter | exs_Req_Total
| exs_Req_Opcode

record xs_httpreq =
  q_statuscode :: int
  q_chunked :: bool
  q_keepalive :: bool
  q_upgrade :: nat
  q_opcode :: nat
  q_done :: bool
  q_header :: bool
  q_reqlen :: int
  q_datamask :: "byte list"
  q_contentlen :: nat
  q_counter :: nat
  q_consumed :: nat
  q_uri :: "nat option"
  q_method :: "nat option"
  q_version :: "nat option"
  q_status :: "nat option"
  q_hash :: "nat option"
  q_query :: "nat option"
  q_buf :: "byte list"
  q_path :: "byte list option"
  q_headers :: "(nat \<times> nat) list"

definition xs_req_clear :: "xs_httpreq \<Rightarrow> xs_httpreq" where
  "xs_req_clear req = req\<lparr>
     q_consumed := 0, q_contentlen := 0, q_headers := [], q_opcode := 0, q_done := False,
     q_statuscode := 0, q_chunked := False, q_upgrade := 0, q_keepalive := False,
     q_version := None, q_method := None, q_uri := None, q_query := None, q_status := None,
     q_datamask := [0, 0, 0, 0], q_path := None,
     q_counter := (if q_path req = None then q_counter req else 0)\<rparr>"

definition xs_http_state :: "xs_httpreq option \<Rightarrow> int" where
  "xs_http_state r =
     (case r of
        None \<Rightarrow> exs_Conn_Pending
      | Some req \<Rightarrow>
          if q_reqlen req = 0 then exs_Conn_Pending
          else if q_contentlen req \<noteq> 0 \<and> \<not> q_chunked req \<and> q_consumed req \<ge> q_contentlen req
          then exs_Conn_Complete
          else if q_contentlen req \<noteq> 0 \<or> q_chunked req
          then (if q_consumed req \<noteq> 0 then exs_Conn_Response else exs_Conn_Header)
          else if 300 \<le> q_statuscode req \<and> q_statuscode req \<le> 303 then exs_Conn_Redirect
          else if q_header req then exs_Conn_Header else exs_Conn_Complete)"

definition req_str :: "xs_httpreq \<Rightarrow> nat option \<Rightarrow> byte list option" where
  \<comment> \<open>the C string a pointer of the request denotes\<close>
  "req_str req p = (case p of None \<Rightarrow> None | Some i \<Rightarrow> Some (cstr (drop i (q_buf req))))"

fun xs_http_get :: "xs_httpreq option \<Rightarrow> req_attr \<Rightarrow> byte list option" where
  "xs_http_get None a = None"
| "xs_http_get (Some req) exs_Req_Version = req_str req (q_version req)"
| "xs_http_get (Some req) exs_Req_Method = req_str req (q_method req)"
| "xs_http_get (Some req) exs_Req_URI = req_str req (q_uri req)"
| "xs_http_get (Some req) exs_Req_Query = req_str req (q_query req)"
| "xs_http_get (Some req) exs_Req_Status = req_str req (q_status req)"
| "xs_http_get (Some req) a = None"

fun xs_http_getint :: "xs_httpreq option \<Rightarrow> req_attr \<Rightarrow> int" where
  "xs_http_getint None a = 0"
| "xs_http_getint (Some req) exs_Req_Status = int32 (q_statuscode req)"
| "xs_http_getint (Some req) exs_Req_ContentLen = int32 (int (q_contentlen req))"
| "xs_http_getint (Some req) exs_Req_KeepAlive = (if q_keepalive req then 1 else 0)"
| "xs_http_getint (Some req) exs_Req_Upgrade = int (q_upgrade req)"
| "xs_http_getint (Some req) exs_Req_Opcode = int (q_opcode req)"
| "xs_http_getint (Some req) a = 0"

fun xs_http_setint :: "xs_httpreq \<Rightarrow> req_attr \<Rightarrow> int \<Rightarrow> xs_httpreq \<times> int" where
  "xs_http_setint req exs_Req_Status v = (req\<lparr>q_statuscode := uint32 v\<rparr>, 0)"
| "xs_http_setint req exs_Req_KeepAlive v = (req\<lparr>q_keepalive := odd v\<rparr>, 0)"
| "xs_http_setint req exs_Req_Upgrade v = (req\<lparr>q_upgrade := nat (v mod 16)\<rparr>, 0)"
| "xs_http_setint req a v = (req, - 1)"

definition hdr_name :: "xs_httpreq \<Rightarrow> nat \<times> nat \<Rightarrow> byte list" where
  "hdr_name req h = cstr (drop (fst h) (q_buf req))"

definition hdr_value :: "xs_httpreq \<Rightarrow> nat \<times> nat \<Rightarrow> byte list" where
  "hdr_value req h = cstr (drop (snd h) (q_buf req))"

definition xs_http_getheader :: "xs_httpreq option \<Rightarrow> byte list \<Rightarrow> byte list option" where
  "xs_http_getheader r name =
     (case r of
        None \<Rightarrow> None
      | Some req \<Rightarrow>
          map_option (hdr_value req)
            (find (\<lambda>h. xs_strcmp_case (Some name) (Some (hdr_name req h)) = 0) (q_headers req)))"

lemma getheader_assoc:
  "xs_http_getheader (Some req) name = map_option snd
     (find (\<lambda>(n, v). xs_strcmp_case (Some name) (Some n) = 0) (map (\<lambda>h. (hdr_name req h, hdr_value req h)) (q_headers req)))"
proof -
  have "map_option (hdr_value req) (find (\<lambda>h. P (hdr_name req h)) hs) =
      map_option snd (find (\<lambda>(n, v). P n) (map (\<lambda>h. (hdr_name req h, hdr_value req h)) hs))" for P hs
    by (induction hs) auto
  then show ?thesis by (simp add: xs_http_getheader_def)
qed

subsection \<open>Scanning\<close>

function skip_while :: "(byte \<Rightarrow> bool) \<Rightarrow> byte list \<Rightarrow> nat \<Rightarrow> nat \<Rightarrow> nat option" where
  \<comment> \<open>\<open>while (c < n && P (buf[c])) c++\<close>\<close>
  "skip_while P b n c =
     (if c < n
      then (case rd b c of None \<Rightarrow> None | Some x \<Rightarrow> if P x then skip_while P b n (Suc c) else Some c)
      else Some c)"
  by pat_completeness auto
termination by (relation "measure (\<lambda>(P, b, n, c). n - c)") auto

declare skip_while.simps [simp del]

definition xs_http_skipspace :: "byte list \<Rightarrow> nat \<Rightarrow> nat \<Rightarrow> nat option" where
  "xs_http_skipspace = skip_while (\<lambda>x. x = 9 \<or> x = 32)"

definition xs_http_skiptoken :: "byte list \<Rightarrow> nat \<Rightarrow> nat \<Rightarrow> nat option" where
  "xs_http_skiptoken = skip_while (\<lambda>x. \<not> (x = 9 \<or> x = 32))"

definition xs_http_skiptokenandspace :: "byte list \<Rightarrow> nat \<Rightarrow> nat \<Rightarrow> nat option" where
  "xs_http_skiptokenandspace b n c = do {
     c1 \<leftarrow> skip_while (\<lambda>x. \<not> (x = 9 \<or> x = 32 \<or> x = 13 \<or> x = 10)) b n c;
     skip_while (\<lambda>x. x = 9 \<or> x = 32) b n c1 }"

function xs_http_skiptoEOL :: "byte list \<Rightarrow> nat \<Rightarrow> nat \<Rightarrow> nat option" where
  "xs_http_skiptoEOL b n c =
     (if Suc c < n
      then (case rd b c of None \<Rightarrow> None
            | Some x \<Rightarrow>
                if x \<noteq> 13
                then (case rd b (Suc c) of None \<Rightarrow> None
                      | Some y \<Rightarrow> if y \<noteq> 10 then xs_http_skiptoEOL b n (Suc c) else Some c)
                else Some c)
      else Some c)"
  by pat_completeness auto
termination by (relation "measure (\<lambda>(b, n, c). n - c)") auto

declare xs_http_skiptoEOL.simps [simp del]

function token_end :: "byte list \<Rightarrow> nat \<Rightarrow> nat \<Rightarrow> nat option" where
  \<comment> \<open>the loop of \<open>xs_http_terminatetoken\<close>, which no terminator stops\<close>
  "token_end b i c =
     (case rd b (i + c) of
        None \<Rightarrow> None
      | Some x \<Rightarrow> if x = 13 \<or> x = 10 \<or> x = 9 \<or> x = 32 then Some c else token_end b i (Suc c))"
  by pat_completeness auto
termination
  by (relation "measure (\<lambda>(b, i, c). length b - (i + c))") (auto simp: rd_def split: if_splits)

declare token_end.simps [simp del]

definition xs_http_terminatetoken :: "byte list \<Rightarrow> nat option \<Rightarrow> (byte list \<times> nat) option" where
  "xs_http_terminatetoken b p =
     (case p of
        None \<Rightarrow> Some (b, 0)
      | Some i \<Rightarrow> do { c \<leftarrow> token_end b i 0; b1 \<leftarrow> wr b (i + c) 0; Some (b1, c + 1) })"

definition xs_http_validmethod :: "byte list \<Rightarrow> bool" where
  "xs_http_validmethod m \<longleftrightarrow>
     m \<in> set (map bytes [''GET'', ''POST'', ''PUT'', ''DELETE'', ''PROPFIND'', ''CONNECT'', ''HEAD'',
                         ''OPTIONS'', ''MKCOL''])"

function valid_scan :: "byte list \<Rightarrow> nat \<Rightarrow> nat \<Rightarrow> int option" where
  "valid_scan b n s =
     (if Suc s < n
      then (case (rd b s, rd b (Suc s)) of
              (Some x, Some y) \<Rightarrow>
                if \<not> xs_http_okchar (schar x) then Some (- 1)
                else if x = 10 \<and> y = 10 then Some (int s + 2)
                else if x = 10 \<and> Suc (Suc s) < n \<and> y = 13
                then (case rd b (s + 2) of None \<Rightarrow> None
                      | Some z \<Rightarrow> if z = 10 then Some (int s + 3) else valid_scan b n (Suc s))
                else valid_scan b n (Suc s)
            | _ \<Rightarrow> None)
      else Some 0)"
  by pat_completeness auto
termination by (relation "measure (\<lambda>(b, n, s). n - s)") auto

declare valid_scan.simps [simp del]

definition xs_http_validrequest :: "byte list \<Rightarrow> nat \<Rightarrow> int option" where
  "xs_http_validrequest buf buflen = valid_scan buf buflen 0"

function chunk_scan :: "byte list \<Rightarrow> nat \<Rightarrow> nat \<Rightarrow> int \<Rightarrow> nat \<Rightarrow> (int \<times> nat option) option" where
  "chunk_scan b n s datalen gotdata =
     (if Suc s < n
      then (case (rd b s, rd b (Suc s)) of
              (Some x, Some y) \<Rightarrow>
                if gotdata \<noteq> 0 \<and> x = 13 \<and> y = 10
                then Some (datalen, Some (s + 2 + (if datalen \<noteq> 0 then 0 else 2)))
                else if gotdata > 1 then chunk_scan b n (Suc s) datalen gotdata
                else if xs_fromhex x \<ge> 0
                then chunk_scan b n (Suc s) (int32 (datalen * 16 + xs_fromhex x)) 1
                else chunk_scan b n (Suc s) datalen (if gotdata \<noteq> 0 then gotdata + 1 else 0)
            | _ \<Rightarrow> None)
      else Some (- 1, None))"
  by pat_completeness auto
termination by (relation "measure (\<lambda>(b, n, s, d, g). n - s)") auto

declare chunk_scan.simps [simp del]

definition xs_scan_chunk :: "byte list \<Rightarrow> nat \<Rightarrow> nat \<Rightarrow> (int \<times> nat option) option" where
  \<comment> \<open>on \<open>buf + start\<close>, for \<open>buflen\<close> bytes; the position after the header is absolute\<close>
  "xs_scan_chunk b start buflen = chunk_scan b (start + buflen) start 0 0"

subsection \<open>Parsing\<close>

definition preparse_header :: "xs_httpreq \<Rightarrow> byte list \<Rightarrow> byte list \<Rightarrow> byte list option \<Rightarrow> xs_httpreq" where
  \<comment> \<open>the headers the parser itself looks at: name, value and the version of the request\<close>
  "preparse_header req na va version =
     (let key = (\<lambda>k. xs_strcmp_case (Some na) (Some (bytes k)) = 0);
          r1 = (if key ''Content-Length''
                then req\<lparr>q_contentlen := double_to_size (strtod_int va)\<rparr> else req);
          r2 = (if key ''Transfer-Encoding'' \<and> xs_strcmp_case (Some va) (Some (bytes ''chunked'')) = 0
                then r1\<lparr>q_chunked := True\<rparr> else r1);
          r3 = (if key ''Connection'' \<and> xs_strcmp_case (Some va) (Some (bytes ''keep-alive'')) = 0
                then r2\<lparr>q_keepalive := True\<rparr>
                else if xs_strcmp_case version (Some (bytes ''1.1'')) = 0
                then r2\<lparr>q_keepalive := True\<rparr> else r2)
      in if key ''Upgrade'' then r3\<lparr>q_upgrade := 1\<rparr> else r3)"

function parse_headers :: "xs_httpreq \<Rightarrow> nat \<Rightarrow> nat \<Rightarrow> xs_httpreq option" where
  \<comment> \<open>from position \<open>c\<close> of \<open>q_buf\<close> up to \<open>e\<close>; the error code never leaves the loop\<close>
  "parse_headers req e c =
     (if length (q_headers req) < exs_Max_Headers \<and> c < e
      then do {
        na \<leftarrow> skip_while (\<lambda>x. schar x \<le> 32) (q_buf req) e c;
        if na \<ge> e then Some req
        else do {
          c2 \<leftarrow> xs_http_skiptoken (q_buf req) e na;
          x \<leftarrow> rd (q_buf req) (c2 - 1);
          if x \<noteq> 58 then Some req
          else do {
            b1 \<leftarrow> wr (q_buf req) (c2 - 1) 0;
            va \<leftarrow> xs_http_skipspace b1 e c2;
            c4 \<leftarrow> xs_http_skiptoEOL b1 e va;
            b2 \<leftarrow> wr b1 c4 0;
            name \<leftarrow> cstr_at b2 na;
            vl \<leftarrow> cstr_at b2 va;
            ver \<leftarrow> (case q_version req of None \<Rightarrow> Some None
                    | Some i \<Rightarrow> map_option Some (cstr_at b2 i));
            parse_headers
              (preparse_header (req\<lparr>q_buf := b2, q_headers := q_headers req @ [(na, va)]\<rparr>) name vl ver)
              e c4 } } }
      else Some req)"
  by pat_completeness auto

lemma preparse_header_frame [simp]:
  "q_headers (preparse_header req na va ver) = q_headers req"
  "q_buf (preparse_header req na va ver) = q_buf req"
  "q_version (preparse_header req na va ver) = q_version req"
  "q_method (preparse_header req na va ver) = q_method req"
  "q_uri (preparse_header req na va ver) = q_uri req"
  "q_query (preparse_header req na va ver) = q_query req"
  "q_status (preparse_header req na va ver) = q_status req"
  "q_hash (preparse_header req na va ver) = q_hash req"
  "q_statuscode (preparse_header req na va ver) = q_statuscode req"
  "q_consumed (preparse_header req na va ver) = q_consumed req"
  by (simp_all add: preparse_header_def Let_def)

termination parse_headers
  by (relation "measure (\<lambda>(req, e, c). exs_Max_Headers - length (q_headers req))") auto

declare parse_headers.simps [simp del]

definition xs_http_parseheaders :: "xs_httpreq \<Rightarrow> nat \<Rightarrow> nat \<Rightarrow> (xs_httpreq \<times> int) option" where
  "xs_http_parseheaders req start e = do { r \<leftarrow> parse_headers req e start; Some (r, 0) }"

definition request_line :: "xs_httpreq \<Rightarrow> byte list \<Rightarrow> nat \<Rightarrow> nat \<Rightarrow> nat \<Rightarrow> (xs_httpreq \<times> int) option" where
  \<comment> \<open>request or response? with the positions of the three tokens\<close>
  "request_line req b m u v = do {
     isreq \<leftarrow> memeq_at b v (bytes ''HTTP/'');
     if isreq then do {
       (b1, k) \<leftarrow> xs_http_terminatetoken b (Some m);
       ms \<leftarrow> cstr_at b1 m;
       let r = req\<lparr>q_buf := b1, q_method := Some m, q_uri := Some u, q_version := Some (v + 5)\<rparr>;
       if \<not> xs_http_validmethod ms then Some (r, - 1)
       else do {
         x \<leftarrow> rd b1 u;
         if x \<noteq> 47 \<and> x \<noteq> 42
         then do { y \<leftarrow> rd b1 (u + 1);
                   Some (r, if xs_http_okchar (schar y) then 0 else - 2) }
         else Some (r, 0) } }
     else do {
       isres \<leftarrow> memeq_at b m (bytes ''HTTP/'');
       if isres then do {
         us \<leftarrow> cstr_at b u;
         Some (req\<lparr>q_buf := b, q_method := None, q_uri := None, q_version := Some (m + 5),
                   q_status := Some v,
                   q_statuscode := uint32 (double_to_int (strtod_int us))\<rparr>, 0) }
       else Some (req\<lparr>q_buf := b, q_method := None, q_uri := None, q_version := None\<rparr>, - 3) } }"

definition cut_at :: "byte list \<Rightarrow> nat \<Rightarrow> int \<Rightarrow> byte \<Rightarrow> (byte list \<times> nat option \<times> int) option" where
  \<comment> \<open>\<open>ch = strchr (uri, c); if (ch) { *ch++ = 0; part = ch; ulen = uri - ch; }\<close>\<close>
  "cut_at b u ulen c = do {
     s \<leftarrow> cstr_at b u;
     case strchr_from s 0 c of
       None \<Rightarrow> Some (b, None, ulen)
     | Some k \<Rightarrow> do { b1 \<leftarrow> wr b (u + k) 0; Some (b1, Some (u + k + 1), - int (k + 1)) } }"

definition decode_part :: "byte list \<Rightarrow> nat option \<Rightarrow> byte list option" where
  "decode_part b p =
     (case p of
        None \<Rightarrow> Some b
      | Some i \<Rightarrow> do {
          s \<leftarrow> cstr_at b i;
          (b1, err) \<leftarrow> xs_uri_decode b i (int (length s) + 1) i (int (length s) + 1) False;
          Some b1 })"

definition split_uri :: "xs_httpreq \<Rightarrow> xs_httpreq option" where
  "split_uri req =
     (case q_uri req of
        None \<Rightarrow> Some req
      | Some u \<Rightarrow> do {
          (b0, n) \<leftarrow> xs_http_terminatetoken (q_buf req) (Some u);
          (b1, hash, ulen1) \<leftarrow> cut_at b0 u (int n) 35;
          (b2, query, ulen2) \<leftarrow> cut_at b1 u ulen1 63;
          (b3, err) \<leftarrow> xs_uri_decode b2 u ulen2 u ulen2 False;
          b4 \<leftarrow> decode_part b3 hash;
          b5 \<leftarrow> decode_part b4 query;
          Some (req\<lparr>q_buf := b5, q_hash := hash, q_query := query\<rparr>) })"

definition xs_http_parse :: "xs_httpreq \<Rightarrow> byte list \<Rightarrow> nat \<Rightarrow> (xs_httpreq \<times> int) option" where
  "xs_http_parse req0 buf rlen0 = do {
     c0 \<leftarrow> xs_http_skipspace buf rlen0 0;
     let req = xs_req_clear req0;
     if c0 \<ge> rlen0 then Some (req, - 50)
     else do {
       let rlen = rlen0 - c0;
       xs \<leftarrow> rds buf c0 rlen;
       b1 \<leftarrow> blit (q_buf req) 0 xs;
       b \<leftarrow> wr b1 rlen 0;
       u \<leftarrow> xs_http_skiptokenandspace b rlen 0;
       v \<leftarrow> xs_http_skiptokenandspace b rlen u;
       c \<leftarrow> xs_http_skiptoEOL b rlen v;
       (r1, err) \<leftarrow> request_line (req\<lparr>q_status := None, q_hash := None, q_query := None\<rparr>) b 0 u v;
       if err \<noteq> 0 then Some (r1, err)
       else do {
         (b2, k1) \<leftarrow> xs_http_terminatetoken (q_buf r1) (q_status r1);
         (b3, k2) \<leftarrow> xs_http_terminatetoken b2 (q_version r1);
         r2 \<leftarrow> split_uri (r1\<lparr>q_buf := b3\<rparr>);
         xs_http_parseheaders r2 (c + 1) rlen } } }"

subsection \<open>Lemmas: scanning\<close>

lemma skip_while_bounds:
  assumes "e \<le> length b" "c \<le> e"
  shows "\<exists>c'. skip_while P b e c = Some c' \<and> c \<le> c' \<and> c' \<le> e \<and> (\<forall>k. c \<le> k \<longrightarrow> k < c' \<longrightarrow> P (b ! k)) \<and>
    (c' < e \<longrightarrow> \<not> P (b ! c'))"
  using assms
proof (induction P b e c rule: skip_while.induct)
  case (1 P b e c)
  show ?case
  proof (cases "c < e \<and> P (b ! c)")
    case True
    then obtain c' where c': "skip_while P b e (Suc c) = Some c'" "Suc c \<le> c'" "c' \<le> e"
      "\<forall>k. Suc c \<le> k \<longrightarrow> k < c' \<longrightarrow> P (b ! k)" "c' < e \<longrightarrow> \<not> P (b ! c')"
      using 1 by (auto simp: mem_simps)
    have "\<forall>k. c \<le> k \<longrightarrow> k < c' \<longrightarrow> P (b ! k)" using c'(4) True by (metis Suc_leI le_neq_implies_less)
    then show ?thesis using c' True 1(2) by (subst skip_while.simps) (simp add: mem_simps)
  next
    case False
    then show ?thesis using 1 by (subst skip_while.simps) (auto simp: mem_simps)
  qed
qed

lemma skiptoEOL_bounds:
  assumes "e \<le> length b" "c \<le> e"
  shows "\<exists>c'. xs_http_skiptoEOL b e c = Some c' \<and> c \<le> c' \<and> c' \<le> e"
  using assms
proof (induction b e c rule: xs_http_skiptoEOL.induct)
  case (1 b e c)
  then show ?case
    by (subst xs_http_skiptoEOL.simps) (auto simp: mem_simps, (meson Suc_leD)+)
qed

abbreviation is_ws :: "byte \<Rightarrow> bool" where
  "is_ws x \<equiv> x = 13 \<or> x = 10 \<or> x = 9 \<or> x = 32"

lemma token_end_bounds:
  assumes "i + c \<le> k" "k < length b" "is_ws (b ! k)"
  shows "\<exists>c'. token_end b i c = Some c' \<and> i + c' \<le> k \<and> c \<le> c' \<and> is_ws (b ! (i + c')) \<and>
    (\<forall>j. i + c \<le> j \<longrightarrow> j < i + c' \<longrightarrow> \<not> is_ws (b ! j))"
  using assms
proof (induction b i c rule: token_end.induct)
  case (1 b i c)
  show ?case
  proof (cases "is_ws (b ! (i + c))")
    case True
    then show ?thesis using 1 by (subst token_end.simps) (auto simp: mem_simps)
  next
    case False
    then have lt: "i + Suc c \<le> k" using 1 by (metis Suc_leI add_Suc_right le_neq_implies_less)
    have r: "rd b (i + c) = Some (b ! (i + c))" using 1 by (simp add: mem_simps)
    obtain c' where c': "token_end b i (Suc c) = Some c'" "i + c' \<le> k" "Suc c \<le> c'" "is_ws (b ! (i + c'))"
      "\<forall>j. i + Suc c \<le> j \<longrightarrow> j < i + c' \<longrightarrow> \<not> is_ws (b ! j)"
      using 1(1) [OF r False lt 1(3,4)] by auto
    have "\<not> is_ws (b ! j)" if "i + c \<le> j" "j < i + c'" for j
      using c'(5) False that by (cases "j = i + c") auto
    then show ?thesis using c' False r by (subst token_end.simps) simp
  qed
qed

lemma memeq_at_bounds:
  assumes "i \<le> k" "k < length b" "b ! k = 0" "0 \<notin> set s"
  shows "memeq_at b i s \<noteq> None"
  using assms
proof (induction s arbitrary: i)
  case (Cons x s)
  show ?case
  proof (cases "b ! i = x")
    case True
    then have "Suc i \<le> k" using Cons.prems by (metis Suc_leI le_neq_implies_less list.set_intros(1))
    then show ?thesis using Cons True by (simp add: mem_simps)
  next
    case False
    then show ?thesis using Cons.prems by (simp add: mem_simps)
  qed
qed simp

lemma memeq_at_True:
  "memeq_at b i s = Some True \<Longrightarrow> j < length s \<Longrightarrow> i + j < length b \<and> b ! (i + j) = s ! j"
proof (induction s arbitrary: i j)
  case (Cons x s)
  have x: "i < length b \<and> b ! i = x \<and> memeq_at b (Suc i) s = Some True"
    using Cons.prems by (auto simp: rd_def split: if_splits)
  show ?case
  proof (cases j)
    case (Suc j')
    then show ?thesis using Cons.IH [of "Suc i" j'] x Cons.prems by simp
  qed (use x in simp)
qed simp

lemma cstr_at_Some: "i \<le> k \<Longrightarrow> k < length b \<Longrightarrow> b ! k = 0 \<Longrightarrow> cstr_at b i = Some (cstr (drop i b))"
  unfolding cstr_at_def by (auto simp: in_set_conv_nth intro!: exI [of _ "k - i"])

lemma takeWhile_length_le: "j < length xs \<Longrightarrow> \<not> P (xs ! j) \<Longrightarrow> length (takeWhile P xs) \<le> j"
proof (induction xs arbitrary: j)
  case (Cons x xs)
  then show ?case by (cases j) auto
qed simp

lemma cstr_length_at: "i \<le> k \<Longrightarrow> k < length b \<Longrightarrow> b ! k = 0 \<Longrightarrow> i + length (cstr (drop i b)) \<le> k"
  using takeWhile_length_le [of "k - i" "drop i b" "\<lambda>c. c \<noteq> 0"] by (simp add: cstr_def diff_less_mono)

lemma skip_while_ws:
  "e \<le> length b \<Longrightarrow> c \<le> e \<Longrightarrow> \<exists>c'. xs_http_skiptokenandspace b e c = Some c' \<and> c \<le> c' \<and> c' \<le> e"
  unfolding xs_http_skiptokenandspace_def
  using skip_while_bounds by (metis (mono_tags, lifting) bind.bind_lunit le_trans)

text \<open>Where the scan of a token stops: at its first white space \<open>j\<close>, then past the blanks.\<close>

lemma skiptokenandspace_stop:
  assumes "e \<le> length b" "c \<le> k" "k < e" "b ! k = 10"
  shows "\<exists>j c'. xs_http_skiptokenandspace b e c = Some c' \<and> c \<le> j \<and> j \<le> c' \<and> c' \<le> k \<and> is_ws (b ! j) \<and>
    (\<forall>i. c \<le> i \<longrightarrow> i < j \<longrightarrow> \<not> is_ws (b ! i)) \<and>
    ((b ! j = 13 \<or> b ! j = 10) \<longrightarrow> c' = j) \<and> ((b ! j = 9 \<or> b ! j = 32) \<longrightarrow> j < c') \<and>
    (c' = j \<or> \<not> (b ! c' = 9 \<or> b ! c' = 32))"
proof -
  let ?P = "\<lambda>x::byte. \<not> (x = 9 \<or> x = 32 \<or> x = 13 \<or> x = 10)" and ?Q = "\<lambda>x::byte. x = 9 \<or> x = 32"
  obtain j where j: "skip_while ?P b e c = Some j" "c \<le> j" "j \<le> e" "\<forall>i. c \<le> i \<longrightarrow> i < j \<longrightarrow> ?P (b ! i)"
    "j < e \<longrightarrow> \<not> ?P (b ! j)"
    using skip_while_bounds [of e b c ?P] assms by auto
  have jk: "j \<le> k" using j(4) assms by (metis le_less_linear)
  obtain c' where c': "skip_while ?Q b e j = Some c'" "j \<le> c'" "c' \<le> e" "\<forall>i. j \<le> i \<longrightarrow> i < c' \<longrightarrow> ?Q (b ! i)"
    "c' < e \<longrightarrow> \<not> ?Q (b ! c')"
    using skip_while_bounds [of e b j ?Q] assms j(3) by auto
  have ck: "c' \<le> k"
  proof (rule ccontr)
    assume "\<not> c' \<le> k"
    then have "?Q (b ! k)" using c'(4) jk by simp
    then show False using assms(4) by simp
  qed
  have ws: "is_ws (b ! j)" using j(5) jk assms by auto
  have "j < c'" if "?Q (b ! j)"
    using c'(2,5) that jk assms by (metis le_neq_implies_less order.strict_trans1)
  moreover have "c' = j" if "b ! j = 13 \<or> b ! j = 10"
  proof (rule ccontr)
    assume "c' \<noteq> j"
    then have "?Q (b ! j)" using c' by simp
    then show False using that by auto
  qed
  moreover have "xs_http_skiptokenandspace b e c = Some c'"
    using j(1) c'(1) by (simp add: xs_http_skiptokenandspace_def)
  moreover have "\<forall>i. c \<le> i \<longrightarrow> i < j \<longrightarrow> \<not> is_ws (b ! i)" using j(4) by blast
  moreover have "\<not> ?Q (b ! c')" using c'(5) ck assms(3) by simp
  ultimately show ?thesis using j(2) c'(2) ck ws by blast
qed

subsection \<open>Lemmas: decoding in place never leaves its range\<close>

definition zeroed :: "nat \<Rightarrow> nat \<Rightarrow> byte list \<Rightarrow> byte list \<Rightarrow> bool" where
  \<comment> \<open>the second memory differs from the first only inside a range, or by zeros\<close>
  "zeroed lo hi m m' \<longleftrightarrow> length m' = length m \<and>
     (\<forall>k. k < lo \<or> hi \<le> k \<longrightarrow> m' ! k = m ! k \<or> (k < length m \<and> m' ! k = 0))"

lemma zeroed_refl [simp]: "zeroed lo hi m m"
  by (simp add: zeroed_def)

lemma zeroed_trans: "zeroed lo hi a b \<Longrightarrow> zeroed lo hi b c \<Longrightarrow> zeroed lo hi a c"
  unfolding zeroed_def by metis

lemma zeroed_length: "zeroed lo hi m m' \<Longrightarrow> length m' = length m"
  by (simp add: zeroed_def)

lemma zeroed_zero: "zeroed lo hi m m' \<Longrightarrow> k < lo \<or> hi \<le> k \<Longrightarrow> m ! k = 0 \<Longrightarrow> m' ! k = 0"
  unfolding zeroed_def by metis

lemma zeroed_mono: "zeroed lo hi a b \<Longrightarrow> lo' \<le> lo \<Longrightarrow> hi \<le> hi' \<Longrightarrow> zeroed lo' hi' a b"
  unfolding zeroed_def by (meson dual_order.strict_trans1 order.trans)

lemma zeroed_update: "lo \<le> i \<Longrightarrow> i < hi \<Longrightarrow> zeroed lo hi m (m[i := x])"
  by (auto simp: zeroed_def nth_list_update)

lemma zeroed_update0: "zeroed lo hi m (m[i := 0])"
  by (cases "i < length m") (auto simp: zeroed_def nth_list_update list_update_beyond)

lemma uri_decode_loop_bounds:
  assumes "d \<le> s" "s \<le> n + 1" "d \<le> n" "p + n + 1 \<le> length m"
  shows "\<exists>m' err' s' d'. uri_decode_loop m p (int n) p (int n + 1) form err s d = Some (m', err', s', d') \<and>
    d' \<le> s' \<and> s' \<le> n + 1 \<and> d' \<le> n \<and> zeroed p (p + n) m m'"
  using assms
proof (induction "n + 1 - s" arbitrary: m err s d rule: less_induct)
  case less
  note IH = less.hyps
  show ?case
  proof (cases "s < n + 1 \<and> d < n")
    case False
    then show ?thesis using less.prems
      by (intro exI [of _ m] exI [of _ err] exI [of _ s] exI [of _ d]) (subst uri_decode_loop.simps, auto)
  next
    case True
    then have in1: "p + s < length m" "p + d < length m" using less.prems by simp_all
    have step: "\<exists>m' err' s' d'. uri_decode_loop (m[p + d := x]) p (int n) p (int n + 1) form e s1 (Suc d) =
        Some (m', err', s', d') \<and> d' \<le> s' \<and> s' \<le> n + 1 \<and> d' \<le> n \<and> zeroed p (p + n) m m'"
      if s1: "s < s1" "s1 \<le> n + 1" for x e s1
    proof -
      have z: "zeroed p (p + n) m (m[p + d := x])" using True by (simp add: zeroed_update)
      have "n + 1 - s1 < n + 1 - s" "Suc d \<le> s1" "Suc d \<le> n" "p + n + 1 \<le> length (m[p + d := x])"
        using s1 True less.prems by simp_all
      then obtain m' err' s' d' where
        "uri_decode_loop (m[p + d := x]) p (int n) p (int n + 1) form e s1 (Suc d) = Some (m', err', s', d')"
        "d' \<le> s'" "s' \<le> n + 1" "d' \<le> n" "zeroed p (p + n) (m[p + d := x]) m'"
        using IH [of s1 "Suc d" "m[p + d := x]" e] s1 by auto
      then show ?thesis using zeroed_trans [OF z] by blast
    qed
    have r: "rd m (p + s) = Some (m ! (p + s))" using in1 by (simp add: mem_simps)
    have w: "wr m (p + d) x = Some (m[p + d := x])" for x using in1 by (simp add: mem_simps)
    consider (zero) "m ! (p + s) = 0" | (char) "m ! (p + s) \<noteq> 0" "m ! (p + s) = form \<or> m ! (p + s) \<noteq> 37"
      | (esc) "m ! (p + s) \<noteq> 0" "m ! (p + s) = 37" "m ! (p + s) \<noteq> form" by blast
    then show ?thesis
    proof cases
      case zero
      then show ?thesis using r True less.prems
        by (intro exI [of _ m] exI [of _ err] exI [of _ s] exI [of _ d]) (subst uri_decode_loop.simps, auto)
    next
      case char
      have "Suc s \<le> n + 1" using True by simp
      then show ?thesis using char r w True step [of "Suc s"]
        by (subst uri_decode_loop.simps) (cases "m ! (p + s) = form"; simp)
    next
      case esc
      show ?thesis
      proof (cases "s + 2 < n + 1 \<and> d + 1 < n")
        case False
        then have "\<not> (int s + 2 < int n + 1 \<and> int d + 1 < int n)" by auto
        then show ?thesis using r esc True less.prems
          by (intro exI [of _ m] exI [of _ "- 1"] exI [of _ s] exI [of _ d])
            (subst uri_decode_loop.simps, auto)
      next
        case fit: True
        have r2: "rd m (p + s + 1) = Some (m ! (p + s + 1))" "rd m (p + s + 2) = Some (m ! (p + s + 2))"
          using fit less.prems by (simp_all add: mem_simps)
        have s3: "s + 3 \<le> n + 1" using fit by simp
        have skip: "\<exists>m' err' s' d'. uri_decode_loop m p (int n) p (int n + 1) form (- 1) (s + 3) d =
          Some (m', err', s', d') \<and> d' \<le> s' \<and> s' \<le> n + 1 \<and> d' \<le> n \<and> zeroed p (p + n) m m'"
        proof -
          have "n + 1 - (s + 3) < n + 1 - s" "d \<le> s + 3" "s + 3 \<le> n + 1" using fit less.prems by auto
          then show ?thesis using IH [of "s + 3" d m "- 1"] less.prems by blast
        qed
        show ?thesis using r r2 w esc True fit skip step [of "s + 3"] s3
          by (subst uri_decode_loop.simps)
            (cases "xs_fromhex (m ! (p + s + 1)) < 0 \<or> xs_fromhex (m ! (p + s + 2)) < 0"; simp)
      qed
    qed
  qed
qed

lemma xs_uri_decode_bounds:
  assumes "p + n \<le> length m"
  shows "\<exists>m' err. xs_uri_decode m p (int n) p (int n) form = Some (m', err) \<and> zeroed p (p + n - 1) m m'"
proof (cases "n \<le> 1")
  case True
  then show ?thesis by (simp add: xs_uri_decode_def)
next
  case False
  then obtain l where n: "n = l + 1" "l > 0" by (metis add.commute le_add_diff_inverse nat_le_linear not_le zero_less_diff)
  obtain m1 err s d where l: "uri_decode_loop m p (int l) p (int l + 1) (plus_char form) 0 0 0 = Some (m1, err, s, d)"
    "d \<le> s" "s \<le> l + 1" "d \<le> l" "zeroed p (p + l) m m1"
    using uri_decode_loop_bounds [of 0 0 l p m "plus_char form" 0] assms n by auto
  have len: "length m1 = length m" using l(5) by (simp add: zeroed_def)
  show ?thesis
  proof (cases "err = 0 \<and> s \<noteq> l + 1 \<and> d + (l + 1 - s) \<le> l")
    case True
    let ?xs = "take (l + 1 - s) (drop (p + s) m1)"
    have xs: "rds m1 (p + s) (l + 1 - s) = Some ?xs" "length ?xs = l + 1 - s"
      using len assms n l(3) by (simp_all add: rds_def)
    let ?m2 = "take (p + d) m1 @ ?xs @ drop (p + d + (l + 1 - s)) m1"
    have b: "blit m1 (p + d) ?xs = Some ?m2" using xs(2) len assms n True by (simp add: blit_def)
    have m2: "zeroed p (p + l) m1 ?m2" "length ?m2 = length m1"
      using xs(2) len assms n True
      by (auto simp: zeroed_def nth_append not_less min_def)
    have w: "wr ?m2 (p + (d + (l + 1 - s))) 0 = Some (?m2[p + (d + (l + 1 - s)) := 0])"
      using m2(2) len assms n True by (simp add: wr_def)
    have c: "int d + (int l + 1 - int s) \<le> int l" "nat (int l + 1 - int s) = l + 1 - s" "\<not> int l + 1 - int s < 0"
        "int l + 1 - int s \<noteq> 0" and e: "err = 0"
      using True l(3) by auto
    have "zeroed p (p + l) m (?m2[p + (d + (l + 1 - s)) := 0])"
      using l(5) m2(1) zeroed_update0 zeroed_trans by blast
    moreover have "xs_uri_decode m p (int l + 1) p (int l + 1) form = Some (?m2[p + (d + (l + 1 - s)) := 0], err)"
      using n(2) unfolding xs_uri_decode_def Let_def add_diff_cancel_right' l(1) bind.bind_lunit prod.case
      by (simp only: c e xs(1) b w bind.bind_lunit prod.case if_True simp_thms not_False_eq_True if_False) simp
    moreover have "int n = int l + 1" "p + n - 1 = p + l" using n(1) by simp_all
    ultimately show ?thesis by metis
  next
    case False
    have w: "wr m1 (p + d) 0 = Some (m1[p + d := 0])" using l(4) len assms n by (simp add: wr_def)
    have c: "\<not> (err = 0 \<and> int l + 1 - int s \<noteq> 0 \<and> int d + (int l + 1 - int s) \<le> int l)" using False l(3) by auto
    have "zeroed p (p + l) m (m1[p + d := 0])"
      using l(5) zeroed_update0 zeroed_trans by blast
    moreover have "xs_uri_decode m p (int l + 1) p (int l + 1) form = Some (m1[p + d := 0], err)"
      using n(2) unfolding xs_uri_decode_def Let_def add_diff_cancel_right' l(1) bind.bind_lunit prod.case
      by (simp only: c w bind.bind_lunit prod.case if_False) simp
    moreover have "int n = int l + 1" "p + n - 1 = p + l" using n(1) by simp_all
    ultimately show ?thesis by metis
  qed
qed

subsection \<open>Lemmas: parsing never leaves the buffer\<close>

lemma valid_scan_end:
  assumes "valid_scan b n s = Some r" "0 < r" "n \<le> length b"
  shows "int s + 2 \<le> r \<and> r \<le> int n \<and> b ! nat (r - 1) = 10 \<and> (b ! nat (r - 2) = 10 \<or> b ! nat (r - 2) = 13)"
  using assms
proof (induction b n s rule: valid_scan.induct)
  case (1 b n s)
  show ?case
  proof (cases "Suc s < n")
    case False
    then show ?thesis using "1.prems" by (subst (asm) valid_scan.simps) simp
  next
    case True
    then have rd: "rd b s = Some (b ! s)" "rd b (Suc s) = Some (b ! Suc s)" using "1.prems" by (simp_all add: mem_simps)
    note step = "1.prems"(1) [unfolded valid_scan.simps [of b n s]]
    consider "\<not> xs_http_okchar (schar (b ! s))" | (nn) "xs_http_okchar (schar (b ! s))" "b ! s = 10" "b ! Suc s = 10"
      | (rn) "xs_http_okchar (schar (b ! s))" "b ! s = 10" "b ! Suc s = 13" "s + 2 < n" "b ! (s + 2) = 10"
      | (rec) "xs_http_okchar (schar (b ! s))" "\<not> (b ! s = 10 \<and> b ! Suc s = 10)"
        "\<not> (b ! s = 10 \<and> b ! Suc s = 13 \<and> s + 2 < n \<and> b ! (s + 2) = 10)" by argo
    then show ?thesis
    proof cases
      case rec
      have "valid_scan b n (Suc s) = Some r"
        using step rec True rd "1.prems" by (auto simp: mem_simps split: if_splits)
      then have "int (Suc s) + 2 \<le> r \<and> r \<le> int n \<and> b ! nat (r - 1) = 10 \<and> (b ! nat (r - 2) = 10 \<or> b ! nat (r - 2) = 13)"
        using "1.IH" rec True rd "1.prems" by (cases "b ! s = 10 \<and> s + 2 < n \<and> b ! Suc s = 13") (auto simp: mem_simps)
      then show ?thesis by simp
    next
      case nn
      then have "r = int s + 2" using step True rd by simp
      then show ?thesis using nn True by (simp add: nat_add_distrib)
    next
      case rn
      then have "r = int s + 3" using step True rd "1.prems" by (simp add: mem_simps)
      moreover have "nat (int s + 3 - 1) = s + 2" "nat (int s + 3 - 2) = Suc s" by simp_all
      ultimately show ?thesis using rn by simp
    qed (use step True rd "1.prems" in simp)
  qed
qed

lemma parse_headers_safe:
  assumes "e < length (q_buf req)" "q_buf req ! e = 0" "\<forall>i. q_version req = Some i \<longrightarrow> i \<le> e"
  shows "\<exists>r. parse_headers req e c = Some r"
  using assms
proof (induction "exs_Max_Headers - length (q_headers req)" arbitrary: req c rule: less_induct)
  case less
  let ?b = "q_buf req"
  show ?case
  proof (cases "length (q_headers req) < exs_Max_Headers \<and> c < e")
    case False
    then show ?thesis by (subst parse_headers.simps) auto
  next
    case True
    obtain na where na: "skip_while (\<lambda>x. schar x \<le> 32) ?b e c = Some na" "na \<le> e"
      "na < e \<longrightarrow> \<not> schar (?b ! na) \<le> 32"
      using skip_while_bounds [of e ?b c "\<lambda>x. schar x \<le> 32"] True less.prems by auto
    show ?thesis
    proof (cases "na \<ge> e")
      case True2: True
      then show ?thesis using na True by (subst parse_headers.simps) simp
    next
      case na_lt: False
      let ?P = "\<lambda>x::byte. \<not> (x = 9 \<or> x = 32)"
      obtain c2 where c2: "xs_http_skiptoken ?b e na = Some c2" "na \<le> c2" "c2 \<le> e" "c2 < e \<longrightarrow> \<not> ?P (?b ! c2)"
        using skip_while_bounds [of e ?b na ?P] na less.prems by (auto simp: xs_http_skiptoken_def)
      have "c2 \<noteq> na"
      proof
        assume "c2 = na"
        then have "?b ! na = 9 \<or> ?b ! na = 32" using c2 na_lt by auto
        then show False using na(3) na_lt by auto
      qed
      then have c2g: "na < c2" using c2 by simp
      have x: "rd ?b (c2 - 1) = Some (?b ! (c2 - 1))" using c2 c2g less.prems by (simp add: mem_simps)
      show ?thesis
      proof (cases "?b ! (c2 - 1) = 58")
        case False
        then show ?thesis using True na na_lt c2 x by (subst parse_headers.simps) simp
      next
        case colon: True
        let ?b1 = "?b[c2 - Suc 0 := 0]"
        have b1: "wr ?b (c2 - 1) 0 = Some ?b1" using c2 c2g less.prems by (simp add: mem_simps)
        obtain va where va: "xs_http_skipspace ?b1 e c2 = Some va" "va \<le> e"
          using skip_while_bounds [of e ?b1 c2 "\<lambda>x. x = 9 \<or> x = 32"] c2 less.prems by (auto simp: xs_http_skipspace_def)
        obtain c4 where c4: "xs_http_skiptoEOL ?b1 e va = Some c4" "c4 \<le> e"
          using skiptoEOL_bounds [of e ?b1 va] va less.prems by auto
        let ?b2 = "?b1[c4 := 0]"
        have b2: "wr ?b1 c4 0 = Some ?b2" using c4 less.prems by (simp add: mem_simps)
        have e0: "?b2 ! e = 0" "e < length ?b2" using less.prems c4 c2 by (auto simp: nth_list_update)
        have strs: "\<exists>s. cstr_at ?b2 i = Some s" if "i \<le> e" for i
          using cstr_at_Some [of i e ?b2] e0 that by simp
        obtain nm where nm: "cstr_at ?b2 na = Some nm" using strs na by auto
        obtain vl where vl: "cstr_at ?b2 va = Some vl" using strs va by auto
        obtain ver where ver: "(case q_version req of None \<Rightarrow> Some None
            | Some i \<Rightarrow> map_option Some (cstr_at ?b2 i)) = Some ver"
          using strs less.prems by (cases "q_version req") fastforce+
        let ?r = "preparse_header (req\<lparr>q_buf := ?b2, q_headers := q_headers req @ [(na, va)]\<rparr>) nm vl ver"
        have "exs_Max_Headers - length (q_headers ?r) < exs_Max_Headers - length (q_headers req)"
          using conjunct1 [OF True] by simp
        then obtain r where "parse_headers ?r e c4 = Some r"
          using less.hyps [of ?r c4] e0 less.prems(3) by auto
        then show ?thesis
          using True na na_lt c2 x colon b1 va c4 b2 nm vl ver by (subst parse_headers.simps) simp
      qed
    qed
  qed
qed

lemma terminatetoken_safe:
  assumes "i \<le> k" "k < length b" "is_ws (b ! k)"
  shows "\<exists>j. xs_http_terminatetoken b (Some i) = Some (b[j := 0], j - i + 1) \<and> i \<le> j \<and> j \<le> k \<and> is_ws (b ! j) \<and>
    (\<forall>l. i \<le> l \<longrightarrow> l < j \<longrightarrow> \<not> is_ws (b ! l))"
proof -
  obtain c where c: "token_end b i 0 = Some c" "i + c \<le> k" "is_ws (b ! (i + c))"
    "\<forall>l. i \<le> l \<longrightarrow> l < i + c \<longrightarrow> \<not> is_ws (b ! l)"
    using token_end_bounds [of i 0 k b] assms by auto
  then show ?thesis
    using assms by (intro exI [of _ "i + c"]) (simp add: xs_http_terminatetoken_def mem_simps)
qed

lemma cut_at_safe:
  assumes "u \<le> k" "k < length b" "b ! k = 0"
  shows "\<exists>b1 p ulen1. cut_at b u ulen c = Some (b1, p, ulen1) \<and> zeroed 0 0 b b1 \<and>
    (\<forall>i. p = Some i \<longrightarrow> i \<le> k) \<and> (ulen1 < 0 \<or> ulen1 = ulen)"
proof -
  let ?s = "cstr (drop u b)"
  have s: "cstr_at b u = Some ?s" "u + length ?s \<le> k"
    using cstr_at_Some cstr_length_at assms by auto
  show ?thesis
  proof (cases "strchr_from ?s 0 c")
    case None
    then show ?thesis using s by (simp add: cut_at_def)
  next
    case (Some j)
    then have "j < length ?s" using strchr_from_Some by blast
    then show ?thesis
      using Some s assms by (auto simp: cut_at_def mem_simps zeroed_update0)
  qed
qed

lemma decode_part_safe:
  assumes "\<forall>i. p = Some i \<longrightarrow> i \<le> k" "k < length b" "b ! k = 0"
  shows "\<exists>b1. decode_part b p = Some b1 \<and> length b1 = length b \<and> b1 ! k = 0"
proof (cases p)
  case (Some i)
  let ?s = "cstr (drop i b)"
  have s: "cstr_at b i = Some ?s" "i + length ?s \<le> k"
    using cstr_at_Some cstr_length_at assms Some by auto
  obtain b1 err where b1: "xs_uri_decode b i (int (length ?s + 1)) i (int (length ?s + 1)) False = Some (b1, err)"
    "zeroed i (i + (length ?s + 1) - 1) b b1"
    using xs_uri_decode_bounds [of i "length ?s + 1" b False] s assms by auto
  have "b1 ! k = 0" "length b1 = length b"
    using zeroed_zero [OF b1(2), of k] s assms b1(2) by (simp_all add: zeroed_def)
  then show ?thesis using Some s b1 by (simp add: decode_part_def add.commute)
qed (use assms in \<open>simp add: decode_part_def\<close>)

lemma split_uri_safe:
  assumes "\<forall>u. q_uri req = Some u \<longrightarrow> (\<exists>j. u \<le> j \<and> j < e \<and> is_ws (q_buf req ! j))"
    and "e < length (q_buf req)" "q_buf req ! e = 0"
  shows "\<exists>r. split_uri req = Some r \<and> e < length (q_buf r) \<and> q_buf r ! e = 0 \<and> q_version r = q_version req"
proof (cases "q_uri req")
  case None
  then show ?thesis using assms by (simp add: split_uri_def)
next
  case (Some u)
  then obtain j0 where j0: "u \<le> j0" "j0 < e" "is_ws (q_buf req ! j0)" using assms by auto
  then obtain j where j: "xs_http_terminatetoken (q_buf req) (Some u) = Some ((q_buf req)[j := 0], j - u + 1)"
    "u \<le> j" "j \<le> j0"
    using terminatetoken_safe [of u j0 "q_buf req"] assms by auto
  let ?b0 = "(q_buf req)[j := 0]"
  have z0: "?b0 ! e = 0" "e < length ?b0" "length ?b0 = length (q_buf req)"
    using assms j j0 by simp_all
  obtain b1 hash ul1 where b1: "cut_at ?b0 u (int (j - u + 1)) 35 = Some (b1, hash, ul1)" "zeroed 0 0 ?b0 b1"
    "\<forall>i. hash = Some i \<longrightarrow> i \<le> e" "ul1 < 0 \<or> ul1 = int (j - u + 1)"
    using cut_at_safe [of u e ?b0 "int (j - u + 1)" 35] z0 j j0 by auto
  have z1: "b1 ! e = 0" "length b1 = length ?b0" using zeroed_zero [OF b1(2), of e] zeroed_length [OF b1(2)] z0 by simp_all
  obtain b2 query ul2 where b2: "cut_at b1 u ul1 63 = Some (b2, query, ul2)" "zeroed 0 0 b1 b2"
    "\<forall>i. query = Some i \<longrightarrow> i \<le> e" "ul2 < 0 \<or> ul2 = ul1"
    using cut_at_safe [of u e b1 ul1 63] z0 z1 j j0 by auto
  have z2: "b2 ! e = 0" "length b2 = length ?b0" using zeroed_zero [OF b2(2), of e] zeroed_length [OF b2(2)] z1 by simp_all
  have "\<exists>b3 err. xs_uri_decode b2 u ul2 u ul2 False = Some (b3, err) \<and> b3 ! e = 0 \<and> length b3 = length ?b0"
  proof (cases "ul2 < 0")
    case True
    then show ?thesis using z2 by (simp add: xs_uri_decode_def)
  next
    case False
    then have "ul2 = int (j - u + 1)" using b1(4) b2(4) by auto
    moreover have "u + (j - u + 1) \<le> length b2" using j j0 z0 z2 by simp
    ultimately obtain b3 err where "xs_uri_decode b2 u ul2 u ul2 False = Some (b3, err)"
      "zeroed u (u + (j - u + 1) - 1) b2 b3"
      using xs_uri_decode_bounds by blast
    then show ?thesis using z2 zeroed_zero [of u "u + (j - u + 1) - 1" b2 b3 e] j j0 by (auto simp: zeroed_def)
  qed
  then obtain b3 err where b3: "xs_uri_decode b2 u ul2 u ul2 False = Some (b3, err)" "b3 ! e = 0" "length b3 = length ?b0"
    by auto
  obtain b4 where b4: "decode_part b3 hash = Some b4" "length b4 = length b3" "b4 ! e = 0"
    using decode_part_safe [OF b1(3), of b3] b3 z0 by auto
  obtain b5 where b5: "decode_part b4 query = Some b5" "length b5 = length b4" "b5 ! e = 0"
    using decode_part_safe [OF b2(3), of b4] b4 b3 z0 by auto
  show ?thesis using Some j(1) b1(1) b2(1) b3 b4 b5 z0 by (simp add: split_uri_def)
qed

lemma is_ws_http: "x \<in> set (bytes ''HTTP/'') \<Longrightarrow> \<not> is_ws x \<and> x \<noteq> 0"
  by auto

lemma memeq_http:
  assumes "memeq_at b v (bytes ''HTTP/'') = Some True" "j < 5"
  shows "v + j < length b" "\<not> is_ws (b ! (v + j))" "b ! (v + j) \<noteq> 0"
proof -
  have "v + j < length b \<and> b ! (v + j) \<in> set (bytes ''HTTP/'')"
    using memeq_at_True [OF assms(1), of j] assms(2) nth_mem [of j "bytes ''HTTP/''"] by simp
  then show "v + j < length b" "\<not> is_ws (b ! (v + j))" "b ! (v + j) \<noteq> 0"
    using is_ws_http by auto
qed

text \<open>The token positions of a header that ends in a blank line.\<close>

definition header_text :: "byte list \<Rightarrow> nat \<Rightarrow> bool" where
  "header_text b e \<longleftrightarrow> 2 \<le> e \<and> e < length b \<and> b ! e = 0 \<and> b ! (e - 1) = 10 \<and> (b ! (e - 2) = 10 \<or> b ! (e - 2) = 13)"

lemma request_line_request:
  assumes h: "header_text b e"
    and u: "xs_http_skiptokenandspace b e 0 = Some u" and v: "xs_http_skiptokenandspace b e u = Some v"
    and m: "memeq_at b v (bytes ''HTTP/'') = Some True" and r: "q_status req = None"
  shows "\<exists>r1 err. request_line req b 0 u v = Some (r1, err) \<and> (err = 0 \<longrightarrow>
    (\<exists>b3 k. xs_http_terminatetoken (q_buf r1) (q_status r1) = Some (q_buf r1, 0) \<and>
      xs_http_terminatetoken (q_buf r1) (q_version r1) = Some (b3, k) \<and> length b3 = length b \<and> b3 ! e = 0 \<and>
      (\<forall>i. q_version r1 = Some i \<longrightarrow> i \<le> e) \<and>
      (\<forall>u. q_uri r1 = Some u \<longrightarrow> (\<exists>j. u \<le> j \<and> j < e \<and> is_ws (b3 ! j)))))"
proof -
  have e: "e - 1 < e" "e \<le> length b" "b ! (e - 1) = 10" "e < length b" "b ! e = 0" "e - 1 < length b"
    using h by (auto simp: header_text_def)
  obtain j1 where j1: "j1 \<le> u" "u \<le> e - 1" "is_ws (b ! j1)" "\<forall>i<j1. \<not> is_ws (b ! i)"
    "b ! j1 = 13 \<or> b ! j1 = 10 \<longrightarrow> u = j1" "b ! j1 = 9 \<or> b ! j1 = 32 \<longrightarrow> j1 < u"
    using skiptokenandspace_stop [OF e(2) _ e(1,3), of 0] u by auto
  obtain j2 where j2: "u \<le> j2" "j2 \<le> v" "v \<le> e - 1" "is_ws (b ! j2)" "b ! j2 = 13 \<or> b ! j2 = 10 \<longrightarrow> v = j2"
    using skiptokenandspace_stop [OF e(2) j1(2) e(1,3)] v by auto
  have vnws: "\<not> is_ws (b ! v)" using memeq_http(2) [OF m, of 0] by simp
  have j2v: "j2 < v" using j2 vnws by (metis le_neq_implies_less)
  have j12: "j1 < j2"
  proof (cases "b ! j1 = 9 \<or> b ! j1 = 32")
    case False
    then have "u = j1" "b ! j1 = 13 \<or> b ! j1 = 10" using j1 by auto
    then show ?thesis using j2 j2v by (metis le_neq_implies_less less_irrefl)
  qed (use j1 j2 in auto)
  have v5: "v + 5 \<le> e - 1"
  proof (rule ccontr)
    assume "\<not> v + 5 \<le> e - 1"
    then obtain j where "e - 1 = v + j" "j < 5" using j2 by (metis add.commute le_add_diff_inverse less_diff_conv2 not_le)
    then show False using memeq_http(2) [OF m] e(3) by metis
  qed
  obtain k1 where k1: "xs_http_terminatetoken b (Some 0) = Some (b[k1 := 0], k1 - 0 + 1)" "k1 \<le> j1" "is_ws (b ! k1)"
    using terminatetoken_safe [of 0 j1 b] j1 e by auto
  have k1j: "k1 = j1" using k1 j1(4) by (metis le_neq_implies_less)
  let ?b1 = "b[k1 := 0]"
  have b1: "?b1 ! e = 0" "?b1 ! (e - 1) = 10" "length ?b1 = length b" "?b1 ! j2 = b ! j2"
    using e k1j j12 j2v j2 by (simp_all add: nth_list_update)
  obtain ms where ms: "cstr_at ?b1 0 = Some ms" using cstr_at_Some [of 0 e ?b1] b1 e by simp
  have rd: "rd ?b1 u = Some (?b1 ! u)" "rd ?b1 (u + 1) = Some (?b1 ! (u + 1))"
    using e j1(2) b1(3) by (simp_all add: mem_simps)
  obtain k2 where k2: "xs_http_terminatetoken ?b1 (Some (v + 5)) = Some (?b1[k2 := 0], k2 - (v + 5) + 1)" "v + 5 \<le> k2" "k2 \<le> e - 1"
    using terminatetoken_safe [of "v + 5" "e - 1" ?b1] v5 b1 e by auto
  let ?b3 = "?b1[k2 := 0]"
  have b3: "length ?b3 = length b" "?b3 ! e = 0" "?b3 ! j2 = b ! j2"
    using b1 k2 j2v e by (simp_all add: nth_list_update)
  have v5e: "v + 5 \<le> e" using v5 by simp
  have ws: "\<exists>j\<ge>u. j < e \<and> is_ws (?b3 ! j)" using b3(3) j2 j2v by (intro exI [of _ j2]) auto
  show ?thesis
    using m k1(1) ms rd r k2(1) b3 ws v5e
    by (simp add: request_line_def xs_http_terminatetoken_def [of _ None] Let_def)
qed

lemma request_line_response:
  assumes h: "header_text b e"
    and u: "xs_http_skiptokenandspace b e 0 = Some u" and v: "xs_http_skiptokenandspace b e u = Some v"
    and n: "memeq_at b v (bytes ''HTTP/'') = Some False" and m: "memeq_at b 0 (bytes ''HTTP/'') = Some True"
  shows "\<exists>r1. request_line req b 0 u v = Some (r1, 0) \<and> q_uri r1 = None \<and> q_version r1 = Some 5 \<and> 5 \<le> e \<and>
    (\<exists>b2 k b3 k'. xs_http_terminatetoken (q_buf r1) (q_status r1) = Some (b2, k) \<and>
      xs_http_terminatetoken b2 (q_version r1) = Some (b3, k') \<and> length b3 = length b \<and> b3 ! e = 0)"
proof -
  have e: "e - 1 < e" "e \<le> length b" "b ! (e - 1) = 10" "e < length b" "b ! e = 0" "e - 1 < length b"
      "2 \<le> e" "b ! (e - 2) = 10 \<or> b ! (e - 2) = 13"
    using h by (auto simp: header_text_def)
  obtain j1 where j1: "j1 \<le> u" "u \<le> e - 1" "is_ws (b ! j1)" "\<forall>i<j1. \<not> is_ws (b ! i)"
    "b ! j1 = 13 \<or> b ! j1 = 10 \<longrightarrow> u = j1" "b ! j1 = 9 \<or> b ! j1 = 32 \<longrightarrow> j1 < u"
    using skiptokenandspace_stop [OF e(2) _ e(1,3), of 0] u by auto
  have j1e: "j1 \<le> e - 2"
  proof (rule ccontr)
    assume "\<not> j1 \<le> e - 2"
    then have "\<not> is_ws (b ! (e - 2))" using j1(4) by simp
    then show False using e(8) by auto
  qed
  have uv: "u \<le> v" "v \<le> e - 1"
    using skiptokenandspace_stop [OF e(2) j1(2) e(1,3)] v by auto
  have j5: "5 \<le> j1"
  proof (rule ccontr)
    assume "\<not> 5 \<le> j1"
    then show False using memeq_http(2) [OF m, of j1] j1(3) by simp
  qed
  obtain us where us: "cstr_at b u = Some us" using cstr_at_Some [of u e b] e j1(2) by simp
  obtain k1 where k1: "xs_http_terminatetoken b (Some v) = Some (b[k1 := 0], k1 - v + 1)" "v \<le> k1" "k1 \<le> e - 1"
      "\<forall>l. v \<le> l \<longrightarrow> l < k1 \<longrightarrow> \<not> is_ws (b ! l)"
    using terminatetoken_safe [of v "e - 1" b] uv e by auto
  let ?b2 = "b[k1 := 0]"
  have "\<exists>j\<ge>5. j \<le> e - 1 \<and> is_ws (?b2 ! j)"
  proof (cases "j1 = k1")
    case False
    then show ?thesis using j1 j5 by (intro exI [of _ j1]) (auto simp: nth_list_update)
  next
    case True
    then have "k1 \<noteq> e - 1" using j1e e(7) by auto
    then show ?thesis using e j5 j1e by (intro exI [of _ "e - 1"]) (auto simp: nth_list_update)
  qed
  then obtain j where j: "5 \<le> j" "j \<le> e - 1" "is_ws (?b2 ! j)" by blast
  obtain k2 where k2: "xs_http_terminatetoken ?b2 (Some 5) = Some (?b2[k2 := 0], k2 - 5 + 1)" "5 \<le> k2" "k2 \<le> j"
    using terminatetoken_safe [of 5 j ?b2] j e by auto
  have "?b2[k2 := 0] ! e = 0" using e k1 k2 j by (simp add: nth_list_update)
  moreover have "5 \<le> e" using j by simp
  ultimately show ?thesis using n m us k1(1) k2(1)
    by (simp add: request_line_def)
qed

lemma memeq_Some:
  "i \<le> k \<Longrightarrow> k < length b \<Longrightarrow> b ! k = 0 \<Longrightarrow> 0 \<notin> set s \<Longrightarrow>
   memeq_at b i s = Some True \<or> memeq_at b i s = Some False"
  using memeq_at_bounds by (metis not_None_eq)

lemma parse_copy:
  assumes "xs_http_validrequest buf n = Some rlen" "0 < rlen" "n \<le> length buf" "nat rlen < length (q_buf req)"
  obtains c0 e xs b1 b where "xs_http_skipspace buf (nat rlen) 0 = Some c0" "e = nat rlen - c0" "rds buf c0 e = Some xs"
    "blit (q_buf (xs_req_clear req)) 0 xs = Some b1" "wr b1 e 0 = Some b" "e < length b" "b ! e = 0" "header_text b e"
proof -
  define l where "l = nat rlen"
  have l: "2 \<le> l" "l \<le> n" "buf ! (l - 1) = 10" "buf ! (l - 2) = 10 \<or> buf ! (l - 2) = 13"
    using valid_scan_end [OF assms(1) [unfolded xs_http_validrequest_def] assms(2,3)] assms(2)
    by (auto simp: l_def nat_diff_distrib)
  obtain c0 where c0: "xs_http_skipspace buf l 0 = Some c0" "c0 \<le> l" "\<forall>k<c0. buf ! k = 9 \<or> buf ! k = 32"
    using skip_while_bounds [of l buf 0 "\<lambda>x. x = 9 \<or> x = 32"] l assms(3) by (auto simp: xs_http_skipspace_def)
  have c0l: "c0 + 2 \<le> l"
  proof (rule ccontr)
    assume "\<not> c0 + 2 \<le> l"
    then have "buf ! (l - 2) = 9 \<or> buf ! (l - 2) = 32" using c0(3) l(1) by simp
    then show False using l(4) by auto
  qed
  define e where "e = l - c0"
  define xs where "xs = take e (drop c0 buf)"
  define b1 where "b1 = xs @ drop e (q_buf req)"
  have ge: "2 \<le> e" "e - 1 < e" "c0 + (e - 1) = l - 1" "c0 + (e - 2) = l - 2" "e - 2 < e"
    using c0l by (simp_all add: e_def)
  have len: "length xs = e" using l assms(3) c0 by (simp add: e_def xs_def)
  have el: "e < length (q_buf req)" using assms(4) by (simp add: e_def l_def)
  have blen: "length b1 = length (q_buf req)" using len el by (simp add: b1_def)
  have nth: "b1[e := 0] ! k = buf ! (c0 + k)" if "k < e" for k
    using that len l assms(3) by (simp add: nth_append b1_def xs_def e_def)
  have "header_text (b1[e := 0]) e"
    unfolding header_text_def using ge el blen nth [of "e - 1"] nth [of "e - 2"] l by simp
  moreover have "rds buf c0 e = Some xs" using l assms(3) c0 by (simp add: rds_def e_def xs_def)
  moreover have "blit (q_buf (xs_req_clear req)) 0 xs = Some b1" using len el by (simp add: xs_req_clear_def blit_def b1_def)
  moreover have "wr b1 e 0 = Some (b1[e := 0])" using el blen by (simp add: wr_def)
  ultimately show thesis using that c0(1) el blen by (simp add: e_def l_def)
qed

lemma request_line_ends:
  fixes req :: xs_httpreq
  assumes h: "header_text b e" and zero: "b ! e = 0" "e < length b"
    and u: "xs_http_skiptokenandspace b e 0 = Some u" and v: "xs_http_skiptokenandspace b e u = Some v" "v \<le> e - 1"
  shows "\<exists>r1 err. request_line ((xs_req_clear req)\<lparr>q_status := None, q_hash := None, q_query := None\<rparr>) b 0 u v = Some (r1, err) \<and> (err = 0 \<longrightarrow>
    (\<exists>b2 k b3 k'. xs_http_terminatetoken (q_buf r1) (q_status r1) = Some (b2, k) \<and>
      xs_http_terminatetoken b2 (q_version r1) = Some (b3, k') \<and> length b3 = length b \<and> b3 ! e = 0 \<and>
      (\<forall>i. q_version r1 = Some i \<longrightarrow> i \<le> e) \<and>
      (\<forall>u. q_uri r1 = Some u \<longrightarrow> (\<exists>j. u \<le> j \<and> j < e \<and> is_ws (b3 ! j)))))"
proof -
  let ?r0 = "(xs_req_clear req)\<lparr>q_status := None, q_hash := None, q_query := None\<rparr>"
  have "memeq_at b v (bytes ''HTTP/'') = Some True \<or> memeq_at b v (bytes ''HTTP/'') = Some False"
    using v zero by (intro memeq_Some [of v e]) auto
  then show ?thesis
  proof
    assume "memeq_at b v (bytes ''HTTP/'') = Some True"
    from request_line_request [OF h u v(1) this, of ?r0] show ?thesis by simp blast
  next
    assume f: "memeq_at b v (bytes ''HTTP/'') = Some False"
    have "memeq_at b 0 (bytes ''HTTP/'') = Some True \<or> memeq_at b 0 (bytes ''HTTP/'') = Some False"
      using zero by (intro memeq_Some [of 0 e]) auto
    then show ?thesis
    proof
      assume "memeq_at b 0 (bytes ''HTTP/'') = Some True"
      from request_line_response [OF h u v(1) f this, of ?r0] show ?thesis by fastforce
    next
      assume "memeq_at b 0 (bytes ''HTTP/'') = Some False"
      with f show ?thesis unfolding request_line_def by (simp del: bytes_simps)
    qed
  qed
qed


subsection \<open>Lemmas: parsing a printed header\<close>

lemma skip_while_eq:
  assumes "c \<le> c'" "c' < e" "e \<le> length b" "\<forall>k. c \<le> k \<longrightarrow> k < c' \<longrightarrow> P (b ! k)" "\<not> P (b ! c')"
  shows "skip_while P b e c = Some c'"
proof -
  obtain d where d: "skip_while P b e c = Some d" "c \<le> d" "d \<le> e" "\<forall>k. c \<le> k \<longrightarrow> k < d \<longrightarrow> P (b ! k)"
    "d < e \<longrightarrow> \<not> P (b ! d)"
    using skip_while_bounds [of e b c P] assms by auto
  have "\<not> d < c'" using assms(2,4) d by auto
  moreover have "\<not> c' < d" using assms(1,5) d by auto
  ultimately show ?thesis using d(1) by (simp add: linorder_neq_iff)
qed

lemma skip_while_all:
  assumes "c \<le> e" "e \<le> length b" "\<forall>k. c \<le> k \<longrightarrow> k < e \<longrightarrow> P (b ! k)"
  shows "skip_while P b e c = Some e"
  using skip_while_bounds [of e b c P] assms by (metis le_neq_implies_less)

lemma skip_while_list:
  assumes "b = pre @ w @ y # r" "c = length pre" "\<forall>x\<in>set w. P x" "\<not> P y" "c + length w < e" "e \<le> length b"
  shows "skip_while P b e c = Some (c + length w)"
proof (rule skip_while_eq)
  show "\<forall>k. c \<le> k \<longrightarrow> k < c + length w \<longrightarrow> P (b ! k)"
  proof (intro allI impI)
    fix k assume k: "c \<le> k" "k < c + length w"
    then have "b ! k = w ! (k - c)" "k - c < length w" using assms(1,2) by (auto simp: nth_append)
    then show "P (b ! k)" using assms(3) by simp
  qed
qed (use assms in \<open>simp_all add: nth_append\<close>)

lemma skiptoEOL_list:
  assumes "b = pre @ w @ 13 # r" "c = length pre" "13 \<notin> set w" "10 \<notin> set w" "Suc (c + length w) < e" "e \<le> length b"
  shows "xs_http_skiptoEOL b e c = Some (c + length w)"
  using assms
proof (induction w arbitrary: pre c)
  case Nil
  then show ?case by (subst xs_http_skiptoEOL.simps) (simp add: mem_simps nth_append)
next
  case (Cons x w)
  have b: "b = (pre @ [x]) @ w @ 13 # r" using Cons.prems by simp
  have x: "rd b c = Some x" using Cons.prems by (simp add: rd_def nth_append)
  have "rd b (Suc c) = Some (hd (w @ [13]))" using Cons.prems
    by (cases w) (auto simp: rd_def nth_append)
  moreover have "hd (w @ [13 :: byte]) \<noteq> 10" using Cons.prems by (cases w) auto
  moreover have "xs_http_skiptoEOL b e (Suc c) = Some (Suc c + length w)"
    using Cons.prems by (intro Cons.IH [OF b]) auto
  ultimately show ?case using Cons.prems x by (subst xs_http_skiptoEOL.simps) simp
qed

lemma terminatetoken_list:
  assumes "b = pre @ w @ y # r" "i = length pre" "\<forall>x\<in>set w. \<not> is_ws x" "is_ws y"
  shows "xs_http_terminatetoken b (Some i) = Some (pre @ w @ 0 # r, length w + 1)"
proof -
  have "i + length w < length b" "is_ws (b ! (i + length w))" using assms by (simp_all add: nth_append)
  then obtain j where j: "xs_http_terminatetoken b (Some i) = Some (b[j := 0], j - i + 1)" "i \<le> j" "j \<le> i + length w"
    "is_ws (b ! j)"
    using terminatetoken_safe [of i "i + length w" b] by auto
  have "j = i + length w"
  proof (rule ccontr)
    assume "j \<noteq> i + length w"
    then have "j - i < length w" "b ! j = w ! (j - i)" using j assms(1,2) by (auto simp: nth_append)
    then have "b ! j \<in> set w" by simp
    then show False using assms(3) j(4) by auto
  qed
  then show ?thesis using j(1) assms by (simp add: list_update_append)
qed

lemma cstr_at_list:
  "b = pre @ s @ 0 # r \<Longrightarrow> i = length pre \<Longrightarrow> is_cstr s \<Longrightarrow> cstr_at b i = Some s"
  by (simp add: cstr_at_def cstr_terminated)

lemma str_at_list:
  "b = pre @ s @ 0 # r \<Longrightarrow> i = length pre \<Longrightarrow> is_cstr s \<Longrightarrow> i + length s < k \<Longrightarrow> k \<le> length b \<Longrightarrow> str_at b i k s"
  by (simp add: str_at_def)

definition hflags :: "xs_httpreq \<Rightarrow> nat \<times> bool \<times> bool \<times> nat" where
  \<comment> \<open>what the parser takes from the headers it looks at\<close>
  "hflags r = (q_contentlen r, q_chunked r, q_keepalive r, q_upgrade r)"

definition preparse_all :: "xs_httpreq \<Rightarrow> byte list \<Rightarrow> (byte list \<times> byte list) list \<Rightarrow> xs_httpreq" where
  "preparse_all r ver hs = foldl (\<lambda>r (n, v). preparse_header r n v (Some ver)) r hs"

lemma hflags_preparse:
  "hflags r = hflags r' \<Longrightarrow> hflags (preparse_header r n v ver) = hflags (preparse_header r' n v ver)"
  by (simp add: hflags_def preparse_header_def Let_def)

lemma hflags_preparse_all:
  "hflags r = hflags r' \<Longrightarrow> hflags (preparse_all r ver hs) = hflags (preparse_all r' ver hs)"
proof (induction hs arbitrary: r r')
  case (Cons h hs)
  obtain n v where h: "h = (n, v)" by force
  have "hflags (preparse_header r n v (Some ver)) = hflags (preparse_header r' n v (Some ver))"
    using Cons.prems by (rule hflags_preparse)
  from Cons.IH [OF this] show ?case by (simp add: preparse_all_def h)
qed (simp add: preparse_all_def)

definition header_line :: "byte list \<times> byte list \<Rightarrow> byte list" where
  "header_line h = fst h @ [58, 32] @ snd h @ [13, 10]"

lemma header_line_pair: "header_line (n, v) = n @ [58, 32] @ v @ [13, 10]"
  by (simp add: header_line_def)

definition token :: "byte list \<Rightarrow> bool" where
  \<comment> \<open>visible ASCII\<close>
  "token s \<longleftrightarrow> (\<forall>x\<in>set s. 32 < schar x)"

definition field_value :: "byte list \<Rightarrow> bool" where
  "field_value v \<longleftrightarrow> 0 \<notin> set v \<and> 13 \<notin> set v \<and> 10 \<notin> set v \<and> (v \<noteq> [] \<longrightarrow> hd v \<noteq> 9 \<and> hd v \<noteq> 32)"

lemma token_char: "32 < schar x \<Longrightarrow> x \<noteq> 0 \<and> x \<noteq> 9 \<and> x \<noteq> 10 \<and> x \<noteq> 13 \<and> x \<noteq> 32"
  by auto

lemma tokenD: "token s \<Longrightarrow> x \<in> set s \<Longrightarrow> x \<noteq> 0 \<and> x \<noteq> 9 \<and> x \<noteq> 10 \<and> x \<noteq> 13 \<and> x \<noteq> 32"
  using token_char by (auto simp: token_def)

lemma token_cstr: "token s \<Longrightarrow> is_cstr s"
  using tokenD by blast

lemma str_at_cstr_at: "str_at m i b s \<Longrightarrow> cstr_at m i = Some s"
proof -
  assume s: "str_at m i b s"
  then have "0 \<in> set (take (length s + 1) (drop i m))" by (simp add: str_at_def)
  then have "0 \<in> set (drop i m)" by (rule in_set_takeD)
  then show ?thesis using str_at_cstr [OF s] by (simp add: cstr_at_def)
qed

lemma parse_headers_step:
  assumes b: "q_buf req = pre @ w @ n @ 58 # 32 # v @ 13 # 10 # rest"
    and w: "\<forall>x\<in>set w. schar x \<le> 32" and nv: "token n" "field_value v"
    and e: "e < length (q_buf req)" "length pre + length w + length n + length v + 3 < e"
    and room: "length (q_headers req) < exs_Max_Headers"
    and ver: "q_version req = Some i" "str_at (q_buf req) i (length pre) ver"
  defines "na \<equiv> length pre + length w"
  defines "va \<equiv> na + length n + 2"
  defines "b2 \<equiv> pre @ w @ n @ 0 # 32 # v @ 0 # 10 # rest"
  shows "parse_headers req e (length pre) =
    parse_headers (preparse_header (req\<lparr>q_buf := b2, q_headers := q_headers req @ [(na, va)]\<rparr>) n v (Some ver))
      e (va + length v)"
proof -
  let ?b = "q_buf req"
  let ?b1 = "pre @ w @ n @ 0 # 32 # v @ 13 # 10 # rest"
  have len: "length ?b1 = length ?b" "length b2 = length ?b" using b by (simp_all add: b2_def)
  obtain y r where y: "n @ 58 # 32 # v @ 13 # 10 # rest = y # r" "32 < schar y"
    using nv(1) by (cases n) (auto simp: token_def)
  have 1: "skip_while (\<lambda>x. schar x \<le> 32) ?b e (length pre) = Some na"
    using skip_while_list [of ?b pre w y r "length pre" "\<lambda>x. schar x \<le> 32" e] b w y e by (simp add: na_def)
  have 2: "xs_http_skiptoken ?b e na = Some (na + length n + 1)"
    unfolding xs_http_skiptoken_def
    using skip_while_list [of ?b "pre @ w" "n @ [58]" 32 "v @ 13 # 10 # rest" na "\<lambda>x. \<not> (x = 9 \<or> x = 32)" e]
      b e tokenD [OF nv(1)] by (auto simp: na_def)
  have 3: "rd ?b (na + length n) = Some 58" using b by (simp add: rd_def nth_append na_def)
  have 4: "wr ?b (na + length n) 0 = Some ?b1" using b by (simp add: wr_def list_update_append na_def)
  obtain y2 r2 where y2: "v @ 13 # 10 # rest = y2 # r2" "y2 \<noteq> 9" "y2 \<noteq> 32"
    using nv(2) by (cases v) (auto simp: field_value_def)
  have 5: "xs_http_skipspace ?b1 e (na + length n + 1) = Some va"
    unfolding xs_http_skipspace_def
    using skip_while_list [of ?b1 "pre @ w @ n @ [0]" "[32]" y2 r2 "na + length n + 1" "\<lambda>x. x = 9 \<or> x = 32" e]
      y2 e len by (simp add: na_def va_def)
  have 6: "xs_http_skiptoEOL ?b1 e va = Some (va + length v)"
    using skiptoEOL_list [of ?b1 "pre @ w @ n @ [0, 32]" v "10 # rest" va e] nv(2) e len
    by (simp add: na_def va_def field_value_def)
  have 7: "wr ?b1 (va + length v) 0 = Some b2" by (simp add: wr_def list_update_append na_def va_def b2_def)
  have 8: "cstr_at b2 na = Some n"
    using cstr_at_list [of b2 "pre @ w" n _ na] token_cstr [OF nv(1)] by (simp add: b2_def na_def)
  have 9: "cstr_at b2 va = Some v"
    using cstr_at_list [of b2 "pre @ w @ n @ [0, 32]" v _ va] nv(2) by (simp add: b2_def na_def va_def field_value_def)
  have "str_at b2 i (length pre) ver"
    using ver(2) by (rule str_at_mono) (use b len in \<open>simp_all add: b2_def\<close>)
  then have 10: "cstr_at b2 i = Some ver" by (rule str_at_cstr_at)
  have "na < e" "length pre < e" using e by (simp_all add: na_def)
  then show ?thesis
    using room 1 2 3 4 5 6 7 8 9 10 ver(1)
    by (subst parse_headers.simps) simp
qed

lemma parse_headers_print:
  assumes "q_buf req = pre @ w @ concat (map header_line hs) @ 13 # 10 # 0 # post"
    and "\<forall>x\<in>set w. schar x \<le> 32" and "\<forall>(n, v)\<in>set hs. token n \<and> field_value v"
    and "e = length pre + length w + length (concat (map header_line hs)) + 2"
    and "length (q_headers req) + length hs \<le> exs_Max_Headers"
    and "q_version req = Some i" "str_at (q_buf req) i (length pre) ver"
  shows "\<exists>b hl c k a u. parse_headers req e (length pre) =
      Some (req\<lparr>q_contentlen := c, q_chunked := k, q_keepalive := a, q_upgrade := u,
                q_buf := b, q_headers := q_headers req @ hl\<rparr>) \<and>
      (c, k, a, u) = hflags (preparse_all req ver hs) \<and>
      length b = length (q_buf req) \<and> take (length pre + length w) b = take (length pre + length w) (q_buf req) \<and>
      list_all2 (\<lambda>(no, vo) (n, v). str_at b no (length b) n \<and> str_at b vo (length b) v) hl hs"
  using assms
proof (induction hs arbitrary: req pre w)
  case Nil
  have "skip_while (\<lambda>x. schar x \<le> 32) (q_buf req) e (length pre) = Some e"
  proof (rule skip_while_all)
    show "\<forall>k. length pre \<le> k \<longrightarrow> k < e \<longrightarrow> schar (q_buf req ! k) \<le> 32"
    proof (intro allI impI)
      fix k assume k: "length pre \<le> k" "k < e"
      have "q_buf req = pre @ (w @ [13, 10]) @ 0 # post" "k - length pre < length (w @ [13, 10 :: byte])"
        using Nil k by auto
      then have "q_buf req ! k \<in> set (w @ [13, 10])"
        using k(1) by (metis (no_types, lifting) append_eq_conv_conj nth_append_right nth_append_left nth_mem)
      then show "schar (q_buf req ! k) \<le> 32" using Nil.prems(2) by auto
    qed
  qed (use Nil in simp_all)
  then have p: "parse_headers req e (length pre) = Some req"
    using Nil by (subst parse_headers.simps) auto
  show ?case
    unfolding p by (intro exI [of _ "q_buf req"] exI [of _ "[]"] exI [of _ "q_contentlen req"]
      exI [of _ "q_chunked req"] exI [of _ "q_keepalive req"] exI [of _ "q_upgrade req"])
      (simp add: preparse_all_def hflags_def)
next
  case (Cons h hs)
  obtain n v where h: "h = (n, v)" by force
  let ?rest = "concat (map header_line hs) @ 13 # 10 # 0 # post"
  let ?na = "length pre + length w"
  let ?va = "?na + length n + 2"
  let ?b2 = "pre @ w @ n @ 0 # 32 # v @ 0 # 10 # ?rest"
  let ?r = "preparse_header (req\<lparr>q_buf := ?b2, q_headers := q_headers req @ [(?na, ?va)]\<rparr>) n v (Some ver)"
  have b: "q_buf req = pre @ w @ n @ 58 # 32 # v @ 13 # 10 # ?rest"
    using Cons.prems(1) by (simp add: h header_line_pair)
  have nv: "token n" "field_value v" using Cons.prems(3) by (auto simp: h)
  have elen: "e = ?va + length v + 2 + length (concat (map header_line hs)) + 2"
    using Cons.prems(4) by (simp add: h header_line_pair)
  have step: "parse_headers req e (length pre) = parse_headers ?r e (?va + length v)"
  proof (rule parse_headers_step [OF b Cons.prems(2) nv])
    have "length (q_buf req) = e + 1 + length post" using b elen by simp
    then show "e < length (q_buf req)" by simp
    show "length pre + length w + length n + length v + 3 < e" using elen by simp
    show "length (q_headers req) < exs_Max_Headers" using Cons.prems(5) by simp
  qed (use Cons.prems in simp_all)
  let ?pre = "pre @ w @ n @ 0 # 32 # v"
  have lp: "length ?pre = ?va + length v" by simp
  have len2: "length ?b2 = length (q_buf req)" using b by simp
  have v2: "str_at ?b2 i (length ?pre) ver"
    using Cons.prems(7) by (rule str_at_mono) (use b in simp_all)
  have ihp: "q_buf ?r = ?pre @ [0, 10] @ concat (map header_line hs) @ 13 # 10 # 0 # post"
      "\<forall>x\<in>set [0 :: byte, 10]. schar x \<le> 32" "\<forall>(n, v)\<in>set hs. token n \<and> field_value v"
      "e = length ?pre + length [0, 10 :: byte] + length (concat (map header_line hs)) + 2"
      "length (q_headers ?r) + length hs \<le> exs_Max_Headers" "q_version ?r = Some i" "str_at (q_buf ?r) i (length ?pre) ver"
    using Cons.prems elen v2 by simp_all
  obtain b' hl c k a u where ih: "parse_headers ?r e (length ?pre) =
      Some (?r\<lparr>q_contentlen := c, q_chunked := k, q_keepalive := a, q_upgrade := u,
               q_buf := b', q_headers := q_headers ?r @ hl\<rparr>)"
    "(c, k, a, u) = hflags (preparse_all ?r ver hs)"
    "length b' = length ?b2" "take (length ?pre + length [0, 10 :: byte]) b' = take (length ?pre + length [0, 10 :: byte]) ?b2"
    "list_all2 (\<lambda>(no, vo) (n, v). str_at b' no (length b') n \<and> str_at b' vo (length b') v) hl hs"
    using Cons.IH [OF ihp] by auto
  have cut: "take j b' = take j ?b2" if "j \<le> length ?pre + length [0, 10 :: byte]" for j
    using arg_cong [OF ih(4), of "take j"] that by (simp only: take_take min_absorb1)
  have n1: "str_at b' ?na (length b') n"
  proof (rule str_at_mono)
    show "str_at ?b2 ?na (?na + length n + 1) n"
      using token_cstr [OF nv(1)] by (intro str_at_list [of _ "pre @ w"]) simp_all
  qed (use cut ih(3) in simp_all)
  have v1: "str_at b' ?va (length b') v"
  proof (rule str_at_mono)
    show "str_at ?b2 ?va (?va + length v + 1) v"
      using nv(2) by (intro str_at_list [of _ "pre @ w @ n @ [0, 32]"]) (simp_all add: field_value_def)
  qed (use cut ih(3) in simp_all)
  have fl: "(c, k, a, u) = hflags (preparse_all req ver (h # hs))"
  proof -
    have "hflags ?r = hflags (preparse_header req n v (Some ver))"
      by (rule hflags_preparse) (simp add: hflags_def)
    from hflags_preparse_all [OF this, of ver hs] show ?thesis
      using ih(2) by (simp add: preparse_all_def h)
  qed
  have rc: "?r\<lparr>q_contentlen := c, q_chunked := k, q_keepalive := a, q_upgrade := u,
               q_buf := b', q_headers := q_headers ?r @ hl\<rparr> =
    req\<lparr>q_contentlen := c, q_chunked := k, q_keepalive := a, q_upgrade := u,
         q_buf := b', q_headers := q_headers req @ (?na, ?va) # hl\<rparr>"
    by (simp add: preparse_header_def Let_def)
  have p: "parse_headers req e (length pre) =
      Some (req\<lparr>q_contentlen := c, q_chunked := k, q_keepalive := a, q_upgrade := u,
         q_buf := b', q_headers := q_headers req @ (?na, ?va) # hl\<rparr>)"
    by (rule trans [OF step [unfolded lp [symmetric]] ih(1) [unfolded rc]])
  have "take (length pre + length w) b' = take (length pre + length w) (q_buf req)"
    using cut [of "length pre + length w"] b by simp
  moreover have "length b' = length (q_buf req)" using ih(3) len2 by simp
  ultimately show ?case
    using p fl ih(5) n1 v1 h
    by (intro exI [of _ b'] exI [of _ "(?na, ?va) # hl"] exI [of _ c] exI [of _ k] exI [of _ a] exI [of _ u]) simp
qed

lemma take_app: "take (length xs) (xs @ ys) = xs"
  by simp

lemma cstr_append0: "cstr (s @ 0 # r) = cstr s"
  by (induction s) (auto simp: cstr_def)

definition request_text ::
  "byte list \<Rightarrow> byte list \<Rightarrow> byte list \<Rightarrow> (byte list \<times> byte list) list \<Rightarrow> byte list" where
  \<comment> \<open>the text of a request: method, target, version and header fields\<close>
  "request_text m u ver hs = m @ 32 # u @ 32 # bytes ''HTTP/'' @ ver @ 13 # 10 # concat (map header_line hs) @ [13, 10]"

lemma skiptokenandspace_list:
  assumes "b = pre @ w @ 32 # y # r" "c = length pre" "\<forall>x\<in>set w. \<not> is_ws x" "y \<noteq> 9" "y \<noteq> 32"
    and "c + length w + 1 < e" "e \<le> length b"
  shows "xs_http_skiptokenandspace b e c = Some (c + length w + 1)"
proof -
  have "skip_while (\<lambda>x. \<not> (x = 9 \<or> x = 32 \<or> x = 13 \<or> x = 10)) b e c = Some (c + length w)"
    using assms by (intro skip_while_list [of b pre w 32 "y # r"]) auto
  moreover have "skip_while (\<lambda>x. x = 9 \<or> x = 32) b e (c + length w) = Some (c + length w + length [32 :: byte])"
    using assms by (intro skip_while_list [of b "pre @ w" "[32]" y r]) auto
  ultimately show ?thesis by (simp add: xs_http_skiptokenandspace_def)
qed

lemma memeq_at_list: "b = pre @ s @ r \<Longrightarrow> i = length pre \<Longrightarrow> memeq_at b i s = Some True"
proof (induction s arbitrary: pre i)
  case (Cons x s)
  have "memeq_at b (Suc i) s = Some True"
    using Cons.prems by (intro Cons.IH [of "pre @ [x]"]) auto
  then show ?case using Cons.prems by (simp add: rd_def nth_append)
qed simp

lemma cut_at_None:
  "b = pre @ s @ 0 # r \<Longrightarrow> i = length pre \<Longrightarrow> is_cstr s \<Longrightarrow> c \<notin> set s \<Longrightarrow> cut_at b i ulen c = Some (b, None, ulen)"
  using cstr_at_list [of b pre s r i] strchr_from_None_iff [of s 0 c] by (simp add: cut_at_def)

lemma split_uri_list:
  assumes "q_buf req = pre @ u @ 32 # post" "q_uri req = Some (length pre)" "\<forall>x\<in>set u. \<not> is_ws x"
    and "is_cstr u" "35 \<notin> set u" "63 \<notin> set u" "u \<noteq> []" "pct_ok 0 u"
  shows "\<exists>rest. length rest + length (pct_decode 0 u) = length u \<and>
    split_uri req = Some (req\<lparr>q_buf := pre @ pct_decode 0 u @ 0 # rest @ post, q_hash := None, q_query := None\<rparr>)"
proof -
  let ?b = "pre @ u @ 0 # post"
  have t: "xs_http_terminatetoken (q_buf req) (Some (length pre)) = Some (?b, length u + 1)"
    using assms by (intro terminatetoken_list) auto
  have c: "cut_at ?b (length pre) n 35 = Some (?b, None, n)" "cut_at ?b (length pre) n 63 = Some (?b, None, n)" for n
    using assms by (auto intro!: cut_at_None [of _ pre u])
  obtain rest where rest: "length rest + length (pct_decode 0 u) = length u"
    "xs_uri_decode ?b (length pre) (int (length u) + 1) (length pre) (int (length u) + 1) False =
      Some (pre @ pct_decode 0 u @ 0 # rest @ post, 0)"
    using xs_uri_decode_in_place [of u False pre post] assms by (auto simp: plus_char_def)
  show ?thesis
    using assms(2) t c rest by (intro exI [of _ rest]) (simp add: split_uri_def decode_part_def add.commute)
qed

lemma valid_method_token: "xs_http_validmethod m \<Longrightarrow> token m \<and> m \<noteq> []"
  by (auto simp: xs_http_validmethod_def token_def)

lemma parse_request_text:
  assumes m: "xs_http_validmethod m"
    and u: "token u" "u \<noteq> []" "hd u = 47" "35 \<notin> set u" "63 \<notin> set u" "pct_ok 0 u"
    and ver: "token ver"
    and hs: "\<forall>(n, v)\<in>set hs. token n \<and> field_value v" "length hs \<le> exs_Max_Headers"
    and room: "length (request_text m u ver hs) < length (q_buf req0)"
  shows "\<exists>r. xs_http_parse req0 (request_text m u ver hs) (length (request_text m u ver hs)) = Some (r, 0) \<and>
    xs_http_get (Some r) exs_Req_Method = Some m \<and> xs_http_get (Some r) exs_Req_URI = Some (cstr (pct_decode 0 u)) \<and>
    xs_http_get (Some r) exs_Req_Version = Some ver \<and> xs_http_get (Some r) exs_Req_Query = None \<and>
    map (\<lambda>h. (hdr_name r h, hdr_value r h)) (q_headers r) = hs \<and> q_consumed r = 0 \<and>
    hflags r = hflags (preparse_all (xs_req_clear req0) ver hs)"
proof -
  let ?H = "concat (map header_line hs)"
  let ?t = "request_text m u ver hs"
  let ?req = "(xs_req_clear req0)\<lparr>q_status := None, q_hash := None, q_query := None\<rparr>"
  define e where "e = length ?t"
  obtain post where post: "drop e (q_buf req0) = hd (drop e (q_buf req0)) # post"
    using room by (metis Cons_nth_drop_Suc e_def list.sel(1))
  define b where "b = ?t @ 0 # post"
  have mt: "token m" "m \<noteq> []" using valid_method_token [OF m] by simp_all
  have nows: "\<forall>x\<in>set s. \<not> is_ws x" if "token s" for s using tokenD [OF that] by blast
  obtain y r where yr: "?t = y # r" "y \<noteq> 9" "y \<noteq> 32"
    using mt tokenD [OF mt(1)] by (cases m) (auto simp: request_text_def)
  have 1: "xs_http_skipspace ?t e 0 = Some 0"
    unfolding xs_http_skipspace_def
    using skip_while_list [of ?t "[]" "[]" y r 0 "\<lambda>x. x = 9 \<or> x = 32" e] yr by (simp add: e_def)
  have qb: "q_buf (xs_req_clear req0) = q_buf req0" by (simp add: xs_req_clear_def)
  have 2: "blit (q_buf (xs_req_clear req0)) 0 ?t = Some (?t @ hd (drop e (q_buf req0)) # post)"
    using room post qb by (simp add: blit_def e_def)
  have 3: "wr (?t @ hd (drop e (q_buf req0)) # post) e 0 = Some b"
    by (simp add: wr_def b_def e_def list_update_append)
  obtain u' where u': "u = 47 # u'" using u by (cases u) auto
  let ?pu = "m @ [32]" and ?pv = "m @ 32 # u @ [32]"
  have b1: "b = m @ 32 # u @ 32 # bytes ''HTTP/'' @ ver @ 13 # 10 # ?H @ 13 # 10 # 0 # post"
    by (simp add: b_def request_text_def)
  have el: "e \<le> length b" "e = length m + length u + length ver + length ?H + 11"
    by (simp_all add: b_def e_def request_text_def)
  have 4: "xs_http_skiptokenandspace b e 0 = Some (length ?pu)"
    using skiptokenandspace_list [of b "[]" m 47 _ 0 e] nows [OF mt(1)] b1 u' el by simp
  have 5: "xs_http_skiptokenandspace b e (length ?pu) = Some (length ?pv)"
    using skiptokenandspace_list [of b ?pu u 72 _ "length ?pu" e] nows [OF u(1)] b1 el by simp
  have 6: "xs_http_skiptoEOL b e (length ?pv) = Some (length ?pv + length (bytes ''HTTP/'' @ ver))"
  proof (rule skiptoEOL_list)
    show "b = ?pv @ (bytes ''HTTP/'' @ ver) @ 13 # 10 # ?H @ 13 # 10 # 0 # post" using b1 by simp
    show "13 \<notin> set (bytes ''HTTP/'' @ ver)" "10 \<notin> set (bytes ''HTTP/'' @ ver)" using tokenD [OF ver] by auto
    show "Suc (length ?pv + length (bytes ''HTTP/'' @ ver)) < e" using el by simp
  qed (use el in simp_all)
  have 7: "memeq_at b (length ?pv) (bytes ''HTTP/'') = Some True"
    using memeq_at_list [of b ?pv "bytes ''HTTP/''"] b1 by simp
  let ?b1 = "m @ 0 # u @ 32 # bytes ''HTTP/'' @ ver @ 13 # 10 # ?H @ 13 # 10 # 0 # post"
  have 8: "xs_http_terminatetoken b (Some 0) = Some (?b1, length m + 1)"
    using terminatetoken_list [of b "[]" m 32] nows [OF mt(1)] b1 by simp
  have 9: "cstr_at ?b1 0 = Some m" using cstr_at_list [of ?b1 "[]" m] token_cstr [OF mt(1)] by simp
  have 10: "rd ?b1 (length ?pu) = Some 47" using u' by (simp add: rd_def nth_append)
  let ?r1 = "?req\<lparr>q_buf := ?b1, q_method := Some 0, q_uri := Some (length ?pu), q_version := Some (length ?pv + 5)\<rparr>"
  have line: "request_line ?req b 0 (length ?pu) (length ?pv) = Some (?r1, 0)"
    using 7 8 9 10 m unfolding request_line_def by (simp del: bytes_simps)
  let ?b2 = "m @ 0 # u @ 32 # bytes ''HTTP/'' @ ver @ 0 # 10 # ?H @ 13 # 10 # 0 # post"
  have 11: "xs_http_terminatetoken ?b1 (Some (length ?pv + 5)) = Some (?b2, length ver + 1)"
  proof -
    let ?p = "m @ 0 # u @ 32 # bytes ''HTTP/''" and ?rr = "10 # ?H @ 13 # 10 # 0 # post"
    have e1: "?b1 = ?p @ ver @ 13 # ?rr" and e2: "?b2 = ?p @ ver @ 0 # ?rr" and l: "length ?pv + 5 = length ?p"
      by simp_all
    have "is_ws 13" by simp
    from terminatetoken_list [OF e1 l nows [OF ver] this] show ?thesis by (simp only: e2)
  qed
  obtain rest where rest: "length rest + length (pct_decode 0 u) = length u"
    "split_uri (?r1\<lparr>q_buf := ?b2\<rparr>) = Some (?r1\<lparr>q_buf := m @ 0 # pct_decode 0 u @ 0 # rest @ bytes ''HTTP/'' @ ver @ 0 # 10 # ?H @ 13 # 10 # 0 # post,
        q_hash := None, q_query := None\<rparr>)"
    using split_uri_list [of "?r1\<lparr>q_buf := ?b2\<rparr>" "m @ [0]" u "bytes ''HTTP/'' @ ver @ 0 # 10 # ?H @ 13 # 10 # 0 # post"]
      nows [OF u(1)] token_cstr [OF u(1)] u by auto
  let ?pre = "m @ 0 # pct_decode 0 u @ 0 # rest @ bytes ''HTTP/'' @ ver @ [0]"
  let ?r2 = "?r1\<lparr>q_buf := ?pre @ [10] @ ?H @ 13 # 10 # 0 # post, q_hash := None, q_query := None\<rparr>"
  have r2: "split_uri (?r1\<lparr>q_buf := ?b2\<rparr>) = Some ?r2" using rest(2) by simp
  have pl: "length ?pre = length ?pv + length (bytes ''HTTP/'' @ ver) + 1" using rest(1) by simp
  have vs: "str_at (q_buf ?r2) (length ?pv + 5) (length ?pre) ver"
    using rest(1) token_cstr [OF ver]
    by (intro str_at_list [of _ "m @ 0 # pct_decode 0 u @ 0 # rest @ bytes ''HTTP/''"]) simp_all
  have hp: "q_buf ?r2 = ?pre @ [10] @ ?H @ 13 # 10 # 0 # post" "\<forall>x\<in>set [10 :: byte]. schar x \<le> 32"
    "e = length ?pre + length [10 :: byte] + length ?H + 2"
    "length (q_headers ?r2) + length hs \<le> exs_Max_Headers" "q_version ?r2 = Some (length ?pv + 5)"
    using rest(1) el hs by (simp_all add: xs_req_clear_def)
  obtain b3 hl c k a n where p: "parse_headers ?r2 e (length ?pre) =
      Some (?r2\<lparr>q_contentlen := c, q_chunked := k, q_keepalive := a, q_upgrade := n,
                q_buf := b3, q_headers := q_headers ?r2 @ hl\<rparr>)"
    "(c, k, a, n) = hflags (preparse_all ?r2 ver hs)"
    "length b3 = length (q_buf ?r2)" "take (length ?pre + length [10 :: byte]) b3 = take (length ?pre + length [10 :: byte]) (q_buf ?r2)"
    "list_all2 (\<lambda>(no, vo) (n, v). str_at b3 no (length b3) n \<and> str_at b3 vo (length b3) v) hl hs"
    using parse_headers_print [OF hp(1,2) hs(1) hp(3-5) vs] by auto
  let ?r = "?r2\<lparr>q_contentlen := c, q_chunked := k, q_keepalive := a, q_upgrade := n, q_buf := b3, q_headers := hl\<rparr>"
  have res: "xs_http_parse req0 ?t (length ?t) = Some (?r, 0)"
  proof -
    have "0 < e" using el by simp
    moreover have "rds ?t 0 e = Some ?t" by (simp add: rds_def e_def)
    ultimately have "xs_http_parse req0 ?t e = xs_http_parseheaders ?r2 (length ?pv + length (bytes ''HTTP/'' @ ver) + 1) e"
      unfolding xs_http_parse_def 1 bind.bind_lunit Let_def
      using 2 3 4 5 6 line 11 r2
      by (simp add: xs_http_terminatetoken_def [of _ None] del: bytes_simps length_append split del: if_split)
    then show ?thesis
      using p(1) unfolding pl [symmetric] by (simp add: xs_http_parseheaders_def e_def xs_req_clear_def)
  qed
  have str: "cstr (drop i b3) = s" if "str_at (q_buf ?r2) i (length ?pre) s" for i s
  proof -
    have "take (length ?pre) b3 = take (length ?pre) (q_buf ?r2)"
      using arg_cong [OF p(4), of "take (length ?pre)"] by (simp only: take_take min_absorb1 le_add1)
    then have "str_at b3 i (length ?pre) s" using str_at_mono [OF that] p(3) by simp
    then show ?thesis by (rule str_at_cstr)
  qed
  have "str_at (q_buf ?r2) 0 (length ?pre) m"
    using token_cstr [OF mt(1)] by (intro str_at_list [of _ "[]"]) simp_all
  from str [OF this] have "cstr b3 = m" by simp
  moreover note str [OF vs]
  moreover have "cstr (drop (length ?pu) b3) = cstr (pct_decode 0 u)"
  proof -
    have "take (length ?pre) (q_buf ?r2) = ?pre" by (subst hp(1)) (rule take_app)
    then have "take (length ?pre) b3 = ?pre"
      using arg_cong [OF p(4), of "take (length ?pre)"] by (simp only: take_take min_absorb1 le_add1)
    then have "b3 = ?pre @ drop (length ?pre) b3" by (metis append_take_drop_id)
    then have "drop (length ?pu) b3 = drop (length ?pu) (?pre @ drop (length ?pre) b3)" by (rule arg_cong)
    also have "\<dots> = pct_decode 0 u @ 0 # rest @ bytes ''HTTP/'' @ ver @ [0] @ drop (length ?pre) b3" by simp
    finally show ?thesis by (simp add: cstr_append0)
  qed
  moreover have "map (\<lambda>h. (hdr_name ?r h, hdr_value ?r h)) hl = hs"
    using p(5)
  proof (induction rule: list_all2_induct)
    case (Cons x xs y ys)
    then show ?case by (auto simp: hdr_name_def hdr_value_def split: prod.splits dest: str_at_cstr)
  qed simp
  moreover have "hflags ?r = hflags (preparse_all (xs_req_clear req0) ver hs)"
  proof -
    have "hflags ?r2 = hflags (xs_req_clear req0)" by (simp add: hflags_def)
    from hflags_preparse_all [OF this, of ver hs] show ?thesis using p(2) by (simp add: hflags_def)
  qed
  ultimately show ?thesis
    using res by (intro exI [of _ ?r]) (simp add: req_str_def xs_req_clear_def)
qed

text \<open>C2: parsing inverts printing. A request made of a known method, a target that starts with a
  slash (no query, no fragment, well-formed escapes), a version and at most 64 header fields is
  parsed by \<open>xs_http_parse\<close> into exactly those parts: the accessors give the method, the decoded
  target and the version; the header table holds the fields in order; the content length, the
  chunked, keep-alive and upgrade flags are those of the fields read in order; the return code is 0.\<close>

theorem xs_http_parse_request_text:
  assumes m: "xs_http_validmethod m"
    and u: "token u" "u \<noteq> []" "hd u = 47" "35 \<notin> set u" "63 \<notin> set u" "pct_ok 0 u"
    and ver: "token ver"
    and hs: "\<forall>(n, v)\<in>set hs. token n \<and> field_value v" "length hs \<le> exs_Max_Headers"
    and room: "length (request_text m u ver hs) < length (q_buf req0)"
  shows "\<exists>r. xs_http_parse req0 (request_text m u ver hs) (length (request_text m u ver hs)) = Some (r, 0) \<and>
    xs_http_get (Some r) exs_Req_Method = Some m \<and> xs_http_get (Some r) exs_Req_URI = Some (cstr (pct_decode 0 u)) \<and>
    xs_http_get (Some r) exs_Req_Version = Some ver \<and> xs_http_get (Some r) exs_Req_Query = None \<and>
    map (\<lambda>h. (hdr_name r h, hdr_value r h)) (q_headers r) = hs \<and> q_consumed r = 0 \<and>
    hflags r = hflags (preparse_all (xs_req_clear req0) ver hs)"
  using parse_request_text [OF assms] .

definition empty_req :: "nat \<Rightarrow> xs_httpreq" where
  \<comment> \<open>a fresh request object with room for \<open>n\<close> bytes of text (\<open>calloc\<close>)\<close>
  "empty_req n = \<lparr>q_statuscode = 0, q_chunked = False, q_keepalive = False, q_upgrade = 0, q_opcode = 0,
     q_done = False, q_header = False, q_reqlen = 0, q_datamask = [0, 0, 0, 0], q_contentlen = 0,
     q_counter = 0, q_consumed = 0, q_uri = None, q_method = None, q_version = None, q_status = None,
     q_hash = None, q_query = None, q_buf = replicate n 0, q_path = None, q_headers = []\<rparr>"

theorem xs_http_parse_request_text_witness:
  "\<exists>r. xs_http_parse (empty_req 64)
      (request_text (bytes ''GET'') (bytes ''/a%20b'') (bytes ''1.1'') [(bytes ''Host'', bytes ''x'')])
      (length (request_text (bytes ''GET'') (bytes ''/a%20b'') (bytes ''1.1'') [(bytes ''Host'', bytes ''x'')])) = Some (r, 0) \<and>
    xs_http_get (Some r) exs_Req_URI = Some (bytes ''/a b'')"
  using xs_http_parse_request_text [of "bytes ''GET''" "bytes ''/a%20b''" "bytes ''1.1''" "[(bytes ''Host'', bytes ''x'')]"
      "empty_req 64"]
  by (auto simp: empty_req_def xs_http_validmethod_def token_def field_value_def xs_fromhex_def request_text_def header_line_def cstr_def)


subsection \<open>Further properties of the parser\<close>

lemma preparse_all_keepalive:
  assumes "hs \<noteq> []" "xs_strcmp_case (Some ver) (Some (bytes ''1.1'')) = 0"
  shows "q_keepalive (preparse_all r ver hs)"
proof -
  have one: "q_keepalive (preparse_header r n v (Some ver))" for r n v
    using assms(2) by (simp add: preparse_header_def Let_def)
  have keep: "q_keepalive r \<Longrightarrow> q_keepalive (preparse_all r ver hs)" for r hs
    by (induction hs arbitrary: r) (auto simp: preparse_all_def one)
  obtain h t where "hs = h # t" using assms(1) by (cases hs) auto
  then show ?thesis using keep [OF one] by (cases h) (simp add: preparse_all_def)
qed

text \<open>Under HTTP/1.1 the keep-alive flag cannot be cleared: a request with at least one header
  field, \<open>Connection: close\<close> included, is parsed with \<open>keepalive\<close> set, because the 1.1 default is
  applied again for every field that is not \<open>Connection: keep-alive\<close>.\<close>

theorem xs_http_parse_keepalive_11:
  assumes "xs_http_validmethod m" "token u" "u \<noteq> []" "hd u = 47" "35 \<notin> set u" "63 \<notin> set u" "pct_ok 0 u"
    and "\<forall>(n, v)\<in>set hs. token n \<and> field_value v" "length hs \<le> exs_Max_Headers" "hs \<noteq> []"
    and "length (request_text m u (bytes ''1.1'') hs) < length (q_buf req0)"
  shows "\<exists>r. xs_http_parse req0 (request_text m u (bytes ''1.1'') hs) (length (request_text m u (bytes ''1.1'') hs)) =
      Some (r, 0) \<and> xs_http_getint (Some r) exs_Req_KeepAlive = 1"
proof -
  have tok: "token (bytes ''1.1'')" by (simp add: token_def)
  have "xs_strcmp_case (Some (bytes ''1.1'')) (Some (bytes ''1.1'')) = 0"
    by (simp add: xs_strcmp_case_def xs_strncmp_case_def)
  with assms(10) have "q_keepalive (preparse_all (xs_req_clear req0) (bytes ''1.1'') hs)"
    by (rule preparse_all_keepalive)
  moreover obtain r where "xs_http_parse req0 (request_text m u (bytes ''1.1'') hs)
      (length (request_text m u (bytes ''1.1'') hs)) = Some (r, 0)"
    "hflags r = hflags (preparse_all (xs_req_clear req0) (bytes ''1.1'') hs)"
    using parse_request_text [OF assms(1-7) tok assms(8,9,11)] by blast
  ultimately show ?thesis by (intro exI [of _ r]) (simp add: hflags_def)
qed

theorem xs_http_parse_keepalive_11_witness:
  "\<exists>r. xs_http_parse (empty_req 64) (request_text (bytes ''GET'') (bytes ''/'') (bytes ''1.1'') [(bytes ''Connection'', bytes ''close'')])
      (length (request_text (bytes ''GET'') (bytes ''/'') (bytes ''1.1'') [(bytes ''Connection'', bytes ''close'')])) = Some (r, 0) \<and>
    xs_http_getint (Some r) exs_Req_KeepAlive = 1"
  using xs_http_parse_keepalive_11 [of "bytes ''GET''" "bytes ''/''" "[(bytes ''Connection'', bytes ''close'')]" "empty_req 64"]
  by (simp add: empty_req_def xs_http_validmethod_def token_def field_value_def request_text_def header_line_def)

text \<open>A target with a query is not decoded. When the target has a question mark, \<open>split_uri\<close> cuts
  it there and decodes the query, but the length it then passes for the path is negative, so the path
  keeps its percent escapes.\<close>

theorem split_uri_query_keeps_path:
  assumes "q_buf req = pre @ p @ 63 # q @ 32 # post" "q_uri req = Some (length pre)"
    and "token p" "token q" "35 \<notin> set p" "35 \<notin> set q" "63 \<notin> set p" "q \<noteq> []" "pct_ok 0 q"
  shows "\<exists>r. split_uri req = Some r \<and> xs_http_get (Some r) exs_Req_URI = Some p \<and>
    xs_http_get (Some r) exs_Req_Query = Some (cstr (pct_decode 0 q))"
proof -
  let ?b0 = "pre @ (p @ 63 # q) @ 0 # post" and ?b2 = "pre @ p @ 0 # q @ 0 # post"
  let ?u = "length pre" and ?qi = "length pre + length p + 1"
  have nows: "\<forall>x\<in>set (p @ 63 # q). \<not> is_ws x" and c0: "is_cstr (p @ 63 # q)"
    using tokenD [OF assms(3)] tokenD [OF assms(4)] by auto
  have t: "xs_http_terminatetoken (q_buf req) (Some ?u) = Some (?b0, length (p @ 63 # q) + 1)"
    using nows assms(1) by (intro terminatetoken_list [of _ _ _ 32]) auto
  have c1: "cut_at ?b0 ?u n 35 = Some (?b0, None, n)" for n
    using c0 assms(5,6) by (intro cut_at_None [of _ pre "p @ 63 # q"]) auto
  have "cstr_at ?b0 ?u = Some (p @ 63 # q)" using c0 by (intro cstr_at_list) auto
  then have c2: "cut_at ?b0 ?u n 63 = Some (?b2, Some ?qi, - int (length p + 1))" for n
    using strchr_from_first [OF assms(7), of q] by (simp add: cut_at_def wr_def list_update_append)
  have d: "xs_uri_decode ?b2 ?u (- int (length p + 1)) ?u (- int (length p + 1)) False = Some (?b2, - 50)"
    by (simp add: xs_uri_decode_def)
  have qs: "cstr_at ?b2 ?qi = Some q"
    using token_cstr [OF assms(4)] by (intro cstr_at_list [of _ "pre @ p @ [0]"]) auto
  obtain rest where r: "xs_uri_decode ?b2 ?qi (int (length q) + 1) ?qi (int (length q) + 1) False =
      Some ((pre @ p @ [0]) @ pct_decode 0 q @ 0 # rest @ post, 0)"
    using xs_uri_decode_in_place [of q False "pre @ p @ [0]" post] token_cstr [OF assms(4)] assms(8,9)
    by (auto simp: plus_char_def)
  have "split_uri req = Some (req\<lparr>q_buf := pre @ p @ 0 # pct_decode 0 q @ 0 # rest @ post,
      q_hash := None, q_query := Some ?qi\<rparr>)"
    using assms(2) t c1 c2 d qs r by (simp add: split_uri_def decode_part_def)
  moreover have "cstr (drop ?qi (pre @ p @ 0 # pct_decode 0 q @ 0 # rest @ post)) = cstr (pct_decode 0 q)"
    by (simp add: cstr_append0)
  ultimately show ?thesis
    using token_cstr [OF assms(3)] assms(2) by (simp add: req_str_def cstr_terminated)
qed

theorem split_uri_query_keeps_path_witness:
  "\<exists>r. split_uri ((empty_req 0)\<lparr>q_buf := bytes ''/a%20b?c%20d '', q_uri := Some 0\<rparr>) = Some r \<and>
    xs_http_get (Some r) exs_Req_URI = Some (bytes ''/a%20b'') \<and> xs_http_get (Some r) exs_Req_Query = Some (bytes ''c d'')"
  using split_uri_query_keeps_path [of "(empty_req 0)\<lparr>q_buf := bytes ''/a%20b?c%20d '', q_uri := Some 0\<rparr>" "[]"
      "bytes ''/a%20b''" "bytes ''c%20d''" "[]"]
  by (simp add: token_def xs_fromhex_def cstr_def)

subsection \<open>Chunk headers\<close>

definition hex_digit :: "byte \<Rightarrow> bool" where
  "hex_digit c \<longleftrightarrow> 0 \<le> xs_fromhex c"

definition hex_value :: "int \<Rightarrow> byte list \<Rightarrow> int" where
  "hex_value v ds = foldl (\<lambda>v c. v * 16 + xs_fromhex c) v ds"

lemma xs_fromhex_range: "hex_digit c \<Longrightarrow> 0 \<le> xs_fromhex c \<and> xs_fromhex c < 16 \<and> c \<noteq> 13 \<and> c \<noteq> 10"
  by (auto simp: hex_digit_def xs_fromhex_def split: if_splits)

lemma hex_value_mono: "0 \<le> v \<Longrightarrow> \<forall>c\<in>set ds. hex_digit c \<Longrightarrow> v \<le> hex_value v ds"
proof (induction ds arbitrary: v)
  case (Cons c ds)
  then have "v * 16 + xs_fromhex c \<le> hex_value (v * 16 + xs_fromhex c) ds" "0 \<le> xs_fromhex c"
    using xs_fromhex_range [of c] by auto
  then show ?case using Cons.prems(1) by (simp add: hex_value_def)
qed (simp add: hex_value_def)

lemma chunk_scan_digits:
  assumes "\<forall>c\<in>set ds. hex_digit c" "0 \<le> v" "hex_value v ds < 2 ^ 31" "b = pre @ ds @ 13 # 10 # r" "g \<le> 1"
    and "g = 1 \<or> ds \<noteq> []" "length pre + length ds + 2 \<le> n" "n \<le> length b"
  shows "chunk_scan b n (length pre) v g =
    Some (hex_value v ds, Some (length pre + length ds + 2 + (if hex_value v ds \<noteq> 0 then 0 else 2)))"
  using assms
proof (induction ds arbitrary: pre v g)
  case Nil
  then have "rd b (length pre) = Some 13" "rd b (Suc (length pre)) = Some 10" by (auto simp: rd_def nth_append)
  then show ?case using Nil by (subst chunk_scan.simps) (simp add: hex_value_def)
next
  case (Cons c ds)
  let ?v = "v * 16 + xs_fromhex c"
  have c: "0 \<le> xs_fromhex c" "c \<noteq> 13" using Cons.prems(1) xs_fromhex_range [of c] by auto
  have hv: "hex_value v (c # ds) = hex_value ?v ds" by (simp add: hex_value_def)
  have "?v \<le> hex_value ?v ds" using hex_value_mono [of ?v ds] Cons.prems(1,2) c by simp
  then have i: "int32 ?v = ?v" using Cons.prems(2,3) c hv by (intro int32_id) auto
  have "b = (pre @ [c]) @ ds @ 13 # 10 # r" using Cons.prems(4) by simp
  from Cons.IH [OF _ _ _ this, of ?v 1] have ih: "chunk_scan b n (Suc (length pre)) ?v 1 =
    Some (hex_value ?v ds, Some (Suc (length pre) + length ds + 2 + (if hex_value ?v ds \<noteq> 0 then 0 else 2)))"
    using Cons.prems c hv by simp
  have "rd b (length pre) = Some c" "\<exists>y. rd b (Suc (length pre)) = Some y"
    using Cons.prems(4) by (auto simp: rd_def nth_append)
  then show ?case using Cons.prems c i ih hv by (subst chunk_scan.simps) auto
qed

lemma chunk_scan_skip:
  assumes "\<forall>c\<in>set ws. \<not> hex_digit c" "b = pre @ ws @ r" "length pre + length ws < n" "n \<le> length b"
  shows "chunk_scan b n (length pre) 0 0 = chunk_scan b n (length pre + length ws) 0 0"
  using assms
proof (induction ws arbitrary: pre)
  case (Cons w ws)
  have "b = (pre @ [w]) @ ws @ r" using Cons.prems(2) by simp
  from Cons.IH [OF _ this] have "chunk_scan b n (Suc (length pre)) 0 0 = chunk_scan b n (Suc (length pre) + length ws) 0 0"
    using Cons.prems by simp
  moreover have "rd b (length pre) = Some w" using Cons.prems(2) by (simp add: rd_def nth_append)
  moreover have "\<exists>y. rd b (Suc (length pre)) = Some y" using Cons.prems(3,4) by (auto simp: rd_def)
  ultimately show ?case using Cons.prems by (subst chunk_scan.simps) (auto simp: hex_digit_def)
qed simp

lemma scan_chunk_value:
  assumes "\<forall>c\<in>set ws. \<not> hex_digit c" "\<forall>c\<in>set ds. hex_digit c" "ds \<noteq> []" "hex_value 0 ds < 2 ^ 31"
    and "length ws + length ds + 2 \<le> n" "n \<le> length (ws @ ds @ 13 # 10 # r)"
  shows "xs_scan_chunk (pre @ ws @ ds @ 13 # 10 # r) (length pre) n =
    Some (hex_value 0 ds, Some (length pre + length ws + length ds + 2 + (if hex_value 0 ds \<noteq> 0 then 0 else 2)))"
proof -
  let ?b = "pre @ ws @ ds @ 13 # 10 # r"
  have "chunk_scan ?b (length pre + n) (length pre) 0 0 = chunk_scan ?b (length pre + n) (length pre + length ws) 0 0"
    using assms by (intro chunk_scan_skip [of ws _ _ "ds @ 13 # 10 # r"]) auto
  also have "\<dots> = Some (hex_value 0 ds, Some (length (pre @ ws) + length ds + 2 + (if hex_value 0 ds \<noteq> 0 then 0 else 2)))"
    using chunk_scan_digits [of ds 0 ?b "pre @ ws" r 0 "length pre + n"] assms by simp
  finally show ?thesis by (simp add: xs_scan_chunk_def)
qed

text \<open>Chunk sizes. After any bytes that are not hex digits (the line end of the previous chunk), a
  chunk header of hex digits and a line end is read as the value of its digits, when that fits an
  \<open>int\<close>, and the position returned is the first byte of the chunk data; for the last chunk (size 0)
  the position is also past the empty line that must follow.\<close>

theorem xs_scan_chunk_value:
  assumes "\<forall>c\<in>set ws. \<not> hex_digit c" "\<forall>c\<in>set ds. hex_digit c" "ds \<noteq> []" "hex_value 0 ds < 2 ^ 31"
    and "length ws + length ds + 2 \<le> n" "n \<le> length (ws @ ds @ 13 # 10 # r)"
  shows "xs_scan_chunk (pre @ ws @ ds @ 13 # 10 # r) (length pre) n =
    Some (hex_value 0 ds, Some (length pre + length ws + length ds + 2 + (if hex_value 0 ds \<noteq> 0 then 0 else 2)))"
  by (rule scan_chunk_value [OF assms])

theorem xs_scan_chunk_value_witness:
  "xs_scan_chunk ([13, 10] @ bytes ''1A'' @ 13 # 10 # bytes ''data'') 0 10 = Some (26, Some 6)"
  using xs_scan_chunk_value [of "[13, 10]" "bytes ''1A''" 10 "bytes ''data''" "[]"]
  by (simp add: hex_digit_def xs_fromhex_def hex_value_def)

end
