(* ===== verification/Pipe.thy ===== *)
theory Pipe
  imports Prelude
begin

text \<open>
  The contract of a component that passes data on in order. A state holds pending data; an
  operation takes data in and gives data out. The law says that what comes out, followed by what
  is then pending, is what was pending followed by what went in. Over any sequence of operations
  nothing is lost, invented, duplicated or reordered. The write cache of a connection, its read
  buffer and the work queue are interpretations.
\<close>

primrec pipe_run :: "('op \<Rightarrow> 's \<Rightarrow> 's option) \<Rightarrow> 'op list \<Rightarrow> 's \<Rightarrow> 's option" where
  "pipe_run step [] s = Some s"
| "pipe_run step (x # xs) s = do { s1 \<leftarrow> step x s; pipe_run step xs s1 }"

primrec pipe_flow :: "('op \<Rightarrow> 's \<Rightarrow> 's option) \<Rightarrow> ('op \<Rightarrow> 's \<Rightarrow> 'a list) \<Rightarrow> 'op list \<Rightarrow> 's \<Rightarrow> 'a list" where
  \<comment> \<open>the data that flows at each operation of a run, in order\<close>
  "pipe_flow step f [] s = []"
| "pipe_flow step f (x # xs) s =
     (case step x s of None \<Rightarrow> [] | Some s1 \<Rightarrow> f x s @ pipe_flow step f xs s1)"

lemma pipe_flow_nil [simp]: "pipe_flow step (\<lambda>_ _. []) xs s = []"
  by (induction xs arbitrary: s) (auto split: option.splits)

locale pipe =
  fixes inv :: "'s \<Rightarrow> bool"
    and pending :: "'s \<Rightarrow> 'a list"
    and step :: "'op \<Rightarrow> 's \<Rightarrow> 's option"
    and taken :: "'op \<Rightarrow> 's \<Rightarrow> 'a list"
    and given :: "'op \<Rightarrow> 's \<Rightarrow> 'a list"
  assumes inv_step: "inv s \<Longrightarrow> step x s = Some s' \<Longrightarrow> inv s'"
    and flow_step: "inv s \<Longrightarrow> step x s = Some s' \<Longrightarrow> given x s @ pending s' = pending s @ taken x s"
begin

lemma run_inv: "inv s \<Longrightarrow> pipe_run step xs s = Some s' \<Longrightarrow> inv s'"
  by (induction xs arbitrary: s) (auto simp: bind_eq_Some_conv dest: inv_step)

lemma run_flow:
  "inv s \<Longrightarrow> pipe_run step xs s = Some s' \<Longrightarrow>
   pipe_flow step given xs s @ pending s' = pending s @ pipe_flow step taken xs s"
proof (induction xs arbitrary: s)
  case (Cons x xs)
  then obtain s1 where s1: "step x s = Some s1" "pipe_run step xs s1 = Some s'"
    by (auto simp: bind_eq_Some_conv)
  have i: "inv s1" using Cons.prems(1) s1(1) by (rule inv_step)
  have "pipe_flow step given xs s1 @ pending s' = pending s1 @ pipe_flow step taken xs s1"
    using i s1(2) by (rule Cons.IH)
  moreover have "given x s @ pending s1 = pending s @ taken x s"
    using Cons.prems(1) s1(1) by (rule flow_step)
  ultimately have "(given x s @ pipe_flow step given xs s1) @ pending s' =
      pending s @ taken x s @ pipe_flow step taken xs s1"
    by (metis append_assoc)
  then show ?case using s1 by simp
qed simp

lemma run_drained:
  "inv s \<Longrightarrow> pending s = [] \<Longrightarrow> pipe_run step xs s = Some s' \<Longrightarrow> pending s' = [] \<Longrightarrow>
   pipe_flow step given xs s = pipe_flow step taken xs s"
  using run_flow by fastforce

end

end
