(* ===== verification/Conn.thy ===== *)
theory Conn
  imports Http Arrays Pipe
begin

text \<open>
  The connection object of \<open>xs/xs_connection.h\<close> and its write side: reference counting, closing,
  and the write cache that holds what a non-blocking socket has not taken yet.

  The record has the fields of the C struct that these operations use, and the environment of the
  connection: what \<open>recv\<close>, \<open>send\<close> and the poll for writability will answer next (an exhausted list
  stands for a socket with nothing to read and room to write), and the bytes handed to the socket so
  far. The plain-socket build is modelled; \<open>SSL\<close> replaces the two socket calls only. The request
  list \<open>c_req\<close> has \<open>conn->req\<close> at its head and \<open>conn->lastreq\<close> at its end.
\<close>

abbreviation exs_Conn_Error :: int where "exs_Conn_Error \<equiv> - 1"
abbreviation exs_Conn_Close :: int where "exs_Conn_Close \<equiv> 1003"
abbreviation exs_Error_InvalidRequest :: int where "exs_Error_InvalidRequest \<equiv> - 20000"
abbreviation exs_Error_HeaderTooLarge :: int where "exs_Error_HeaderTooLarge \<equiv> - 20001"
abbreviation exs_Error_OutOfMemory :: int where "exs_Error_OutOfMemory \<equiv> - 20002"
abbreviation exs_Error_WriteBusy :: int where "exs_Error_WriteBusy \<equiv> - 20005"
abbreviation exs_Error_BadRedirect :: int where "exs_Error_BadRedirect \<equiv> - 20006"
abbreviation exs_Error_WS_BadOpcode :: int where "exs_Error_WS_BadOpcode \<equiv> - 20008"
abbreviation exs_Error_WS_BadContinue :: int where "exs_Error_WS_BadContinue \<equiv> - 20009"
abbreviation exs_Error_WS_InvalidSecKey :: int where "exs_Error_WS_InvalidSecKey \<equiv> - 20010"

datatype sock_recv = Recv "byte list" | Recv_eof | Recv_again | Recv_error int
datatype sock_send = Sent nat | Send_closed | Send_again | Send_error int

record xs_conn =
  c_refcount :: int
  c_seq :: int
  c_rcount :: int
  c_sock :: int
  c_errnum :: int
  c_wblocked :: bool
  c_corked :: bool
  c_upgrade :: nat
  c_proto :: bool
  c_datalen :: int
  c_consumed :: int
  c_bufsize :: int
  c_buf :: "byte list option"
  c_host :: "byte list option"
  c_method :: "byte list"
  c_req :: "xs_httpreq list"
  c_freereq :: "xs_httpreq list"
  c_wcache :: "byte xs_arr"
  e_recv :: "sock_recv list"
  e_send :: "sock_send list"
  e_pollout :: "bool list"
  e_wire :: "byte list"

subsection \<open>Accessors\<close>

definition xs_conn_error :: "xs_conn option \<Rightarrow> int" where
  "xs_conn_error c = (case c of Some conn \<Rightarrow> c_errnum conn | None \<Rightarrow> - 50)"

fun first_undone :: "xs_httpreq list \<Rightarrow> xs_httpreq option" where
  "first_undone [] = None"
| "first_undone (r # rs) = (if q_done r then first_undone rs else Some r)"

definition xs_conn_getreq :: "xs_conn \<Rightarrow> xs_httpreq option" where
  "xs_conn_getreq conn = first_undone (c_req conn)"

fun upd_undone :: "(xs_httpreq \<Rightarrow> xs_httpreq) \<Rightarrow> xs_httpreq list \<Rightarrow> xs_httpreq list" where
  \<comment> \<open>an update through the pointer \<open>xs_conn_getreq\<close> returns\<close>
  "upd_undone f [] = []"
| "upd_undone f (r # rs) = (if q_done r then r # upd_undone f rs else f r # rs)"

definition head_req :: "xs_conn \<Rightarrow> xs_httpreq option" where
  "head_req conn = (case c_req conn of [] \<Rightarrow> None | r # rs \<Rightarrow> Some r)"

definition xs_conn_state :: "xs_conn \<Rightarrow> int" where
  "xs_conn_state conn =
     (if c_sock conn \<le> 0 \<or> c_errnum conn \<noteq> 0 then exs_Conn_Error
      else
        let state = xs_http_state (head_req conn) in
        if c_upgrade conn \<noteq> 2 then state
        else if state = exs_Conn_Header then
          (case head_req conn of
             Some r \<Rightarrow> if q_upgrade r \<noteq> c_upgrade conn then state OR 0x800 OR 0x1000 else state OR 0x800
           | None \<Rightarrow> state OR 0x800)
        else if state = exs_Conn_Response \<or> state = exs_Conn_Complete then state OR 0x800
        else state)"

definition xs_conn_headerinspect :: "xs_conn \<Rightarrow> int" where
  "xs_conn_headerinspect conn =
     (case xs_conn_getreq conn of
        None \<Rightarrow> 0
      | Some req \<Rightarrow> if c_consumed conn \<noteq> q_reqlen req then 0 else q_reqlen req)"

definition xs_conn_seterr :: "xs_conn \<Rightarrow> int \<Rightarrow> xs_conn" where
  \<comment> \<open>with the \<open>errno\<close> of the failed call; \<open>EAGAIN\<close> and \<open>EWOULDBLOCK\<close> are given as 0\<close>
  "xs_conn_seterr conn errno = conn\<lparr>c_errnum := errno\<rparr>"

subsection \<open>The socket\<close>

definition sock_send :: "xs_conn \<Rightarrow> byte list \<Rightarrow> xs_conn \<times> int \<times> int" where
  \<comment> \<open>the result of \<open>send\<close> and its \<open>errno\<close>\<close>
  "sock_send conn data =
     (case e_send conn of
        [] \<Rightarrow> (conn\<lparr>e_wire := e_wire conn @ data\<rparr>, int (length data), 0)
      | x # xs \<Rightarrow>
          (case x of
             Sent k \<Rightarrow> (conn\<lparr>e_send := xs, e_wire := e_wire conn @ take k data\<rparr>, int (min k (length data)), 0)
           | Send_closed \<Rightarrow> (conn\<lparr>e_send := xs\<rparr>, 0, 0)
           | Send_again \<Rightarrow> (conn\<lparr>e_send := xs\<rparr>, - 1, 0)
           | Send_error e \<Rightarrow> (conn\<lparr>e_send := xs\<rparr>, - 1, e)))"

definition xs_conn_writable :: "xs_conn \<Rightarrow> xs_conn \<times> bool" where
  "xs_conn_writable conn =
     (if c_sock conn = 0 then (conn, False)
      else case e_pollout conn of
        [] \<Rightarrow> (conn, True)
      | w # ws \<Rightarrow> (conn\<lparr>e_pollout := ws\<rparr>, w))"

subsection \<open>The write cache\<close>

abbreviation maxcache :: int where "maxcache \<equiv> 1000000"
abbreviation INT_MAX :: nat where "INT_MAX \<equiv> 2147483647"

definition cache_append :: "(nat \<Rightarrow> bool) \<Rightarrow> xs_conn \<Rightarrow> byte list \<Rightarrow> (xs_conn \<times> int) option" where
  \<comment> \<open>the inner part of \<open>xs_conn_cachefill\<close>: within the limit, add to the cache\<close>
  "cache_append room conn data =
     (if int (length data) + aCount (c_wcache conn) > maxcache
      then Some (conn\<lparr>c_errnum := - 108\<rparr>, 0)
      else do {
        (ar, p) \<leftarrow> xs_arr_add room 0 (c_wcache conn) (Some data) (int (length data));
        let conn1 = conn\<lparr>c_wcache := ar\<rparr>;
        Some (case p of
            None \<Rightarrow> (conn1\<lparr>c_errnum := - 108\<rparr>, 0)
          | Some i \<Rightarrow> (if c_errnum conn1 = 0 then conn1\<lparr>c_errnum := exs_Error_WriteBusy\<rparr> else conn1, - 1)) })"

text \<open>
  The sending loop of \<open>xs_conn_write_\<close>. \<open>own\<close> says that the data lies in the cache's own block,
  which keeps \<open>xs_conn_cachefill\<close> from doing anything. The result is the connection, the total and
  whether the loop was left by \<open>return\<close>.
\<close>

function send_loop ::
  "(nat \<Rightarrow> bool) \<Rightarrow> bool \<Rightarrow> xs_conn \<Rightarrow> byte list \<Rightarrow> nat \<Rightarrow> (xs_conn \<times> nat \<times> bool) option" where
  "send_loop room own conn data tot =
     (if tot < length data
      then
        let amt = min (length data - tot) INT_MAX;
            (conn1, n, errno) = sock_send conn (take amt (drop tot data))
        in
          if n = 0 then Some (conn1, 0, True)
          else
            let tot1 = tot + nat (max n 0) in
            if n \<noteq> int amt
            then do {
              let rest = amt - nat (max n 0);
              (conn2, r) \<leftarrow> (if own then Some (conn1, 0) else cache_append room conn1 (take rest (drop tot1 data)));
              let tot2 = (if r \<noteq> 0 then tot1 + rest else tot1);
              Some (if n > 0 then conn2\<lparr>c_errnum := exs_Error_WriteBusy\<rparr>
                    else let conn3 = xs_conn_seterr conn2 errno in
                         if c_errnum conn3 = 0 then conn3\<lparr>c_errnum := exs_Error_WriteBusy\<rparr> else conn3,
                    tot2, False) }
            else if 0 < n then send_loop room own conn1 data tot1
            else Some (conn1, tot1, False)
      else Some (conn, tot, False))"
  by pat_completeness auto
termination by (relation "measure (\<lambda>(room, own, conn, data, tot). length data - tot)") auto

declare send_loop.simps [simp del]

definition write_body :: "(nat \<Rightarrow> bool) \<Rightarrow> bool \<Rightarrow> xs_conn \<Rightarrow> byte list \<Rightarrow> bool \<Rightarrow> (xs_conn \<times> nat) option" where
  \<comment> \<open>\<open>xs_conn_write_\<close> after the first \<open>xs_conn_cachefill\<close>: cork, send, uncork\<close>
  "write_body room own conn data cork = do {
     let conn1 = (if cork then conn\<lparr>c_corked := True\<rparr> else conn);
     (conn2, tot, returned) \<leftarrow> send_loop room own conn1 data 0;
     Some (if \<not> returned \<and> \<not> cork then conn2\<lparr>c_corked := False\<rparr> else conn2, tot) }"

definition xs_conn_cachepurge :: "(nat \<Rightarrow> bool) \<Rightarrow> xs_conn \<Rightarrow> (xs_conn \<times> int) option" where
  "xs_conn_cachepurge room conn =
     (let tot = aCount (c_wcache conn) in
      if tot = 0 then Some (conn, 0)
      else do {
        d \<leftarrow> aData (c_wcache conn);
        data \<leftarrow> rds d 0 (nat tot);
        (conn1, wtot) \<leftarrow> write_body room True (conn\<lparr>c_errnum := 0\<rparr>) data True;
        if int wtot = tot
        then Some (conn1\<lparr>c_wcache := (c_wcache conn1)\<lparr>aCount := 0\<rparr>, c_wblocked := False\<rparr>, 0)
        else do {
          ar \<leftarrow> xs_arr_remove (c_wcache conn1) 0 (int wtot);
          Some (conn1\<lparr>c_wcache := ar\<rparr>, - 1) } })"

definition xs_conn_cachefill ::
  "(nat \<Rightarrow> bool) \<Rightarrow> bool \<Rightarrow> xs_conn \<Rightarrow> byte list \<Rightarrow> bool \<Rightarrow> (xs_conn \<times> int) option" where
  "xs_conn_cachefill room own conn data force =
     (if (force \<or> aCount (c_wcache conn) \<noteq> 0 \<or> c_wblocked conn) \<and> \<not> own
      then
        if force \<or> (c_wblocked conn \<and> int (length data) + aCount (c_wcache conn) \<le> maxcache)
        then cache_append room conn data
        else
          let (conn1, w) = xs_conn_writable conn in
          if \<not> w then cache_append room conn1 data
          else do {
            (conn2, r) \<leftarrow> xs_conn_cachepurge room conn1;
            if r \<noteq> 0 then cache_append room conn2 data else Some (conn2, 0) }
      else Some (conn, 0))"

definition xs_conn_write_ex ::
  "(nat \<Rightarrow> bool) \<Rightarrow> xs_conn \<Rightarrow> byte list \<Rightarrow> bool \<Rightarrow> (xs_conn \<times> nat) option" where
  \<comment> \<open>\<open>xs_conn_write_\<close> on a buffer outside the cache\<close>
  "xs_conn_write_ex room conn data cork = do {
     (conn1, r) \<leftarrow> xs_conn_cachefill room False (conn\<lparr>c_errnum := 0\<rparr>) data False;
     if r \<noteq> 0 then Some (conn1, length data)
     else write_body room False conn1 data cork }"

definition xs_conn_write :: "(nat \<Rightarrow> bool) \<Rightarrow> xs_conn \<Rightarrow> byte list \<Rightarrow> (xs_conn \<times> nat) option" where
  "xs_conn_write room conn data = xs_conn_write_ex room conn data False"

definition xs_conn_write_header :: "(nat \<Rightarrow> bool) \<Rightarrow> xs_conn \<Rightarrow> byte list \<Rightarrow> (xs_conn \<times> nat) option" where
  "xs_conn_write_header room conn data = xs_conn_write_ex room conn data True"

definition xs_conn_header_done :: "(nat \<Rightarrow> bool) \<Rightarrow> xs_conn \<Rightarrow> bool \<Rightarrow> (xs_conn \<times> nat) option" where
  "xs_conn_header_done room conn hasBody = xs_conn_write_ex room conn [13, 10] hasBody"

definition xs_conn_body_done :: "xs_conn \<Rightarrow> xs_conn" where
  "xs_conn_body_done conn = conn\<lparr>c_req := upd_undone (\<lambda>r. r\<lparr>q_done := True\<rparr>) (c_req conn)\<rparr>"

definition xs_conn_writeblocked :: "xs_conn \<Rightarrow> bool" where
  "xs_conn_writeblocked conn \<longleftrightarrow> aCount (c_wcache conn) \<noteq> 0"

definition xs_conn_cacheset :: "xs_conn \<Rightarrow> xs_conn \<times> int" where
  "xs_conn_cacheset conn = (conn\<lparr>c_wblocked := True\<rparr>, 0)"

subsection \<open>Life cycle\<close>

definition xs_conn_create :: xs_conn where
  "xs_conn_create = \<lparr>c_refcount = 0, c_seq = 0, c_rcount = 0, c_sock = 0, c_errnum = 0, c_wblocked = False,
     c_corked = False, c_upgrade = 0, c_proto = False, c_datalen = 0, c_consumed = 0, c_bufsize = 0,
     c_buf = None, c_host = None, c_method = replicate 10 0, c_req = [], c_freereq = [],
     c_wcache = xs_arr_create, e_recv = [], e_send = [], e_pollout = [], e_wire = []\<rparr>"

definition xs_conn_close :: "(nat \<Rightarrow> bool) \<Rightarrow> xs_conn \<Rightarrow> xs_conn option" where
  \<comment> \<open>everything but the reference count is zeroed; the wire keeps what was sent\<close>
  "xs_conn_close room conn = do {
     (conn1, r) \<leftarrow> (if aCount (c_wcache conn) \<noteq> 0 then xs_conn_cachepurge room conn else Some (conn, 0));
     Some (xs_conn_create\<lparr>c_refcount := c_refcount conn1, e_wire := e_wire conn1\<rparr>) }"

definition xs_conn_destroy :: "(nat \<Rightarrow> bool) \<Rightarrow> xs_conn \<Rightarrow> xs_conn option option" where
  \<comment> \<open>the inner \<open>None\<close>: the object has been freed\<close>
  "xs_conn_destroy room conn = do {
     conn1 \<leftarrow> xs_conn_close room conn;
     Some (if c_refcount conn1 \<le> 0 then None else Some conn1) }"

definition xs_conn_inc :: "xs_conn \<Rightarrow> xs_conn" where
  "xs_conn_inc conn = conn\<lparr>c_refcount := c_refcount conn + 1\<rparr>"

definition xs_conn_dec :: "(nat \<Rightarrow> bool) \<Rightarrow> xs_conn \<Rightarrow> xs_conn option option" where
  "xs_conn_dec room conn =
     (let conn1 = conn\<lparr>c_refcount := c_refcount conn - 1\<rparr> in
      if c_refcount conn \<le> 1 then xs_conn_destroy room conn1 else Some (Some conn1))"

definition xs_conn_seqinc :: "xs_conn \<Rightarrow> xs_conn \<times> int" where
  "xs_conn_seqinc conn = (conn\<lparr>c_seq := c_seq conn + 1\<rparr>, c_seq conn)"

subsection \<open>Lemmas: what is on the wire and in the cache\<close>

definition cached :: "xs_conn \<Rightarrow> byte list" where
  "cached conn = arr_contents (c_wcache conn)"

definition cache_ok :: "xs_conn \<Rightarrow> bool" where
  "cache_ok conn \<longleftrightarrow> arr_wf (c_wcache conn) \<and> aSpace (c_wcache conn) \<le> 2 * maxcache \<and>
     aCount (c_wcache conn) \<le> maxcache"

definition socket_open :: "xs_conn \<Rightarrow> bool" where
  \<comment> \<open>no \<open>send\<close> of the environment reports an orderly end\<close>
  "socket_open conn \<longleftrightarrow> (\<forall>x\<in>set (e_send conn). x \<noteq> Send_closed \<and> x \<noteq> Sent 0)"

lemma cached_length: "cache_ok conn \<Longrightarrow> int (length (cached conn)) = aCount (c_wcache conn)"
  by (auto simp: cache_ok_def cached_def arr_wf_def arr_contents_def split: option.splits)

lemma xs_arr_add_space:
  assumes "xs_arr_add room z ar (Some s) n = Some (ar', p)" "p \<noteq> None"
  shows "aSpace ar' \<le> max (aSpace ar) (max (aSpace ar * 2) (aCount ar + n))" "aCount ar' = aCount ar + n"
    "aSpace ar' \<noteq> aSpace ar \<Longrightarrow> aSpace ar < aCount ar + n"
  using assms
  by (auto simp: xs_arr_add_def arr_grow_def xs_arr_makespace_def Let_def bind_eq_Some_conv
      split: if_splits option.splits)

lemma cache_append_fits:
  assumes ok: "cache_ok conn" and d: "data \<noteq> []" "int (length data) + aCount (c_wcache conn) \<le> maxcache"
    and room: "\<forall>k. room k"
  shows "\<exists>conn'. cache_append room conn data = Some (conn', - 1) \<and> cached conn' = cached conn @ data \<and>
    cache_ok conn' \<and> e_wire conn' = e_wire conn \<and> e_send conn' = e_send conn \<and> c_errnum conn' \<noteq> 0"
proof -
  let ?ar = "c_wcache conn"
  have "arr_wf ?ar" "aCount ?ar + int (length data) < 2 ^ 29" "aSpace ?ar < 2 ^ 29"
    using ok d by (simp_all add: cache_ok_def)
  then obtain ar where ar: "xs_arr_add room 0 ?ar (Some data) (int (length data)) = Some (ar, Some (aCount ?ar))"
    "arr_wf ar" "arr_contents ar = arr_contents ?ar @ data"
    using xs_arr_add_spec [where room = room and ar = ?ar and z = 0, OF _ d(1) _ _ room [rule_format]] by blast
  have sp: "aSpace ar \<le> 2 * maxcache" "aCount ar \<le> maxcache"
    using xs_arr_add_space [OF ar(1)] ok d(2)
    by (cases "aSpace ar = aSpace ?ar"; simp add: cache_ok_def)+
  show ?thesis using ar sp d(2) by (auto simp: cache_append_def cached_def cache_ok_def Let_def)
qed

lemma send_loop_once:
  assumes "data \<noteq> []" "length data \<le> INT_MAX"
  shows "send_loop room own conn data 0 =
    (let (conn1, n, errno) = sock_send conn data in
     if n = 0 then Some (conn1, 0, True)
     else if n = int (length data) then Some (conn1, length data, False)
     else let k = nat (max n 0) in do {
       (conn2, r) \<leftarrow> (if own then Some (conn1, 0) else cache_append room conn1 (drop k data));
       Some (if n > 0 then conn2\<lparr>c_errnum := exs_Error_WriteBusy\<rparr>
             else let conn3 = xs_conn_seterr conn2 errno in
                  if c_errnum conn3 = 0 then conn3\<lparr>c_errnum := exs_Error_WriteBusy\<rparr> else conn3,
             if r \<noteq> 0 then k + (length data - k) else k, False) })"
proof -
  obtain conn1 n errno where s: "sock_send conn data = (conn1, n, errno)" by (metis prod_cases3)
  have d: "take (length data - k) (drop k data) = drop k data" for k by simp
  show ?thesis
    using assms s by (subst send_loop.simps) (auto simp: Let_def send_loop.simps [of _ _ _ _ "length data"])
qed

lemma sock_send_cases:
  assumes "sock_send conn data = (conn1, n, errno)"
  shows "n \<le> int (length data)" "e_wire conn1 = e_wire conn @ take (nat (max n 0)) data"
    "c_wcache conn1 = c_wcache conn" "set (e_send conn1) \<subseteq> set (e_send conn)"
    "data \<noteq> [] \<Longrightarrow> socket_open conn \<Longrightarrow> n \<noteq> 0" "- 1 \<le> n"
  using assms
  by (auto simp: sock_send_def socket_open_def max_def min_def split: list.splits sock_send.splits if_splits)

lemma cache_ok_cong: "c_wcache c = c_wcache c' \<Longrightarrow> cache_ok c = cache_ok c' \<and> cached c = cached c'"
  by (simp add: cache_ok_def cached_def)

lemma send_loop_own:
  assumes "data \<noteq> []" "length data \<le> INT_MAX"
  shows "\<exists>conn' n ret. send_loop room True conn data 0 = Some (conn', n, ret) \<and> n \<le> length data \<and>
    e_wire conn' = e_wire conn @ take n data \<and> c_wcache conn' = c_wcache conn \<and> set (e_send conn') \<subseteq> set (e_send conn)"
proof -
  obtain conn1 n errno where s: "sock_send conn data = (conn1, n, errno)" by (metis prod_cases3)
  note c = sock_send_cases [OF s]
  show ?thesis
    using send_loop_once [OF assms, of room True conn] s c
    by (auto simp: Let_def xs_conn_seterr_def max_def nat_le_iff)
qed

lemma send_loop_other:
  assumes d: "data \<noteq> []" "length data \<le> INT_MAX" and ok: "cache_ok conn" "cached conn = []" and room: "\<forall>k. room k"
  shows "\<exists>conn' n ret. send_loop room False conn data 0 = Some (conn', n, ret) \<and> n \<le> length data \<and>
    e_wire conn' @ cached conn' = e_wire conn @ take n data \<and> cache_ok conn' \<and>
    set (e_send conn') \<subseteq> set (e_send conn) \<and>
    (socket_open conn \<longrightarrow> int (length data) \<le> maxcache \<longrightarrow> n = length data)"
proof -
  obtain conn1 n errno where s: "sock_send conn data = (conn1, n, errno)" by (metis prod_cases3)
  note c = sock_send_cases [OF s]
  have ok1: "cache_ok conn1" "cached conn1 = []" using cache_ok_cong [OF c(3)] ok by simp_all
  have cnt: "aCount (c_wcache conn1) = 0" using cached_length [OF ok1(1)] ok1(2) by simp
  let ?k = "nat (max n 0)"
  show ?thesis
  proof (cases "n = 0 \<or> n = int (length data)")
    case True
    then show ?thesis
      using send_loop_once [OF d, of room False conn] s c ok1 d by (auto simp: Let_def)
  next
    case False
    have k: "?k < length data" using False c(1) d(1) by (auto simp: max_def)
    show ?thesis
    proof (cases "int (length (drop ?k data)) \<le> maxcache")
      case fits: True
      have "drop ?k data \<noteq> []" using k by simp
      then obtain conn2 where c2: "cache_append room conn1 (drop ?k data) = Some (conn2, - 1)"
        "cached conn2 = cached conn1 @ drop ?k data" "cache_ok conn2" "e_wire conn2 = e_wire conn1"
        "e_send conn2 = e_send conn1"
        using cache_append_fits [where room = room and data = "drop ?k data", OF ok1(1) _ _ room] fits cnt by auto
      have upd: "cache_ok (x\<lparr>c_errnum := e\<rparr>) = cache_ok x" "cached (x\<lparr>c_errnum := e\<rparr>) = cached x" for x e
        by (simp_all add: cache_ok_def cached_def)
      show ?thesis
        using send_loop_once [OF d, of room False conn] s c False c2 ok1 upd k
        by (auto simp: Let_def xs_conn_seterr_def)
    next
      case big: False
      have upd: "cache_ok (x\<lparr>c_errnum := e\<rparr>) = cache_ok x" "cached (x\<lparr>c_errnum := e\<rparr>) = cached x" for x e
        by (simp_all add: cache_ok_def cached_def)
      have "cache_append room conn1 (drop ?k data) = Some (conn1\<lparr>c_errnum := - 108\<rparr>, 0)"
      proof -
        have "maxcache < int (length (drop ?k data)) + aCount (c_wcache conn1)" using big cnt by linarith
        then show ?thesis unfolding cache_append_def by (simp only: if_True)
      qed
      moreover have "\<not> int (length data) \<le> maxcache" using big by simp
      ultimately show ?thesis
        using send_loop_once [OF d, of room False conn] s c False ok1 upd k
        by (auto simp: Let_def xs_conn_seterr_def)
    qed
  qed
qed

lemma write_body_own:
  assumes "data \<noteq> []" "length data \<le> INT_MAX"
  shows "\<exists>conn' n. write_body room True conn data cork = Some (conn', n) \<and> n \<le> length data \<and>
    e_wire conn' = e_wire conn @ take n data \<and> c_wcache conn' = c_wcache conn \<and> set (e_send conn') \<subseteq> set (e_send conn)"
  using send_loop_own [OF assms, of room "if cork then conn\<lparr>c_corked := True\<rparr> else conn"]
  by (auto simp: write_body_def)

lemma write_body_other:
  assumes "data \<noteq> []" "length data \<le> INT_MAX" "cache_ok conn" "cached conn = []" "\<forall>k. room k"
  shows "\<exists>conn' n. write_body room False conn data cork = Some (conn', n) \<and> n \<le> length data \<and>
    e_wire conn' @ cached conn' = e_wire conn @ take n data \<and> cache_ok conn' \<and>
    set (e_send conn') \<subseteq> set (e_send conn) \<and>
    (socket_open conn \<longrightarrow> int (length data) \<le> maxcache \<longrightarrow> n = length data)"
proof -
  let ?c = "if cork then conn\<lparr>c_corked := True\<rparr> else conn"
  have c: "cache_ok ?c" "cached ?c = []" "e_wire ?c = e_wire conn" "e_send ?c = e_send conn" "socket_open ?c = socket_open conn"
    using assms(3,4) by (simp_all add: cache_ok_def cached_def socket_open_def)
  obtain conn' n ret where "send_loop room False ?c data 0 = Some (conn', n, ret)" "n \<le> length data"
    "e_wire conn' @ cached conn' = e_wire ?c @ take n data" "cache_ok conn'" "set (e_send conn') \<subseteq> set (e_send ?c)"
    "socket_open ?c \<longrightarrow> int (length data) \<le> maxcache \<longrightarrow> n = length data"
    using send_loop_other [OF assms(1,2) c(1,2) assms(5)] by blast
  moreover have "cache_ok (x\<lparr>c_corked := e\<rparr>) = cache_ok x" "cached (x\<lparr>c_corked := e\<rparr>) = cached x" for x e
    by (simp_all add: cache_ok_def cached_def)
  ultimately show ?thesis using c(3-5) unfolding write_body_def by (simp add: Let_def)
qed

lemma cachepurge_flow:
  assumes ok: "cache_ok conn"
  shows "\<exists>conn' r. xs_conn_cachepurge room conn = Some (conn', r) \<and>
    e_wire conn' @ cached conn' = e_wire conn @ cached conn \<and> cache_ok conn' \<and>
    (r = 0 \<longrightarrow> cached conn' = []) \<and> (r = 0 \<or> cached conn' \<noteq> []) \<and> set (e_send conn') \<subseteq> set (e_send conn) \<and>
    aCount (c_wcache conn') \<le> aCount (c_wcache conn)"
proof (cases "aCount (c_wcache conn) = 0")
  case True
  then show ?thesis using ok cached_length [OF ok] by (simp add: xs_conn_cachepurge_def)
next
  case False
  let ?ar = "c_wcache conn"
  have wf: "arr_wf ?ar" using ok by (simp add: cache_ok_def)
  have pos: "0 < aCount ?ar" using wf False by (auto simp: arr_wf_def)
  then obtain d where d: "aData ?ar = Some d" using wf by (auto simp: arr_wf_def split: option.splits)
  note w = arr_wf_Some [OF wf d]
  let ?data = "take (nat (aCount ?ar)) d"
  have data: "?data = cached conn" "length ?data = nat (aCount ?ar)" "0 < length ?data"
    using w pos by (simp_all add: cached_def min_def)
  then have ne: "?data \<noteq> []" by (metis length_greater_0_conv)
  have rds: "rds d 0 (nat (aCount ?ar)) = Some ?data" using w by (simp add: rds_def)
  have len: "length ?data \<le> INT_MAX" using ok data(2) by (auto simp: cache_ok_def nat_le_iff)
  let ?c0 = "conn\<lparr>c_errnum := 0\<rparr>"
  obtain c1 n where c1: "write_body room True ?c0 ?data True = Some (c1, n)" "n \<le> length ?data"
    "e_wire c1 = e_wire conn @ take n ?data" "c_wcache c1 = ?ar" "set (e_send c1) \<subseteq> set (e_send conn)"
    using write_body_own [OF ne len, of room ?c0 True] by auto
  show ?thesis
  proof (cases "n = length ?data")
    case True
    let ?c' = "c1\<lparr>c_wcache := (c_wcache c1)\<lparr>aCount := 0\<rparr>, c_wblocked := False\<rparr>"
    have "xs_conn_cachepurge room conn = Some (?c', 0)"
      using False d rds c1(1) True data(2) pos by (simp add: xs_conn_cachepurge_def)
    moreover have "cached ?c' = []" using c1(4) d by (simp add: cached_def arr_contents_def)
    moreover have "cache_ok ?c'" using ok c1(4) d by (auto simp: cache_ok_def arr_wf_def)
    ultimately show ?thesis using c1(3,5) True data(1) pos by auto
  next
    case part: False
    then have n: "n < length (arr_contents ?ar)" using c1(2) data w by simp
    obtain ar where ar: "xs_arr_remove ?ar (int 0) (int n) = Some ar" "arr_wf ar"
      "arr_contents ar = take 0 (arr_contents ?ar) @ drop (0 + n) (arr_contents ?ar)"
      using xs_arr_remove_spec [OF wf, of 0 n] n by auto
    have sp: "aSpace ar = aSpace ?ar" "aCount ar \<le> aCount ?ar"
      using ar(1) by (auto simp: xs_arr_remove_def bind_eq_Some_conv split: if_splits)
    have "int n \<noteq> aCount ?ar" using part data(2) pos by linarith
    then have "xs_conn_cachepurge room conn = Some (c1\<lparr>c_wcache := ar\<rparr>, - 1)"
      using False d rds c1(1,4) ar(1) by (simp add: xs_conn_cachepurge_def)
    moreover have "cached (c1\<lparr>c_wcache := ar\<rparr>) = drop n (cached conn)" using ar(3) by (simp add: cached_def)
    moreover have "cache_ok (c1\<lparr>c_wcache := ar\<rparr>)" using ok ar(2) sp by (simp add: cache_ok_def)
    moreover have "drop n (cached conn) \<noteq> []" using n by (simp add: cached_def)
    ultimately show ?thesis using c1(3,5) data(1) sp(2) by auto
  qed
qed

lemma writable_frame:
  "xs_conn_writable conn = (conn1, w) \<Longrightarrow>
   c_wcache conn1 = c_wcache conn \<and> e_wire conn1 = e_wire conn \<and> e_send conn1 = e_send conn \<and>
   c_wblocked conn1 = c_wblocked conn"
  by (auto simp: xs_conn_writable_def split: if_splits list.splits)

lemma cache_append_any:
  assumes ok: "cache_ok conn" and d: "data \<noteq> []"
    and fit: "cached conn = [] \<or> int (length data) + aCount (c_wcache conn) \<le> maxcache" and room: "\<forall>k. room k"
  shows "\<exists>conn' r. cache_append room conn data = Some (conn', r) \<and> cache_ok conn' \<and> e_wire conn' = e_wire conn \<and>
    e_send conn' = e_send conn \<and> (r \<noteq> 0 \<longrightarrow> cached conn' = cached conn @ data) \<and>
    (r = 0 \<longrightarrow> cached conn' = [] \<and> cached conn = [] \<and> maxcache < int (length data) + aCount (c_wcache conn))"
proof (cases "int (length data) + aCount (c_wcache conn) \<le> maxcache")
  case True
  then show ?thesis using cache_append_fits [OF ok d True room] by auto
next
  case False
  then have "maxcache < int (length data) + aCount (c_wcache conn)" by simp
  then have "cache_append room conn data = Some (conn\<lparr>c_errnum := - 108\<rparr>, 0)" by (simp add: cache_append_def)
  then show ?thesis using ok fit False by (simp add: cache_ok_def cached_def)
qed

lemma write_in_order:
  assumes ok: "cache_ok conn" and d: "data \<noteq> []" "length data \<le> INT_MAX"
    and fit: "cached conn = [] \<or> int (length data) + aCount (c_wcache conn) \<le> maxcache" and room: "\<forall>k. room k"
  shows "\<exists>conn' n. xs_conn_write_ex room conn data cork = Some (conn', n) \<and> n \<le> length data \<and>
    e_wire conn' @ cached conn' = e_wire conn @ cached conn @ take n data \<and> cache_ok conn' \<and>
    (socket_open conn \<longrightarrow> int (length data) + aCount (c_wcache conn) \<le> maxcache \<longrightarrow> n = length data)"
proof -
  let ?c0 = "conn\<lparr>c_errnum := 0\<rparr>"
  have c0: "cache_ok ?c0" "cached ?c0 = cached conn" "e_wire ?c0 = e_wire conn" "e_send ?c0 = e_send conn"
    "c_wcache ?c0 = c_wcache conn"
    using ok by (simp_all add: cache_ok_def cached_def)
  have direct: ?thesis
    if c: "xs_conn_cachefill room False ?c0 data False = Some (c1, 0)" "cache_ok c1" "cached c1 = []"
      "e_wire c1 = e_wire conn @ cached conn" "set (e_send c1) \<subseteq> set (e_send conn)" for c1
  proof -
    have "socket_open conn \<Longrightarrow> socket_open c1" using c(5) by (auto simp: socket_open_def)
    moreover have "0 \<le> aCount (c_wcache conn)" using cached_length [OF ok] by simp
    ultimately show ?thesis
      using write_body_other [OF d c(2,3) room, of cork] c by (auto simp: xs_conn_write_ex_def)
  qed
  have stored: ?thesis
    if c: "xs_conn_cachefill room False ?c0 data False = Some (c1, r)" "r \<noteq> 0" "cache_ok c1"
      "e_wire c1 @ cached c1 = e_wire conn @ cached conn @ data" for c1 r
    using c by (simp add: xs_conn_write_ex_def)
  have append: ?thesis
    if c: "xs_conn_cachefill room False ?c0 data False = cache_append room c1 data" "cache_ok c1"
      "e_wire c1 @ cached c1 = e_wire conn @ cached conn" "set (e_send c1) \<subseteq> set (e_send conn)"
      "cached c1 = [] \<or> int (length data) + aCount (c_wcache c1) \<le> maxcache" for c1
  proof -
    obtain c2 r where c2: "cache_append room c1 data = Some (c2, r)" "cache_ok c2" "e_wire c2 = e_wire c1"
      "e_send c2 = e_send c1" "r \<noteq> 0 \<longrightarrow> cached c2 = cached c1 @ data" "r = 0 \<longrightarrow> cached c2 = [] \<and> cached c1 = []"
      using cache_append_any [OF c(2) d(1) c(5) room] by blast
    show ?thesis
    proof (cases "r = 0")
      case True
      then show ?thesis using direct [of c2] c c2 by simp
    next
      case False
      have "e_wire c2 @ cached c2 = e_wire conn @ cached conn @ data"
        using c2(3,5) False c(3) by (metis append_assoc)
      then show ?thesis using stored [of c2 r] c(1) c2(1,2) False by simp
    qed
  qed
  show ?thesis
  proof (cases "aCount (c_wcache conn) \<noteq> 0 \<or> c_wblocked conn")
    case False
    then have "cached conn = []" using cached_length [OF ok] by simp
    then show ?thesis using direct [of ?c0] False c0 by (simp add: xs_conn_cachefill_def)
  next
    case cond: True
    show ?thesis
    proof (cases "c_wblocked conn \<and> int (length data) + aCount (c_wcache conn) \<le> maxcache")
      case True
      then show ?thesis using append [of ?c0] c0 fit cond by (simp add: xs_conn_cachefill_def)
    next
      case False
      obtain c1 w where w: "xs_conn_writable ?c0 = (c1, w)" by force
      note f = writable_frame [OF w]
      have ok1: "cache_ok c1" "cached c1 = cached conn" using cache_ok_cong f c0 by metis+
      show ?thesis
      proof (cases w)
        case False
        have "xs_conn_cachefill room False ?c0 data False = cache_append room c1 data"
          using w cond False \<open>\<not> (c_wblocked conn \<and> int (length data) + aCount (c_wcache conn) \<le> maxcache)\<close>
          unfolding xs_conn_cachefill_def by auto
        then show ?thesis using append [of c1] f ok1 fit by auto
      next
        case True
        obtain c2 r where p: "xs_conn_cachepurge room c1 = Some (c2, r)"
          "e_wire c2 @ cached c2 = e_wire c1 @ cached c1" "cache_ok c2" "r = 0 \<longrightarrow> cached c2 = []"
          "r = 0 \<or> cached c2 \<noteq> []" "set (e_send c2) \<subseteq> set (e_send c1)"
          "aCount (c_wcache c2) \<le> aCount (c_wcache c1)"
          using cachepurge_flow [OF ok1(1), of room] by blast
        have fill: "xs_conn_cachefill room False ?c0 data False = (if r \<noteq> 0 then cache_append room c2 data else Some (c2, 0))"
          using w p(1) True cond \<open>\<not> (c_wblocked conn \<and> int (length data) + aCount (c_wcache conn) \<le> maxcache)\<close>
          unfolding xs_conn_cachefill_def by auto
        show ?thesis
        proof (cases "r = 0")
          case True
          then show ?thesis using direct [of c2] fill p f ok1 c0 by auto
        next
          case r: False
          have "0 < length (cached c2)" using p(5) r by simp
          moreover have "aCount (c_wcache c1) = aCount (c_wcache conn)" using f by auto
          ultimately have "0 < aCount (c_wcache conn)" using p(7) cached_length [OF p(3)] by linarith
          then have "cached conn \<noteq> []" using cached_length [OF ok] by auto
          then have "int (length data) + aCount (c_wcache c2) \<le> maxcache" using fit p(7) f by auto
          then show ?thesis using append [of c2] fill p f ok1 c0 r by auto
        qed
      qed
    qed
  qed
qed

subsection \<open>The write side as a pipe\<close>

datatype conn_op = Conn_write "byte list" bool | Conn_purge

definition write_ready :: "xs_conn \<Rightarrow> byte list \<Rightarrow> bool" where
  \<comment> \<open>a write the cache has room for, should the socket not take it\<close>
  "write_ready conn data \<longleftrightarrow> data \<noteq> [] \<and> length data \<le> INT_MAX \<and>
     (cached conn = [] \<or> int (length data) + aCount (c_wcache conn) \<le> maxcache)"

fun conn_step :: "conn_op \<Rightarrow> xs_conn \<Rightarrow> xs_conn option" where
  "conn_step (Conn_write data cork) conn =
     (if write_ready conn data then map_option fst (xs_conn_write_ex (\<lambda>_. True) conn data cork) else None)"
| "conn_step Conn_purge conn = map_option fst (xs_conn_cachepurge (\<lambda>_. True) conn)"

fun conn_accepted :: "conn_op \<Rightarrow> xs_conn \<Rightarrow> byte list" where
  \<comment> \<open>the bytes an operation accepts: as many as the write reports\<close>
  "conn_accepted (Conn_write data cork) conn =
     (case xs_conn_write_ex (\<lambda>_. True) conn data cork of None \<Rightarrow> [] | Some (c, n) \<Rightarrow> take n data)"
| "conn_accepted Conn_purge conn = []"

interpretation write_pipe: pipe cache_ok "\<lambda>conn. e_wire conn @ cached conn" conn_step conn_accepted "\<lambda>_ _. []"
proof
  fix s x s'
  assume ok: "cache_ok s" and s: "conn_step x s = Some s'"
  show "cache_ok s'"
  proof (cases x)
    case (Conn_write data cork)
    then show ?thesis
      using s ok write_in_order [of s data "\<lambda>_. True" cork] by (auto simp: write_ready_def split: if_splits)
  next
    case Conn_purge
    then show ?thesis using s cachepurge_flow [OF ok, of "\<lambda>_. True"] by auto
  qed
  show "[] @ e_wire s' @ cached s' = (e_wire s @ cached s) @ conn_accepted x s"
  proof (cases x)
    case (Conn_write data cork)
    then show ?thesis
      using s ok write_in_order [of s data "\<lambda>_. True" cork] by (auto simp: write_ready_def split: if_splits)
  next
    case Conn_purge
    then show ?thesis using s cachepurge_flow [OF ok, of "\<lambda>_. True"] by auto
  qed
qed

subsection \<open>Reference counting\<close>

datatype life_op = Life_inc | Life_dec

fun life_step :: "life_op \<Rightarrow> xs_conn option \<Rightarrow> xs_conn option option" where
  \<comment> \<open>on the object or \<open>None\<close> after it has been freed, where a use is undefined\<close>
  "life_step x None = None"
| "life_step Life_inc (Some conn) = Some (Some (xs_conn_inc conn))"
| "life_step Life_dec (Some conn) = xs_conn_dec (\<lambda>_. True) conn"

primrec count_run :: "life_op list \<Rightarrow> int \<Rightarrow> int option" where
  \<comment> \<open>the specification: a counter that must not be used once it is 0\<close>
  "count_run [] n = Some n"
| "count_run (x # xs) n =
     (if n \<le> 0 then None else count_run xs (case x of Life_inc \<Rightarrow> n + 1 | Life_dec \<Rightarrow> n - 1))"

definition counts :: "xs_conn option \<Rightarrow> int \<Rightarrow> bool" where
  \<comment> \<open>the refinement relation: freed at 0, else alive with that reference count\<close>
  "counts r n \<longleftrightarrow> (case r of None \<Rightarrow> n = 0 | Some conn \<Rightarrow> 0 < n \<and> c_refcount conn = n \<and> cache_ok conn)"

lemma xs_conn_close_Some:
  assumes "cache_ok conn"
  shows "\<exists>conn'. xs_conn_close room conn = Some conn' \<and> c_refcount conn' = c_refcount conn"
proof -
  obtain c r where p: "xs_conn_cachepurge room conn = Some (c, r)" using cachepurge_flow [OF assms] by blast
  have "c_refcount c = c_refcount conn"
  proof -
    have snd: "c_refcount (fst (sock_send c d)) = c_refcount c" for c d
      by (auto simp: sock_send_def split: list.splits sock_send.splits)
    have "c_refcount (fst x) = c_refcount c" if "send_loop room True c d tot = Some x" for c d tot x
      using that
    proof (induction "length d - tot" arbitrary: c tot rule: less_induct)
      case less
      obtain c1 n e where s: "sock_send c (take (min (length d - tot) INT_MAX) (drop tot d)) = (c1, n, e)"
        by (metis prod_cases3)
      have c1: "c_refcount c1 = c_refcount c" using snd s by (metis fst_conv)
      show ?case
      proof (cases "tot < length d \<and> n = int (min (length d - tot) INT_MAX) \<and> 0 < n")
        case True
        then have "send_loop room True c1 d (tot + nat (max n 0)) = Some x"
          using less.prems s by (subst (asm) send_loop.simps) (simp add: Let_def)
        moreover have "length d - (tot + nat (max n 0)) < length d - tot" using True by auto
        ultimately show ?thesis using less.hyps c1 by metis
      next
        case False
        then show ?thesis using less.prems s c1
          by (subst (asm) send_loop.simps) (auto simp: Let_def xs_conn_seterr_def split: if_splits)
      qed
    qed
    then show ?thesis using p
      by (force simp: xs_conn_cachepurge_def write_body_def Let_def bind_eq_Some_conv split: if_splits)
  qed
  then show ?thesis using p by (simp add: xs_conn_close_def)
qed

lemma life_step_counts:
  assumes "counts r n"
  shows "n \<le> 0 \<Longrightarrow> life_step x r = None"
    and "0 < n \<Longrightarrow> \<exists>r'. life_step x r = Some r' \<and> counts r' (case x of Life_inc \<Rightarrow> n + 1 | Life_dec \<Rightarrow> n - 1)"
proof -
  show "life_step x r = None" if "n \<le> 0" using assms that by (cases r) (auto simp: counts_def)
  assume n: "0 < n"
  then obtain conn where r: "r = Some conn" "c_refcount conn = n" "cache_ok conn"
    using assms by (cases r) (auto simp: counts_def)
  show "\<exists>r'. life_step x r = Some r' \<and> counts r' (case x of Life_inc \<Rightarrow> n + 1 | Life_dec \<Rightarrow> n - 1)"
  proof (cases x)
    case Life_inc
    then show ?thesis using r n by (simp add: counts_def xs_conn_inc_def cache_ok_def)
  next
    case Life_dec
    let ?c = "conn\<lparr>c_refcount := c_refcount conn - 1\<rparr>"
    have "cache_ok ?c" using r by (simp add: cache_ok_def)
    then obtain c' where "xs_conn_close (\<lambda>_. True) ?c = Some c'" "c_refcount c' = c_refcount ?c"
      using xs_conn_close_Some by blast
    then show ?thesis using r n Life_dec
      by (cases "n = 1") (auto simp: counts_def xs_conn_dec_def xs_conn_destroy_def cache_ok_def)
  qed
qed

subsection \<open>Properties\<close>

text \<open>C16: the write path keeps the order of the bytes. With memory granted, for data that fits the
  cache (or an empty cache), \<open>xs_conn_write_\<close> returns some count \<open>n\<close>, and the bytes on the wire
  followed by the bytes in the cache are what they were followed by the first \<open>n\<close> bytes of the data,
  however the socket splits, refuses or fails the sends. When the socket never reports an orderly
  end and the data fits the cache, every byte is accepted.\<close>

theorem xs_conn_write_in_order:
  assumes "cache_ok conn" "data \<noteq> []" "length data \<le> INT_MAX"
    and "cached conn = [] \<or> int (length data) + aCount (c_wcache conn) \<le> maxcache" and "\<forall>k. room k"
  shows "\<exists>conn' n. xs_conn_write_ex room conn data cork = Some (conn', n) \<and> n \<le> length data \<and>
    e_wire conn' @ cached conn' = e_wire conn @ cached conn @ take n data \<and> cache_ok conn' \<and>
    (socket_open conn \<longrightarrow> int (length data) + aCount (c_wcache conn) \<le> maxcache \<longrightarrow> n = length data)"
  by (rule write_in_order [OF assms])

theorem xs_conn_write_in_order_witness:
  "\<exists>conn'. xs_conn_write_ex (\<lambda>_. True) (xs_conn_create\<lparr>c_sock := 5, e_send := [Sent 2, Send_again]\<rparr>) [1, 2, 3, 4] False =
      Some (conn', 4) \<and> e_wire conn' @ cached conn' = [1, 2, 3, 4]"
  using xs_conn_write_in_order [of "xs_conn_create\<lparr>c_sock := 5, e_send := [Sent 2, Send_again]\<rparr>" "[1, 2, 3, 4]" "\<lambda>_. True" False]
  by (auto simp: xs_conn_create_def cache_ok_def arr_wf_def xs_arr_create_def cached_def arr_contents_def socket_open_def)



text \<open>C34: reference counting refines a counter. Started with a positive count, any sequence of
  \<open>xs_conn_inc\<close> and \<open>xs_conn_dec\<close> is defined exactly when the counter is never used after reaching 0;
  the object is freed exactly when the counter reaches 0, and otherwise carries the counter's value.\<close>

theorem xs_conn_refcount_refines_counter:
  assumes "0 < c_refcount conn" "cache_ok conn"
  shows "case count_run ops (c_refcount conn) of
      None \<Rightarrow> pipe_run life_step ops (Some conn) = None
    | Some n \<Rightarrow> \<exists>r. pipe_run life_step ops (Some conn) = Some r \<and> counts r n"
proof -
  have "case count_run ops n of None \<Rightarrow> pipe_run life_step ops r = None
      | Some m \<Rightarrow> \<exists>r'. pipe_run life_step ops r = Some r' \<and> counts r' m" if "counts r n" for r n
    using that
  proof (induction ops arbitrary: r n)
    case (Cons x xs)
    show ?case
    proof (cases "0 < n")
      case True
      then obtain r1 where r1: "life_step x r = Some r1" "counts r1 (case x of Life_inc \<Rightarrow> n + 1 | Life_dec \<Rightarrow> n - 1)"
        using life_step_counts(2) [OF Cons.prems] by blast
      have eqs: "count_run (x # xs) n = count_run xs (case x of Life_inc \<Rightarrow> n + 1 | Life_dec \<Rightarrow> n - 1)"
        "pipe_run life_step (x # xs) r = pipe_run life_step xs r1"
        using True r1(1) by simp_all
      show ?thesis unfolding eqs by (rule Cons.IH [OF r1(2)])
    next
      case False
      then show ?thesis using life_step_counts(1) [OF Cons.prems, of x] by simp
    qed
  qed simp
  moreover have "counts (Some conn) (c_refcount conn)" using assms by (simp add: counts_def)
  ultimately show ?thesis by blast
qed

theorem xs_conn_refcount_refines_counter_witness:
  "pipe_run life_step [Life_inc, Life_dec, Life_dec] (Some (xs_conn_create\<lparr>c_refcount := 1\<rparr>)) = Some None \<and>
   pipe_run life_step [Life_dec, Life_inc] (Some (xs_conn_create\<lparr>c_refcount := 1\<rparr>)) = None"
proof -
  let ?c = "xs_conn_create\<lparr>c_refcount := 1\<rparr>"
  have c: "0 < c_refcount ?c" "cache_ok ?c"
    by (simp_all add: xs_conn_create_def cache_ok_def arr_wf_def xs_arr_create_def)
  show ?thesis
    using xs_conn_refcount_refines_counter [OF c, of "[Life_inc, Life_dec, Life_dec]"]
      xs_conn_refcount_refines_counter [OF c, of "[Life_dec, Life_inc]"]
    by (auto simp: counts_def split: option.splits)
qed

text \<open>Above the cache limit the order is lost. When a write does not fit beside what is cached and
  the socket is writable but does not take the whole cache, the append fails with -108 and the code
  goes on to send the new bytes, which overtake the ones still in the cache.\<close>

theorem xs_conn_write_overtakes:
  assumes "cache_ok conn" "cached conn \<noteq> []" "data \<noteq> []" "length data \<le> INT_MAX"
    and "maxcache < int (length data) + aCount (c_wcache conn)" "c_sock conn \<noteq> 0"
    and "e_pollout conn = [False]" "e_send conn = []"
  shows "\<exists>conn'. xs_conn_write_ex room conn data False = Some (conn', length data) \<and>
    e_wire conn' = e_wire conn @ data \<and> cached conn' = cached conn"
proof -
  have cnt: "aCount (c_wcache conn) \<noteq> 0" using assms(2) cached_length [OF assms(1)] by auto
  let ?c1 = "conn\<lparr>c_errnum := - 108, e_pollout := []\<rparr>"
  have fill: "xs_conn_cachefill room False (conn\<lparr>c_errnum := 0\<rparr>) data False = Some (?c1, 0)"
    using assms cnt by (simp add: xs_conn_cachefill_def xs_conn_writable_def cache_append_def)
  have "send_loop room False ?c1 data 0 = Some (?c1\<lparr>e_wire := e_wire conn @ data\<rparr>, length data, False)"
    using send_loop_once [OF assms(3,4), of room False ?c1] assms(3,8) by (simp add: sock_send_def)
  then show ?thesis using fill by (simp add: xs_conn_write_ex_def write_body_def cached_def)
qed

theorem xs_conn_write_overtakes_witness:
  "\<exists>conn'. xs_conn_write_ex (\<lambda>_. True)
      (xs_conn_create\<lparr>c_sock := 5, e_pollout := [False], c_wcache := \<lparr>aData = Some [7], aCount = 1, aSpace = 1\<rparr>\<rparr>)
      (replicate 1000000 8) False = Some (conn', 1000000) \<and> e_wire conn' = replicate 1000000 8 \<and> cached conn' = [7]"
  using xs_conn_write_overtakes [of "xs_conn_create\<lparr>c_sock := 5, e_pollout := [False], c_wcache := \<lparr>aData = Some [7], aCount = 1, aSpace = 1\<rparr>\<rparr>"
      "replicate 1000000 8" "\<lambda>_. True"]
  by (simp add: xs_conn_create_def cache_ok_def arr_wf_def cached_def arr_contents_def)

end
