(* ===== verification/Printf.thy ===== *)
theory Printf
  imports Utils Uri
begin

text \<open>
  The formatted printer of \<open>xs/xs_printf.h\<close>: \<open>xs_sprintf_core\<close> with its flush callback and
  \<open>xs_sprintf\<close> on top of it.

  The variable arguments are a list; taking one of the wrong kind, or one too many, is undefined and
  gives \<open>None\<close>, as does an access outside the output buffer or the digit array. The buffer is the
  caller's, or the local array \<open>t\<close> of 1024 bytes when there is none. The callback is a parameter: from
  the user data and the bytes it gives the new user data and its result. A computation gives \<open>Inl\<close>
  when it jumps to the label \<open>END\<close> and \<open>Inr\<close> when it goes on.
\<close>

datatype pf_arg = Arg_int int | Arg_str "byte list" | Arg_out

type_synonym 'u sflush = "('u \<Rightarrow> byte list \<Rightarrow> ('u \<times> int) option) option"

record 'u pf =
  p_str :: "byte list"
  p_ind :: nat
  p_tot :: int
  p_user :: 'u
  p_args :: "pf_arg list"
  p_nout :: "int list"

type_synonym 'u pf_res = "('u pf \<times> int + 'u pf) option"

definition pf_then :: "'u pf_res \<Rightarrow> ('u pf \<Rightarrow> 'u pf_res) \<Rightarrow> 'u pf_res" where
  "pf_then r f = do { x \<leftarrow> r; case x of Inl e \<Rightarrow> Some (Inl e) | Inr s \<Rightarrow> f s }"

definition pf_flush :: "'u sflush \<Rightarrow> 'u pf \<Rightarrow> 'u pf_res" where
  \<comment> \<open>\<open>_xspf_flush\<close>\<close>
  "pf_flush sflush s =
     (case sflush of
        None \<Rightarrow> Some (Inr (s\<lparr>p_tot := p_tot s + int (p_ind s), p_ind := 0\<rparr>))
      | Some g \<Rightarrow> do {
          d \<leftarrow> rds (p_str s) 0 (p_ind s);
          (u, cc) \<leftarrow> g (p_user s) d;
          Some (if cc \<noteq> int (p_ind s) then Inl (s\<lparr>p_user := u\<rparr>, cc)
                else Inr (s\<lparr>p_user := u, p_tot := p_tot s + int (p_ind s), p_ind := 0\<rparr>)) })"

definition pf_flush_if :: "'u sflush \<Rightarrow> bool \<Rightarrow> 'u pf \<Rightarrow> 'u pf_res" where
  "pf_flush_if sflush b s = (if b then pf_flush sflush s else Some (Inr s))"

definition pf_put :: "byte \<Rightarrow> 'u pf \<Rightarrow> 'u pf_res" where
  "pf_put c s = do { b \<leftarrow> wr (p_str s) (p_ind s) c; Some (Inr (s\<lparr>p_str := b, p_ind := Suc (p_ind s)\<rparr>)) }"

primrec pf_puts :: "byte list \<Rightarrow> 'u pf \<Rightarrow> 'u pf_res" where
  "pf_puts [] s = Some (Inr s)"
| "pf_puts (c # cs) s = pf_then (pf_put c s) (pf_puts cs)"

definition pf_fill :: "byte \<Rightarrow> int \<Rightarrow> 'u pf \<Rightarrow> 'u pf_res" where
  \<comment> \<open>\<open>while (j++<w) str[ind++]=o\<close> for \<open>n = w-j\<close>\<close>
  "pf_fill c n = pf_puts (replicate (nat n) c)"

definition pf_copy :: "byte list \<Rightarrow> 'u pf \<Rightarrow> 'u pf_res" where
  "pf_copy d s = do { b \<leftarrow> blit (p_str s) (p_ind s) d; Some (Inr (s\<lparr>p_str := b, p_ind := p_ind s + length d\<rparr>)) }"

function pf_chunks :: "'u sflush \<Rightarrow> nat \<Rightarrow> byte list \<Rightarrow> 'u pf \<Rightarrow> 'u pf_res" where
  \<comment> \<open>the copying loops of static text and of strings longer than the room left; with no room at all
      they would not end\<close>
  "pf_chunks sflush sroom d s =
     (if sroom = 0 then None
      else pf_then (pf_flush sflush s) (\<lambda>s1.
        pf_then (pf_copy (take sroom d) s1) (\<lambda>s2.
          if drop sroom d = [] then Some (Inr s2) else pf_chunks sflush sroom (drop sroom d) s2)))"
  by pat_completeness auto
termination by (relation "measure (\<lambda>(g, n, d, s). length d)") auto

declare pf_chunks.simps [simp del]

subsection \<open>Reading the format\<close>

fun pf_next :: "byte list \<Rightarrow> byte \<times> byte list" where
  \<comment> \<open>\<open>c = *fmt++\<close>\<close>
  "pf_next [] = (0, [])"
| "pf_next (c # r) = (c, r)"

fun pf_span :: "byte list \<Rightarrow> byte list" where
  \<comment> \<open>static text after its first character\<close>
  "pf_span [] = []"
| "pf_span (c # r) = (if c = 37 then [] else c # pf_span r)"

definition pf_flag :: "byte \<Rightarrow> nat option" where
  "pf_flag c = (if c = 48 then Some 1 else if c = 45 then Some 2 else if c = 43 then Some 4
     else if c = 32 then Some 8 else if c = 35 then Some 16 else None)"

fun pf_flags :: "byte \<Rightarrow> byte list \<Rightarrow> nat \<Rightarrow> nat \<times> byte \<times> byte list" where
  "pf_flags c r f =
     (case pf_flag c of
        None \<Rightarrow> (f, c, r)
      | Some b \<Rightarrow> (case r of [] \<Rightarrow> (f OR b, 0, []) | c' # r' \<Rightarrow> pf_flags c' r' (f OR b)))"

fun pf_number :: "byte \<Rightarrow> byte list \<Rightarrow> int \<Rightarrow> int \<times> byte \<times> byte list" where
  "pf_number c r w =
     (if 48 \<le> c \<and> c \<le> 57
      then (case r of [] \<Rightarrow> (int32 (w * 10 + uint c - 48), 0, [])
            | c' # r' \<Rightarrow> pf_number c' r' (int32 (w * 10 + uint c - 48)))
      else (w, c, r))"

fun va_int :: "pf_arg list \<Rightarrow> (int \<times> pf_arg list) option" where
  "va_int (Arg_int i # a) = Some (i, a)"
| "va_int _ = None"

fun va_str :: "pf_arg list \<Rightarrow> (byte list \<times> pf_arg list) option" where
  "va_str (Arg_str d # a) = Some (d, a)"
| "va_str _ = None"

definition pf_width :: "byte \<Rightarrow> byte list \<Rightarrow> int \<Rightarrow> pf_arg list \<Rightarrow> (int \<times> byte \<times> byte list \<times> pf_arg list) option" where
  \<comment> \<open>a number or \<open>*\<close>, as in a width or after the point of a precision\<close>
  "pf_width c r sroom a =
     (if c = 42 then do {
        (w, a1) \<leftarrow> va_int a;
        let (c1, r1) = pf_next r;
        Some (min (int32 w) sroom, c1, r1, a1) }
      else let (w, c1, r1) = pf_number c r 0 in Some (min w sroom, c1, r1, a))"

definition pf_modifier :: "byte \<Rightarrow> byte list \<Rightarrow> int \<times> byte \<times> byte list" where
  \<comment> \<open>the size of the argument; a character 0 is a malformed format\<close>
  "pf_modifier c r =
     (let (c1, r1) = pf_next r; (c2, r2) = pf_next r1; (c3, r3) = pf_next r2 in
      if c = 104 then if c1 = 104 then (1, c2, r2) else (2, c1, r1)
      else if c = 76 then (- 16, c1, r1)
      else if c = 108 then if c1 = 108 then (8, c2, r2) else (4, c1, r1)
      else if c = 73 then
        if c1 = 54 then if c2 \<noteq> 52 then (4, 0, r1) else (8, c3, r3)
        else if c1 = 51 then if c2 \<noteq> 50 then (4, 0, r1) else (4, c3, r3)
        else (4, c1, r1)
      else if c = 122 then (8, c1, r1)
      else (4, c, r))"

record pf_spec =
  f_flags :: nat
  f_w :: int
  f_pr :: int
  f_vs :: int
  f_c :: byte

definition pf_parse :: "nat \<Rightarrow> byte list \<Rightarrow> pf_arg list \<Rightarrow> (pf_spec \<times> byte list \<times> pf_arg list) option" where
  \<comment> \<open>what follows a percent sign: flags, width, precision, modifier, conversion\<close>
  "pf_parse sroom fmt a = do {
     let (c0, r0) = pf_next fmt;
     let (f, c1, r1) = pf_flags c0 r0 0;
     (w, c2, r2, a2) \<leftarrow> pf_width c1 r1 (int sroom) a;
     (pr, c3, r3, a3) \<leftarrow> (if c2 = 46 then let (c', r') = pf_next r2 in pf_width c' r' (int sroom) a2
                          else Some (- 1, c2, r2, a2));
     let (vs, c, r) = pf_modifier c3 r3;
     Some (\<lparr>f_flags = f, f_w = w, f_pr = pr, f_vs = vs, f_c = c\<rparr>, r, a3) }"

subsection \<open>Conversions\<close>

definition pf_digit :: "int \<Rightarrow> byte \<Rightarrow> byte" where
  "pf_digit d c = word_of_int (if d > 9 then d - 10 + (if c = 120 then 97 else 65) else d + 48)"

function convert_to_backwards_str :: "nat \<Rightarrow> int \<Rightarrow> int \<Rightarrow> byte \<Rightarrow> byte list" where
  \<comment> \<open>\<open>convert_i32_to_backwards_str\<close> and \<open>convert_i64_to_backwards_str\<close>: at most \<open>n\<close> digits, low first\<close>
  "convert_to_backwards_str n v r c =
     (let d = v - v div r * r in
      pf_digit d c # (if v div r \<noteq> 0 \<and> 1 < n then convert_to_backwards_str (n - 1) (v div r) r c else []))"
  by pat_completeness auto
termination by (relation "measure (\<lambda>(n, v, r, c). n)") auto

declare convert_to_backwards_str.simps [simp del]

definition pf_radix :: "byte \<Rightarrow> int option" where
  \<comment> \<open>\<open>None\<close> for a character that is no number conversion\<close>
  "pf_radix c =
     (if c \<in> {97, 65, 101, 69, 102, 103} then Some (- 1)
      else if c = 98 then Some 2
      else if c = 111 then Some 8
      else if c \<in> {105, 100, 117} then Some 10
      else if c \<in> {88, 120, 112} then Some 16
      else None)"

definition pf_string :: "'u sflush \<Rightarrow> int \<Rightarrow> nat \<Rightarrow> pf_spec \<Rightarrow> byte list \<Rightarrow> 'u pf \<Rightarrow> 'u pf_res" where
  "pf_string sflush len sroom f p s =
     (let l0 = (if f_pr f \<ge> 0 then min (int (length p)) (f_pr f) else int (length p));
          l = min (len - int (p_ind s)) l0;
          left = bit (f_flags f) 1;
          d = take (nat l) p
      in
      pf_then (pf_flush_if sflush (\<not> left \<and> f_w f - l + int (p_ind s) > int sroom) s) (\<lambda>s1.
      pf_then (if left then Some (Inr s1) else pf_fill 32 (f_w f - l) s1) (\<lambda>s2.
      pf_then (pf_flush_if sflush (l + int (p_ind s2) > int sroom) s2) (\<lambda>s3.
      pf_then (if f_vs f = 8 then Some (Inr s3)
               else if l + int (p_ind s3) > int sroom then pf_chunks sflush sroom d s3
               else pf_copy d s3) (\<lambda>s4.
      if left
      then pf_then (pf_flush_if sflush (f_w f - l + int (p_ind s4) > int sroom) s4) (pf_fill 32 (f_w f - l))
      else Some (Inr s4))))))"

definition pf_sign :: "'u sflush \<Rightarrow> int \<Rightarrow> nat \<Rightarrow> pf_spec \<Rightarrow> int \<Rightarrow> bool \<Rightarrow> int \<Rightarrow> 'u pf \<Rightarrow> 'u pf_res" where
  \<comment> \<open>the sign or prefix of a number\<close>
  "pf_sign sflush len sroom f r neg v s =
     (if neg then pf_put 45 s
      else if bit (f_flags f) 2 then pf_put 43 s
      else if bit (f_flags f) 3 then pf_put 32 s
      else if bit (f_flags f) 4 \<and> v \<noteq> 0 then
        pf_then (if r = 8 \<or> r = 16 then pf_put 48 s else Some (Inr s)) (\<lambda>s1.
        pf_then (pf_flush_if sflush (p_ind s1 = sroom) s1) (\<lambda>s2.
        if r = 16 \<and> int (p_ind s2) < len then pf_put (f_c f) s2 else Some (Inr s2)))
      else Some (Inr s))"

definition pf_digits :: "'u sflush \<Rightarrow> int \<Rightarrow> nat \<Rightarrow> pf_spec \<Rightarrow> byte list \<Rightarrow> 'u pf \<Rightarrow> 'u pf_res" where
  \<comment> \<open>precision, padding and the digits, which are stored backwards\<close>
  "pf_digits sflush len sroom f ds s =
     (let i = int (length ds);
          pr = f_pr f - i;
          left = bit (f_flags f) 1;
          o' = (if bit (f_flags f) 0 then 48 else 32)
      in
      pf_then (pf_flush_if sflush (pr \<ge> 0 \<and> pr + int (p_ind s) > int sroom) s) (\<lambda>s1.
      pf_then (pf_fill 48 (min pr (len - int (p_ind s1))) s1) (\<lambda>s2.
      let j = min (len - int (p_ind s2)) i in
      pf_then (pf_flush_if sflush (\<not> left \<and> f_w f - j + int (p_ind s2) > int sroom) s2) (\<lambda>s3.
      pf_then (if left then Some (Inr s3) else pf_fill o' (f_w f - j) s3) (\<lambda>s4.
      pf_then (pf_flush_if sflush (j + int (p_ind s4) > int sroom) s4) (\<lambda>s5.
      pf_then (if j \<le> 0 then None else pf_puts (rev (take (nat j) ds)) s5) (\<lambda>s6.
      if left
      then pf_then (pf_flush_if sflush (f_w f - j + int (p_ind s6) > int sroom) s6) (pf_fill o' (f_w f - j))
      else Some (Inr s6))))))))"

definition pf_integer :: "'u sflush \<Rightarrow> int \<Rightarrow> nat \<Rightarrow> pf_spec \<Rightarrow> int \<Rightarrow> 'u pf \<Rightarrow> 'u pf_res" where
  "pf_integer sflush len sroom f r s = do {
     let vs = f_vs f;
     (a, rest) \<leftarrow> (if vs = 8 \<or> vs = 4 \<or> vs = 2 \<or> vs = 1 then va_int (p_args s) else Some (0, p_args s));
     let v64 = (if vs = 8 then size64 a else 0);
     let v = (if vs = 8 then 0 else size64 (int32 a));
     let neg = (if vs = 8 then bit v64 63 else bit v 31);
     let v64' = (if neg then size64 (- v64) else v64);
     let v' = (if neg then size64 (- v) else v);
     pf_then (pf_sign sflush len sroom f r neg v (s\<lparr>p_args := rest\<rparr>)) (\<lambda>s1.
     if \<not> neg \<and> f_pr f = 0 \<and> v = 0 \<and> v64 = 0 then Some (Inr s1)
     else
       pf_then (pf_flush_if sflush (p_ind s1 = sroom) s1) (\<lambda>s2.
       pf_digits sflush len sroom f (convert_to_backwards_str 64 (if vs = 8 then v64' else v') r (f_c f)) s2)) }"

definition pf_conv :: "'u sflush \<Rightarrow> int \<Rightarrow> nat \<Rightarrow> pf_spec \<Rightarrow> 'u pf \<Rightarrow> 'u pf_res" where
  "pf_conv sflush len sroom f s =
     (if f_c f = 110 then
        (case p_args s of
           Arg_out # a \<Rightarrow> Some (Inr (s\<lparr>p_args := a, p_nout := p_nout s @ [int (p_ind s)]\<rparr>))
         | Arg_int i # a \<Rightarrow> if i = 0 then Some (Inr (s\<lparr>p_args := a\<rparr>)) else None
         | _ \<Rightarrow> None)
      else if f_c f = 115 then do {
        (p, a) \<leftarrow> va_str (p_args s);
        pf_string sflush len sroom f p (s\<lparr>p_args := a\<rparr>) }
      else if f_c f = 99 then
        if f_vs f = 8 then Some (Inr s)
        else do { (i, a) \<leftarrow> va_int (p_args s); pf_put (word_of_int i) (s\<lparr>p_args := a\<rparr>) }
      else
        (case pf_radix (f_c f) of
           None \<Rightarrow> pf_put (f_c f) s
         | Some r \<Rightarrow>
             let f' = (if f_c f = 112 then f\<lparr>f_vs := 8\<rparr> else f) in
             if r > 0 then pf_integer sflush len sroom f' r s
             else do { (i, a) \<leftarrow> va_int (p_args s); Some (Inr (s\<lparr>p_args := a\<rparr>)) }))"

definition pf_text :: "'u sflush \<Rightarrow> nat \<Rightarrow> byte \<Rightarrow> byte list \<Rightarrow> 'u pf \<Rightarrow> 'u pf_res" where
  \<comment> \<open>a block of static text: its first character and the rest\<close>
  "pf_text sflush sroom c p s =
     (if p = [] then pf_put c s
      else if Suc (length p) + p_ind s > sroom then pf_chunks sflush sroom (c # p) s
      else pf_copy (c # p) s)"

subsection \<open>The main loop\<close>

declare pf_flags.simps [simp del] pf_number.simps [simp del]

lemma pf_span_length: "length (pf_span r) \<le> length r"
  by (induction r) auto

lemma pf_next_length: "length (snd (pf_next r)) \<le> length r"
  by (cases r) auto

lemma pf_flags_length: "pf_flags c r f = (f', c', r') \<Longrightarrow> length r' \<le> length r"
proof (induction r arbitrary: c f)
  case Nil
  then show ?case by (subst (asm) pf_flags.simps) (auto split: option.splits)
next
  case (Cons d r)
  show ?case
  proof (cases "pf_flag c")
    case None
    then show ?thesis using Cons.prems by (subst (asm) pf_flags.simps) simp
  next
    case (Some b)
    then have "pf_flags d r (f OR b) = (f', c', r')" using Cons.prems by (subst (asm) pf_flags.simps) simp
    then show ?thesis using Cons.IH by fastforce
  qed
qed

lemma pf_number_length: "pf_number c r w = (w', c', r') \<Longrightarrow> length r' \<le> length r"
proof (induction r arbitrary: c w)
  case Nil
  then show ?case by (subst (asm) pf_number.simps) (auto split: if_splits)
next
  case (Cons d r)
  show ?case
  proof (cases "48 \<le> c \<and> c \<le> 57")
    case False
    then show ?thesis using Cons.prems by (subst (asm) pf_number.simps) auto
  next
    case True
    then have "pf_number d r (int32 (w * 10 + uint c - 48)) = (w', c', r')"
      using Cons.prems by (subst (asm) pf_number.simps) simp
    then show ?thesis using Cons.IH by fastforce
  qed
qed

lemma pf_width_length: "pf_width c r n a = Some (w, c', r', a') \<Longrightarrow> length r' \<le> length r"
proof (cases "c = 42")
  case True
  moreover obtain x y where "pf_next r = (x, y)" by force
  moreover assume "pf_width c r n a = Some (w, c', r', a')"
  ultimately show ?thesis using pf_next_length [of r] by (auto simp: pf_width_def bind_eq_Some_conv)
next
  case False
  moreover obtain x y z where "pf_number c r 0 = (x, y, z)" by (metis prod_cases3)
  moreover assume "pf_width c r n a = Some (w, c', r', a')"
  ultimately show ?thesis using pf_number_length [of c r 0] by (auto simp: pf_width_def)
qed

lemma pf_modifier_length: "pf_modifier c r = (v, c', r') \<Longrightarrow> length r' \<le> length r"
  by (cases r; cases "tl r"; cases "tl (tl r)") (auto simp: pf_modifier_def split: if_splits)

lemma pf_parse_length: "pf_parse n r a = Some (f, r', a') \<Longrightarrow> length r' \<le> length r"
proof -
  assume *: "pf_parse n r a = Some (f, r', a')"
  obtain c0 r0 where 0: "pf_next r = (c0, r0)" by force
  obtain f1 c1 r1 where 1: "pf_flags c0 r0 0 = (f1, c1, r1)" by (metis prod_cases3)
  obtain w c2 r2 a2 where 2: "pf_width c1 r1 (int n) a = Some (w, c2, r2, a2)"
    using * 0 1 by (auto simp: pf_parse_def bind_eq_Some_conv)
  obtain pr c3 r3 a3 where 3: "(if c2 = 46 then let (c', r') = pf_next r2 in pf_width c' r' (int n) a2
      else Some (- 1, c2, r2, a2)) = Some (pr, c3, r3, a3)"
    using * 0 1 2 by (auto simp: pf_parse_def bind_eq_Some_conv)
  have "length r3 \<le> length r2"
    using 3 pf_next_length [of r2] by (fastforce simp: Let_def split: if_splits prod.splits dest: pf_width_length)
  moreover have "length r' \<le> length r3"
    using * 0 1 2 3 by (auto simp: pf_parse_def Let_def split: prod.splits dest: pf_modifier_length)
  ultimately show ?thesis
    using pf_next_length [of r] 0 pf_flags_length [OF 1] pf_width_length [OF 2] by simp
qed

function pf_loop :: "'u sflush \<Rightarrow> int \<Rightarrow> nat \<Rightarrow> byte list \<Rightarrow> 'u pf \<Rightarrow> 'u pf_res" where
  "pf_loop sflush len sroom fmt s =
     (if fmt = [] \<or> \<not> int (p_ind s) < len then Some (Inr s)
      else pf_then (pf_flush_if sflush (p_ind s = sroom) s) (\<lambda>s1.
        if hd fmt \<noteq> 37 then
          let p = pf_span (tl fmt) in
          pf_then (pf_text sflush sroom (hd fmt) p s1) (pf_loop sflush len sroom (drop (length p) (tl fmt)))
        else if tl fmt \<noteq> [] \<and> hd (tl fmt) = 37 then
          pf_then (pf_put 37 s1) (pf_loop sflush len sroom (tl (tl fmt)))
        else
          (case pf_parse sroom (tl fmt) (p_args s1) of
             None \<Rightarrow> None
           | Some (f, r, a) \<Rightarrow>
               if f_c f = 0 then Some (Inr (s1\<lparr>p_args := a\<rparr>))
               else pf_then (pf_conv sflush len sroom f (s1\<lparr>p_args := a\<rparr>)) (pf_loop sflush len sroom r))))"
  by pat_completeness auto
termination
proof (relation "measure (\<lambda>(g, len, n, fmt, s). length fmt)", goal_cases)
  case (4 g len n fmt s s1 x p q a b z)
  then show ?case using pf_parse_length [of n "tl fmt" "p_args s1"] by (cases fmt) auto
qed (auto simp: neq_Nil_conv)

declare pf_loop.simps [simp del]

definition xs_sprintf_core ::
  "'u sflush \<Rightarrow> 'u \<Rightarrow> byte list option \<Rightarrow> int \<Rightarrow> byte list option \<Rightarrow> pf_arg list \<Rightarrow> ('u pf \<times> int) option" where
  \<comment> \<open>the result and the final state, which holds the caller's buffer and user data\<close>
  "xs_sprintf_core sflush user str len fmt args =
     (let (buf, sroom, len') = (case str of None \<Rightarrow> (replicate 1024 0, 1024, 2147483647) | Some b \<Rightarrow> (b, nat len, len));
          s = \<lparr>p_str = buf, p_ind = 0, p_tot = 0, p_user = user, p_args = args, p_nout = []\<rparr>
      in
      if str \<noteq> None \<and> len = 0 then Some (s, 0)
      else case fmt of
        None \<Rightarrow> Some (s, 0)
      | Some fm \<Rightarrow> do {
          r \<leftarrow> pf_loop sflush len' sroom fm s;
          let (s1, ind) = (case r of Inl (s1, cc) \<Rightarrow> (s1, cc) | Inr s1 \<Rightarrow> (s1, int (p_ind s1)));
          (case sflush of
             None \<Rightarrow> Some (s1, ind + p_tot s1)
           | Some g \<Rightarrow>
               if ind < 0 then None
               else do {
                 d \<leftarrow> rds (p_str s1) 0 (nat ind);
                 (u, cc) \<leftarrow> g (p_user s1) d;
                 Some (s1\<lparr>p_user := u\<rparr>, (if cc \<noteq> ind then cc else ind) + p_tot s1) }) })"

definition xs_sprintf :: "byte list option \<Rightarrow> int \<Rightarrow> byte list option \<Rightarrow> pf_arg list \<Rightarrow> (byte list option \<times> int) option" where
  "xs_sprintf str len fmt args = do {
     (s, result) \<leftarrow> xs_sprintf_core None () str (if len \<noteq> 0 then len - 1 else 0) fmt args;
     (case str of
        None \<Rightarrow> Some (None, result)
      | Some _ \<Rightarrow> do {
          b \<leftarrow> (if 0 \<le> result \<and> result < len then wr (p_str s) (nat result) 0
                else if len \<noteq> 0 then wr (p_str s) 0 0
                else Some (p_str s));
          Some (Some b, result) }) }"

definition xs_sprintf_len :: "byte list option \<Rightarrow> pf_arg list \<Rightarrow> int option" where
  "xs_sprintf_len fmt args = map_option snd (xs_sprintf_core None () None 0 fmt args)"


definition xs_filep :: "byte list \<Rightarrow> byte list \<Rightarrow> (byte list \<times> int) option" where
  \<comment> \<open>\<open>fwrite\<close> on a file that takes every write; the file is what has been written\<close>
  "xs_filep f buf = Some (f @ buf, int (length buf))"

definition xs_fprintf :: "byte list option \<Rightarrow> byte list option \<Rightarrow> pf_arg list \<Rightarrow> (byte list option \<times> int) option" where
  \<comment> \<open>on an open file; \<open>xs_printf\<close> is the same on \<open>stdout\<close>. Without a file \<open>xs_fprintf_va\<close> only counts\<close>
  "xs_fprintf f fmt args =
     (case f of
        None \<Rightarrow> do { (s, r) \<leftarrow> xs_sprintf_core None () None 0 fmt args; Some (None, r) }
      | Some out \<Rightarrow> do { (s, r) \<leftarrow> xs_sprintf_core (Some xs_filep) out None 0 fmt args; Some (Some (p_user s), r) })"

subsection \<open>Digits\<close>

lemma pf_digit_xs_digit: "d \<le> 9 \<or> c = 120 \<Longrightarrow> pf_digit d c = xs_digit d"
  by (auto simp: pf_digit_def xs_digit_def)

lemma convert_to_backwards_str_text:
  assumes "2 \<le> r" "0 \<le> v" "v < 2 ^ n" "r \<le> 10 \<or> c = 120"
  shows "convert_to_backwards_str n v r c = rev (num_text r v) \<and> length (num_text r v) \<le> max 1 n"
  using assms(2,3)
proof (induction n arbitrary: v)
  case 0
  then show ?case using assms by (subst convert_to_backwards_str.simps) (simp add: num_text.simps pf_digit_xs_digit)
next
  case (Suc n)
  have d: "pf_digit (v - v div r * r) c = xs_digit (v mod r)"
  proof -
    have "v mod r < r" using assms(1) by simp
    then have "v mod r \<le> 9 \<or> c = 120" using assms(4) by linarith
    then show ?thesis by (simp add: pf_digit_xs_digit minus_div_mult_eq_mod)
  qed
  show ?case
  proof (cases "v < r")
    case True
    then have "v div r = 0" "v mod r = v" using Suc.prems by simp_all
    then show ?thesis using True d by (subst convert_to_backwards_str.simps) (simp add: num_text.simps)
  next
    case False
    have pos: "v div r \<noteq> 0" using False assms(1) Suc.prems(1) by (simp add: zdiv_eq_0_iff)
    have nn: "0 \<le> v div r" using assms(1) Suc.prems(1) by (simp add: pos_imp_zdiv_nonneg_iff)
    have "r * (v div r) \<le> v"
      using assms(1) Suc.prems(1) pos_mod_sign [of r v] mult_div_mod_eq [of r v] by linarith
    moreover have "2 * (v div r) \<le> r * (v div r)" using assms(1) nn by (intro mult_right_mono)
    ultimately have lt: "v div r < 2 ^ n" using Suc.prems(2) by simp
    have n: "0 < n" using lt pos nn by (cases n) auto
    have t: "num_text r v = num_text r (v div r) @ [xs_digit (v mod r)]"
      using False assms(1) by (subst num_text.simps) simp
    show ?thesis using Suc.IH [OF nn lt] pos d t n
      by (subst convert_to_backwards_str.simps) (auto simp: Let_def)
  qed
qed

subsection \<open>Printing with a callback that keeps what it is given\<close>

text \<open>The contract of a flush callback: it takes every block it is given, up to the room it has, and
  \<open>outp\<close> is what it has taken. Without a callback the text must fit in the buffer.\<close>

definition yields :: "'u pf_res \<Rightarrow> ('u pf \<Rightarrow> bool) \<Rightarrow> bool" where
  "yields r Q \<longleftrightarrow> (\<exists>s'. r = Some (Inr s') \<and> Q s')"

lemma yields_then: "yields r Q \<Longrightarrow> (\<And>s. Q s \<Longrightarrow> yields (f s) R) \<Longrightarrow> yields (pf_then r f) R"
  by (auto simp: yields_def pf_then_def)

lemma pf_then_Inr: "pf_then (Some (Inr s)) f = f s"
  by (simp add: pf_then_def)

lemma pf_then_id [simp]: "pf_then r (\<lambda>s. Some (Inr s)) = r"
  by (cases r) (auto simp: pf_then_def split: sum.split)

definition int_text :: "int \<Rightarrow> int \<Rightarrow> byte list" where
  "int_text r i = (if i < 0 then [45] else []) @ num_text r \<bar>i\<bar>"

lemma yields_Inr [simp]: "yields (Some (Inr s)) Q = Q s"
  by (auto simp: yields_def)

lemma pf_puts_copy:
  "p_ind s + length d \<le> length (p_str s) \<Longrightarrow> pf_puts d s = pf_copy d s"
proof (induction d arbitrary: s)
  case (Cons c d)
  let ?s = "s\<lparr>p_str := (p_str s)[p_ind s := c], p_ind := Suc (p_ind s)\<rparr>"
  have "pf_puts (c # d) s = pf_puts d ?s" using Cons.prems by (simp add: pf_put_def pf_then_def mem_simps)
  also have "\<dots> = pf_copy d ?s" using Cons.prems by (intro Cons.IH) simp
  also have "\<dots> = pf_copy (c # d) s" using Cons.prems
    by (simp add: pf_copy_def mem_simps upd_conv_take_nth_drop take_Suc_snoc add.commute)
  finally show ?case .
qed (simp add: pf_copy_def mem_simps)

lemma pf_puts_single: "pf_puts [c] s = pf_put c s"
  by (auto simp: pf_then_def pf_put_def wr_def)

text \<open>Formats as the callers build them: literal text, \<open>%%\<close> and the conversions without flags or
  widths, of \<open>int\<close> arguments and of 64-bit ones (\<open>%zd %zx %llx\<close>), with the text they stand for.\<close>

datatype pf_piece = P_lit "byte list" | P_pct | P_str "byte list" | P_int int | P_hex int | P_char int
  | P_size int | P_xsize int | P_xlong int

primrec piece_fmt :: "pf_piece \<Rightarrow> byte list" where
  "piece_fmt (P_lit t) = t"
| "piece_fmt P_pct = [37, 37]"
| "piece_fmt (P_str d) = [37, 115]"
| "piece_fmt (P_int i) = [37, 100]"
| "piece_fmt (P_hex i) = [37, 120]"
| "piece_fmt (P_char i) = [37, 99]"
| "piece_fmt (P_size i) = [37, 122, 100]"
| "piece_fmt (P_xsize i) = [37, 122, 120]"
| "piece_fmt (P_xlong i) = [37, 108, 108, 120]"

primrec piece_args :: "pf_piece \<Rightarrow> pf_arg list" where
  "piece_args (P_lit t) = []"
| "piece_args P_pct = []"
| "piece_args (P_str d) = [Arg_str d]"
| "piece_args (P_int i) = [Arg_int i]"
| "piece_args (P_hex i) = [Arg_int i]"
| "piece_args (P_char i) = [Arg_int i]"
| "piece_args (P_size i) = [Arg_int i]"
| "piece_args (P_xsize i) = [Arg_int i]"
| "piece_args (P_xlong i) = [Arg_int i]"

primrec piece_text :: "pf_piece \<Rightarrow> byte list" where
  "piece_text (P_lit t) = t"
| "piece_text P_pct = [37]"
| "piece_text (P_str d) = d"
| "piece_text (P_int i) = int_text 10 i"
| "piece_text (P_hex i) = int_text 16 i"
| "piece_text (P_char i) = [word_of_int i]"
| "piece_text (P_size i) = int_text 10 i"
| "piece_text (P_xsize i) = int_text 16 i"
| "piece_text (P_xlong i) = int_text 16 i"

primrec fmt_of :: "pf_piece list \<Rightarrow> byte list" where
  "fmt_of [] = []" | "fmt_of (p # ps) = piece_fmt p @ fmt_of ps"

primrec args_of :: "pf_piece list \<Rightarrow> pf_arg list" where
  "args_of [] = []" | "args_of (p # ps) = piece_args p @ args_of ps"

primrec text_of :: "pf_piece list \<Rightarrow> byte list" where
  "text_of [] = []" | "text_of (p # ps) = piece_text p @ text_of ps"

definition is_lit :: "pf_piece \<Rightarrow> bool" where
  "is_lit p = (case p of P_lit t \<Rightarrow> True | _ \<Rightarrow> False)"

primrec piece_ok :: "pf_piece \<Rightarrow> bool" where
  "piece_ok (P_lit t) \<longleftrightarrow> t \<noteq> [] \<and> 37 \<notin> set t"
| "piece_ok P_pct \<longleftrightarrow> True"
| "piece_ok (P_str d) \<longleftrightarrow> True"
| "piece_ok (P_int i) \<longleftrightarrow> - (2 ^ 31) \<le> i \<and> i < 2 ^ 31"
| "piece_ok (P_hex i) \<longleftrightarrow> - (2 ^ 31) \<le> i \<and> i < 2 ^ 31"
| "piece_ok (P_char i) \<longleftrightarrow> True"
| "piece_ok (P_size i) \<longleftrightarrow> - (2 ^ 63) \<le> i \<and> i < 2 ^ 63"
| "piece_ok (P_xsize i) \<longleftrightarrow> - (2 ^ 63) \<le> i \<and> i < 2 ^ 63"
| "piece_ok (P_xlong i) \<longleftrightarrow> - (2 ^ 63) \<le> i \<and> i < 2 ^ 63"

fun pieces_ok :: "pf_piece list \<Rightarrow> bool" where
  \<comment> \<open>literals are not empty, hold no percent sign and are maximal\<close>
  "pieces_ok [] = True"
| "pieces_ok [p] = piece_ok p"
| "pieces_ok (p # q # ps) = (piece_ok p \<and> \<not> (is_lit p \<and> is_lit q) \<and> pieces_ok (q # ps))"

definition plain_spec :: "byte \<Rightarrow> pf_spec" where
  "plain_spec c = \<lparr>f_flags = 0, f_w = 0, f_pr = - 1, f_vs = 4, f_c = c\<rparr>"

lemma pf_span_lit: "37 \<notin> set t \<Longrightarrow> r = [] \<or> hd r = 37 \<Longrightarrow> pf_span (t @ r) = t"
  by (induction t) (cases r; auto)+

lemma pieces_ok_Cons: "pieces_ok (p # ps) \<Longrightarrow> piece_ok p \<and> pieces_ok ps \<and> (is_lit p \<longrightarrow> fmt_of ps = [] \<or> hd (fmt_of ps) = 37)"
proof (cases ps)
  case (Cons q qs)
  then show "pieces_ok (p # ps) \<Longrightarrow> ?thesis" by (cases q) (auto simp: is_lit_def)
qed simp

lemma parse_plain:
  assumes "c \<in> {115, 100, 120, 99}"
  shows "pf_parse sroom (c # r) a = Some (plain_spec c, r, a)"
proof -
  have "pf_flags c r 0 = (0, c, r)" using assms by (subst pf_flags.simps) (auto simp: pf_flag_def)
  moreover have "pf_number c r 0 = (0, c, r)" using assms by (subst pf_number.simps) auto
  moreover have "pf_modifier c r = (4, c, r)"
    using assms by (cases "pf_next r") (auto simp: pf_modifier_def split: prod.split)
  moreover have "c \<noteq> 42" "c \<noteq> 46" using assms by auto
  ultimately show ?thesis by (simp add: pf_parse_def pf_width_def plain_spec_def)
qed

definition long_spec :: "byte \<Rightarrow> pf_spec" where
  "long_spec c = \<lparr>f_flags = 0, f_w = 0, f_pr = - 1, f_vs = 8, f_c = c\<rparr>"

lemma parse_long:
  "pf_parse sroom (122 # c # r) a = Some (long_spec c, r, a)"
  "pf_parse sroom (108 # 108 # c # r) a = Some (long_spec c, r, a)"
  by (simp_all add: pf_parse_def pf_width_def long_spec_def pf_modifier_def pf_flags.simps pf_number.simps pf_flag_def)

locale flusher =
  fixes sf :: "'u sflush" and outp :: "'u \<Rightarrow> byte list" and okp :: "'u \<Rightarrow> bool" and room :: "'u \<Rightarrow> nat"
  assumes flush_law: "sf = Some g \<Longrightarrow> okp u \<Longrightarrow> length d \<le> room u \<Longrightarrow> length d \<le> 1024 \<Longrightarrow>
      \<exists>u'. g u d = Some (u', int (length d)) \<and> okp u' \<and> outp u' = outp u @ d \<and> room u \<le> room u' + length d"
begin

definition good :: "byte list \<Rightarrow> int \<Rightarrow> nat \<Rightarrow> byte list \<Rightarrow> nat \<Rightarrow> pf_arg list \<Rightarrow> 'u pf \<Rightarrow> bool" where
  \<comment> \<open>after \<open>base\<close>, \<open>out\<close> has been printed and \<open>n\<close> more bytes can be\<close>
  "good base len sroom out n a s \<longleftrightarrow> sroom \<le> length (p_str s) \<and> p_ind s \<le> sroom \<and> 0 < sroom \<and> okp (p_user s) \<and>
     base @ out = outp (p_user s) @ take (p_ind s) (p_str s) \<and> p_tot s + int (p_ind s) = int (length out) \<and>
     p_args s = a \<and>
     (if sf = None then len = int sroom \<and> p_ind s + n \<le> sroom
      else sroom = 1024 \<and> len = 2147483647 \<and> n + 1024 < 2147483647 \<and> p_ind s + n \<le> room (p_user s))"

lemma good_flush:
  assumes "good base len sroom out n a s" "sf \<noteq> None"
  shows "yields (pf_flush sf s) (\<lambda>s'. good base len sroom out n a s' \<and> p_ind s' = 0)"
proof -
  obtain g where g: "sf = Some g" using assms(2) by auto
  have ne: "sf \<noteq> None" using g by simp
  note G = assms(1) [unfolded good_def if_not_P [OF ne]]
  have d: "rds (p_str s) 0 (p_ind s) = Some (take (p_ind s) (p_str s))" using G by (simp add: mem_simps)
  have l: "length (take (p_ind s) (p_str s)) = p_ind s" using G by simp
  obtain u where u: "g (p_user s) (take (p_ind s) (p_str s)) = Some (u, int (p_ind s))" "okp u"
    "outp u = outp (p_user s) @ take (p_ind s) (p_str s)" "room (p_user s) \<le> room u + p_ind s"
    using flush_law [OF g, of "p_user s" "take (p_ind s) (p_str s)"] G g l by auto
  show ?thesis using G d u unfolding pf_flush_def yields_def good_def if_not_P [OF ne] by (simp add: g)
qed

lemma good_room:
  assumes "good base len sroom out n a s" "int k + int (p_ind s) > int sroom" "k \<le> n"
  shows "sf \<noteq> None"
  using assms by (auto simp: good_def split: if_splits)

lemma good_flush_if:
  assumes "good base len sroom out n a s" "b \<Longrightarrow> sf \<noteq> None"
  shows "yields (pf_flush_if sf b s) (\<lambda>s'. good base len sroom out n a s' \<and> (if b then p_ind s' = 0 else s' = s))"
  using good_flush [OF assms(1)] assms by (auto simp: pf_flush_if_def yields_def)

lemma good_copy:
  assumes "good base len sroom out (length d + n) a s" "length d + p_ind s \<le> sroom"
  shows "yields (pf_copy d s) (good base len sroom (out @ d) n a)"
proof -
  note G = assms(1) [unfolded good_def]
  have b: "blit (p_str s) (p_ind s) d = Some (take (p_ind s) (p_str s) @ d @ drop (p_ind s + length d) (p_str s))"
    using G assms(2) by (simp add: mem_simps)
  have "base @ out @ d = outp (p_user s) @ take (p_ind s) (p_str s) @ d" using G by (metis append_assoc)
  then show ?thesis using G b assms(2)
    by (auto simp: pf_copy_def yields_def good_def)
qed

lemma good_puts:
  assumes "good base len sroom out (length d + n) a s" "length d + p_ind s \<le> sroom"
  shows "yields (pf_puts d s) (good base len sroom (out @ d) n a)"
proof -
  have "p_ind s + length d \<le> length (p_str s)" using assms by (simp add: good_def)
  then show ?thesis using good_copy [OF assms] by (simp add: pf_puts_copy)
qed

lemma good_put:
  assumes "good base len sroom out (Suc n) a s" "p_ind s < sroom"
  shows "yields (pf_put c s) (good base len sroom (out @ [c]) n a)"
  using good_puts [of base len sroom out "[c]" n a s] assms by (simp add: pf_puts_single del: pf_puts.simps)

lemma good_weaken: "good base len sroom out n a s \<Longrightarrow> m \<le> n \<Longrightarrow> good base len sroom out m a s"
  by (auto simp: good_def split: if_splits)

lemma good_chunks:
  assumes "good base len sroom out (length d + n) a s" "sf \<noteq> None"
  shows "yields (pf_chunks sf sroom d s) (good base len sroom (out @ d) n a)"
  using assms(1)
proof (induction d arbitrary: s out rule: length_induct)
  case (1 d)
  have sr: "0 < sroom" using "1.prems" by (simp add: good_def)
  have "yields (pf_flush sf s) (\<lambda>s'. good base len sroom out (length d + n) a s' \<and> p_ind s' = 0)"
    using good_flush "1.prems" assms(2) by blast
  moreover have "yields (pf_then (pf_copy (take sroom d) s1) (\<lambda>s2.
          if drop sroom d = [] then Some (Inr s2) else pf_chunks sf sroom (drop sroom d) s2))
        (good base len sroom (out @ d) n a)"
    if s1: "good base len sroom out (length d + n) a s1 \<and> p_ind s1 = 0" for s1
  proof (rule yields_then)
    have l: "length d + n = length (take sroom d) + (length (drop sroom d) + n)" by simp
    show "yields (pf_copy (take sroom d) s1) (good base len sroom (out @ take sroom d) (length (drop sroom d) + n) a)"
      using s1 l by (intro good_copy) auto
    fix s2 assume s2: "good base len sroom (out @ take sroom d) (length (drop sroom d) + n) a s2"
    show "yields (if drop sroom d = [] then Some (Inr s2) else pf_chunks sf sroom (drop sroom d) s2)
        (good base len sroom (out @ d) n a)"
    proof (cases "drop sroom d = []")
      case True
      then show ?thesis using s2 by simp
    next
      case False
      then have "length (drop sroom d) < length d" using sr by simp
      then have "yields (pf_chunks sf sroom (drop sroom d) s2)
          (good base len sroom ((out @ take sroom d) @ drop sroom d) n a)"
        using "1.IH" s2 by blast
      then show ?thesis using False by simp
    qed
  qed
  ultimately show ?case using sr by (subst pf_chunks.simps) (auto intro: yields_then)
qed

lemma good_string:
  assumes g: "good base len sroom out (length p + n) a s"
    and f: "f_flags f = 0" "f_w f = 0" "f_pr f = - 1" "f_vs f = 4"
  shows "yields (pf_string sf len sroom f p s) (good base len sroom (out @ p) n a)"
proof -
  let ?l = "int (length p)"
  have l: "min (len - int (p_ind s)) ?l = ?l" using g by (auto simp: good_def split: if_splits)
  have nf: "\<not> int sroom < int (p_ind s) - ?l" using g by (auto simp: good_def)
  have "yields (pf_flush_if sf (?l + int (p_ind s) > int sroom) s)
      (\<lambda>s'. good base len sroom out (length p + n) a s' \<and>
        (if ?l + int (p_ind s) > int sroom then p_ind s' = 0 else s' = s))"
    using good_flush_if [OF g] good_room [OF g, of "length p"] by simp
  moreover have "yields (if ?l + int (p_ind s1) > int sroom then pf_chunks sf sroom p s1 else pf_copy p s1)
      (good base len sroom (out @ p) n a)" if s1: "good base len sroom out (length p + n) a s1" for s1
    using good_chunks [OF s1] good_room [OF s1, of "length p"] good_copy [OF s1] by auto
  ultimately have "yields (pf_then (pf_flush_if sf (?l + int (p_ind s) > int sroom) s)
      (\<lambda>s1. if ?l + int (p_ind s1) > int sroom then pf_chunks sf sroom p s1 else pf_copy p s1))
      (good base len sroom (out @ p) n a)"
    by (blast intro: yields_then)
  then show ?thesis using f l nf
    by (simp add: pf_string_def Let_def pf_flush_if_def pf_fill_def pf_then_Inr cong: if_cong)
qed

lemma good_digits:
  assumes g: "good base len sroom out (length ds + n) a s" and ds: "ds \<noteq> []" "length ds \<le> 64"
    and f: "f_flags f = 0" "f_w f = 0" "f_pr f = - 1"
  shows "yields (pf_digits sf len sroom f ds s) (good base len sroom (out @ rev ds) n a)"
proof -
  let ?l = "int (length ds)"
  have l: "min (len - int (p_ind s)) ?l = ?l" using g by (auto simp: good_def split: if_splits)
  have nf: "\<not> int sroom < int (p_ind s) - ?l" "\<not> (0 \<le> - 1 - ?l \<and> int sroom < - 1 - ?l + int (p_ind s))"
    using g by (auto simp: good_def)
  have "yields (pf_flush_if sf (?l + int (p_ind s) > int sroom) s)
      (\<lambda>s'. good base len sroom out (length ds + n) a s' \<and>
        (if ?l + int (p_ind s) > int sroom then p_ind s' = 0 else s' = s))"
    using good_flush_if [OF g] good_room [OF g, of "length ds"] by simp
  moreover have "yields (pf_puts (rev ds) s1) (good base len sroom (out @ rev ds) n a)"
    if s1: "good base len sroom out (length ds + n) a s1 \<and>
        (if ?l + int (p_ind s) > int sroom then p_ind s1 = 0 else s1 = s)" for s1
  proof -
    have "length (rev ds) + p_ind s1 \<le> sroom"
    proof (cases "?l + int (p_ind s) > int sroom")
      case True
      then have "sf \<noteq> None" using good_room [OF g, of "length ds"] by simp
      then have "sroom = 1024" using g by (simp add: good_def)
      then show ?thesis using True s1 ds(2) by simp
    next
      case False
      then show ?thesis using s1 by simp
    qed
    then show ?thesis using good_puts [of base len sroom out "rev ds" n a s1] s1 by simp
  qed
  ultimately have "yields (pf_then (pf_flush_if sf (?l + int (p_ind s) > int sroom) s) (pf_puts (rev ds)))
      (good base len sroom (out @ rev ds) n a)"
    by (blast intro: yields_then)
  moreover have "pf_digits sf len sroom f ds s = pf_then (pf_flush_if sf (?l + int (p_ind s) > int sroom) s) (pf_puts (rev ds))"
  proof -
    have 1: "pf_flush_if sf (0 \<le> - 1 - ?l \<and> int sroom < - 1 - ?l + int (p_ind s)) s = Some (Inr s)"
      using nf(2) by (simp only: pf_flush_if_def if_False)
    have 2: "pf_fill 48 (min (- 1 - ?l) (len - int (p_ind s))) s = Some (Inr s)" by (simp add: pf_fill_def)
    have 3: "pf_flush_if sf (True \<and> int sroom < 0 - ?l + int (p_ind s)) s = Some (Inr s)"
      using nf(1) by (simp add: pf_flush_if_def)
    have 4: "pf_fill c (0 - ?l) s = Some (Inr s)" for c by (simp add: pf_fill_def)
    have 5: "\<not> ?l \<le> 0" "take (nat ?l) ds = ds" using ds(1) by simp_all
    show ?thesis
      unfolding pf_digits_def Let_def f bit_0_eq bot_apply bot_bool_def not_False_eq_True
      by (simp only: pf_then_Inr 1 2 3 4 5 l if_False pf_then_id)
  qed
  ultimately show ?thesis by simp
qed

lemma good_integer:
  assumes g: "good base len sroom out (length (int_text r i) + n) (Arg_int i # a) s"
    and i: "f_vs f = 4 \<and> - (2 ^ 31) \<le> i \<and> i < 2 ^ 31 \<or> f_vs f = 8 \<and> - (2 ^ 63) \<le> i \<and> i < 2 ^ 63"
    and f: "f_flags f = 0" "f_w f = 0" "f_pr f = - 1" and r: "r = 10 \<or> r = 16 \<and> f_c f = 120"
    and ind: "p_ind s < sroom"
  shows "yields (pf_integer sf len sroom f r s) (good base len sroom (out @ int_text r i) n a)"
proof -
  let ?v = "size64 i" and ?neg = "i < 0"
  have i32: "f_vs f = 4 \<Longrightarrow> int32 i = i" using i by (simp add: int32_id)
  have sgn: "bit ?v n = (i < 0)" if "n < 64" "signed_take_bit n i = i" for n
  proof -
    have "bit ?v n = bit (take_bit 64 i) n" by (simp add: size64_def take_bit_eq_mod)
    also have "\<dots> = bit i n" using that(1) by (simp only: bit_take_bit_iff) simp
    also have "\<dots> = (i < 0)" using that(2) signed_take_bit_negative_iff [of n i] by simp
    finally show ?thesis .
  qed
  have neg: "f_vs f = 4 \<Longrightarrow> bit ?v 31 = ?neg" "f_vs f = 8 \<Longrightarrow> bit ?v 63 = ?neg"
    using sgn [of 31] sgn [of 63] i32 i signed_take_bit_int_eq_self [of 63 i] by (simp_all add: int32_def)
  have abs: "(if ?neg then size64 (- ?v) else ?v) = \<bar>i\<bar>"
    using i by (auto simp: size64_def mod_minus_eq size64_id)
  let ?ds = "convert_to_backwards_str 64 \<bar>i\<bar> r (f_c f)"
  have ds: "?ds = rev (num_text r \<bar>i\<bar>)" "length (num_text r \<bar>i\<bar>) \<le> 64"
    using convert_to_backwards_str_text [of r "\<bar>i\<bar>" 64 "f_c f"] r i by auto
  have s0: "good base len sroom out (length (int_text r i) + n) a (s\<lparr>p_args := a\<rparr>)" "p_ind (s\<lparr>p_args := a\<rparr>) < sroom"
    "p_args s = Arg_int i # a"
    using g ind by (simp_all add: good_def)
  have "yields (pf_sign sf len sroom f r ?neg ?v (s\<lparr>p_args := a\<rparr>))
      (good base len sroom (out @ (if ?neg then [45] else [])) (length (num_text r \<bar>i\<bar>) + n) a)"
    using s0 f good_put [of base len sroom out "length (num_text r \<bar>i\<bar>) + n" a "s\<lparr>p_args := a\<rparr>" 45]
    by (auto simp: pf_sign_def int_text_def)
  moreover have "yields (pf_then (pf_flush_if sf (p_ind s1 = sroom) s1) (pf_digits sf len sroom f ?ds))
      (good base len sroom (out @ int_text r i) n a)"
    if s1: "good base len sroom (out @ (if ?neg then [45] else [])) (length (num_text r \<bar>i\<bar>) + n) a s1" for s1
  proof (rule yields_then)
    have nz: "0 < length (num_text r \<bar>i\<bar>)" using num_text_nonempty by auto
    have "p_ind s1 = sroom \<Longrightarrow> sf \<noteq> None" using good_room [OF s1, of "length (num_text r \<bar>i\<bar>)"] nz by simp
    then show "yields (pf_flush_if sf (p_ind s1 = sroom) s1)
        (\<lambda>s'. good base len sroom (out @ (if ?neg then [45] else [])) (length (num_text r \<bar>i\<bar>) + n) a s' \<and>
          (if p_ind s1 = sroom then p_ind s' = 0 else s' = s1))"
      using good_flush_if [OF s1] by blast
    fix s2 assume s2: "good base len sroom (out @ (if ?neg then [45] else [])) (length (num_text r \<bar>i\<bar>) + n) a s2 \<and>
          (if p_ind s1 = sroom then p_ind s2 = 0 else s2 = s1)"
    show "yields (pf_digits sf len sroom f ?ds s2) (good base len sroom (out @ int_text r i) n a)"
      using good_digits [of base len sroom "out @ (if ?neg then [45] else [])" ?ds n a s2 f] s2 ds nz f
      by (auto simp: int_text_def num_text_nonempty split: if_splits)
  qed
  ultimately have *: "yields (pf_then (pf_sign sf len sroom f r ?neg ?v (s\<lparr>p_args := a\<rparr>))
      (\<lambda>s1. pf_then (pf_flush_if sf (p_ind s1 = sroom) s1) (pf_digits sf len sroom f ?ds)))
      (good base len sroom (out @ int_text r i) n a)"
    by (rule yields_then)
  have eq: "pf_integer sf len sroom f r s = pf_then (pf_sign sf len sroom f r ?neg ?v (s\<lparr>p_args := a\<rparr>))
      (\<lambda>s1. pf_then (pf_flush_if sf (p_ind s1 = sroom) s1) (pf_digits sf len sroom f ?ds))"
    using f s0(3) i32 neg abs i by (cases ?neg; elim disjE conjE) (simp_all add: pf_integer_def Let_def pf_sign_def)
  show ?thesis unfolding eq by (rule *)
qed

lemma good_loop_step:
  assumes g: "good base len sroom out n a s" and fmt: "fmt \<noteq> []" and lt: "int (p_ind s) < len"
  shows "\<exists>s1. good base len sroom out n a s1 \<and> p_ind s1 < sroom \<and>
    pf_flush_if sf (p_ind s = sroom) s = Some (Inr s1)"
proof -
  have "p_ind s = sroom \<Longrightarrow> sf \<noteq> None" using g lt by (auto simp: good_def split: if_splits)
  then obtain s1 where s1: "pf_flush_if sf (p_ind s = sroom) s = Some (Inr s1)" "good base len sroom out n a s1"
    "if p_ind s = sroom then p_ind s1 = 0 else s1 = s"
    using good_flush_if [OF g, of "p_ind s = sroom"] unfolding yields_def by blast
  have "p_ind s \<le> sroom" "0 < sroom" using g by (simp_all add: good_def)
  then have "p_ind s1 < sroom" using s1(3) by (auto split: if_splits)
  then show ?thesis using s1 by blast
qed

lemma good_loop_text:
  assumes g: "good base len sroom out (length (c # p) + n) a s" and ind: "p_ind s < sroom"
  shows "yields (pf_text sf sroom c p s) (good base len sroom (out @ c # p) n a)"
proof (cases "p = []")
  case True
  then show ?thesis using good_put [of base len sroom out n a s c] assms by (simp add: pf_text_def)
next
  case False
  show ?thesis
  proof (cases "Suc (length p) + p_ind s > sroom")
    case True
    then have "sf \<noteq> None" using good_room [OF g, of "Suc (length p)"] by simp
    then show ?thesis using good_chunks [OF g] True False by (simp add: pf_text_def)
  next
    case fits: False
    then show ?thesis using good_copy [OF g] False by (simp add: pf_text_def)
  qed
qed

lemma good_pieces:
  assumes "pieces_ok ps" "good base len sroom out (length (text_of ps) + m) (args_of ps) s"
  shows "yields (pf_loop sf len sroom (fmt_of ps) s) (\<lambda>s'. \<exists>a. good base len sroom (out @ text_of ps) m a s')"
  using assms
proof (induction ps arbitrary: s out)
  case Nil
  then show ?case by (subst pf_loop.simps) auto
next
  case (Cons p ps)
  let ?R = "\<lambda>s'. \<exists>a. good base len sroom (out @ text_of (p # ps)) m a s'"
  note OK = pieces_ok_Cons [OF Cons.prems(1)]
  have ok: "pieces_ok ps" and pok: "piece_ok p" using OK by simp_all
  have next': "yields (pf_loop sf len sroom (fmt_of ps) s2) ?R"
    if "good base len sroom (out @ piece_text p) (length (text_of ps) + m) (args_of ps) s2" for s2
    using Cons.IH [OF ok that] by simp
  show ?case
  proof (cases "int (p_ind s) < len")
    case False
    then have "text_of (p # ps) = []" using Cons.prems(2) by (auto simp: good_def split: if_splits)
    then have "?R s" using Cons.prems(2) by auto
    then show ?thesis using False by (subst pf_loop.simps) simp
  next
    case lt: True
    have ne: "fmt_of (p # ps) \<noteq> []" using pok by (cases p) auto
    obtain s1 where s1: "good base len sroom out (length (text_of (p # ps)) + m) (args_of (p # ps)) s1" "p_ind s1 < sroom"
      "pf_flush_if sf (p_ind s = sroom) s = Some (Inr s1)"
      using good_loop_step [OF Cons.prems(2) ne lt] by blast
    note G = s1(1) and loop = pf_loop.simps [of sf len sroom "fmt_of (p # ps)" s]
    have args: "p_args s1 = args_of (p # ps)" using G by (simp add: good_def)
    have upd: "s1\<lparr>p_args := p_args s1\<rparr> = s1" by simp
    show ?thesis
    proof (cases p)
      case (P_lit t)
      then obtain c t' where t: "t = c # t'" "37 \<notin> set t" using pok by (cases t) auto
      have sp: "pf_span (t' @ fmt_of ps) = t'"
        using pf_span_lit [of t' "fmt_of ps"] t OK P_lit by (auto simp: is_lit_def)
      have "yields (pf_text sf sroom c t' s1) (good base len sroom (out @ c # t') (length (text_of ps) + m) (args_of ps))"
        using G s1(2) P_lit t by (intro good_loop_text) (simp_all add: add.assoc)
      then have "yields (pf_then (pf_text sf sroom c t' s1) (pf_loop sf len sroom (fmt_of ps))) ?R"
        by (rule yields_then) (rule next', simp add: P_lit t)
      then show ?thesis using lt s1(3) P_lit t sp unfolding loop by (simp add: pf_then_Inr)
    next
      case P_pct
      have "yields (pf_put 37 s1) (good base len sroom (out @ [37]) (length (text_of ps) + m) (args_of ps))"
        using G s1(2) P_pct by (intro good_put) simp_all
      then have "yields (pf_then (pf_put 37 s1) (pf_loop sf len sroom (fmt_of ps))) ?R"
        by (rule yields_then) (rule next', simp add: P_pct)
      then show ?thesis using lt s1(3) P_pct unfolding loop by (simp add: pf_then_Inr)
    next
      case (P_str d)
      have "yields (pf_conv sf len sroom (plain_spec 115) s1)
          (good base len sroom (out @ d) (length (text_of ps) + m) (args_of ps))"
      proof -
        have "good base len sroom out (length d + (length (text_of ps) + m)) (args_of ps) (s1\<lparr>p_args := args_of ps\<rparr>)"
          using G P_str by (auto simp: good_def split: if_splits)
        then show ?thesis using good_string args P_str by (simp add: pf_conv_def plain_spec_def)
      qed
      then have "yields (pf_then (pf_conv sf len sroom (plain_spec 115) s1) (pf_loop sf len sroom (fmt_of ps))) ?R"
        by (rule yields_then) (rule next', simp add: P_str)
      then show ?thesis using lt s1(3) P_str upd parse_plain [of 115 sroom "fmt_of ps" "p_args s1"] unfolding loop
        by (simp add: pf_then_Inr plain_spec_def)
    next
      case (P_int i)
      have "yields (pf_conv sf len sroom (plain_spec 100) s1)
          (good base len sroom (out @ int_text 10 i) (length (text_of ps) + m) (args_of ps))"
        using good_integer [of base len sroom out 10 i "length (text_of ps) + m" "args_of ps" s1 "plain_spec 100"]
          G args P_int s1(2) pok by (simp add: pf_conv_def pf_radix_def plain_spec_def add.assoc)
      then have "yields (pf_then (pf_conv sf len sroom (plain_spec 100) s1) (pf_loop sf len sroom (fmt_of ps))) ?R"
        by (rule yields_then) (rule next', simp add: P_int)
      then show ?thesis using lt s1(3) P_int upd parse_plain [of 100 sroom "fmt_of ps" "p_args s1"] unfolding loop
        by (simp add: pf_then_Inr plain_spec_def)
    next
      case (P_hex i)
      have "yields (pf_conv sf len sroom (plain_spec 120) s1)
          (good base len sroom (out @ int_text 16 i) (length (text_of ps) + m) (args_of ps))"
        using good_integer [of base len sroom out 16 i "length (text_of ps) + m" "args_of ps" s1 "plain_spec 120"]
          G args P_hex s1(2) pok by (simp add: pf_conv_def pf_radix_def plain_spec_def add.assoc)
      then have "yields (pf_then (pf_conv sf len sroom (plain_spec 120) s1) (pf_loop sf len sroom (fmt_of ps))) ?R"
        by (rule yields_then) (rule next', simp add: P_hex)
      then show ?thesis using lt s1(3) P_hex upd parse_plain [of 120 sroom "fmt_of ps" "p_args s1"] unfolding loop
        by (simp add: pf_then_Inr plain_spec_def)
    next
      case (P_char i)
      have "yields (pf_conv sf len sroom (plain_spec 99) s1)
          (good base len sroom (out @ [word_of_int i]) (length (text_of ps) + m) (args_of ps))"
      proof -
        have "good base len sroom out (Suc (length (text_of ps) + m)) (args_of ps) (s1\<lparr>p_args := args_of ps\<rparr>)"
          using G P_char by (auto simp: good_def split: if_splits)
        then show ?thesis using good_put args P_char s1(2) by (simp add: pf_conv_def plain_spec_def)
      qed
      then have "yields (pf_then (pf_conv sf len sroom (plain_spec 99) s1) (pf_loop sf len sroom (fmt_of ps))) ?R"
        by (rule yields_then) (rule next', simp add: P_char)
      then show ?thesis using lt s1(3) P_char upd parse_plain [of 99 sroom "fmt_of ps" "p_args s1"] unfolding loop
        by (simp add: pf_then_Inr plain_spec_def)
    next
      case (P_size i)
      have "yields (pf_conv sf len sroom (long_spec 100) s1)
          (good base len sroom (out @ int_text 10 i) (length (text_of ps) + m) (args_of ps))"
        using good_integer [of base len sroom out 10 i "length (text_of ps) + m" "args_of ps" s1 "long_spec 100"]
          G args P_size s1(2) pok by (simp add: pf_conv_def pf_radix_def long_spec_def add.assoc)
      then have "yields (pf_then (pf_conv sf len sroom (long_spec 100) s1) (pf_loop sf len sroom (fmt_of ps))) ?R"
        by (rule yields_then) (rule next', simp add: P_size)
      then show ?thesis using lt s1(3) P_size upd parse_long [of sroom 100 "fmt_of ps" "p_args s1"] unfolding loop
        by (simp add: pf_then_Inr long_spec_def)
    next
      case (P_xsize i)
      have "yields (pf_conv sf len sroom (long_spec 120) s1)
          (good base len sroom (out @ int_text 16 i) (length (text_of ps) + m) (args_of ps))"
        using good_integer [of base len sroom out 16 i "length (text_of ps) + m" "args_of ps" s1 "long_spec 120"]
          G args P_xsize s1(2) pok by (simp add: pf_conv_def pf_radix_def long_spec_def add.assoc)
      then have "yields (pf_then (pf_conv sf len sroom (long_spec 120) s1) (pf_loop sf len sroom (fmt_of ps))) ?R"
        by (rule yields_then) (rule next', simp add: P_xsize)
      then show ?thesis using lt s1(3) P_xsize upd parse_long [of sroom 120 "fmt_of ps" "p_args s1"] unfolding loop
        by (simp add: pf_then_Inr long_spec_def)
    next
      case (P_xlong i)
      have "yields (pf_conv sf len sroom (long_spec 120) s1)
          (good base len sroom (out @ int_text 16 i) (length (text_of ps) + m) (args_of ps))"
        using good_integer [of base len sroom out 16 i "length (text_of ps) + m" "args_of ps" s1 "long_spec 120"]
          G args P_xlong s1(2) pok by (simp add: pf_conv_def pf_radix_def long_spec_def add.assoc)
      then have "yields (pf_then (pf_conv sf len sroom (long_spec 120) s1) (pf_loop sf len sroom (fmt_of ps))) ?R"
        by (rule yields_then) (rule next', simp add: P_xlong)
      then show ?thesis using lt s1(3) P_xlong upd parse_long [of sroom 120 "fmt_of ps" "p_args s1"] unfolding loop
        by (simp add: pf_then_Inr long_spec_def)
    qed
  qed
qed

lemma core_text:
  assumes "pieces_ok ps" "sf = Some g" "okp u" "length (text_of ps) + m \<le> room u" "length (text_of ps) + m + 1024 < 2147483647"
  shows "\<exists>s. xs_sprintf_core sf u None 0 (Some (fmt_of ps)) (args_of ps) = Some (s, int (length (text_of ps))) \<and>
    okp (p_user s) \<and> outp (p_user s) = outp u @ text_of ps \<and> m \<le> room (p_user s)"
proof -
  let ?s = "\<lparr>p_str = replicate 1024 0, p_ind = 0, p_tot = 0, p_user = u, p_args = args_of ps, p_nout = []\<rparr>"
  have ne: "sf \<noteq> None" using assms(2) by simp
  have "good (outp u) 2147483647 1024 [] (length (text_of ps) + m) (args_of ps) ?s"
    using assms(3-5) ne by (simp add: good_def)
  then obtain s a where s: "pf_loop sf 2147483647 1024 (fmt_of ps) ?s = Some (Inr s)"
    "good (outp u) 2147483647 1024 (text_of ps) m a s"
    using good_pieces [OF assms(1)] unfolding yields_def by fastforce
  note G = s(2) [unfolded good_def if_not_P [OF ne]]
  have d: "rds (p_str s) 0 (p_ind s) = Some (take (p_ind s) (p_str s))" using G by (simp add: mem_simps)
  have l: "length (take (p_ind s) (p_str s)) = p_ind s" using G by simp
  obtain u' where u': "g (p_user s) (take (p_ind s) (p_str s)) = Some (u', int (p_ind s))" "okp u'"
    "outp u' = outp (p_user s) @ take (p_ind s) (p_str s)" "room (p_user s) \<le> room u' + p_ind s"
    using flush_law [OF assms(2), of "p_user s" "take (p_ind s) (p_str s)"] G l by auto
  show ?thesis using s(1) d u' G assms(2) by (auto simp: xs_sprintf_core_def)
qed

lemma buffer_text:
  assumes "pieces_ok ps" "sf = None" "okp u" "\<And>v. outp v = []" "n \<noteq> 0" "length (text_of ps) \<le> n" "n \<le> length b"
  shows "\<exists>s. xs_sprintf_core sf u (Some b) (int n) (Some (fmt_of ps)) (args_of ps) = Some (s, int (length (text_of ps))) \<and>
    n \<le> length (p_str s) \<and> take (length (text_of ps)) (p_str s) = text_of ps"
proof -
  let ?s = "\<lparr>p_str = b, p_ind = 0, p_tot = 0, p_user = u, p_args = args_of ps, p_nout = []\<rparr>"
  have "good [] (int n) n [] (length (text_of ps) + 0) (args_of ps) ?s"
    using assms(3-7) unfolding good_def if_P [OF assms(2)] by simp
  then obtain s a where s: "pf_loop sf (int n) n (fmt_of ps) ?s = Some (Inr s)"
    "good [] (int n) n (text_of ps) 0 a s"
    using good_pieces [OF assms(1)] unfolding yields_def by fastforce
  note G = s(2) [unfolded good_def if_P [OF assms(2)]]
  have "p_ind s = length (text_of ps)" using G assms(4) by auto
  then show ?thesis using s(1) G assms(2,4,5) by (auto simp: xs_sprintf_core_def)
qed

end

subsection \<open>Properties of \<open>xs_sprintf\<close>\<close>

interpretation buffer_only: flusher "None :: unit sflush" "\<lambda>_. []" "\<lambda>_. True" "\<lambda>_. 0"
  by unfold_locales simp

interpretation to_file: flusher "Some xs_filep" "\<lambda>f. f" "\<lambda>_. True" "\<lambda>_. 2147482000"
  by unfold_locales (simp add: xs_filep_def)

lemma xs_fprintf_writes:
  assumes "pieces_ok ps" "length (text_of ps) < 2147482000"
  shows "xs_fprintf (Some out) (Some (fmt_of ps)) (args_of ps) = Some (Some (out @ text_of ps), int (length (text_of ps)))"
proof -
  obtain s where "xs_sprintf_core (Some xs_filep) out None 0 (Some (fmt_of ps)) (args_of ps) = Some (s, int (length (text_of ps)))"
    "p_user s = out @ text_of ps"
    using to_file.core_text [where u = out and m = 0 and g = xs_filep, OF assms(1)] assms(2) by auto
  then show ?thesis by (simp add: xs_fprintf_def)
qed

lemma sprintf_text:
  assumes "pieces_ok ps" "length (text_of ps) + 1 < n" "n \<le> length b"
  shows "\<exists>b'. xs_sprintf (Some b) (int n) (Some (fmt_of ps)) (args_of ps) = Some (Some b', int (length (text_of ps))) \<and>
    take (length (text_of ps) + 1) b' = text_of ps @ [0]"
proof -
  have "\<exists>s. xs_sprintf_core None () (Some b) (int (n - 1)) (Some (fmt_of ps)) (args_of ps) = Some (s, int (length (text_of ps))) \<and>
    n - 1 \<le> length (p_str s) \<and> take (length (text_of ps)) (p_str s) = text_of ps"
    using assms by (intro buffer_only.buffer_text) auto
  then obtain s where s: "xs_sprintf_core None () (Some b) (int (n - 1)) (Some (fmt_of ps)) (args_of ps) = Some (s, int (length (text_of ps)))"
    "n - 1 \<le> length (p_str s)" "take (length (text_of ps)) (p_str s) = text_of ps" by blast
  let ?L = "length (text_of ps)"
  have n: "int n \<noteq> 0" "int n - 1 = int (n - 1)" "int ?L < int n" using assms(2) by auto
  have l: "?L < length (p_str s)" using s(2) assms(2) by linarith
  have w: "wr (p_str s) ?L 0 = Some ((p_str s)[?L := 0])" using l by (rule wr_Some)
  have t: "take (?L + 1) ((p_str s)[?L := 0]) = text_of ps @ [0]"
    using take_Suc_snoc [of ?L "(p_str s)[?L := 0]"] l s(3) by simp
  have "xs_sprintf (Some b) (int n) (Some (fmt_of ps)) (args_of ps) = Some (Some ((p_str s)[?L := 0]), int ?L)"
    using n s(1) w by (simp add: xs_sprintf_def)
  then show ?thesis using t by blast
qed

text \<open>C29: \<open>xs_sprintf\<close> prints. For a format of literal text, \<open>%%\<close> and the plain conversions \<open>%s %d %x %c %zd %zx %llx\<close>
  with matching arguments, whose text is shorter than the given size, the buffer begins with exactly
  that text and its terminator, and the result is its length.\<close>

theorem xs_sprintf_prints:
  assumes "pieces_ok ps" "length (text_of ps) + 1 < n" "n \<le> length b"
  shows "\<exists>b'. xs_sprintf (Some b) (int n) (Some (fmt_of ps)) (args_of ps) = Some (Some b', int (length (text_of ps))) \<and>
    take (length (text_of ps) + 1) b' = text_of ps @ [0]"
  by (rule sprintf_text [OF assms])

theorem xs_sprintf_prints_witness:
  "\<exists>b'. xs_sprintf (Some (replicate 20 1)) 20 (Some (bytes ''n=%d %s%x'')) [Arg_int (- 12), Arg_str (bytes ''ab''), Arg_int 255] =
      Some (Some b', 10) \<and> take 11 b' = bytes ''n=-12 abff'' @ [0]"
proof -
  let ?ps = "[P_lit (bytes ''n=''), P_int (- 12), P_lit [32], P_str (bytes ''ab''), P_hex 255]"
  have ok: "pieces_ok ?ps" by (simp add: is_lit_def)
  have f: "fmt_of ?ps = bytes ''n=%d %s%x''" and a: "args_of ?ps = [Arg_int (- 12), Arg_str (bytes ''ab''), Arg_int 255]"
    by simp_all
  have t: "text_of ?ps = bytes ''n=-12 abff''" by (simp add: int_text_def num_text.simps xs_digit_def)
  have l: "length (text_of ?ps) = 10" "length (text_of ?ps) + 1 = 11" unfolding t by simp_all
  show ?thesis using xs_sprintf_prints [OF ok, of 20 "replicate 20 1"] unfolding l(2) unfolding l(1) f a t by simp
qed

text \<open>A precision that exactly fills the buffer makes \<open>xs_sprintf\<close> leave it. With a size of 5, the format
  \<open>a%.4d\<close> and any one-digit number, the zero fill leaves no room for the digit, and the loop that copies the
  digits then runs below the digit array and past the buffer.\<close>

theorem xs_sprintf_precision_overrun:
  "xs_sprintf (Some [b0, b1, b2, b3, b4]) 5 (Some (bytes ''a%.4d'')) [Arg_int 7] = None"
proof -
  let ?f = "\<lparr>f_flags = 0, f_w = 0, f_pr = 4, f_vs = 4, f_c = 100\<rparr>"
  have parse: "pf_parse 4 [46, 52, 100] [Arg_int 7] = Some (?f, [], [Arg_int 7])"
    by (simp add: pf_parse_def pf_flags.simps pf_flag_def pf_width_def pf_number.simps pf_modifier_def int32_id)
  have digs: "convert_to_backwards_str 64 7 10 100 = [55]"
    by (simp add: convert_to_backwards_str.simps pf_digit_def)
  have "pf_digits None 4 4 ?f [55] s = None" if "p_ind s = 1" "length (p_str s) = 5" for s :: "unit pf"
    using that
    by (simp add: pf_digits_def Let_def pf_flush_if_def pf_fill_def pf_then_def pf_put_def mem_simps numeral_3_eq_3)
  then have conv: "pf_conv None 4 4 ?f s = None"
    if "p_ind s = 1" "length (p_str s) = 5" "p_args s = [Arg_int 7]" for s :: "unit pf"
    using that
    by (simp add: pf_conv_def pf_radix_def pf_integer_def pf_sign_def pf_then_def pf_flush_if_def int32_id size64_id digs Let_def)
  have two: "pf_loop None 4 4 [37, 46, 52, 100] s = None"
    if "p_ind s = 1" "length (p_str s) = 5" "p_args s = [Arg_int 7]" for s :: "unit pf"
    using that parse conv by (subst pf_loop.simps) (simp add: pf_then_def pf_flush_if_def)
  have "pf_loop None 4 4 [97, 37, 46, 52, 100] s = None"
    if "p_ind s = 0" "length (p_str s) = 5" "p_args s = [Arg_int 7]" for s :: "unit pf"
    using that two by (subst pf_loop.simps) (simp add: pf_then_def pf_flush_if_def pf_text_def pf_put_def mem_simps)
  then show ?thesis by (simp add: xs_sprintf_def xs_sprintf_core_def)
qed

end
