(* ===== verification/ConnWrite.thy ===== *)
theory ConnWrite
  imports Conn Printf
begin

text \<open>
  Formatted output on a connection (\<open>xs/xs_connection.h\<close>): the callbacks that hand printed text to the
  write path, \<open>xs_conn_printf\<close> and its variants, chunked transfer encoding, error responses and the
  requests a client sends. The current time is a parameter (its text as \<open>xs_timestr_now\<close> gives it).
\<close>

subsection \<open>Callbacks and printing\<close>

type_synonym conn_print = "xs_conn \<Rightarrow> byte list \<Rightarrow> (xs_conn \<times> int) option"

definition xs_conn_print_cb :: "(nat \<Rightarrow> bool) \<Rightarrow> conn_print" where
  "xs_conn_print_cb room conn s = do { (c, n) \<leftarrow> xs_conn_write room conn s; Some (c, int (length s)) }"

definition xs_conn_print_more_cb :: "(nat \<Rightarrow> bool) \<Rightarrow> conn_print" where
  "xs_conn_print_more_cb room conn s = do { (c, n) \<leftarrow> xs_conn_write_ex room conn s True; Some (c, int (length s)) }"

definition xs_conn_print_header_cb :: "(nat \<Rightarrow> bool) \<Rightarrow> conn_print" where
  "xs_conn_print_header_cb room conn s = do { (c, n) \<leftarrow> xs_conn_write_header room conn s; Some (c, int n) }"

definition conn_print_with :: "conn_print \<Rightarrow> xs_conn \<Rightarrow> byte list \<Rightarrow> pf_arg list \<Rightarrow> (xs_conn \<times> int) option" where
  \<comment> \<open>the common body of \<open>xs_conn_printf\<close> and its variants\<close>
  "conn_print_with cb conn fmt args =
     (if fmt = [] then Some (conn, 0)
      else do { (s, r) \<leftarrow> xs_sprintf_core (Some cb) conn None 0 (Some fmt) args; Some (p_user s, r) })"

definition xs_conn_printf :: "(nat \<Rightarrow> bool) \<Rightarrow> xs_conn \<Rightarrow> byte list \<Rightarrow> pf_arg list \<Rightarrow> (xs_conn \<times> int) option" where
  "xs_conn_printf room = conn_print_with (xs_conn_print_cb room)"

definition xs_conn_printf_header ::
  "(nat \<Rightarrow> bool) \<Rightarrow> xs_conn \<Rightarrow> byte list \<Rightarrow> pf_arg list \<Rightarrow> (xs_conn \<times> int) option" where
  "xs_conn_printf_header room = conn_print_with (xs_conn_print_header_cb room)"

definition xs_conn_write_chunked :: "(nat \<Rightarrow> bool) \<Rightarrow> xs_conn \<Rightarrow> byte list \<Rightarrow> (xs_conn \<times> int) option" where
  \<comment> \<open>no data ends the message\<close>
  "xs_conn_write_chunked room conn data =
     (if data = [] then xs_conn_printf_header room conn (bytes ''0'' @ [13, 10, 13, 10]) []
      else do {
        (c1, r1) \<leftarrow> xs_conn_printf_header room conn (bytes ''%x'' @ [13, 10]) [Arg_int (int (length data))];
        (c2, r2) \<leftarrow> xs_conn_write room c1 data;
        (c3, r3) \<leftarrow> xs_conn_printf_header room c2 [13, 10] [];
        Some (c3, r1 + int r2 + r3) })"

definition xs_conn_printf_chunked ::
  "(nat \<Rightarrow> bool) \<Rightarrow> xs_conn \<Rightarrow> byte list \<Rightarrow> pf_arg list \<Rightarrow> (xs_conn \<times> int) option" where
  "xs_conn_printf_chunked room conn fmt args =
     (if fmt = [] then xs_conn_write_chunked room conn []
      else do {
        len \<leftarrow> xs_sprintf_len (Some fmt) args;
        (c1, r1) \<leftarrow> xs_conn_printf_header room conn (bytes ''%x'' @ [13, 10]) [Arg_int len];
        (s, r2) \<leftarrow> xs_sprintf_core (Some (xs_conn_print_more_cb room)) c1 None 0 (Some fmt) args;
        (c3, r3) \<leftarrow> xs_conn_printf_header room (p_user s) [13, 10] [];
        Some (c3, r1 + r2 + r3) })"

subsection \<open>Responses and requests\<close>

definition crlf :: "byte list" where "crlf = [13, 10]"

definition xs_server_name :: "byte list" where "xs_server_name = bytes ''webxs/0.5''"

definition xs_conn_write_httperror ::
  "(nat \<Rightarrow> bool) \<Rightarrow> byte list \<Rightarrow> xs_conn \<Rightarrow> int \<Rightarrow> byte list \<Rightarrow> byte list \<Rightarrow> pf_arg list \<Rightarrow> (xs_conn \<times> int) option" where
  "xs_conn_write_httperror room now conn statuscode description body args = do {
     result \<leftarrow> (if body \<noteq> [] then xs_sprintf_len (Some body) args else Some 0);
     let req = xs_conn_getreq conn;
     let ver = (case xs_http_get req exs_Req_Version of
        None \<Rightarrow> bytes ''1.0''
      | Some v \<Rightarrow> v);
     (c1, n) \<leftarrow> xs_conn_printf_header room conn
        (bytes ''HTTP/%s %d %s'' @ crlf @ bytes ''Content-Length: %d'' @ crlf @ bytes ''Connection: %s'' @ crlf @
         bytes ''Server: %s'' @ crlf @ bytes ''Date: %s'' @ crlf)
        [Arg_str ver, Arg_int statuscode, Arg_str description, Arg_int result,
         Arg_str (if xs_http_getint req exs_Req_KeepAlive \<noteq> 0 then bytes ''keep-alive'' else bytes ''close''),
         Arg_str xs_server_name, Arg_str now];
     (c2, m) \<leftarrow> xs_conn_header_done room c1 (body \<noteq> []);
     if body \<noteq> [] then xs_conn_printf room c2 body args else Some (c2, result) }"

definition xs_conn_httprequest ::
  "(nat \<Rightarrow> bool) \<Rightarrow> byte list \<Rightarrow> xs_conn \<Rightarrow> byte list option \<Rightarrow> byte list option \<Rightarrow> byte list option \<Rightarrow>
    (xs_conn \<times> int) option" where
  "xs_conn_httprequest room now conn host meth0 path0 =
     (case (meth0, path0) of
       (Some meth, Some path) \<Rightarrow>
        if \<not> xs_http_validmethod meth then Some (conn\<lparr>c_errnum := exs_Error_InvalidRequest\<rparr>, - 1)
        else do {
        let line = bytes ''%s %s HTTP/1.1'' @ crlf @ bytes ''Connection: keep-alive'' @ crlf @ bytes ''Server: %s'' @ crlf @
                   bytes ''Date: %s'' @ crlf;
        let args = [Arg_str meth, Arg_str path, Arg_str xs_server_name, Arg_str now];
        (c1, r) \<leftarrow> (case (case host of None \<Rightarrow> c_host conn | Some h \<Rightarrow> Some h) of
            Some h \<Rightarrow> xs_conn_printf_header room conn (line @ bytes ''Host: %s '' @ crlf) (args @ [Arg_str h])
          | None \<Rightarrow> xs_conn_printf_header room conn line args);
        m \<leftarrow> xs_strlcpy (c_method c1) (Some meth) 10;
        Some (c1\<lparr>c_method := m\<rparr>, r) }
     | _ \<Rightarrow> Some (conn\<lparr>c_errnum := exs_Error_InvalidRequest\<rparr>, - 50))"

definition xs_conn_httpwebsocket ::
  "(nat \<Rightarrow> bool) \<Rightarrow> byte list \<Rightarrow> xs_conn \<Rightarrow> byte list option \<Rightarrow> byte list option \<Rightarrow> (xs_conn \<times> int) option" where
  "xs_conn_httpwebsocket room now conn host path =
     (case path of
        None \<Rightarrow> Some (conn\<lparr>c_errnum := exs_Error_InvalidRequest\<rparr>, - 50)
      | Some p \<Rightarrow>
          let h = (case host of None \<Rightarrow> c_host conn | Some x \<Rightarrow> Some x) in
          xs_conn_printf_header room conn
            (bytes ''GET %s HTTP/1.1'' @ crlf @ bytes ''Upgrade: websocket'' @ crlf @ bytes ''Server: %s'' @ crlf @
             bytes ''Date: %s'' @ crlf @ bytes ''Connection: Upgrade'' @ crlf @ bytes ''Sec-WebSocket-Version: 13'' @ crlf @
             bytes ''Sec-WebSocket-Key: %s'' @ crlf @ bytes ''%s%s%s'')
            [Arg_str p, Arg_str xs_server_name, Arg_str now, Arg_str (bytes ''sr33k0t2ypZYKUwIrsGYaw==''),
             Arg_str (if h \<noteq> None then bytes ''Host: '' else []),
             Arg_str (case h of None \<Rightarrow> [] | Some x \<Rightarrow> x),
             Arg_str (if h \<noteq> None then crlf else [])])"

subsection \<open>What writing leaves alone\<close>

definition reader_of :: "xs_conn \<Rightarrow> _" where
  \<comment> \<open>the part of the connection that is not the write side\<close>
  "reader_of c = (c_refcount c, c_seq c, c_rcount c, c_sock c, c_upgrade c, c_proto c, c_datalen c, c_consumed c,
     c_bufsize c, c_buf c, c_host c, c_method c, c_req c, c_freereq c, e_recv c)"

definition write_frame :: "xs_conn \<Rightarrow> xs_conn \<Rightarrow> bool" where
  "write_frame c c' \<longleftrightarrow> reader_of c' = reader_of c \<and> set (e_send c') \<subseteq> set (e_send c) \<and>
     (\<exists>w. e_wire c' = e_wire c @ w) \<and> (c_wblocked c' \<longrightarrow> c_wblocked c)"

lemma write_frame_refl [simp]: "write_frame c c"
  by (simp add: write_frame_def)

lemma write_frame_trans: "write_frame a b \<Longrightarrow> write_frame b c \<Longrightarrow> write_frame a c"
  by (auto simp: write_frame_def)

lemma write_frame_upd [simp]:
  "write_frame c (c'\<lparr>c_errnum := e\<rparr>) = write_frame c c'"
  "write_frame c (c'\<lparr>c_corked := k\<rparr>) = write_frame c c'"
  "write_frame c (c'\<lparr>c_wcache := ar\<rparr>) = write_frame c c'"
  "write_frame c (c'\<lparr>e_pollout := p\<rparr>) = write_frame c c'"
  "write_frame (c\<lparr>c_errnum := e\<rparr>) c' = write_frame c c'"
  by (simp_all add: write_frame_def reader_of_def)

lemma sock_send_frame: "sock_send c d = (c', n, e) \<Longrightarrow> write_frame c c'"
  by (auto simp: sock_send_def write_frame_def reader_of_def split: list.splits sock_send.splits)

lemma cache_append_frame: "cache_append room c d = Some (c', r) \<Longrightarrow> write_frame c c'"
  by (auto simp: cache_append_def bind_eq_Some_conv Let_def split: if_splits option.splits)

text \<open>A relation between connections that every step of the write path respects holds between the connection
  before and after each of its operations.\<close>

locale write_relation =
  fixes R :: "xs_conn \<Rightarrow> xs_conn \<Rightarrow> bool"
  assumes rel_refl: "R c c"
    and rel_trans: "R a b \<Longrightarrow> R b c \<Longrightarrow> R a c"
    and rel_send: "sock_send c d = (c', n, e) \<Longrightarrow> R c c'"
    and rel_append: "cache_append room c d = Some (c', r) \<Longrightarrow> R c c'"
    and rel_poll: "R c (c\<lparr>e_pollout := p\<rparr>)"
    and rel_errnum: "R c (c\<lparr>c_errnum := e\<rparr>)"
    and rel_corked: "R c (c\<lparr>c_corked := k\<rparr>)"
    and rel_cache: "R c (c\<lparr>c_wcache := ar\<rparr>)" "R c (c\<lparr>c_wblocked := False\<rparr>)"
begin

lemma rel_errnum2: "R a b \<Longrightarrow> R a (b\<lparr>c_errnum := e\<rparr>)"
  using rel_trans rel_errnum by blast

lemma rel_send_loop: "send_loop room own c d tot = Some (c', n, ret) \<Longrightarrow> R c c'"
proof (induction "length d - tot" arbitrary: c tot rule: less_induct)
  case less
  let ?amt = "min (length d - tot) INT_MAX"
  obtain c1 k e where s: "sock_send c (take ?amt (drop tot d)) = (c1, k, e)" by (metis prod_cases3)
  note f = rel_send [OF s]
  show ?case
  proof (cases "tot < length d \<and> k = int ?amt \<and> 0 < k")
    case True
    then have "send_loop room own c1 d (tot + nat (max k 0)) = Some (c', n, ret)"
      using less.prems s by (subst (asm) send_loop.simps) (simp add: Let_def)
    moreover have "length d - (tot + nat (max k 0)) < length d - tot" using True by auto
    ultimately show ?thesis using less.hyps f rel_trans by blast
  next
    case False
    let ?rest = "?amt - nat (max k 0)" and ?tot = "tot + nat (max k 0)"
    consider (past) "\<not> tot < length d" | (zero) "tot < length d" "k = 0" | (stop) "tot < length d" "k \<noteq> 0" "k = int ?amt" "\<not> 0 < k"
      | (short) "tot < length d" "k \<noteq> 0" "k \<noteq> int ?amt"
      using False by blast
    then show ?thesis
    proof cases
      case past
      then show ?thesis using less.prems rel_refl by (subst (asm) send_loop.simps) simp
    next
      case zero
      then show ?thesis using less.prems s f by (subst (asm) send_loop.simps) (simp add: Let_def)
    next
      case stop
      then show ?thesis using less.prems s f by (subst (asm) send_loop.simps) (simp add: Let_def)
    next
      case short
      let ?X = "if own then Some (c1, 0) else cache_append room c1 (take ?rest (drop ?tot d))"
      have eq: "send_loop room own c d tot = Option.bind ?X (\<lambda>(c2, r). Some
          (if 0 < k then c2\<lparr>c_errnum := exs_Error_WriteBusy\<rparr>
           else let c3 = xs_conn_seterr c2 e in if c_errnum c3 = 0 then c3\<lparr>c_errnum := exs_Error_WriteBusy\<rparr> else c3,
           if r \<noteq> 0 then ?tot + ?rest else ?tot, False))"
        using short s by (subst send_loop.simps) (simp only: Let_def if_True if_False prod.case not_False_eq_True)
      obtain c2 r where c2: "?X = Some (c2, r)" using less.prems unfolding eq by (cases ?X) auto
      have f2: "R c1 c2" using c2 rel_append rel_refl by (auto split: if_splits)
      have "R c1 c'" using less.prems f2 unfolding eq c2
        by (auto simp: xs_conn_seterr_def Let_def intro: rel_errnum2 split: if_splits)
      then show ?thesis using f rel_trans by blast
    qed
  qed
qed

lemma rel_write_body: "write_body room own c d cork = Some (c', n) \<Longrightarrow> R c c'"
  by (auto simp: write_body_def bind_eq_Some_conv Let_def split: if_splits dest!: rel_send_loop
      intro: rel_trans rel_corked)

lemma rel_cachepurge:
  assumes "xs_conn_cachepurge room c = Some (c', r)"
  shows "R c c'"
proof (cases "aCount (c_wcache c) = 0")
  case False
  obtain d where d: "aData (c_wcache c) = Some d" using assms False by (auto simp: xs_conn_cachepurge_def bind_eq_Some_conv Let_def)
  obtain dt where dt: "rds d 0 (nat (aCount (c_wcache c))) = Some dt"
    using assms False d by (auto simp: xs_conn_cachepurge_def bind_eq_Some_conv Let_def)
  obtain c1 n where w: "write_body room True (c\<lparr>c_errnum := 0\<rparr>) dt True = Some (c1, n)"
    using assms False d dt by (auto simp: xs_conn_cachepurge_def bind_eq_Some_conv Let_def)
  have f: "R c c1" using rel_write_body [OF w] rel_errnum rel_trans by blast
  show ?thesis
  proof (cases "int n = aCount (c_wcache c)")
    case True
    then have "c' = (c1\<lparr>c_wcache := (c_wcache c1)\<lparr>aCount := 0\<rparr>\<rparr>)\<lparr>c_wblocked := False\<rparr>"
      using assms False d dt w by (auto simp: xs_conn_cachepurge_def)
    then show ?thesis using f rel_cache rel_trans by metis
  next
    case part: False
    then show ?thesis using assms False d dt w f rel_trans rel_cache(1)
      by (auto simp: xs_conn_cachepurge_def bind_eq_Some_conv Let_def)
  qed
qed (use assms rel_refl in \<open>simp add: xs_conn_cachepurge_def\<close>)

lemma rel_writable: "xs_conn_writable c = (c', w) \<Longrightarrow> R c c'"
  by (auto simp: xs_conn_writable_def rel_refl rel_poll split: if_splits list.splits)

lemma rel_cachefill:
  assumes "xs_conn_cachefill room own c d force = Some (c', r)"
  shows "R c c'"
proof -
  obtain c1 w where w: "xs_conn_writable c = (c1, w)" by force
  note f1 = rel_writable [OF w]
  have p: "R c c2" if "xs_conn_cachepurge room c1 = Some (c2, r2)" for c2 r2
    using rel_cachepurge [OF that] f1 rel_trans by blast
  show ?thesis
    using assms w f1 p
    by (auto simp: xs_conn_cachefill_def bind_eq_Some_conv rel_refl split: if_splits
        dest!: rel_append intro: rel_trans)
qed

lemma rel_write_ex:
  assumes "xs_conn_write_ex room c d cork = Some (c', n)"
  shows "R c c'"
proof -
  obtain c1 r where f: "xs_conn_cachefill room False (c\<lparr>c_errnum := 0\<rparr>) d False = Some (c1, r)"
    using assms by (auto simp: xs_conn_write_ex_def bind_eq_Some_conv)
  have f1: "R c c1" using rel_cachefill [OF f] rel_errnum rel_trans by blast
  show ?thesis
    using assms f f1 rel_write_body rel_trans
    by (fastforce simp: xs_conn_write_ex_def split: if_splits)
qed

end

interpretation frame: write_relation write_frame
  by unfold_locales
    (auto simp: write_frame_def reader_of_def intro: write_frame_trans dest!: sock_send_frame cache_append_frame)

lemmas cachepurge_frame = frame.rel_cachepurge
lemmas write_ex_frame = frame.rel_write_ex

subsection \<open>The callbacks keep the contract of the printer\<close>

definition conn_ready :: "xs_conn \<Rightarrow> bool" where
  \<comment> \<open>a connection to an open socket that is not held back by \<open>xs_conn_cacheset\<close>\<close>
  "conn_ready conn \<longleftrightarrow> cache_ok conn \<and> socket_open conn \<and> \<not> c_wblocked conn"

definition conn_out :: "xs_conn \<Rightarrow> byte list" where
  \<comment> \<open>all that has been written: what is on the wire, then what waits in the cache\<close>
  "conn_out conn = e_wire conn @ cached conn"

definition conn_room :: "xs_conn \<Rightarrow> nat" where
  "conn_room conn = nat (maxcache - aCount (c_wcache conn))"

lemma conn_ready_frame:
  "write_frame c c' \<Longrightarrow> conn_ready c \<Longrightarrow> cache_ok c' \<Longrightarrow> conn_ready c'"
  by (auto simp: conn_ready_def write_frame_def socket_open_def)

lemma conn_room_frame:
  assumes "write_frame c c'" "cache_ok c" "cache_ok c'" "conn_out c' = conn_out c @ d"
  shows "conn_room c \<le> conn_room c' + length d"
proof -
  obtain w where "e_wire c' = e_wire c @ w" using assms(1) by (auto simp: write_frame_def)
  then have "length w + length (cached c') = length (cached c) + length d"
    using arg_cong [OF assms(4), of length] by (simp add: conn_out_def)
  then have "aCount (c_wcache c') \<le> aCount (c_wcache c) + int (length d)"
    using cached_length [OF assms(2)] cached_length [OF assms(3)] by linarith
  then show ?thesis by (simp add: conn_room_def)
qed

lemma append_nothing:
  assumes ok: "cache_ok c" and n: "aCount (c_wcache c) \<noteq> 0"
  shows "\<exists>c'. cache_append room c [] = Some (c', - 1) \<and> cache_ok c' \<and> conn_out c' = conn_out c"
proof -
  let ?ar = "c_wcache c"
  have wf: "arr_wf ?ar" and le: "aCount ?ar \<le> maxcache" using ok by (simp_all add: cache_ok_def)
  obtain d where d: "aData ?ar = Some d" using wf n by (auto simp: arr_wf_def split: option.splits)
  note w = arr_wf_Some [OF wf d]
  have "xs_arr_add room 0 ?ar (Some []) 0 = Some (?ar, Some (aCount ?ar))"
    using w d by (simp add: xs_arr_add_def arr_grow_def blit_def)
  then have "cache_append room c [] = Some (if c_errnum c = 0 then c\<lparr>c_errnum := exs_Error_WriteBusy\<rparr> else c, - 1)"
    using le by (simp add: cache_append_def Let_def)
  then show ?thesis using ok by (simp add: cache_ok_def conn_out_def cached_def)
qed

lemma write_body_nothing: "write_body room own c [] cork = Some (if cork then c\<lparr>c_corked := True\<rparr> else c\<lparr>c_corked := False\<rparr>, 0)"
  by (simp add: write_body_def send_loop.simps)

lemma write_nothing:
  assumes ok: "cache_ok c" and nb: "\<not> c_wblocked c"
  shows "\<exists>c'. xs_conn_write_ex room c [] cork = Some (c', 0) \<and> cache_ok c' \<and> conn_out c' = conn_out c"
proof -
  let ?c = "c\<lparr>c_errnum := 0\<rparr>"
  have "\<exists>c1 r. xs_conn_cachefill room False ?c [] False = Some (c1, r) \<and> cache_ok c1 \<and> conn_out c1 = conn_out c"
  proof (cases "aCount (c_wcache c) = 0")
    case True
    then show ?thesis using ok nb by (simp add: xs_conn_cachefill_def cache_ok_def conn_out_def cached_def)
  next
    case False
    obtain c1 w where w: "xs_conn_writable ?c = (c1, w)" by force
    have c1: "cache_ok c1" "conn_out c1 = conn_out c" "aCount (c_wcache c1) \<noteq> 0"
      using writable_frame [OF w] ok False by (auto simp: cache_ok_def conn_out_def cached_def)
    obtain c2 r where p: "xs_conn_cachepurge room c1 = Some (c2, r)" "conn_out c2 = conn_out c1" "cache_ok c2"
      "r = 0 \<or> cached c2 \<noteq> []"
      using cachepurge_flow [OF c1(1), of room] unfolding conn_out_def by blast
    have "r \<noteq> 0 \<Longrightarrow> aCount (c_wcache c2) \<noteq> 0" using p(4) cached_length [OF p(3)] by auto
    then show ?thesis
      using append_nothing [OF c1(1,3), of room] append_nothing [OF p(3), of room] False nb w p c1
      by (cases w; cases "r = 0") (auto simp: xs_conn_cachefill_def)
  qed
  then show ?thesis
    by (auto simp: xs_conn_write_ex_def write_body_nothing cache_ok_def conn_out_def cached_def)
qed

lemma conn_write_ready:
  assumes r: "conn_ready c" and d: "length d \<le> conn_room c" and room: "\<forall>k. room k"
  shows "\<exists>c'. xs_conn_write_ex room c d cork = Some (c', length d) \<and> conn_ready c' \<and> conn_out c' = conn_out c @ d \<and>
    conn_room c \<le> conn_room c' + length d \<and> write_frame c c'"
proof (cases "d = []")
  case True
  obtain c' where c': "xs_conn_write_ex room c [] cork = Some (c', 0)" "cache_ok c'" "conn_out c' = conn_out c"
    using write_nothing [of c room cork] r by (auto simp: conn_ready_def)
  have f: "write_frame c c'" using write_ex_frame [OF c'(1)] .
  have o: "conn_out c' = conn_out c @ []" using c'(3) by simp
  have "cache_ok c" using r by (simp add: conn_ready_def)
  then have "conn_room c \<le> conn_room c' + length ([] :: byte list)" using conn_room_frame [OF f _ c'(2) o] by blast
  then show ?thesis using c' f conn_ready_frame [OF f r c'(2)] True by simp
next
  case False
  have fit: "int (length d) + aCount (c_wcache c) \<le> maxcache"
    using d False length_greater_0_conv [of d] unfolding conn_room_def by linarith
  moreover have "0 \<le> aCount (c_wcache c)" using r cached_length [of c] by (simp add: conn_ready_def)
  ultimately have "length d \<le> INT_MAX" by simp
  then obtain c' where c': "xs_conn_write_ex room c d cork = Some (c', length d)" "cache_ok c'"
    "e_wire c' @ cached c' = e_wire c @ cached c @ d"
    using write_in_order [where conn = c and data = d and cork = cork, OF _ False _ _ room] r fit
    by (auto simp: conn_ready_def)
  have f: "write_frame c c'" using write_ex_frame [OF c'(1)] .
  have o: "conn_out c' = conn_out c @ d" using c'(3) by (simp add: conn_out_def)
  show ?thesis using c' f o r conn_ready_frame [OF f r] conn_room_frame [OF f _ _ o] by (simp add: conn_ready_def)
qed

interpretation header_cb: flusher "Some (xs_conn_print_header_cb (\<lambda>_. True))" conn_out conn_ready conn_room
proof
  fix g u and d :: "byte list"
  assume "Some (xs_conn_print_header_cb (\<lambda>_. True)) = Some g" "conn_ready u" "length d \<le> conn_room u"
  then show "\<exists>u'. g u d = Some (u', int (length d)) \<and> conn_ready u' \<and> conn_out u' = conn_out u @ d \<and>
      conn_room u \<le> conn_room u' + length d"
    using conn_write_ready [of u d "\<lambda>_. True" True]
    by (force simp: xs_conn_print_header_cb_def xs_conn_write_header_def)
qed

interpretation print_cb: flusher "Some (xs_conn_print_cb (\<lambda>_. True))" conn_out conn_ready conn_room
proof
  fix g u and d :: "byte list"
  assume "Some (xs_conn_print_cb (\<lambda>_. True)) = Some g" "conn_ready u" "length d \<le> conn_room u"
  then show "\<exists>u'. g u d = Some (u', int (length d)) \<and> conn_ready u' \<and> conn_out u' = conn_out u @ d \<and>
      conn_room u \<le> conn_room u' + length d"
    using conn_write_ready [of u d "\<lambda>_. True" False]
    by (force simp: xs_conn_print_cb_def xs_conn_write_def)
qed

interpretation print_more_cb: flusher "Some (xs_conn_print_more_cb (\<lambda>_. True))" conn_out conn_ready conn_room
proof
  fix g u and d :: "byte list"
  assume "Some (xs_conn_print_more_cb (\<lambda>_. True)) = Some g" "conn_ready u" "length d \<le> conn_room u"
  then show "\<exists>u'. g u d = Some (u', int (length d)) \<and> conn_ready u' \<and> conn_out u' = conn_out u @ d \<and>
      conn_room u \<le> conn_room u' + length d"
    using conn_write_ready [of u d "\<lambda>_. True" True]
    by (force simp: xs_conn_print_more_cb_def)
qed

subsection \<open>Printed text reaches the connection\<close>

lemma conn_print_text:
  assumes fl: "flusher (Some cb) conn_out conn_ready conn_room" and ok: "pieces_ok ps" "ps \<noteq> []" "conn_ready conn"
    and room: "length (text_of ps) + m \<le> conn_room conn"
  shows "\<exists>conn'. conn_print_with cb conn (fmt_of ps) (args_of ps) = Some (conn', int (length (text_of ps))) \<and>
    conn_ready conn' \<and> conn_out conn' = conn_out conn @ text_of ps \<and> m \<le> conn_room conn'"
proof -
  have "0 \<le> aCount (c_wcache conn)" using ok(3) cached_length [of conn] by (simp add: conn_ready_def)
  then have "length (text_of ps) + m + 1024 < 2147483647" using room by (simp add: conn_room_def)
  then obtain s where "xs_sprintf_core (Some cb) conn None 0 (Some (fmt_of ps)) (args_of ps) = Some (s, int (length (text_of ps)))"
    "conn_ready (p_user s)" "conn_out (p_user s) = conn_out conn @ text_of ps" "m \<le> conn_room (p_user s)"
    using flusher.core_text [OF fl ok(1) refl ok(3) room] by blast
  moreover have "fmt_of ps \<noteq> []" using pieces_ok_Cons [of "hd ps" "tl ps"] ok by (cases ps; cases "hd ps") auto
  ultimately show ?thesis by (simp add: conn_print_with_def)
qed

lemmas printf_header_text = conn_print_text [OF header_cb.flusher_axioms, folded xs_conn_printf_header_def]
lemmas printf_text = conn_print_text [OF print_cb.flusher_axioms, folded xs_conn_printf_def]

subsection \<open>Chunked transfer encoding\<close>

lemma xs_fromhex_digit: "0 \<le> v \<Longrightarrow> v < 16 \<Longrightarrow> xs_fromhex (xs_digit v) = v"
proof -
  assume "0 \<le> v" "v < 16"
  then have "v \<in> set [0..15]" by simp
  then have "v \<in> {0, 1, 2, 3, 4, 5, 6, 7, 8, 9, 10, 11, 12, 13, 14, 15}" by (simp add: upto_rec1)
  then show ?thesis by (elim insertE emptyE) (simp_all add: xs_fromhex_def xs_digit_def)
qed

lemma hex_text_value:
  "0 \<le> v \<Longrightarrow> (\<forall>c\<in>set (num_text 16 v). hex_digit c) \<and> hex_value 0 (num_text 16 v) = v"
proof (induction "16 :: int" v rule: num_text.induct)
  case (1 v)
  show ?case
  proof (cases "v < 16")
    case True
    then show ?thesis using 1(2) by (simp add: num_text.simps hex_digit_def hex_value_def xs_fromhex_digit)
  next
    case False
    then have "num_text 16 v = num_text 16 (v div 16) @ [xs_digit (v mod 16)]" by (subst num_text.simps) simp
    moreover have "(\<forall>c\<in>set (num_text 16 (v div 16)). hex_digit c) \<and> hex_value 0 (num_text 16 (v div 16)) = v div 16"
      using 1 False by simp
    ultimately show ?thesis by (auto simp: hex_digit_def hex_value_def xs_fromhex_digit)
  qed
qed

definition chunk_text :: "byte list \<Rightarrow> byte list" where
  \<comment> \<open>one chunk of a chunked message\<close>
  "chunk_text data = num_text 16 (int (length data)) @ crlf @ data @ crlf"

lemma write_chunked_text:
  assumes r: "conn_ready conn" and d: "data \<noteq> []" and room: "length (chunk_text data) + m \<le> conn_room conn"
  shows "\<exists>conn'. xs_conn_write_chunked (\<lambda>_. True) conn data = Some (conn', int (length (chunk_text data))) \<and>
    conn_ready conn' \<and> conn_out conn' = conn_out conn @ chunk_text data \<and> m \<le> conn_room conn'"
proof -
  let ?h = "[P_hex (int (length data)), P_lit [13, 10]]" and ?e = "[P_lit [13, 10]]"
  have lim: "length data < 2 ^ 31"
    using room r cached_length [of conn] by (simp add: chunk_text_def conn_room_def conn_ready_def)
  have h: "pieces_ok ?h" "pieces_ok ?e" using lim by (simp_all add: is_lit_def)
  have ht: "text_of ?h = num_text 16 (int (length data)) @ [13, 10]" by (simp add: int_text_def)
  obtain c1 where c1: "xs_conn_printf_header (\<lambda>_. True) conn (fmt_of ?h) (args_of ?h) = Some (c1, int (length (text_of ?h)))"
    "conn_ready c1" "conn_out c1 = conn_out conn @ text_of ?h" "length data + (2 + m) \<le> conn_room c1"
    using printf_header_text [OF h(1) _ r, of "length data + (2 + m)"] room
    unfolding ht by (auto simp: chunk_text_def crlf_def)
  obtain c2 where c2: "xs_conn_write (\<lambda>_. True) c1 data = Some (c2, length data)" "conn_ready c2"
    "conn_out c2 = conn_out c1 @ data" "conn_room c1 \<le> conn_room c2 + length data"
    using conn_write_ready [OF c1(2), of data "\<lambda>_. True" False] c1(4) by (auto simp: xs_conn_write_def)
  obtain c3 where c3: "xs_conn_printf_header (\<lambda>_. True) c2 (fmt_of ?e) (args_of ?e) = Some (c3, int (length (text_of ?e)))"
    "conn_ready c3" "conn_out c3 = conn_out c2 @ text_of ?e" "m \<le> conn_room c3"
    using printf_header_text [OF h(2) _ c2(2), of m] c1(4) c2(4) by auto
  show ?thesis
    using d c1 c2 c3 unfolding ht
    by (simp add: xs_conn_write_chunked_def chunk_text_def crlf_def)
qed

subsection \<open>Properties\<close>

text \<open>Formatted output reaches the connection whole and in order. On a connection to an open socket with
  room in its cache for the text, \<open>xs_conn_printf_header\<close> with a plain format writes exactly the formatted
  text after what was written before, whatever the socket takes at each call, and reports its length.\<close>

theorem xs_conn_printf_header_writes:
  assumes "conn_ready conn" "pieces_ok ps" "ps \<noteq> []" "length (text_of ps) \<le> conn_room conn"
  shows "\<exists>conn'. xs_conn_printf_header (\<lambda>_. True) conn (fmt_of ps) (args_of ps) = Some (conn', int (length (text_of ps))) \<and>
    conn_ready conn' \<and> conn_out conn' = conn_out conn @ text_of ps"
  using printf_header_text [OF assms(2,3,1), of 0] assms(4) by auto

theorem xs_conn_printf_header_writes_witness:
  "\<exists>conn'. xs_conn_printf_header (\<lambda>_. True) (xs_conn_create\<lparr>c_sock := 5, e_send := [Sent 2, Send_again]\<rparr>)
      (bytes ''%d %s'') [Arg_int 404, Arg_str (bytes ''no'')] = Some (conn', 6) \<and>
    e_wire conn' @ cached conn' = bytes ''404 no''"
proof -
  let ?c = "xs_conn_create\<lparr>c_sock := 5, e_send := [Sent 2, Send_again]\<rparr>"
  let ?ps = "[P_int 404, P_lit [32], P_str (bytes ''no'')]"
  have c: "conn_ready ?c" "conn_out ?c = []" "conn_room ?c = 1000000"
    by (simp_all add: xs_conn_create_def cache_ok_def arr_wf_def xs_arr_create_def cached_def arr_contents_def
        socket_open_def conn_ready_def conn_out_def conn_room_def)
  have t: "text_of ?ps = bytes ''404 no''" by (simp add: int_text_def num_text.simps xs_digit_def)
  have l: "length (text_of ?ps) = 6" unfolding t by simp
  show ?thesis
    using xs_conn_printf_header_writes [OF c(1), of ?ps] c(2,3) t l
    by (auto simp: is_lit_def conn_out_def)
qed

text \<open>C30: a chunk that \<open>xs_conn_write_chunked\<close> writes is a chunk to \<open>xs_scan_chunk\<close>: wherever it stands in the
  stream, scanning it gives the size of the data and the position at which the data begins, and the data is
  there. The call reports the number of bytes written.\<close>

theorem xs_conn_write_chunked_scans:
  assumes "conn_ready conn" "data \<noteq> []" "length (chunk_text data) \<le> conn_room conn"
  shows "\<exists>conn' ch. xs_conn_write_chunked (\<lambda>_. True) conn data = Some (conn', int (length ch)) \<and> conn_ready conn' \<and>
    conn_out conn' = conn_out conn @ ch \<and>
    (\<forall>pre r. \<exists>k. xs_scan_chunk (pre @ ch @ r) (length pre) (length ch) = Some (int (length data), Some k) \<and>
       take (length data + 2) (drop k (pre @ ch @ r)) = data @ crlf)"
proof -
  let ?ds = "num_text 16 (int (length data))"
  obtain conn' where c: "xs_conn_write_chunked (\<lambda>_. True) conn data = Some (conn', int (length (chunk_text data)))"
    "conn_ready conn'" "conn_out conn' = conn_out conn @ chunk_text data"
    using write_chunked_text [OF assms(1,2), of 0] assms(3) by auto
  have lim: "int (length data) < 2 ^ 31"
    using assms(1,3) cached_length [of conn] by (simp add: chunk_text_def conn_room_def conn_ready_def)
  have "xs_scan_chunk (pre @ chunk_text data @ r) (length pre) (length (chunk_text data)) =
      Some (int (length data), Some (length pre + length ?ds + 2)) \<and>
      take (length data + 2) (drop (length pre + length ?ds + 2) (pre @ chunk_text data @ r)) = data @ crlf" for pre r
    using scan_chunk_value [of "[]" ?ds "length (chunk_text data)" "data @ crlf @ r" pre]
      hex_text_value [of "int (length data)"] num_text_nonempty lim assms(2)
    by (simp add: chunk_text_def crlf_def)
  then show ?thesis using c by blast
qed

theorem xs_conn_write_chunked_scans_witness:
  "\<exists>conn' k. xs_conn_write_chunked (\<lambda>_. True) (xs_conn_create\<lparr>c_sock := 5\<rparr>) (replicate 20 7) = Some (conn', 26) \<and>
    xs_scan_chunk (conn_out conn') 0 26 = Some (20, Some k)"
proof -
  let ?c = "xs_conn_create\<lparr>c_sock := 5\<rparr>" and ?d = "replicate 20 (7 :: byte)"
  have c: "conn_ready ?c" "conn_out ?c = []" "conn_room ?c = 1000000"
    by (simp_all add: xs_conn_create_def cache_ok_def arr_wf_def xs_arr_create_def cached_def arr_contents_def
        socket_open_def conn_ready_def conn_out_def conn_room_def)
  have "length (num_text 16 20) = 2" by (simp add: num_text.simps)
  then have l: "length (chunk_text ?d) = 26" by (simp add: chunk_text_def crlf_def)
  obtain conn' ch where w0: "xs_conn_write_chunked (\<lambda>_. True) ?c ?d = Some (conn', int (length ch))"
    "conn_out conn' = conn_out ?c @ ch" "\<forall>pre r. \<exists>k. xs_scan_chunk (pre @ ch @ r) (length pre) (length ch) =
      Some (int (length ?d), Some k) \<and> take (length ?d + 2) (drop k (pre @ ch @ r)) = ?d @ crlf"
    using xs_conn_write_chunked_scans [OF c(1), of ?d] c(3) l by auto
  have "\<exists>k. xs_scan_chunk ([] @ ch @ []) (length ([] :: byte list)) (length ch) = Some (int (length ?d), Some k)"
    using w0(3) [THEN spec [of _ "[]"], THEN spec [of _ "[]"]] by (elim exE conjE) (rule exI)
  then obtain k where "xs_scan_chunk ([] @ ch @ []) (length ([] :: byte list)) (length ch) = Some (int (length ?d), Some k)"
    by (rule exE)
  then have w: "xs_conn_write_chunked (\<lambda>_. True) ?c ?d = Some (conn', int (length ch))" "conn_out conn' = ch"
    "xs_scan_chunk ch 0 (length ch) = Some (20, Some k)" using w0(1,2) c(2) by simp_all
  obtain conn2 where "xs_conn_write_chunked (\<lambda>_. True) ?c ?d = Some (conn2, 26)"
    using write_chunked_text [OF c(1), of ?d 0] c l by auto
  then have "length ch = 26" using w(1) by simp
  then show ?thesis using w by auto
qed

end
