(* ===== verification/Websocket.thy ===== *)
theory Websocket
  imports ConnWrite Sha1 Base64
begin

text \<open>
  The websocket protocol of \<open>xs/xs_connection.h\<close>: the opening handshake on both sides, and frames. The
  machine's byte order is the parameter \<open>big\<close> of the hash; the stores and loads of \<open>htons\<close> and \<open>htonl\<close>
  values are given as the bytes in network order, which is what they are on either machine. The masking
  key generator keeps a static counter, \<open>rot\<close>, and uses the address of the data.
\<close>

abbreviation exs_WS_CONNECTION_CLOSE :: nat where "exs_WS_CONNECTION_CLOSE \<equiv> 8"
abbreviation exs_WS_PING :: nat where "exs_WS_PING \<equiv> 9"
abbreviation exs_WS_PONG :: nat where "exs_WS_PONG \<equiv> 10"

subsection \<open>Handshake\<close>

definition ws_magic :: "byte list" where
  "ws_magic = bytes ''258EAFA5-E914-47DA-95CA-C5AB0DC85B11''"

definition ws_accept_key :: "bool \<Rightarrow> SHA1_CTX \<Rightarrow> byte list \<Rightarrow> byte list option" where
  \<comment> \<open>key and magic, hashed, in base 64; \<open>ctx\<close> is the uninitialised context\<close>
  "ws_accept_key big ctx key = do {
     b1 \<leftarrow> xs_strlcpy (replicate 128 0) (Some key) 128;
     b2 \<leftarrow> xs_strlcat_at b1 0 ws_magic 128;
     sha \<leftarrow> SHA1Final big (SHA1Update big (SHA1Init ctx) (cstr b2));
     (b64, n) \<leftarrow> xs_b64_encode (replicate 42 0) sha;
     Some (cstr b64) }"

definition xs_websocket_response ::
  "(nat \<Rightarrow> bool) \<Rightarrow> bool \<Rightarrow> SHA1_CTX \<Rightarrow> byte list \<Rightarrow> xs_conn \<Rightarrow> (xs_conn \<times> int) option" where
  "xs_websocket_response room big ctx now conn =
     (let req = xs_conn_getreq conn; hdr = (\<lambda>name. xs_http_getheader req (bytes name)) in
      case hdr ''Sec-WebSocket-Key'' of
        None \<Rightarrow> Some (conn, - 1)
      | Some key \<Rightarrow>
      case hdr ''Sec-WebSocket-Version'' of
        None \<Rightarrow> Some (conn, 2)
      | Some version \<Rightarrow>
      case (hdr ''Host'', hdr ''Upgrade'', hdr ''Connection'') of
        (Some host, Some upgrade, Some connection) \<Rightarrow>
          if xs_strstr_case upgrade (bytes ''websocket'') = None \<or> xs_strstr_case connection (bytes ''Upgrade'') = None
          then Some (conn, 4)
          else if version \<noteq> bytes ''13'' then do {
            (c1, n) \<leftarrow> xs_conn_write_httperror room now conn 425
               (bytes ''Upgrade Required'' @ crlf @ bytes ''Sec-WebSocket-Version: 13'')
               (bytes ''Unsupported Websockets Version.'') [];
            Some (c1, 0) }
          else if xs_strcmp_case (xs_http_get req exs_Req_Method) (Some (bytes ''GET'')) \<noteq> 0
          then Some (conn, exs_Error_InvalidRequest)
          else do {
            acc \<leftarrow> ws_accept_key big ctx key;
            (c1, n) \<leftarrow> xs_conn_printf_header room conn
               (bytes ''HTTP/1.1 101 Switching Protocols'' @ crlf @ bytes ''Upgrade: websocket'' @ crlf @ bytes ''Server: %s'' @ crlf @
                bytes ''Date: %s'' @ crlf @ bytes ''Connection: Upgrade'' @ crlf @ bytes ''Sec-WebSocket-Accept: %s'' @ crlf)
               [Arg_str xs_server_name, Arg_str now, Arg_str acc];
            (c2, m) \<leftarrow> xs_conn_header_done room c1 False;
            Some (c2\<lparr>c_upgrade := 2\<rparr>, 0) }
      | _ \<Rightarrow> Some (conn, 3))"

definition xs_websocket_accept :: "xs_conn \<Rightarrow> xs_conn \<times> int" where
  "xs_websocket_accept conn =
     (case xs_http_getheader (xs_conn_getreq conn) (bytes ''Sec-WebSocket-Accept'') of
        None \<Rightarrow> (conn, - 1)
      | Some h \<Rightarrow> if h \<noteq> bytes ''zY5/M7Ht2MENvjW5tL57/BmNnE4='' then (conn, - 1)
                  else (conn\<lparr>c_upgrade := 2\<rparr>, 0))"

subsection \<open>Frames\<close>

definition be_bytes :: "nat \<Rightarrow> nat \<Rightarrow> byte list" where
  \<comment> \<open>a number in network order\<close>
  "be_bytes n v = map (\<lambda>i. word_of_nat (v div 256 ^ (n - 1 - i))) [0..<n]"

definition be_value :: "byte list \<Rightarrow> nat" where
  "be_value = foldl (\<lambda>v b. v * 256 + unat b) 0"

definition ws_header :: "nat \<Rightarrow> nat \<Rightarrow> byte list option \<Rightarrow> byte list" where
  "ws_header opcode len mk =
     (let (h, ext) = (if len < 126 then (word_of_nat len, [])
                      else if len \<le> 0xFFFF then (126, be_bytes 2 len)
                      else (127, be_bytes 8 len)) in
      word_of_nat (0x80 + (opcode AND 0xF)) # (case mk of None \<Rightarrow> h | Some m \<Rightarrow> h OR 0x80) # ext @
      (case mk of None \<Rightarrow> [] | Some m \<Rightarrow> m))"

definition xs_ws_genmask :: "nat \<Rightarrow> u32 \<Rightarrow> byte list \<times> nat" where
  \<comment> \<open>the key and the new counter; the byte at index \<open>(rot + k) & 3\<close> is byte \<open>k\<close> of the address\<close>
  "xs_ws_genmask rot data =
     (let rot1 = rot + 1 in
      (map (\<lambda>i. ucast (drop_bit (8 * ((i + 4 - rot1 mod 4) mod 4)) data)) [0..<4], rot1))"

definition ws_xor :: "byte list \<Rightarrow> byte list \<Rightarrow> byte list" where
  "ws_xor mk d = map (\<lambda>i. d ! i XOR mk ! (i mod 4)) [0..<length d]"

function ws_masked_loop ::
  "(nat \<Rightarrow> bool) \<Rightarrow> byte list \<Rightarrow> byte list \<Rightarrow> xs_conn \<Rightarrow> nat \<Rightarrow> int \<Rightarrow> (xs_conn \<times> int) option" where
  "ws_masked_loop room mk data conn len retval =
     (if len = 0 then Some (conn, retval)
      else do {
        let outlen = min len 4096;
        buf \<leftarrow> rds data 0 outlen;
        (c1, n) \<leftarrow> xs_conn_write_ex room conn (ws_xor mk buf) (len > outlen);
        ws_masked_loop room mk data c1 (len - outlen) (retval + int n) })"
  by pat_completeness auto
termination by (relation "measure (\<lambda>(room, m, d, c, len, r). len)") auto

declare ws_masked_loop.simps [simp del]

definition xs_conn_write_websocket ::
  "(nat \<Rightarrow> bool) \<Rightarrow> u32 \<Rightarrow> nat \<Rightarrow> xs_conn \<Rightarrow> nat \<Rightarrow> byte list \<Rightarrow> bool \<Rightarrow> (xs_conn \<times> int \<times> nat) option" where
  \<comment> \<open>\<open>addr\<close> is the address of the data and \<open>rot\<close> the counter of the key generator\<close>
  "xs_conn_write_websocket room addr rot conn opcode data do_mask =
     (let len = length data in
      if do_mask \<and> len \<noteq> 0 then do {
        let (mk, rot1) = xs_ws_genmask rot addr;
        (c1, n) \<leftarrow> xs_conn_write_ex room conn (ws_header opcode len (Some mk)) True;
        (c2, r) \<leftarrow> ws_masked_loop room mk data c1 len (int n);
        Some (c2, r, rot1) }
      else do {
        (c1, n) \<leftarrow> xs_conn_write_ex room conn (ws_header opcode len None) (len \<noteq> 0);
        (c2, m) \<leftarrow> xs_conn_write room c1 data;
        Some (c2, int n + int m, rot) })"

definition xs_websocket_framevalid :: "byte list \<Rightarrow> nat \<Rightarrow> (nat \<times> byte list \<times> nat) option" where
  \<comment> \<open>header length (0: more data is needed), masking key, payload length\<close>
  "xs_websocket_framevalid buf buflen =
     (if buflen < 2 then Some (0, [0, 0, 0, 0], 0)
      else do {
        b1 \<leftarrow> rd buf 1;
        let len = unat (b1 AND 127);
        let masklen = (if b1 AND 0x80 \<noteq> 0 then 4 else 0);
        (rlen, datalen) \<leftarrow>
          (if len < 126 \<and> buflen \<ge> masklen + 2 then Some (masklen + 2, len)
           else if len = 126 \<and> buflen \<ge> masklen + 4 then do { v \<leftarrow> rds buf 2 2; Some (masklen + 4, be_value v) }
           else if buflen \<ge> masklen + 10 then do { v \<leftarrow> rds buf 2 8; Some (masklen + 10, be_value v) }
           else Some (0, 0));
        mk \<leftarrow> (if masklen \<noteq> 0 \<and> rlen \<noteq> 0 then rds buf (rlen - 4) 4 else Some [0, 0, 0, 0]);
        Some (rlen, mk, datalen) })"

definition xs_websocket_frameparse :: "xs_httpreq \<Rightarrow> byte list \<Rightarrow> byte list \<Rightarrow> nat \<Rightarrow> (xs_httpreq \<times> int) option" where
  "xs_websocket_frameparse req0 buf datamask contentlen = do {
     b0 \<leftarrow> rd buf 0;
     let opc = unat (b0 AND 0x0f);
     let req = (xs_req_clear req0)\<lparr>q_contentlen := contentlen, q_datamask := datamask, q_keepalive := (opc \<noteq> exs_WS_CONNECTION_CLOSE)\<rparr>;
     let err = (if (opc > 2 \<and> opc < 8) \<or> opc > 10 then exs_Error_WS_BadOpcode
                else if opc = 0 \<and> q_opcode req = 0 then exs_Error_WS_BadContinue
                else 0);
     Some (if opc \<noteq> 0 \<or> err \<noteq> 0 then req\<lparr>q_opcode := opc\<rparr> else req, err) }"

subsection \<open>Lemmas: frame headers\<close>

lemma be_value_append: "be_value (xs @ [b]) = be_value xs * 256 + unat b"
  by (simp add: be_value_def)

lemma be_bytes_Suc: "be_bytes (Suc n) v = be_bytes n (v div 256) @ [word_of_nat v]"
proof (rule nth_equalityI)
  fix i assume "i < length (be_bytes (Suc n) v)"
  then have i: "i < Suc n" by (simp add: be_bytes_def)
  have "v div 256 ^ (n - i) = v div 256 div 256 ^ (n - 1 - i)" if "i < n"
    using that by (simp add: div_mult2_eq [symmetric] flip: power_Suc) (simp add: Suc_diff_Suc)
  then show "be_bytes (Suc n) v ! i = (be_bytes n (v div 256) @ [word_of_nat v]) ! i"
    using i by (auto simp: be_bytes_def nth_append less_Suc_eq simp del: upt_Suc)
qed (simp add: be_bytes_def)

lemma be_value_bytes: "be_value (be_bytes n v) = v mod 256 ^ n"
proof (induction n arbitrary: v)
  case 0
  then show ?case by (simp add: be_bytes_def be_value_def)
next
  case (Suc n)
  have "be_value (be_bytes (Suc n) v) = (v div 256 mod 256 ^ n) * 256 + v mod 256"
    by (simp add: be_bytes_Suc be_value_append Suc unat_of_nat)
  also have "\<dots> = v mod 256 ^ Suc n" by (simp add: mod_mult2_eq mult.commute)
  finally show ?case .
qed

lemma be_bytes_length [simp]: "length (be_bytes n v) = n"
  by (simp add: be_bytes_def)

lemma len_byte:
  assumes "len < 128"
  shows "unat (word_of_nat len AND 127 :: byte) = len" "(word_of_nat len :: byte) AND 0x80 = 0"
    "unat ((word_of_nat len OR 0x80) AND 127 :: byte) = len" "((word_of_nat len :: byte) OR 0x80) AND 0x80 \<noteq> 0"
proof -
  have m: "(127 :: byte) = mask 7" by (simp add: mask_eq_exp_minus_1)
  show l: "unat (word_of_nat len AND 127 :: byte) = len"
    using assms unfolding m by (simp add: unat_mod_distrib unat_of_nat take_bit_eq_mod flip: take_bit_eq_mask)
  have "unat (word_of_nat len :: byte) = len" using assms by (simp add: unat_of_nat)
  then have "(word_of_nat len :: byte) AND 127 = word_of_nat len" using l by (simp only: word_unat_eq_iff)
  then have "bit (word_of_nat len :: byte) 7 = bit ((word_of_nat len :: byte) AND mask 7) 7" unfolding m by simp
  then have b: "\<not> bit (word_of_nat len :: byte) 7" by (metis bit_and_iff bit_mask_iff less_irrefl)
  have e: "(0x80 :: byte) = 2 ^ 7" by simp
  show "(word_of_nat len :: byte) AND 0x80 = 0" unfolding e using b by (simp only: and_exp_eq_0_iff_not_bit simp_thms)
  have "(word_of_nat len OR 0x80) AND 127 = (word_of_nat len :: byte) AND 127"
    by (simp add: bit.conj_disj_distrib2)
  then show "unat ((word_of_nat len OR 0x80) AND 127 :: byte) = len" using l by simp
  show "((word_of_nat len :: byte) OR 0x80) AND 0x80 \<noteq> 0" by (simp add: bit.conj_disj_distrib2 or_eq_0_iff)
qed

definition mask_ok :: "byte list option \<Rightarrow> bool" where
  "mask_ok mk \<longleftrightarrow> (case mk of None \<Rightarrow> True | Some m \<Rightarrow> length m = 4)"

definition mask_bytes :: "byte list option \<Rightarrow> byte list" where
  "mask_bytes mk = (case mk of None \<Rightarrow> [0, 0, 0, 0] | Some m \<Rightarrow> m)"

definition ws_len_parts :: "nat \<Rightarrow> nat \<times> byte list" where
  "ws_len_parts len = (if len < 126 then (len, []) else if len \<le> 0xFFFF then (126, be_bytes 2 len) else (127, be_bytes 8 len))"

lemma ws_header_parts:
  "ws_header op len mk = word_of_nat (0x80 + (op AND 0xF)) #
     (case mk of None \<Rightarrow> word_of_nat (fst (ws_len_parts len)) | Some m \<Rightarrow> word_of_nat (fst (ws_len_parts len)) OR 0x80) #
     snd (ws_len_parts len) @ (case mk of None \<Rightarrow> [] | Some m \<Rightarrow> m)"
  by (simp add: ws_header_def ws_len_parts_def split: option.split)

lemma ws_len_parts_cases:
  assumes "len < 2 ^ 64" "ws_len_parts len = (l, ext)"
  obtains "l < 126" "ext = []" "len = l" | "l = 126" "length ext = 2" "be_value ext = len"
    | "l = 127" "length ext = 8" "be_value ext = len"
  using assms by (auto simp: ws_len_parts_def be_value_bytes split: if_splits)

lemma framevalid_header:
  assumes len: "len < 2 ^ 64" and mk: "mask_ok mk" and h: "h = ws_header op len mk" and n: "n \<le> length (h @ r)"
  shows "length h \<le> n \<Longrightarrow> xs_websocket_framevalid (h @ r) n = Some (length h, mask_bytes mk, len)"
    and "n < length h \<Longrightarrow> xs_websocket_framevalid (h @ r) n = Some (0, [0, 0, 0, 0], 0)"
proof -
  obtain l ext where p: "ws_len_parts len = (l, ext)" by force
  let ?m = "case mk of None \<Rightarrow> [] | Some m \<Rightarrow> m"
  let ?b1 = "(case mk of None \<Rightarrow> word_of_nat l | Some m \<Rightarrow> word_of_nat l OR 0x80) :: byte"
  obtain b0 where hd: "h = b0 # ?b1 # ext @ ?m" unfolding h ws_header_parts p fst_conv snd_conv by blast
  have l: "l < 128" using len p by (auto simp: ws_len_parts_def split: if_splits)
  have b1: "unat (?b1 AND 127) = l" "?b1 AND 0x80 \<noteq> 0 \<longleftrightarrow> mk \<noteq> None"
    using len_byte [OF l] by (auto split: option.split)
  let ?ml = "if mk \<noteq> None then 4 else 0 :: nat"
  have lm: "length ?m = ?ml" using mk by (auto simp: mask_ok_def split: option.splits)
  have lh: "length h = 2 + length ext + ?ml" using hd lm by simp
  have r1: "rd (h @ r) 1 = Some ?b1" using hd by (simp add: rd_def)
  have rext: "rds (h @ r) 2 (length ext) = Some ext" using hd by (simp add: rds_def)
  have rm: "rds (h @ r) (length h - 4) 4 = Some (mask_bytes mk)" if "mk \<noteq> None"
  proof -
    have "length h - 4 = length (b0 # ?b1 # ext)" using lh that by simp
    then show ?thesis using hd lm that by (auto simp: rds_def mask_bytes_def)
  qed
  show "xs_websocket_framevalid (h @ r) n = Some (length h, mask_bytes mk, len)" if "length h \<le> n"
    using len p
  proof (cases rule: ws_len_parts_cases)
    case 1
    then show ?thesis using that r1 b1 rm lh by (cases mk) (auto simp: xs_websocket_framevalid_def Let_def mask_bytes_def)
  next
    case 2
    then show ?thesis using that r1 b1 rm lh rext by (cases mk) (auto simp: xs_websocket_framevalid_def Let_def mask_bytes_def)
  next
    case 3
    then show ?thesis using that r1 b1 rm lh rext by (cases mk) (auto simp: xs_websocket_framevalid_def Let_def mask_bytes_def)
  qed
  show "xs_websocket_framevalid (h @ r) n = Some (0, [0, 0, 0, 0], 0)" if "n < length h"
  proof (cases "n < 2")
    case False
    from len p show ?thesis
      by (cases rule: ws_len_parts_cases) (use False that r1 b1 lh in \<open>auto simp: xs_websocket_framevalid_def Let_def\<close>)
  qed (simp add: xs_websocket_framevalid_def)
qed

lemma ws_header_length: "mask_ok mk \<Longrightarrow> length (ws_header op len mk) \<le> 14"
  by (auto simp: ws_header_def mask_ok_def Let_def split: option.splits)

subsection \<open>Lemmas: masking and writing\<close>

lemma ws_xor_length [simp]: "length (ws_xor m d) = length d"
  by (simp add: ws_xor_def)

lemma ws_xor_twice: "ws_xor m (ws_xor m d) = d"
  by (rule nth_equalityI) (simp_all add: ws_xor_def xor_cancel_right)

lemma ws_xor_zero: "ws_xor [0, 0, 0, 0] d = d"
proof (rule nth_equalityI)
  fix i assume "i < length (ws_xor [0, 0, 0, 0] d)"
  moreover have "i mod 4 \<in> {0, 1, 2, 3}" using mod_less_divisor [of 4 i] by auto
  then have "[0, 0, 0, 0 :: byte] ! (i mod 4) = 0" by auto
  ultimately show "ws_xor [0, 0, 0, 0] d ! i = d ! i" by (simp add: ws_xor_def)
qed simp

lemma ws_genmask_length: "xs_ws_genmask rot a = (m, rot') \<Longrightarrow> length m = 4"
  by (auto simp: xs_ws_genmask_def Let_def)

definition ws_sent :: "byte list \<Rightarrow> byte list \<Rightarrow> byte list" where
  \<comment> \<open>what the masking loop sends: every block of up to 4096 bytes is the start of the data\<close>
  "ws_sent m data = ws_xor m (take 4096 data)"

lemma ws_masked_loop_once:
  assumes r: "conn_ready conn" and d: "data \<noteq> []" "length data \<le> 4096" "length data \<le> conn_room conn"
  shows "\<exists>conn'. ws_masked_loop (\<lambda>_. True) m data conn (length data) ret = Some (conn', ret + int (length data)) \<and>
    conn_ready conn' \<and> conn_out conn' = conn_out conn @ ws_xor m data"
proof -
  have "rds data 0 (length data) = Some data" by (simp add: rds_def)
  then show ?thesis
    using conn_write_ready [OF r, of "ws_xor m data" "\<lambda>_. True" False] d
    by (subst ws_masked_loop.simps) (auto simp: ws_masked_loop.simps [of _ _ _ _ 0])
qed

lemma ws_masked_loop_twice:
  assumes r: "conn_ready conn" and d: "4096 < length data" "length data \<le> 8192" "length data \<le> conn_room conn"
  shows "\<exists>conn'. ws_masked_loop (\<lambda>_. True) m data conn (length data) ret = Some (conn', ret + int (length data)) \<and>
    conn_ready conn' \<and> conn_out conn' = conn_out conn @ ws_xor m (take 4096 data) @ ws_xor m (take (length data - 4096) data)"
proof -
  let ?n = "length data - 4096" and ?a = "take 4096 data"
  have a: "rds data 0 4096 = Some ?a" "rds data 0 ?n = Some (take ?n data)" "length ?a = 4096" "length (take ?n data) = ?n" "?n \<noteq> 0"
    using d by (simp_all add: rds_def)
  obtain c1 where c1: "xs_conn_write_ex (\<lambda>_. True) conn (ws_xor m ?a) True = Some (c1, 4096)" "conn_ready c1"
    "conn_out c1 = conn_out conn @ ws_xor m ?a" "conn_room conn \<le> conn_room c1 + 4096"
    using conn_write_ready [OF r, of "ws_xor m ?a" "\<lambda>_. True" True] d a(3) by auto
  have "?n \<le> conn_room c1" using d(3) c1(4) by linarith
  then obtain c2 where c2: "xs_conn_write_ex (\<lambda>_. True) c1 (ws_xor m (take ?n data)) False = Some (c2, ?n)" "conn_ready c2"
    "conn_out c2 = conn_out c1 @ ws_xor m (take ?n data)"
    using conn_write_ready [OF c1(2), of "ws_xor m (take ?n data)" "\<lambda>_. True" False] d a(4) c1(4) by auto
  have second: "ws_masked_loop (\<lambda>_. True) m data c1 ?n r1 = Some (c2, r1 + int ?n)" for r1
    using a c2(1) d by (subst ws_masked_loop.simps) (simp add: ws_masked_loop.simps [of _ _ _ _ 0])
  have "data \<noteq> []" "min (length data) 4096 = 4096" using d by auto
  then have "ws_masked_loop (\<lambda>_. True) m data conn (length data) ret = Some (c2, ret + 4096 + int ?n)"
    using a c1(1) d second by (subst ws_masked_loop.simps) simp
  then show ?thesis using c1 c2 d by (simp add: of_nat_diff)
qed

definition ws_frame :: "nat \<Rightarrow> byte list option \<Rightarrow> byte list \<Rightarrow> byte list" where
  "ws_frame op mk data = ws_header op (length data) mk @ ws_xor (mask_bytes mk) data"

lemma write_websocket_frame:
  assumes r: "conn_ready conn" and room: "length data + 14 \<le> conn_room conn" and d: "do_mask \<longrightarrow> length data \<le> 4096"
  shows "\<exists>conn' rot' mk. xs_conn_write_websocket (\<lambda>_. True) addr rot conn op data do_mask =
      Some (conn', int (length (ws_frame op mk data)), rot') \<and> mask_ok mk \<and> conn_ready conn' \<and>
      conn_out conn' = conn_out conn @ ws_frame op mk data"
proof (cases "do_mask \<and> length data \<noteq> 0")
  case True
  obtain m rot' where m: "xs_ws_genmask rot addr = (m, rot')" by force
  have ok: "mask_ok (Some m)" using ws_genmask_length [OF m] by (simp add: mask_ok_def)
  let ?h = "ws_header op (length data) (Some m)"
  obtain c1 where c1: "xs_conn_write_ex (\<lambda>_. True) conn ?h True = Some (c1, length ?h)" "conn_ready c1"
    "conn_out c1 = conn_out conn @ ?h" "conn_room conn \<le> conn_room c1 + length ?h"
    using conn_write_ready [OF r, of ?h "\<lambda>_. True" True] ws_header_length [OF ok, of op "length data"] room by auto
  obtain c2 where "ws_masked_loop (\<lambda>_. True) m data c1 (length data) (int (length ?h)) = Some (c2, int (length ?h) + int (length data))"
    "conn_ready c2" "conn_out c2 = conn_out c1 @ ws_xor m data"
    using ws_masked_loop_once [OF c1(2), of data m "int (length ?h)"] True d room c1(4) ws_header_length [OF ok, of op "length data"] by auto
  then show ?thesis using True m c1 ok
    by (intro exI [of _ c2] exI [of _ rot'] exI [of _ "Some m"])
      (simp add: xs_conn_write_websocket_def ws_frame_def mask_bytes_def Let_def)
next
  case False
  let ?h = "ws_header op (length data) None"
  have ok: "mask_ok None" by (simp add: mask_ok_def)
  obtain c1 where c1: "xs_conn_write_ex (\<lambda>_. True) conn ?h (length data \<noteq> 0) = Some (c1, length ?h)" "conn_ready c1"
    "conn_out c1 = conn_out conn @ ?h" "conn_room conn \<le> conn_room c1 + length ?h"
    using conn_write_ready [OF r, of ?h "\<lambda>_. True" "length data \<noteq> 0"] ws_header_length [OF ok, of op "length data"] room by auto
  obtain c2 where c2: "xs_conn_write (\<lambda>_. True) c1 data = Some (c2, length data)" "conn_ready c2" "conn_out c2 = conn_out c1 @ data"
    using conn_write_ready [OF c1(2), of data "\<lambda>_. True" False] c1(4) room ws_header_length [OF ok, of op "length data"]
    by (auto simp: xs_conn_write_def)
  show ?thesis using False c1 c2 ok
    by (intro exI [of _ c2] exI [of _ rot] exI [of _ None])
      (auto simp: xs_conn_write_websocket_def ws_frame_def mask_bytes_def ws_xor_zero Let_def)
qed

subsection \<open>Lemmas: the accept key\<close>

lemma SHA1Final_length: "SHA1Final big c = Some d \<Longrightarrow> length d = 20"
  by (auto simp: SHA1Final_def Let_def bind_eq_Some_conv)

lemma b64_char_nonzero: "0 \<le> k \<Longrightarrow> k < 64 \<Longrightarrow> b64_char k \<noteq> 0"
proof -
  assume "0 \<le> k" "k < 64"
  then have "b64_char k \<in> set b64_tab" by (simp add: b64_char_def b64_tab_length)
  moreover have "0 \<notin> set b64_tab" by (simp add: b64_tab_def)
  ultimately show ?thesis by metis
qed

lemma b64_sha_length:
  assumes "length m < 1000"
  shows "length (b64_text (sha1_digest m)) = 28"
proof -
  let ?ctx = "\<lparr>sstate = [], scount0 = 0, scount1 = 0, sbuffer = replicate 64 0\<rparr>"
  have "SHA1Final False (foldl (SHA1Update False) (SHA1Init ?ctx) [m]) = Some (sha1_digest (concat [m]))"
    using assms by (intro SHA1_digest) (auto simp: sha_lim_def)
  then show ?thesis using SHA1Final_length by (fastforce simp: b64_text_length)
qed

lemma ws_accept_key_value:
  assumes "is_cstr key" "length key \<le> 91" "length (sbuffer ctx) = 64"
  shows "ws_accept_key big ctx key = Some (b64_text (sha1_digest (key @ ws_magic)))"
proof -
  have ml: "length ws_magic = 36" "is_cstr ws_magic" by (simp_all add: ws_magic_def)
  have b1: "xs_strlcpy (replicate 128 0) (Some key) 128 = Some (key @ 0 # replicate (127 - length key) 0)"
    using assms(2) by (subst xs_strlcpy_spec) auto
  have b2: "xs_strlcat_at (key @ 0 # replicate (127 - length key) 0) 0 ws_magic 128 =
      Some (key @ ws_magic @ 0 # replicate (91 - length key) 0)"
    using xs_strlcat_at_spec [of key 128 ws_magic "replicate (127 - length key) 0" "[]"] assms ml by simp
  have c: "cstr (key @ ws_magic @ 0 # replicate (91 - length key) 0) = key @ ws_magic"
    using cstr_terminated [of "key @ ws_magic"] assms(1) ml(2) by simp
  have sha: "SHA1Final big (SHA1Update big (SHA1Init ctx) (key @ ws_magic)) = Some (sha1_digest (key @ ws_magic))"
    using SHA1_digest [of "[key @ ws_magic]" ctx big] assms(2,3) ml by (simp add: sha_lim_def)
  have l: "length (b64_text (sha1_digest (key @ ws_magic))) = 28"
    using b64_sha_length [of "key @ ws_magic"] assms(2) ml by simp
  have b64: "xs_b64_encode (replicate 42 0) (sha1_digest (key @ ws_magic)) =
      Some (b64_text (sha1_digest (key @ ws_magic)) @ 0 # replicate 13 0, 28)"
    using xs_b64_encode_spec [of "sha1_digest (key @ ws_magic)" "replicate 42 0"] l by simp
  show ?thesis using b1 b2 c sha b64 by (simp add: ws_accept_key_def cstr_terminated b64_text_cstr)
qed

definition ws_response_text :: "byte list \<Rightarrow> byte list \<Rightarrow> byte list" where
  "ws_response_text now acc =
     bytes ''HTTP/1.1 101 Switching Protocols'' @ crlf @ bytes ''Upgrade: websocket'' @ crlf @
     bytes ''Server: webxs/0.5'' @ crlf @ bytes ''Date: '' @ now @ crlf @ bytes ''Connection: Upgrade'' @ crlf @
     bytes ''Sec-WebSocket-Accept: '' @ acc @ crlf @ crlf"

lemma websocket_response_text:
  assumes r: "conn_ready conn" and key: "is_cstr key" "length key \<le> 91" and ctx: "length (sbuffer ctx) = 64"
    and req: "xs_conn_getreq conn = Some req"
    and hdr: "xs_http_getheader (Some req) (bytes ''Sec-WebSocket-Key'') = Some key"
      "xs_http_getheader (Some req) (bytes ''Sec-WebSocket-Version'') = Some (bytes ''13'')"
      "xs_http_getheader (Some req) (bytes ''Host'') = Some host"
      "xs_http_getheader (Some req) (bytes ''Upgrade'') = Some up" "xs_strstr_case up (bytes ''websocket'') \<noteq> None"
      "xs_http_getheader (Some req) (bytes ''Connection'') = Some cn" "xs_strstr_case cn (bytes ''Upgrade'') \<noteq> None"
      "xs_strcmp_case (xs_http_get (Some req) exs_Req_Method) (Some (bytes ''GET'')) = 0"
    and room: "length (ws_response_text now (b64_text (sha1_digest (key @ ws_magic)))) \<le> conn_room conn"
  shows "\<exists>conn'. xs_websocket_response (\<lambda>_. True) big ctx now conn = Some (conn', 0) \<and> c_upgrade conn' = 2 \<and>
    conn_ready conn' \<and> conn_out conn' = conn_out conn @ ws_response_text now (b64_text (sha1_digest (key @ ws_magic)))"
proof -
  let ?acc = "b64_text (sha1_digest (key @ ws_magic))"
  let ?fmt = "bytes ''HTTP/1.1 101 Switching Protocols'' @ crlf @ bytes ''Upgrade: websocket'' @ crlf @ bytes ''Server: %s'' @ crlf @
      bytes ''Date: %s'' @ crlf @ bytes ''Connection: Upgrade'' @ crlf @ bytes ''Sec-WebSocket-Accept: %s'' @ crlf"
  let ?ps = "[P_lit (bytes ''HTTP/1.1 101 Switching Protocols'' @ crlf @ bytes ''Upgrade: websocket'' @ crlf @ bytes ''Server: ''),
      P_str xs_server_name, P_lit (crlf @ bytes ''Date: ''), P_str now,
      P_lit (crlf @ bytes ''Connection: Upgrade'' @ crlf @ bytes ''Sec-WebSocket-Accept: ''), P_str ?acc, P_lit crlf]"
  have ok: "pieces_ok ?ps" by (simp add: is_lit_def crlf_def)
  have f: "fmt_of ?ps = ?fmt" and a: "args_of ?ps = [Arg_str xs_server_name, Arg_str now, Arg_str ?acc]"
    by simp_all
  have t: "text_of ?ps @ crlf = ws_response_text now ?acc" by (simp add: ws_response_text_def xs_server_name_def)
  have l: "length (text_of ?ps) + 2 \<le> conn_room conn" using room arg_cong [OF t, of length] by (simp add: crlf_def)
  obtain c1 where c1: "xs_conn_printf_header (\<lambda>_. True) conn ?fmt [Arg_str xs_server_name, Arg_str now, Arg_str ?acc] =
      Some (c1, int (length (text_of ?ps)))" "conn_ready c1" "conn_out c1 = conn_out conn @ text_of ?ps" "2 \<le> conn_room c1"
    using printf_header_text [OF ok _ r l] unfolding f a by blast
  obtain c2 where c2: "xs_conn_header_done (\<lambda>_. True) c1 False = Some (c2, 2)" "conn_ready c2" "conn_out c2 = conn_out c1 @ crlf"
    using conn_write_ready [OF c1(2), of "[13, 10]" "\<lambda>_. True" False] c1(4) by (auto simp: xs_conn_header_done_def crlf_def)
  have acc: "ws_accept_key big ctx key = Some ?acc" using ws_accept_key_value key ctx by blast
  have "xs_websocket_response (\<lambda>_. True) big ctx now conn = Some (c2\<lparr>c_upgrade := 2\<rparr>, 0)"
    using req hdr acc c1(1) c2(1) unfolding xs_websocket_response_def Let_def by simp
  moreover have "conn_ready (c2\<lparr>c_upgrade := 2\<rparr>) = conn_ready c2" "conn_out (c2\<lparr>c_upgrade := 2\<rparr>) = conn_out c2"
    by (simp_all add: conn_ready_def cache_ok_def socket_open_def conn_out_def cached_def)
  ultimately show ?thesis using c1(3) c2(2,3) t by simp
qed

subsection \<open>Properties\<close>

text \<open>C31: the opening handshake answers with the accept key of RFC 6455. For a GET upgrade request of version 13
  with its headers, on a ready connection, \<open>xs_websocket_response\<close> writes the complete 101 response, whose
  accept key is the base-64 text of the SHA-1 digest of the client's key followed by the protocol's magic
  string, and marks the connection as upgraded.\<close>

theorem xs_websocket_response_accepts:
  assumes "conn_ready conn" "is_cstr key" "length key \<le> 91" "length (sbuffer ctx) = 64" "xs_conn_getreq conn = Some req"
    and "xs_http_getheader (Some req) (bytes ''Sec-WebSocket-Key'') = Some key"
      "xs_http_getheader (Some req) (bytes ''Sec-WebSocket-Version'') = Some (bytes ''13'')"
      "xs_http_getheader (Some req) (bytes ''Host'') = Some host"
      "xs_http_getheader (Some req) (bytes ''Upgrade'') = Some up" "xs_strstr_case up (bytes ''websocket'') \<noteq> None"
      "xs_http_getheader (Some req) (bytes ''Connection'') = Some cn" "xs_strstr_case cn (bytes ''Upgrade'') \<noteq> None"
      "xs_strcmp_case (xs_http_get (Some req) exs_Req_Method) (Some (bytes ''GET'')) = 0"
    and "length (ws_response_text now (b64_text (sha1_digest (key @ ws_magic)))) \<le> conn_room conn"
  shows "\<exists>conn'. xs_websocket_response (\<lambda>_. True) big ctx now conn = Some (conn', 0) \<and> c_upgrade conn' = 2 \<and>
    conn_ready conn' \<and> conn_out conn' = conn_out conn @ ws_response_text now (b64_text (sha1_digest (key @ ws_magic)))"
  by (rule websocket_response_text [OF assms])

definition ws_example_req :: xs_httpreq where
  \<comment> \<open>an upgrade request as the parser leaves it: strings in the text block, headers by position\<close>
  "ws_example_req = (empty_req 0)\<lparr>
     q_buf := bytes ''GET'' @ 0 # bytes ''Sec-WebSocket-Key'' @ 0 # bytes ''k'' @ 0 # bytes ''Sec-WebSocket-Version'' @ 0 #
       bytes ''13'' @ 0 # bytes ''Host'' @ 0 # bytes ''h'' @ 0 # bytes ''Upgrade'' @ 0 # bytes ''websocket'' @ 0 #
       bytes ''Connection'' @ 0 # bytes ''Upgrade'' @ [0],
     q_method := Some 0, q_headers := [(4, 22), (24, 46), (49, 54), (56, 64), (74, 85)]\<rparr>"

theorem xs_websocket_response_accepts_witness:
  "\<exists>conn'. xs_websocket_response (\<lambda>_. True) False \<lparr>sstate = [], scount0 = 0, scount1 = 0, sbuffer = replicate 64 0\<rparr> (bytes ''now'')
      (xs_conn_create\<lparr>c_sock := 5, c_req := [ws_example_req]\<rparr>) = Some (conn', 0) \<and> c_upgrade conn' = 2 \<and>
    conn_out conn' = ws_response_text (bytes ''now'') (b64_text (sha1_digest (bytes ''k'' @ ws_magic)))"
proof -
  let ?c = "xs_conn_create\<lparr>c_sock := 5, c_req := [ws_example_req]\<rparr>"
  have c: "conn_ready ?c" "conn_out ?c = []" "conn_room ?c = 1000000"
    by (simp_all add: xs_conn_create_def cache_ok_def arr_wf_def xs_arr_create_def cached_def arr_contents_def
        socket_open_def conn_ready_def conn_out_def conn_room_def)
  have req: "xs_conn_getreq ?c = Some ws_example_req"
    by (simp add: xs_conn_getreq_def ws_example_req_def empty_req_def)
  have hs: "map (\<lambda>h. (hdr_name ws_example_req h, hdr_value ws_example_req h)) (q_headers ws_example_req) =
      [(bytes ''Sec-WebSocket-Key'', bytes ''k''), (bytes ''Sec-WebSocket-Version'', bytes ''13''), (bytes ''Host'', bytes ''h''),
       (bytes ''Upgrade'', bytes ''websocket''), (bytes ''Connection'', bytes ''Upgrade'')]"
    by code_simp
  have hdr: "xs_http_getheader (Some ws_example_req) (bytes ''Sec-WebSocket-Key'') = Some (bytes ''k'')"
    "xs_http_getheader (Some ws_example_req) (bytes ''Sec-WebSocket-Version'') = Some (bytes ''13'')"
    "xs_http_getheader (Some ws_example_req) (bytes ''Host'') = Some (bytes ''h'')"
    "xs_http_getheader (Some ws_example_req) (bytes ''Upgrade'') = Some (bytes ''websocket'')"
    "xs_http_getheader (Some ws_example_req) (bytes ''Connection'') = Some (bytes ''Upgrade'')"
    unfolding getheader_assoc hs by (simp_all add: xs_strcmp_case_iff lower_eval)
  have get: "xs_strcmp_case (xs_http_get (Some ws_example_req) exs_Req_Method) (Some (bytes ''GET'')) = 0"
  proof -
    have "xs_http_get (Some ws_example_req) exs_Req_Method = Some (bytes ''GET'')" by code_simp
    then show ?thesis by (simp add: xs_strcmp_case_iff)
  qed
  have sub: "xs_strstr_case (bytes ''websocket'') (bytes ''websocket'') \<noteq> None"
    "xs_strstr_case (bytes ''Upgrade'') (bytes ''Upgrade'') \<noteq> None"
    by code_simp+
  have l: "length (ws_response_text (bytes ''now'') (b64_text (sha1_digest (bytes ''k'' @ ws_magic)))) \<le> conn_room ?c"
    using b64_sha_length [of "bytes ''k'' @ ws_magic"] c(3) by (simp add: ws_response_text_def crlf_def ws_magic_def)
  show ?thesis
    using xs_websocket_response_accepts [OF c(1) _ _ _ req hdr(1,2,3,4) sub(1) hdr(5) sub(2) get l,
        of "\<lparr>sstate = [], scount0 = 0, scount1 = 0, sbuffer = replicate 64 0\<rparr>" False] c(2) by auto
qed



text \<open>A masked message above 4096 bytes is sent wrongly. The masking loop does not advance in the data, so the
  receiver of a masked message of up to 8192 bytes gets its first 4096 bytes and then, instead of the rest,
  the beginning of the data again.\<close>

theorem xs_conn_write_websocket_repeats:
  assumes "conn_ready conn" "4096 < length data" "length data \<le> 8192" "length data + 14 \<le> conn_room conn"
  shows "\<exists>conn' rot' m. xs_conn_write_websocket (\<lambda>_. True) addr rot conn op data True =
      Some (conn', int (length (ws_header op (length data) (Some m)) + length data), rot') \<and>
      conn_out conn' = conn_out conn @ ws_header op (length data) (Some m) @
        ws_xor m (take 4096 data) @ ws_xor m (take (length data - 4096) data)"
proof -
  obtain m rot' where m: "xs_ws_genmask rot addr = (m, rot')" by force
  have ok: "mask_ok (Some m)" using ws_genmask_length [OF m] by (simp add: mask_ok_def)
  let ?h = "ws_header op (length data) (Some m)"
  have hl: "length ?h \<le> 14" by (rule ws_header_length [OF ok])
  obtain c1 where c1: "xs_conn_write_ex (\<lambda>_. True) conn ?h True = Some (c1, length ?h)" "conn_ready c1"
    "conn_out c1 = conn_out conn @ ?h" "conn_room conn \<le> conn_room c1 + length ?h"
    using conn_write_ready [OF assms(1), of ?h "\<lambda>_. True" True] hl assms(4) by auto
  have "length data \<le> conn_room c1" using c1(4) assms(4) hl by linarith
  then obtain c2 where "ws_masked_loop (\<lambda>_. True) m data c1 (length data) (int (length ?h)) = Some (c2, int (length ?h) + int (length data))"
    "conn_out c2 = conn_out c1 @ ws_xor m (take 4096 data) @ ws_xor m (take (length data - 4096) data)"
    using ws_masked_loop_twice [OF c1(2) assms(2,3)] by blast
  then show ?thesis using assms(2) m c1
    by (intro exI [of _ c2] exI [of _ rot'] exI [of _ m]) (auto simp: xs_conn_write_websocket_def Let_def)
qed

theorem xs_conn_write_websocket_repeats_witness:
  "\<exists>conn' rot' m. xs_conn_write_websocket (\<lambda>_. True) 0x1234 0 (xs_conn_create\<lparr>c_sock := 5\<rparr>) 2 (replicate 4096 7 @ [9]) True =
      Some (conn', int (length (ws_header 2 4097 (Some m)) + 4097), rot') \<and>
      conn_out conn' = ws_header 2 4097 (Some m) @ ws_xor m (replicate 4096 7) @ ws_xor m [7]"
proof -
  let ?c = "xs_conn_create\<lparr>c_sock := 5\<rparr>" and ?d = "replicate 4096 (7 :: byte) @ [9]"
  have c: "conn_ready ?c" "conn_out ?c = []" "conn_room ?c = 1000000"
    by (simp_all add: xs_conn_create_def cache_ok_def arr_wf_def xs_arr_create_def cached_def arr_contents_def
        socket_open_def conn_ready_def conn_out_def conn_room_def)
  have l: "length ?d = 4097" "take 4096 ?d = replicate 4096 7" by simp_all
  have "take 1 ?d = [7]" by (simp add: take_Cons' numeral_eq_Suc)
  then show ?thesis
    using xs_conn_write_websocket_repeats [OF c(1), of ?d "0x1234" 0 2] c(2,3) l by simp
qed

text \<open>Continuation frames are never accepted. \<open>xs_websocket_frameparse\<close> clears the request, and with it the
  opcode of the message being continued, before it looks at that opcode, so every frame with opcode 0 gives
  the continuation error, whatever request it continues.\<close>

theorem xs_websocket_frameparse_continuation:
  assumes "b AND 0x0f = 0"
  shows "\<exists>req'. xs_websocket_frameparse req (b # buf) m n = Some (req', exs_Error_WS_BadContinue)"
  using assms by (simp add: xs_websocket_frameparse_def mem_simps xs_req_clear_def)

theorem xs_websocket_frameparse_continuation_witness:
  "\<exists>req'. xs_websocket_frameparse ((empty_req 0)\<lparr>q_opcode := 1\<rparr>) [0x80, 0] [0, 0, 0, 0] 0 = Some (req', exs_Error_WS_BadContinue)"
  using xs_websocket_frameparse_continuation [of "0x80" "(empty_req 0)\<lparr>q_opcode := 1\<rparr>" "[0]" "[0, 0, 0, 0]" 0] by simp

end
