(* ===== verification/ConnRead.thy ===== *)
theory ConnRead
  imports Websocket
begin

text \<open>
  The read side of a connection (\<open>xs/xs_connection.h\<close>): the receive buffer, finding and parsing the next
  request, chunk headers, and \<open>xs_conn_httpread\<close>, the state machine that delivers a body.

  \<open>recv\<close> answers from the list \<open>e_recv\<close> of the environment: a block of bytes, of which a shorter read takes
  the front, an orderly end, nothing yet, or an error. The list \<open>c_req\<close> has \<open>conn->req\<close> at its head. An
  \<open>assert\<close> that fails, a link that would make the request list cyclic, a request reallocated while it is linked
  and an access outside a buffer give \<open>None\<close>. Lengths asked of \<open>recv\<close> are below \<open>2 ^ 31\<close>.
\<close>

subsection \<open>Receiving\<close>

definition sock_recv_call :: "xs_conn \<Rightarrow> nat \<Rightarrow> xs_conn \<times> int \<times> int \<times> byte list" where
  \<comment> \<open>the result of \<open>recv\<close>, its \<open>errno\<close> and the bytes received\<close>
  "sock_recv_call conn len =
     (case e_recv conn of
        [] \<Rightarrow> (conn, - 1, 0, [])
      | x # xs \<Rightarrow>
          (case x of
             Recv d \<Rightarrow>
               if length d \<le> len then (conn\<lparr>e_recv := xs\<rparr>, int (length d), 0, d)
               else (conn\<lparr>e_recv := Recv (drop len d) # xs\<rparr>, int len, 0, take len d)
           | Recv_eof \<Rightarrow> (conn, 0, 0, [])
           | Recv_again \<Rightarrow> (conn\<lparr>e_recv := xs\<rparr>, - 1, 0, [])
           | Recv_error e \<Rightarrow> (conn\<lparr>e_recv := xs\<rparr>, - 1, e, [])))"

definition xs_conn_read :: "(nat \<Rightarrow> bool) \<Rightarrow> xs_conn \<Rightarrow> nat \<Rightarrow> (xs_conn \<times> int \<times> byte list \<times> bool) option" where
  "xs_conn_read room conn len = do {
     let conn0 = conn\<lparr>c_rcount := c_rcount conn + 1\<rparr>;
     (conn1, r) \<leftarrow> (if aCount (c_wcache conn0) \<noteq> 0 \<and> \<not> c_wblocked conn0 then xs_conn_cachepurge room conn0
                    else Some (conn0, 0));
     let (conn2, n, errno, d) = sock_recv_call conn1 len;
     let conn3 = (if n < 0 then xs_conn_seterr conn2 errno
                  else if n = 0 then conn2\<lparr>c_errnum := exs_Conn_Close\<rparr>
                  else conn2\<lparr>c_errnum := 0\<rparr>);
     let reread = (n = int len \<and> c_errnum conn3 = 0);
     Some (if n > 0 \<and> \<not> c_proto conn3 then conn3\<lparr>c_proto := True\<rparr> else conn3, n, d, reread) }"

definition xs_conn_bufresize :: "(nat \<Rightarrow> bool) \<Rightarrow> xs_conn \<Rightarrow> xs_conn option" where
  "xs_conn_bufresize room conn =
     (case c_buf conn of
        None \<Rightarrow> Some (conn\<lparr>c_buf := (if room 1024 then Some (replicate 1024 0) else None), c_bufsize := 1024\<rparr>)
      | Some b \<Rightarrow>
          if c_consumed conn \<ge> c_datalen conn then Some (conn\<lparr>c_datalen := 0, c_consumed := 0\<rparr>)
          else if c_consumed conn > (c_bufsize conn div 4) * 3 then do {
            d \<leftarrow> rds b (nat (c_consumed conn)) (nat (c_datalen conn - c_consumed conn));
            b1 \<leftarrow> blit b 0 d;
            Some (conn\<lparr>c_buf := Some b1, c_datalen := c_datalen conn - c_consumed conn, c_consumed := 0\<rparr>) }
          else if c_datalen conn = c_bufsize conn then
            let bsize = c_datalen conn * 2 in
            Some (if room (nat bsize)
                  then conn\<lparr>c_buf := Some (b @ replicate (nat bsize - length b) 0), c_bufsize := bsize\<rparr>
                  else conn)
          else Some conn)"

definition conn_fill :: "(nat \<Rightarrow> bool) \<Rightarrow> xs_conn \<Rightarrow> (xs_conn \<times> int) option" where
  \<comment> \<open>\<open>xs_conn_read\<close> into the free part of the receive buffer\<close>
  "conn_fill room conn = do {
     (c1, n, d, rr) \<leftarrow> xs_conn_read room conn (nat (c_bufsize conn - c_datalen conn));
     if n > 0 then do {
       b \<leftarrow> c_buf c1;
       b1 \<leftarrow> blit b (nat (c_datalen c1)) d;
       Some (c1\<lparr>c_buf := Some b1, c_datalen := c_datalen c1 + n\<rparr>, n) }
     else Some (c1, n) }"

definition conn_headerlen :: "xs_conn \<Rightarrow> int option" where
  "conn_headerlen conn = do {
     b \<leftarrow> c_buf conn;
     if c_upgrade conn = 0 then xs_http_validrequest b (nat (c_datalen conn))
     else do { (r, m, l) \<leftarrow> xs_websocket_framevalid b (nat (c_datalen conn)); Some (int r) } }"

definition xs_conn_headerready :: "(nat \<Rightarrow> bool) \<Rightarrow> xs_conn \<Rightarrow> (xs_conn \<times> int) option" where
  "xs_conn_headerready room conn = do {
     c0 \<leftarrow> xs_conn_bufresize room conn;
     rlen0 \<leftarrow> (if c_datalen c0 \<noteq> 0 then conn_headerlen c0 else Some 0);
     let c1 = (if rlen0 < 0 then c0\<lparr>c_errnum := exs_Error_InvalidRequest\<rparr> else c0);
     (c2, n, rlen) \<leftarrow>
       (if rlen0 = 0 then do {
          (c, n) \<leftarrow> conn_fill room c1;
          if n > 0 then do { r \<leftarrow> conn_headerlen c; Some (c, n, r) } else Some (c, n, 0) }
        else Some (c1, - 1, rlen0));
     let c3 = (if rlen > 131072 \<or> c_datalen c2 > 131072 then c2\<lparr>c_errnum := exs_Error_HeaderTooLarge\<rparr> else c2);
     Some (c3, if rlen > 0 then rlen else if n = 0 then 0 else - 1) }"

subsection \<open>Creating a request\<close>

definition req_alloc :: "(nat \<Rightarrow> bool) \<Rightarrow> xs_httpreq option \<Rightarrow> nat \<Rightarrow> xs_httpreq option" where
  \<comment> \<open>a request with room for \<open>rlen\<close> bytes and a terminator; a free request that is too small is not grown,
      \<open>conn->req\<close> is (here \<open>NULL\<close>), which gives a new block\<close>
  "req_alloc room req rlen =
     (case req of
        None \<Rightarrow> if room (Suc rlen) then Some (empty_req (Suc rlen)) else None
      | Some r \<Rightarrow>
          if Suc rlen > length (q_buf r) then (if room (Suc rlen) then Some (empty_req (Suc rlen)) else None)
          else Some r)"

definition xs_http_createreq :: "(nat \<Rightarrow> bool) \<Rightarrow> xs_conn \<Rightarrow> int \<Rightarrow> (xs_conn \<times> int) option" where
  "xs_http_createreq room conn0 rlen0 =
     (let up = c_upgrade conn0 \<noteq> 0;
          req0 = (if up then (if c_req conn0 = [] then None else Some (last (c_req conn0)))
                  else (case c_freereq conn0 of [] \<Rightarrow> None | r # rs \<Rightarrow> Some r));
          conn = (if up then conn0 else conn0\<lparr>c_freereq := tl (c_freereq conn0)\<rparr>);
          rlen1 = (if up then 0 else rlen0)
      in if up \<and> req0 \<noteq> None then None
      else do {
        b \<leftarrow> c_buf conn;
        (rlen, datamask, contentlen) \<leftarrow>
          (if rlen1 > 0 then Some (rlen1, [0, 0, 0, 0], 0)
           else if up then do {
             (r, m, l) \<leftarrow> xs_websocket_framevalid b (nat (c_datalen conn));
             Some (int r, m, l) }
           else do { r \<leftarrow> xs_http_validrequest b (nat (c_datalen conn)); Some (r, [0, 0, 0, 0], 0) });
        if rlen \<le> 0 then Some (conn\<lparr>c_errnum := exs_Error_InvalidRequest\<rparr>, if rlen = 0 then - 1 else - 50)
        else if c_req conn \<noteq> [] \<and> (case req0 of None \<Rightarrow> False | Some r \<Rightarrow> length (q_buf r) < Suc (nat rlen)) then None
        else (case req_alloc room req0 (nat rlen) of
            None \<Rightarrow> Some (conn\<lparr>c_errnum := exs_Error_OutOfMemory\<rparr>, - 108)
          | Some req \<Rightarrow> do {
              (req1, err) \<leftarrow> (if up then xs_websocket_frameparse req b datamask contentlen
                              else xs_http_parse req b (nat rlen));
              if err \<noteq> 0
              then Some (conn\<lparr>c_req := c_req conn @ [req1], c_errnum := exs_Error_InvalidRequest\<rparr>, - 2)
              else Some (conn\<lparr>c_req := c_req conn @ [req1\<lparr>q_reqlen := rlen\<rparr>], c_consumed := c_consumed conn + rlen\<rparr>, 0) }) })"

definition chunk_size :: "xs_conn \<Rightarrow> (int \<times> nat option) option" where
  "chunk_size conn = do {
     b \<leftarrow> c_buf conn;
     xs_scan_chunk b (nat (c_consumed conn)) (nat (c_datalen conn - c_consumed conn)) }"

definition xs_conn_chunkready :: "(nat \<Rightarrow> bool) \<Rightarrow> xs_conn \<Rightarrow> (xs_conn \<times> int) option" where
  "xs_conn_chunkready room conn = do {
     c0 \<leftarrow> xs_conn_bufresize room conn;
     (n0, enc0) \<leftarrow> chunk_size c0;
     (c1, n, enc) \<leftarrow>
       (if n0 < 0 then do {
          (c, k) \<leftarrow> conn_fill room c0;
          if k \<ge> 0 then do { (n, enc) \<leftarrow> chunk_size c; Some (c, n, enc) } else Some (c, k, enc0) }
        else Some (c0, n0, enc0));
     if n \<ge> 0 then
       (case (enc, xs_conn_getreq c1) of
          (Some p, Some req) \<Rightarrow>
            Some (c1\<lparr>c_consumed := int p, c_req := upd_undone (\<lambda>r. r\<lparr>q_contentlen := q_contentlen r + nat n\<rparr>) (c_req c1)\<rparr>, n)
        | _ \<Rightarrow> None)
     else Some (c1, n) }"

subsection \<open>Reading a message\<close>

type_synonym read_result = "xs_conn \<times> int \<times> byte list \<times> bool"

definition upd_head :: "(xs_httpreq \<Rightarrow> xs_httpreq) \<Rightarrow> xs_conn \<Rightarrow> xs_conn" where
  "upd_head f conn = conn\<lparr>c_req := (case c_req conn of [] \<Rightarrow> [] | r # rs \<Rightarrow> f r # rs)\<rparr>"

definition conn_state_bits :: "xs_conn \<Rightarrow> int" where
  "conn_state_bits conn = xs_conn_state conn AND 0x7FF"

definition read_retvalue :: "int \<Rightarrow> xs_conn \<Rightarrow> int" where
  \<comment> \<open>\<open>_xschr_retvalue_\<close>: 0 when the state has changed\<close>
  "read_retvalue s conn = (if s = conn_state_bits conn then - 1 else 0)"

definition more_buffered :: "xs_conn \<Rightarrow> bool" where
  "more_buffered conn \<longleftrightarrow> c_datalen conn > c_consumed conn"

definition httpread_done :: "xs_conn \<Rightarrow> xs_conn option" where
  \<comment> \<open>the payload is complete: what is left in the buffer moves to its front\<close>
  "httpread_done conn = do {
     let n = c_datalen conn - c_consumed conn;
     b \<leftarrow> (if n > 0 then do {
             b \<leftarrow> c_buf conn;
             d \<leftarrow> rds b (nat (c_consumed conn)) (nat n);
             b1 \<leftarrow> blit b 0 d;
             Some (Some b1) }
           else Some (c_buf conn));
     Some (upd_head (\<lambda>r. r\<lparr>q_reqlen := 0\<rparr>) (conn\<lparr>c_buf := b, c_datalen := n, c_consumed := 0\<rparr>)) }"

definition httpread_upgrade ::
  "(nat \<Rightarrow> bool) \<Rightarrow> bool \<Rightarrow> SHA1_CTX \<Rightarrow> byte list \<Rightarrow> int \<Rightarrow> xs_conn \<Rightarrow> xs_httpreq \<Rightarrow> read_result option" where
  "httpread_upgrade room big ctx now s conn req = do {
     (c1, err) \<leftarrow> (if q_method req \<noteq> None then xs_websocket_response room big ctx now conn
                   else Some (xs_websocket_accept conn));
     if err < 0 then Some (c1\<lparr>c_errnum := exs_Error_WS_InvalidSecKey\<rparr>, - 10, [], False)
     else Some (c1, read_retvalue s c1, [], more_buffered c1) }"

definition httpread_header ::
  "(nat \<Rightarrow> bool) \<Rightarrow> bool \<Rightarrow> SHA1_CTX \<Rightarrow> byte list \<Rightarrow> int \<Rightarrow> xs_conn \<Rightarrow> read_result option" where
  \<comment> \<open>looking for the next request\<close>
  "httpread_header room big ctx now s conn = do {
     (c1, n) \<leftarrow> xs_conn_headerready room conn;
     if n \<le> 0 \<or> c_errnum c1 \<noteq> 0 then Some (c1, if n \<noteq> 0 then n else read_retvalue s c1, [], False)
     else do {
       let c2 = (case c_req c1 of [] \<Rightarrow> c1 | r # rs \<Rightarrow> c1\<lparr>c_freereq := r # c_freereq c1, c_req := []\<rparr>);
       (c3, err) \<leftarrow> xs_http_createreq room c2 n;
       if err \<noteq> 0 then Some (c3\<lparr>c_errnum := (if c_errnum c3 \<noteq> 0 then c_errnum c3 else err)\<rparr>, - 1, [], False)
       else do {
         let c4 = (if c_upgrade c3 \<noteq> 0 then upd_head (\<lambda>r. r\<lparr>q_upgrade := c_upgrade c3\<rparr>) c3 else c3);
         req \<leftarrow> head_req c4;
         if q_upgrade req = 1 then httpread_upgrade room big ctx now s c4 req
         else if q_upgrade req = 2 then do {
           (c5, r5, k5) \<leftarrow> (if q_opcode req = exs_WS_PING then xs_conn_write_websocket room 0 0 c4 exs_WS_PONG [] False
                            else Some (c4, 0, 0));
           (c6, r6, k6) \<leftarrow> (if q_opcode req = exs_WS_PONG then xs_conn_write_websocket room 0 0 c5 exs_WS_PING [] False
                            else Some (c5, 0, 0));
           Some (c6, read_retvalue s c6, [], more_buffered c6) }
         else if q_contentlen req = 0 \<and> \<not> q_chunked req then
           if q_method req = None \<and> xs_http_getheader (Some req) (bytes ''Content-Length'') = None then
             let c5 = upd_head (\<lambda>r. r\<lparr>q_contentlen := 2 ^ 63 - 1\<rparr>) c4 in
             Some (c5, read_retvalue s c5, [], more_buffered c5)
           else
             let c5 = upd_head (\<lambda>r. r\<lparr>q_header := True\<rparr>) c4 in
             Some (c5, read_retvalue s c5, [], True)
         else Some (c4, read_retvalue s c4, [], more_buffered c4) } } }"

definition httpread_body :: "(nat \<Rightarrow> bool) \<Rightarrow> xs_conn \<Rightarrow> xs_httpreq \<Rightarrow> nat \<Rightarrow> read_result option" where
  \<comment> \<open>deliver data of the current request; the difference of the buffer positions is taken as \<open>size_t\<close>\<close>
  "httpread_body room conn req len0 = do {
     (c1, nread, d, rr) \<leftarrow>
       (if q_consumed req < q_contentlen req then
          let len = min len0 (q_contentlen req - q_consumed req);
              remaining = nat (size64 (c_datalen conn - c_consumed conn))
          in
          if remaining > 0 then do {
            b \<leftarrow> c_buf conn;
            d \<leftarrow> rds b (nat (c_consumed conn)) (min remaining len);
            let c1 = conn\<lparr>c_consumed := c_consumed conn + int (length d)\<rparr>;
            Some (c1, int (length d), d, more_buffered c1) }
          else xs_conn_read room conn len
        else if q_consumed req \<noteq> 0 then None
        else Some (conn, - 1, [], more_buffered conn));
     let c2 = (if nread > 0 then upd_head (\<lambda>r. r\<lparr>q_consumed := q_consumed r + nat nread\<rparr>) c1 else c1);
     Some (c2, nread, if q_datamask req \<noteq> [0, 0, 0, 0] then ws_xor (q_datamask req) d else d, rr) }"

definition xs_conn_httpread ::
  "(nat \<Rightarrow> bool) \<Rightarrow> bool \<Rightarrow> SHA1_CTX \<Rightarrow> byte list \<Rightarrow> xs_conn \<Rightarrow> nat \<Rightarrow> read_result option" where
  \<comment> \<open>the result: connection, return value, delivered bytes, \<open>*reread\<close>\<close>
  "xs_conn_httpread room big ctx now conn0 len = do {
     let conn1 = conn0\<lparr>c_errnum := 0\<rparr>;
     let s0 = conn_state_bits conn1;
     (conn2, s, ret) \<leftarrow>
       (if s0 = exs_Conn_Error \<or> s0 = exs_Conn_Complete then do {
          c \<leftarrow> httpread_done conn1;
          Some (c, exs_Conn_LastState, False) }
        else (case head_req conn1 of
            Some r \<Rightarrow>
              if s0 = exs_Conn_Header \<and> q_header r then
                let c = upd_head (\<lambda>r. r\<lparr>q_header := False\<rparr>) conn1 in
                Some (c, s0, read_retvalue s0 c = 0)
              else Some (conn1, s0, False)
          | None \<Rightarrow> Some (conn1, s0, False)));
     if ret then Some (conn2, 0, [], more_buffered conn2)
     else
       (case head_req conn2 of
          None \<Rightarrow> httpread_header room big ctx now s conn2
        | Some req \<Rightarrow>
            if q_reqlen req = 0 \<or> q_done req then httpread_header room big ctx now s conn2
            else if q_chunked req \<and> (q_contentlen req = 0 \<or> q_contentlen req = q_consumed req) then do {
              (c3, n) \<leftarrow> xs_conn_chunkready room conn2;
              let c4 = (if n = 0 then upd_head (\<lambda>r. r\<lparr>q_chunked := False\<rparr>) c3 else c3);
              if n \<le> 0 then Some (c4, read_retvalue s c4, [], more_buffered c4)
              else do { r \<leftarrow> head_req c4; httpread_body room c4 r len } }
            else httpread_body room conn2 req len) }"

subsection \<open>Lemmas: the incoming stream\<close>

definition recv_data :: "sock_recv list \<Rightarrow> byte list" where
  "recv_data xs = concat (map (\<lambda>x. case x of Recv d \<Rightarrow> d | _ \<Rightarrow> []) xs)"

definition conn_unread :: "xs_conn \<Rightarrow> byte list" where
  \<comment> \<open>received and not consumed\<close>
  "conn_unread conn = (case c_buf conn of None \<Rightarrow> [] |
     Some b \<Rightarrow> take (nat (c_datalen conn - c_consumed conn)) (drop (nat (c_consumed conn)) b))"

definition conn_stream :: "xs_conn \<Rightarrow> byte list" where
  \<comment> \<open>all that is still to be delivered: the rest of the buffer, then what the socket will give\<close>
  "conn_stream conn = conn_unread conn @ recv_data (e_recv conn)"

definition buf_ok :: "xs_conn \<Rightarrow> bool" where
  "buf_ok conn \<longleftrightarrow> 0 \<le> c_consumed conn \<and> c_consumed conn \<le> c_datalen conn \<and> c_datalen conn \<le> c_bufsize conn \<and>
     (case c_buf conn of None \<Rightarrow> c_datalen conn = 0 | Some b \<Rightarrow> 0 < c_bufsize conn \<and> length b = nat (c_bufsize conn))"

lemma buf_ok_cong:
  "c_consumed c = c_consumed c' \<Longrightarrow> c_datalen c = c_datalen c' \<Longrightarrow> c_bufsize c = c_bufsize c' \<Longrightarrow> c_buf c = c_buf c' \<Longrightarrow>
   buf_ok c = buf_ok c'"
  unfolding buf_ok_def by (cases "c_buf c'") simp_all

lemma recv_data_simps [simp]:
  "recv_data [] = []" "recv_data (Recv d # xs) = d @ recv_data xs" "recv_data (Recv_eof # xs) = recv_data xs"
  "recv_data (Recv_again # xs) = recv_data xs" "recv_data (Recv_error e # xs) = recv_data xs"
  by (simp_all add: recv_data_def)

lemma sock_recv_call_data:
  assumes "sock_recv_call conn len = (c, n, e, d)"
  shows "d @ recv_data (e_recv c) = recv_data (e_recv conn)" "length d \<le> len" "0 < n \<Longrightarrow> n = int (length d)"
    "n \<le> 0 \<Longrightarrow> d = []" "c = conn\<lparr>e_recv := e_recv c\<rparr>"
  using assms by (auto simp: sock_recv_call_def split: list.splits sock_recv.splits if_splits)

definition recv_blocks :: "sock_recv list \<Rightarrow> bool" where
  \<comment> \<open>the peer sends nonempty blocks, without error or end\<close>
  "recv_blocks xs \<longleftrightarrow> (\<forall>x\<in>set xs. \<exists>b. x = Recv b \<and> b \<noteq> [])"

lemma sock_recv_call_blocks:
  assumes "recv_blocks (e_recv conn)" "sock_recv_call conn len = (c, n, e, d)"
  shows "recv_blocks (e_recv c)" "0 < len \<Longrightarrow> recv_data (e_recv conn) \<noteq> [] \<Longrightarrow> 0 < n"
proof -
  show "recv_blocks (e_recv c)"
    using assms by (cases "e_recv conn") (auto simp: sock_recv_call_def recv_blocks_def split: if_splits)
  show "0 < n" if "0 < len" "recv_data (e_recv conn) \<noteq> []"
    using assms that by (cases "e_recv conn") (auto simp: sock_recv_call_def recv_blocks_def split: if_splits)
qed

definition read_frame :: "xs_conn \<Rightarrow> xs_conn \<Rightarrow> bool" where
  \<comment> \<open>what receiving leaves alone\<close>
  "read_frame c c' \<longleftrightarrow> c_sock c' = c_sock c \<and> c_upgrade c' = c_upgrade c \<and> c_datalen c' = c_datalen c \<and>
     c_consumed c' = c_consumed c \<and> c_bufsize c' = c_bufsize c \<and> c_buf c' = c_buf c \<and> c_req c' = c_req c \<and>
     c_freereq c' = c_freereq c"

lemma conn_read_data:
  assumes ok: "cache_ok conn"
  shows "\<exists>c n d rr. xs_conn_read room conn len = Some (c, n, d, rr) \<and>
    d @ recv_data (e_recv c) = recv_data (e_recv conn) \<and> length d \<le> len \<and> (0 < n \<longrightarrow> n = int (length d)) \<and>
    (n \<le> 0 \<longrightarrow> d = []) \<and> cache_ok c \<and> read_frame conn c \<and> (0 < n \<longrightarrow> c_errnum c = 0) \<and>
    (recv_blocks (e_recv conn) \<longrightarrow> recv_blocks (e_recv c) \<and> (0 < len \<longrightarrow> recv_data (e_recv conn) \<noteq> [] \<longrightarrow> 0 < n))"
proof -
  let ?c0 = "conn\<lparr>c_rcount := c_rcount conn + 1\<rparr>"
  let ?p = "if aCount (c_wcache conn) \<noteq> 0 \<and> \<not> c_wblocked conn then xs_conn_cachepurge room ?c0 else Some (?c0, 0)"
  have ok0: "cache_ok ?c0" using ok by (simp add: cache_ok_def)
  obtain c1 r where c1: "?p = Some (c1, r)" "cache_ok c1" "write_frame ?c0 c1"
  proof (cases "aCount (c_wcache conn) \<noteq> 0 \<and> \<not> c_wblocked conn")
    case True
    obtain c1 r where p: "xs_conn_cachepurge room ?c0 = Some (c1, r)" "cache_ok c1"
      using cachepurge_flow [OF ok0, of room] by blast
    show ?thesis using that [of c1 r] p True cachepurge_frame [OF p(1)] by simp
  next
    case False
    then have "?p = Some (?c0, 0)" by (rule if_not_P)
    then show ?thesis by (rule that [OF _ ok0 write_frame_refl])
  qed
  obtain c2 n e d where rc: "sock_recv_call c1 len = (c2, n, e, d)" by (metis prod_cases4)
  note D = sock_recv_call_data [OF rc]
  have er: "e_recv c1 = e_recv conn" and fr: "read_frame conn c1"
    using c1(3) by (simp_all add: write_frame_def reader_of_def read_frame_def)
  have c2: "cache_ok c2" "read_frame conn c2"
    using c1(2) fr by (subst D(5), simp add: cache_ok_def read_frame_def)+
  let ?c3 = "if n < 0 then xs_conn_seterr c2 e else if n = 0 then c2\<lparr>c_errnum := exs_Conn_Close\<rparr> else c2\<lparr>c_errnum := 0\<rparr>"
  let ?c = "if n > 0 \<and> \<not> c_proto ?c3 then ?c3\<lparr>c_proto := True\<rparr> else ?c3"
  have eq: "xs_conn_read room conn len = Some (?c, n, d, n = int len \<and> c_errnum ?c3 = 0)"
    using c1(1) rc by (simp add: xs_conn_read_def Let_def)
  have f: "cache_ok ?c" "read_frame conn ?c" "e_recv ?c = e_recv c2" "0 < n \<longrightarrow> c_errnum ?c = 0"
    using c2 by (simp_all add: xs_conn_seterr_def cache_ok_def read_frame_def)
  have D': "d @ recv_data (e_recv ?c) = recv_data (e_recv conn)" using D(1) f(3) er by simp
  have B: "recv_blocks (e_recv conn) \<longrightarrow> recv_blocks (e_recv ?c) \<and> (0 < len \<longrightarrow> recv_data (e_recv conn) \<noteq> [] \<longrightarrow> 0 < n)"
    using sock_recv_call_blocks [OF _ rc] f(3) er by simp
  show ?thesis
    by (rule exI [of _ ?c], rule exI [of _ n], rule exI [of _ d], rule exI [of _ "n = int len \<and> c_errnum ?c3 = 0"])
      (use eq D' D(2-4) f(1,2,4) B in blast)
qed

subsection \<open>Lemmas: the receive buffer\<close>

lemma take_split: "d = take (length d) u \<Longrightarrow> length d \<le> m \<Longrightarrow> d @ take (m - length d) (drop (length d) u) = take m u"
  using take_add [of "length d" "m - length d" u] by simp

lemma bufresize_ok:
  assumes ok: "buf_ok conn"
  shows "\<exists>c. xs_conn_bufresize room conn = Some c \<and> buf_ok c \<and> conn_unread c = conn_unread conn \<and>
    c_datalen c - c_consumed c = c_datalen conn - c_consumed conn \<and>
    c = conn\<lparr>c_buf := c_buf c, c_bufsize := c_bufsize c, c_datalen := c_datalen c, c_consumed := c_consumed c\<rparr> \<and>
    ((\<forall>n. room n) \<longrightarrow> c_datalen c < c_bufsize c \<and> c_buf c \<noteq> None)"
proof (cases "c_buf conn")
  case None
  then show ?thesis using ok by (auto simp: xs_conn_bufresize_def buf_ok_def conn_unread_def)
next
  case (Some b)
  have B: "0 \<le> c_consumed conn" "c_consumed conn \<le> c_datalen conn" "c_datalen conn \<le> c_bufsize conn"
    "length b = nat (c_bufsize conn)" "0 < c_bufsize conn" using ok Some by (auto simp: buf_ok_def)
  show ?thesis
  proof (cases "c_consumed conn \<ge> c_datalen conn")
    case True
    then show ?thesis using Some B by (simp add: xs_conn_bufresize_def buf_ok_def conn_unread_def)
  next
    case live: False
    show ?thesis
    proof (cases "c_consumed conn > (c_bufsize conn div 4) * 3")
      case True
      let ?k = "nat (c_consumed conn)" and ?m = "nat (c_datalen conn - c_consumed conn)"
      have in_range: "?k + ?m \<le> length b" using B by simp
      let ?b = "take ?m (drop ?k b) @ drop ?m b"
      have "xs_conn_bufresize room conn = Some (conn\<lparr>c_buf := Some ?b, c_datalen := c_datalen conn - c_consumed conn, c_consumed := 0\<rparr>)"
        using Some live True in_range by (simp add: xs_conn_bufresize_def mem_simps min_absorb2)
      moreover have "0 < c_consumed conn" using True B by (smt (verit) zdiv_mono1 div_by_1 pos_imp_zdiv_nonneg_iff)
      ultimately show ?thesis using Some B in_range
        by (simp add: buf_ok_def conn_unread_def)
    next
      case low: False
      show ?thesis
      proof (cases "c_datalen conn = c_bufsize conn \<and> room (nat (c_datalen conn * 2))")
        case True
        let ?b = "b @ replicate (nat (c_datalen conn * 2) - length b) 0"
        have t: "c_datalen conn = c_bufsize conn" "room (nat (c_bufsize conn * 2))" using True by auto
        have "xs_conn_bufresize room conn = Some (conn\<lparr>c_buf := Some ?b, c_bufsize := c_datalen conn * 2\<rparr>)"
          using Some live low t by (simp add: xs_conn_bufresize_def Let_def)
        then show ?thesis using Some B t by (simp add: buf_ok_def conn_unread_def)
      next
        case False
        then have "xs_conn_bufresize room conn = Some conn"
          using Some live low by (auto simp: xs_conn_bufresize_def Let_def)
        then show ?thesis using ok B Some False by auto
      qed
    qed
  qed
qed

subsection \<open>Lemmas: reading a body\<close>

definition body_ready :: "xs_conn \<Rightarrow> xs_httpreq \<Rightarrow> bool" where
  \<comment> \<open>an open connection whose current message has a body of known length, unmasked and not chunked\<close>
  "body_ready conn r \<longleftrightarrow> c_req conn = [r] \<and> q_reqlen r \<noteq> 0 \<and> \<not> q_done r \<and> \<not> q_chunked r \<and> \<not> q_header r \<and>
     q_datamask r = [0, 0, 0, 0] \<and> q_consumed r \<le> q_contentlen r \<and> 0 < q_contentlen r \<and>
     0 < c_sock conn \<and> c_upgrade conn \<noteq> 2 \<and> buf_ok conn \<and> cache_ok conn \<and> c_datalen conn < 2 ^ 31"

definition body_left :: "xs_conn \<Rightarrow> nat" where
  "body_left conn = (case head_req conn of None \<Rightarrow> 0 | Some r \<Rightarrow> q_contentlen r - q_consumed r)"

lemma body_ready_left: "body_ready conn r \<Longrightarrow> body_left conn = q_contentlen r - q_consumed r"
  by (simp add: body_ready_def body_left_def head_req_def)

lemma body_state:
  assumes "body_ready conn r"
  shows "conn_state_bits (conn\<lparr>c_errnum := 0\<rparr>) = exs_Conn_Complete \<longleftrightarrow> q_consumed r = q_contentlen r"
    "conn_state_bits (conn\<lparr>c_errnum := 0\<rparr>) \<noteq> exs_Conn_Error"
  using assms
  by (auto simp: body_ready_def conn_state_bits_def xs_conn_state_def xs_http_state_def head_req_def Let_def)

lemma httpread_is_body:
  assumes r: "body_ready conn r" and left: "q_consumed r < q_contentlen r"
  shows "xs_conn_httpread room big ctx now conn len = httpread_body room (conn\<lparr>c_errnum := 0\<rparr>) r len"
proof -
  have "conn_state_bits (conn\<lparr>c_errnum := 0\<rparr>) \<noteq> exs_Conn_Complete" "conn_state_bits (conn\<lparr>c_errnum := 0\<rparr>) \<noteq> exs_Conn_Error"
    using body_state [OF r] left by simp_all
  then show ?thesis using r by (simp add: xs_conn_httpread_def Let_def body_ready_def head_req_def)
qed

lemma httpread_body_data:
  assumes r: "body_ready conn r" and left: "q_consumed r < q_contentlen r"
  shows "\<exists>c n d rr. xs_conn_httpread room big ctx now conn len = Some (c, n, d, rr) \<and>
    d @ conn_stream c = conn_stream conn \<and> length d \<le> min len (q_contentlen r - q_consumed r) \<and>
    (0 < n \<longrightarrow> n = int (length d)) \<and> (n \<le> 0 \<longrightarrow> d = []) \<and>
    body_ready c (r\<lparr>q_consumed := q_consumed r + length d\<rparr>) \<and> (0 < n \<longrightarrow> c_errnum c = 0) \<and>
    (recv_blocks (e_recv conn) \<longrightarrow> recv_blocks (e_recv c) \<and> (0 < len \<longrightarrow> conn_stream conn \<noteq> [] \<longrightarrow> 0 < n))"
proof -
  let ?conn = "conn\<lparr>c_errnum := 0\<rparr>" and ?len = "min len (q_contentlen r - q_consumed r)"
  have R: "c_req conn = [r]" "q_datamask r = [0, 0, 0, 0]" "buf_ok conn" "cache_ok conn" using r by (simp_all add: body_ready_def)
  have mask: "(if q_datamask r \<noteq> [0, 0, 0, 0] then ws_xor (q_datamask r) d else d) = d" for d using R by simp
  let ?rem = "nat (c_datalen conn - c_consumed conn)"
  have rem: "nat (size64 (c_datalen conn - c_consumed conn)) = ?rem"
    using r by (simp add: body_ready_def buf_ok_def size64_id)
  show ?thesis
  proof (cases "0 < ?rem")
    case True
    then obtain b where b: "c_buf conn = Some b" using R(3) by (auto simp: buf_ok_def split: option.splits)
    have B: "0 \<le> c_consumed conn" "c_consumed conn \<le> c_datalen conn" "nat (c_datalen conn) \<le> length b"
      using R(3) b by (auto simp: buf_ok_def)
    then have in_range: "nat (c_consumed conn) + min ?rem ?len \<le> length b" by linarith
    obtain d where d: "rds b (nat (c_consumed conn)) (min ?rem ?len) = Some d"
      "d = take (min ?rem ?len) (drop (nat (c_consumed conn)) b)"
      using in_range by (simp add: mem_simps)
    have "min ?rem ?len \<le> length b - nat (c_consumed conn)" using in_range by linarith
    then have dl: "length d = min ?rem ?len" by (simp only: d(2) length_take length_drop min_absorb2)
    let ?c1 = "?conn\<lparr>c_consumed := c_consumed conn + int (length d)\<rparr>"
    let ?c2 = "if 0 < int (length d) then upd_head (\<lambda>r. r\<lparr>q_consumed := q_consumed r + nat (int (length d))\<rparr>) ?c1 else ?c1"
    have eq: "xs_conn_httpread room big ctx now conn len = Some (?c2, int (length d), d, more_buffered ?c1)"
      using httpread_is_body [OF r left] True left b d(1) mask rem
      by (simp add: httpread_body_def Let_def)
    have c2: "?c2 = ?c1\<lparr>c_req := [r\<lparr>q_consumed := q_consumed r + length d\<rparr>]\<rparr>"
      using R(1) by (simp add: upd_head_def)
    have un: "d @ conn_unread ?c2 = conn_unread conn"
    proof -
      have k: "nat (c_consumed conn + int (length d)) = nat (c_consumed conn) + length d" using B by simp
      have m: "nat (c_datalen conn - (c_consumed conn + int (length d))) = ?rem - length d" by simp
      let ?u = "drop (nat (c_consumed conn)) b"
      have "conn_unread ?c2 = take (?rem - length d) (drop (length d) ?u)"
        unfolding c2 using b k m by (simp add: conn_unread_def add.commute)
      moreover have "d = take (length d) ?u" by (subst dl, rule d(2))
      moreover have "length d \<le> ?rem" unfolding dl by simp
      ultimately show ?thesis using take_split [of d ?u ?rem] b by (simp add: conn_unread_def)
    qed
    have ready: "body_ready ?c2 (r\<lparr>q_consumed := q_consumed r + length d\<rparr>)"
    proof -
      have "length d \<le> ?len" "length d \<le> ?rem" unfolding dl by (rule min.cobounded2, rule min.cobounded1)
      then have "q_consumed r + length d \<le> q_contentlen r" "c_consumed conn + int (length d) \<le> c_datalen conn"
        using left B by auto
      then show ?thesis unfolding c2 using r left b
        by (simp add: body_ready_def buf_ok_def cache_ok_def split: option.splits)
    qed
    have e: "e_recv ?c2 = e_recv conn" "c_errnum ?c2 = 0" unfolding c2 by simp_all
    have pos: "0 < int (length d)" if "0 < len" using that True left unfolding dl by simp
    have le: "length d \<le> ?len" unfolding dl by (rule min.cobounded2)
    have st: "d @ conn_stream ?c2 = conn_stream conn" using un e(1) by (simp add: conn_stream_def)
    show ?thesis
      by (rule exI [of _ ?c2], rule exI [of _ "int (length d)"], rule exI [of _ d], rule exI [of _ "more_buffered ?c1"])
        (use eq st le ready e pos in auto)
  next
    case False
    have ok: "cache_ok ?conn" using R by (simp add: cache_ok_def)
    obtain c n d rr where c: "xs_conn_read room ?conn ?len = Some (c, n, d, rr)"
      "d @ recv_data (e_recv c) = recv_data (e_recv ?conn)" "length d \<le> ?len" "0 < n \<longrightarrow> n = int (length d)"
      "n \<le> 0 \<longrightarrow> d = []" "cache_ok c" "read_frame ?conn c" "0 < n \<longrightarrow> c_errnum c = 0"
      "recv_blocks (e_recv ?conn) \<longrightarrow> recv_blocks (e_recv c) \<and> (0 < ?len \<longrightarrow> recv_data (e_recv ?conn) \<noteq> [] \<longrightarrow> 0 < n)"
      using conn_read_data [OF ok, of room ?len] by (elim exE conjE) (rule that)
    have F: "c_req c = [r]" "c_buf c = c_buf conn" "c_datalen c = c_datalen conn" "c_consumed c = c_consumed conn"
      "c_bufsize c = c_bufsize conn" "c_sock c = c_sock conn" "c_upgrade c = c_upgrade conn"
      using c(7) R(1) by (simp_all add: read_frame_def)
    let ?c2 = "if 0 < n then upd_head (\<lambda>r. r\<lparr>q_consumed := q_consumed r + nat n\<rparr>) c else c"
    have eq: "xs_conn_httpread room big ctx now conn len = Some (?c2, n, d, rr)"
      using httpread_is_body [OF r left] False left mask c(1) rem by (simp add: httpread_body_def Let_def)
    have c2: "?c2 = c\<lparr>c_req := [r\<lparr>q_consumed := q_consumed r + length d\<rparr>]\<rparr>"
    proof (cases "0 < n")
      case True
      then show ?thesis using F(1) c(4) by (simp add: upd_head_def)
    next
      case False
      then show ?thesis using F(1) c(5) by (cases r) simp
    qed
    have un: "conn_unread ?c2 = []" "conn_unread conn = []" unfolding c2 using False F by (simp_all add: conn_unread_def split: option.splits)
    have st: "d @ conn_stream ?c2 = conn_stream conn" using un c(2) unfolding c2 by (simp add: conn_stream_def)
    have ready: "body_ready ?c2 (r\<lparr>q_consumed := q_consumed r + length d\<rparr>)"
    proof -
      have "buf_ok (c\<lparr>c_req := [r\<lparr>q_consumed := q_consumed r + length d\<rparr>]\<rparr>)"
        using buf_ok_cong [of "c\<lparr>c_req := [r\<lparr>q_consumed := q_consumed r + length d\<rparr>]\<rparr>" conn] F R(3) by simp
      moreover have "q_consumed r + length d \<le> q_contentlen r" using c(3) left by auto
      ultimately show ?thesis unfolding c2 using r left c(6) F by (simp add: body_ready_def cache_ok_def)
    qed
    have e: "e_recv ?c2 = e_recv c" "c_errnum ?c2 = c_errnum c" unfolding c2 by simp_all
    have nz: "recv_data (e_recv conn) \<noteq> []" if "conn_stream conn \<noteq> []" using that un(2) by (simp add: conn_stream_def)
    show ?thesis
      by (rule exI [of _ ?c2], rule exI [of _ n], rule exI [of _ d], rule exI [of _ rr])
        (use eq st c(3,4,5,8,9) ready e nz left in auto)
  qed
qed

fun read_body :: "(nat \<Rightarrow> bool) \<Rightarrow> bool \<Rightarrow> SHA1_CTX \<Rightarrow> byte list \<Rightarrow> nat list \<Rightarrow> xs_conn \<Rightarrow> (xs_conn \<times> byte list) option" where
  \<comment> \<open>a caller that reads with buffers of the given sizes until the connection says \<open>exs_Conn_Complete\<close>\<close>
  "read_body room big ctx now [] conn = Some (conn, [])"
| "read_body room big ctx now (l # ls) conn =
     (if conn_state_bits conn = exs_Conn_Complete then Some (conn, [])
      else do {
        (c, n, d, rr) \<leftarrow> xs_conn_httpread room big ctx now conn l;
        (c', ds) \<leftarrow> read_body room big ctx now ls c;
        Some (c', d @ ds) })"

lemma read_body_delivers:
  assumes "body_ready conn r" "c_errnum conn = 0" "recv_blocks (e_recv conn)" "\<forall>l\<in>set ls. 0 < l"
    "body_left conn \<le> length (conn_stream conn)" "body_left conn \<le> length ls"
  shows "\<exists>c. read_body room big ctx now ls conn = Some (c, take (body_left conn) (conn_stream conn)) \<and>
    conn_stream c = drop (body_left conn) (conn_stream conn) \<and> conn_state_bits c = exs_Conn_Complete"
  using assms
proof (induction ls arbitrary: conn r)
  case Nil
  then have "body_left conn = 0" by simp
  then have "q_consumed r = q_contentlen r" using body_ready_left [OF Nil(1)] Nil(1) by (simp add: body_ready_def)
  moreover have "conn\<lparr>c_errnum := 0\<rparr> = conn" using Nil(2) by simp
  ultimately have "conn_state_bits conn = exs_Conn_Complete" using body_state(1) [OF Nil(1)] by metis
  then show ?case using \<open>body_left conn = 0\<close> by simp
next
  case (Cons l ls)
  have e0: "conn\<lparr>c_errnum := 0\<rparr> = conn" using Cons.prems(2) by simp
  note left = body_ready_left [OF Cons.prems(1)]
  show ?case
  proof (cases "body_left conn = 0")
    case True
    then have "q_consumed r = q_contentlen r" using left Cons.prems(1) by (simp add: body_ready_def)
    then have "conn_state_bits conn = exs_Conn_Complete" using body_state(1) [OF Cons.prems(1)] e0 by metis
    then show ?thesis using True by simp
  next
    case False
    then have lt: "q_consumed r < q_contentlen r" using left by simp
    have go: "conn_state_bits conn \<noteq> exs_Conn_Complete" using body_state(1) [OF Cons.prems(1), unfolded e0] lt by simp
    obtain c n d rr where c: "xs_conn_httpread room big ctx now conn l = Some (c, n, d, rr)"
      "d @ conn_stream c = conn_stream conn" "length d \<le> min l (q_contentlen r - q_consumed r)"
      "0 < n \<longrightarrow> n = int (length d)" "n \<le> 0 \<longrightarrow> d = []"
      "body_ready c (r\<lparr>q_consumed := q_consumed r + length d\<rparr>)" "0 < n \<longrightarrow> c_errnum c = 0"
      "recv_blocks (e_recv conn) \<longrightarrow> recv_blocks (e_recv c) \<and> (0 < l \<longrightarrow> conn_stream conn \<noteq> [] \<longrightarrow> 0 < n)"
      using httpread_body_data [OF Cons.prems(1) lt, of room big ctx now l] by (elim exE conjE) (rule that)
    have n: "0 < n" using c(8) Cons.prems(3-5) False by auto
    then have d: "0 < length d" using c(4) by simp
    have left': "body_left c = body_left conn - length d" using body_ready_left [OF c(6)] left by simp
    have dl: "length d \<le> body_left conn" using c(3) left by simp
    have len: "length (conn_stream conn) = length d + length (conn_stream c)" by (simp flip: c(2))
    obtain c' where c': "read_body room big ctx now ls c = Some (c', take (body_left c) (conn_stream c))"
      "conn_stream c' = drop (body_left c) (conn_stream c)" "conn_state_bits c' = exs_Conn_Complete"
    proof -
      have "body_left c \<le> length (conn_stream c)" "body_left c \<le> length ls"
        using left' dl len d Cons.prems(5,6) list.size(4) [of l ls] by linarith+
      then show ?thesis using Cons.IH [OF c(6)] that n c(7,8) Cons.prems(3,4) by auto
    qed
    have "take (body_left conn) (conn_stream conn) = d @ take (body_left c) (conn_stream c)"
      "drop (body_left conn) (conn_stream conn) = drop (body_left c) (conn_stream c)"
      using dl left' by (simp_all flip: c(2))
    then show ?thesis using c' c(1) go by simp
  qed
qed

subsection \<open>Lemmas: chunk headers\<close>

lemma first_undone_upd: "first_undone rs = Some q \<Longrightarrow> \<not> q_done (f q) \<Longrightarrow> first_undone (upd_undone f rs) = Some (f q)"
  by (induction rs) (auto split: if_splits)

lemma first_undone_undone: "first_undone rs = Some q \<Longrightarrow> \<not> q_done q"
  by (induction rs) (auto split: if_splits)

lemma unread_split:
  assumes "buf_ok conn" "conn_unread conn = u" "u \<noteq> []"
  shows "\<exists>b j. c_buf conn = Some b \<and> b = take (nat (c_consumed conn)) b @ u @ j \<and>
    length (take (nat (c_consumed conn)) b) = nat (c_consumed conn) \<and> nat (c_datalen conn - c_consumed conn) = length u"
proof -
  obtain b where b: "c_buf conn = Some b" using assms by (auto simp: conn_unread_def split: option.splits)
  let ?k = "nat (c_consumed conn)" and ?m = "nat (c_datalen conn - c_consumed conn)"
  have "?k + ?m \<le> length b" using assms(1) b by (auto simp: buf_ok_def)
  moreover have u: "u = take ?m (drop ?k b)" using assms(2) b by (simp add: conn_unread_def)
  moreover have "b = take ?k b @ take ?m (drop ?k b) @ drop ?m (drop ?k b)" by (metis append_take_drop_id)
  ultimately have "b = take ?k b @ u @ drop ?m (drop ?k b)" "length u = ?m" "length (take ?k b) = ?k" by simp_all
  then show ?thesis using b by metis
qed

lemma chunkready_value:
  assumes ok: "buf_ok conn" and u: "conn_unread conn = ws @ ds @ 13 # 10 # r" and q: "xs_conn_getreq conn = Some q"
    and ws: "\<forall>c\<in>set ws. \<not> hex_digit c" and ds: "\<forall>c\<in>set ds. hex_digit c" "ds \<noteq> []" "hex_value 0 ds < 2 ^ 31"
  shows "\<exists>c. xs_conn_chunkready room conn = Some (c, hex_value 0 ds) \<and>
    xs_conn_getreq c = Some (q\<lparr>q_contentlen := q_contentlen q + nat (hex_value 0 ds)\<rparr>) \<and>
    c_datalen c - c_consumed c = int (length r) - (if hex_value 0 ds \<noteq> 0 then 0 else 2) \<and>
    (hex_value 0 ds \<noteq> 0 \<longrightarrow> buf_ok c \<and> conn_unread c = r)"
proof -
  obtain c0 where c0: "xs_conn_bufresize room conn = Some c0" "buf_ok c0" "conn_unread c0 = conn_unread conn"
    "c0 = conn\<lparr>c_buf := c_buf c0, c_bufsize := c_bufsize c0, c_datalen := c_datalen c0, c_consumed := c_consumed c0\<rparr>"
    using bufresize_ok [OF ok, of room] by blast
  have u0: "conn_unread c0 = ws @ ds @ 13 # 10 # r" using c0(3) u by simp
  obtain b j where b: "c_buf c0 = Some b" "b = take (nat (c_consumed c0)) b @ (ws @ ds @ 13 # 10 # r) @ j"
    "length (take (nat (c_consumed c0)) b) = nat (c_consumed c0)"
    "nat (c_datalen c0 - c_consumed c0) = length (ws @ ds @ 13 # 10 # r)"
    using unread_split [OF c0(2) u0] by auto
  let ?pre = "take (nat (c_consumed c0)) b" and ?n = "hex_value 0 ds"
  define p where "p = nat (c_consumed c0) + length ws + length ds + 2 + (if ?n \<noteq> 0 then 0 else 2)"
  have "xs_scan_chunk (?pre @ ws @ ds @ 13 # 10 # r @ j) (length ?pre) (length (ws @ ds @ 13 # 10 # r)) =
    Some (?n, Some (length ?pre + length ws + length ds + 2 + (if ?n \<noteq> 0 then 0 else 2)))"
    by (rule scan_chunk_value [OF ws ds]) simp_all
  then have cs: "chunk_size c0 = Some (?n, Some p)"
    using b by (simp add: chunk_size_def p_def)
  have nonneg: "0 \<le> ?n" using hex_value_mono [of 0 ds] ds(1) by simp
  have req: "xs_conn_getreq c0 = Some q" using q by (subst c0(4)) (simp add: xs_conn_getreq_def)
  let ?c = "c0\<lparr>c_consumed := int p, c_req := upd_undone (\<lambda>r. r\<lparr>q_contentlen := q_contentlen r + nat ?n\<rparr>) (c_req c0)\<rparr>"
  have eq: "xs_conn_chunkready room conn = Some (?c, ?n)"
    using c0(1) cs nonneg req by (simp add: xs_conn_chunkready_def)
  have undone: "\<not> q_done q" using q first_undone_undone unfolding xs_conn_getreq_def by blast
  have g: "xs_conn_getreq ?c = Some (q\<lparr>q_contentlen := q_contentlen q + nat ?n\<rparr>)"
    using req first_undone_upd [of "c_req c0" q "\<lambda>r. r\<lparr>q_contentlen := q_contentlen r + nat ?n\<rparr>"] undone
    by (simp add: xs_conn_getreq_def)
  have B: "0 \<le> c_consumed c0" "c_consumed c0 \<le> c_datalen c0" "c_datalen c0 \<le> c_bufsize c0" "length b = nat (c_bufsize c0)" "0 < c_bufsize c0"
    using c0(2) b(1) by (auto simp: buf_ok_def)
  have left: "c_datalen ?c - c_consumed ?c = int (length r) - (if ?n \<noteq> 0 then 0 else 2)" using b(4) B by (auto simp: p_def)
  have rest: "buf_ok ?c \<and> conn_unread ?c = r" if "?n \<noteq> 0"
  proof -
    have p: "p = length (?pre @ ws @ ds @ [13, 10])" using that b(3) by (simp add: p_def)
    have "drop p b = r @ j"
    proof -
      have "b = (?pre @ ws @ ds @ [13, 10]) @ r @ j" using b(2) by simp
      then show ?thesis unfolding p by (metis append_eq_conv_conj)
    qed
    moreover have "nat (c_datalen ?c - c_consumed ?c) = length r" using left that by simp
    moreover have "c_consumed ?c \<le> c_datalen ?c" using left that by simp
    ultimately show ?thesis using b(1) B by (simp add: buf_ok_def conn_unread_def)
  qed
  show ?thesis by (rule exI [of _ ?c]) (use eq g left rest in blast)
qed

subsection \<open>Properties\<close>

text \<open>Making room in the receive buffer. Whatever its state, \<open>xs_conn_bufresize\<close> keeps the received and
  unconsumed bytes and the buffer's bounds and changes nothing else, even when memory runs out; with memory there is
  free space to receive into afterwards.\<close>

theorem xs_conn_bufresize_makes_room:
  assumes "buf_ok conn"
  shows "\<exists>c. xs_conn_bufresize room conn = Some c \<and> buf_ok c \<and> conn_unread c = conn_unread conn \<and>
    c = conn\<lparr>c_buf := c_buf c, c_bufsize := c_bufsize c, c_datalen := c_datalen c, c_consumed := c_consumed c\<rparr> \<and>
    ((\<forall>n. room n) \<longrightarrow> c_datalen c < c_bufsize c \<and> c_buf c \<noteq> None)"
  using bufresize_ok [OF assms, of room] by blast

definition read_example :: xs_conn where
  \<comment> \<open>four bytes of body to come, one of them received, the peer sending two blocks\<close>
  "read_example = xs_conn_create\<lparr>c_sock := 5, c_buf := Some [9, 98, 0, 0, 0, 0, 0, 0], c_bufsize := 8, c_datalen := 2,
     c_consumed := 1, c_req := [(empty_req 4)\<lparr>q_reqlen := 20, q_contentlen := 4\<rparr>],
     e_recv := [Recv [99, 100], Recv [101, 102, 103]]\<rparr>"

definition ctx_example :: SHA1_CTX where
  "ctx_example = \<lparr>sstate = [], scount0 = 0, scount1 = 0, sbuffer = replicate 64 0\<rparr>"

lemma read_example_ready:
  "body_ready read_example ((empty_req 4)\<lparr>q_reqlen := 20, q_contentlen := 4\<rparr>)" "body_left read_example = 4"
  "conn_stream read_example = [98, 99, 100, 101, 102, 103]" "conn_unread read_example = [98]" "c_errnum read_example = 0"
  "recv_blocks (e_recv read_example)" "buf_ok read_example"
  by (simp_all add: read_example_def body_ready_def xs_conn_create_def empty_req_def buf_ok_def cache_ok_def arr_wf_def
    xs_arr_create_def body_left_def head_req_def conn_stream_def conn_unread_def recv_blocks_def)

theorem xs_conn_bufresize_makes_room_witness:
  "\<exists>c. xs_conn_bufresize (\<lambda>_. True) read_example = Some c \<and> conn_unread c = [98] \<and> c_datalen c < c_bufsize c"
  using xs_conn_bufresize_makes_room [OF read_example_ready(7), of "\<lambda>_. True"] read_example_ready(4) by auto

text \<open>One read of a body. \<open>xs_conn_httpread\<close> delivers the front of the incoming stream, no more than the
  caller's buffer holds and no more than the message has left; what it does not deliver is still to come, in
  order, and the message has advanced by exactly what was delivered.\<close>

theorem xs_conn_httpread_takes_front:
  assumes "body_ready conn r" "q_consumed r < q_contentlen r"
  shows "\<exists>c n d rr. xs_conn_httpread room big ctx now conn len = Some (c, n, d, rr) \<and>
    d @ conn_stream c = conn_stream conn \<and> length d \<le> len \<and> int (length d) = max 0 n \<and>
    body_ready c (r\<lparr>q_consumed := q_consumed r + length d\<rparr>) \<and> body_left c = body_left conn - length d"
proof -
  obtain c n d rr where c: "xs_conn_httpread room big ctx now conn len = Some (c, n, d, rr)"
    "d @ conn_stream c = conn_stream conn" "length d \<le> min len (q_contentlen r - q_consumed r)"
    "0 < n \<longrightarrow> n = int (length d)" "n \<le> 0 \<longrightarrow> d = []"
    "body_ready c (r\<lparr>q_consumed := q_consumed r + length d\<rparr>)"
    using httpread_body_data [OF assms, of room big ctx now len] by (elim exE conjE) (rule that)
  then show ?thesis using body_ready_left [OF assms(1)] body_ready_left [OF c(6)]
    by (intro exI [of _ c] exI [of _ n] exI [of _ d] exI [of _ rr]) auto
qed

theorem xs_conn_httpread_takes_front_witness:
  "\<exists>c n d rr. xs_conn_httpread (\<lambda>_. True) False (ctx_example) [] read_example 3 = Some (c, n, d, rr) \<and>
    d @ conn_stream c = [98, 99, 100, 101, 102, 103]"
  using xs_conn_httpread_takes_front [OF read_example_ready(1), of "\<lambda>_. True" False "ctx_example" "[]" 3]
    read_example_ready(3) by (auto simp: empty_req_def)



text \<open>Chunk headers. With the line that announces a chunk in the buffer, \<open>xs_conn_chunkready\<close> reads its size,
  adds it to the length of the message and leaves the buffer at the data that follows. The last chunk (size 0) is
  taken to be followed by an empty line whether or not that has arrived: the position is two bytes further, which
  is behind the received data when the line break comes in a later segment.\<close>

theorem xs_conn_chunkready_reads_header:
  assumes "buf_ok conn" "conn_unread conn = ws @ ds @ 13 # 10 # r" "xs_conn_getreq conn = Some q"
    "\<forall>c\<in>set ws. \<not> hex_digit c" "\<forall>c\<in>set ds. hex_digit c" "ds \<noteq> []" "hex_value 0 ds < 2 ^ 31"
  shows "\<exists>c. xs_conn_chunkready room conn = Some (c, hex_value 0 ds) \<and>
    xs_conn_getreq c = Some (q\<lparr>q_contentlen := q_contentlen q + nat (hex_value 0 ds)\<rparr>) \<and>
    (if hex_value 0 ds \<noteq> 0 then buf_ok c \<and> conn_unread c = r
     else c_consumed c = c_datalen c - int (length r) + 2)"
  using chunkready_value [OF assms, of room] by (auto simp: algebra_simps)

definition chunk_example :: xs_conn where
  "chunk_example = read_example\<lparr>c_buf := Some [48, 13, 10, 0, 0, 0, 0, 0], c_datalen := 3, c_consumed := 0,
     c_req := [(empty_req 4)\<lparr>q_reqlen := 20, q_chunked := True\<rparr>]\<rparr>"

theorem xs_conn_chunkready_reads_header_witness:
  "\<exists>c. xs_conn_chunkready (\<lambda>_. True) chunk_example = Some (c, 0) \<and> c_consumed c = c_datalen c + 2"
proof -
  have ok: "buf_ok chunk_example" "conn_unread chunk_example = [] @ [48] @ 13 # 10 # []"
    "xs_conn_getreq chunk_example = Some ((empty_req 4)\<lparr>q_reqlen := 20, q_chunked := True\<rparr>)"
    by (simp_all add: chunk_example_def read_example_def buf_ok_def conn_unread_def xs_conn_getreq_def empty_req_def)
  have "hex_digit (48 :: byte)" "hex_value 0 [48 :: byte] = 0" by (simp_all add: hex_digit_def xs_fromhex_def hex_value_def)
  then show ?thesis using xs_conn_chunkready_reads_header [OF ok, of "\<lambda>_. True"] by auto
qed

end
