(* ===== verification/Queue.thy ===== *)
theory Queue
  imports Pipe
begin

text \<open>
  The lock-free ring buffer \<open>xs/xs_queue.h\<close> that feeds worker threads.

  The queue's operations appear twice: as functions of one thread (\<open>xs_queue_push\<close>, \<open>xs_queue_pop\<close>, \<dots>), and as
  programs of single accesses to the shared state (\<open>thread_step\<close>), which any number of threads interleave
  (\<open>queue_step\<close>). An element, \<open>qElemSize\<close> bytes for the code, is a value here and copying one is a single step.
  A loop that waits for other threads stays where it is in a step, and gives \<open>None\<close> in the one-thread function,
  where it would wait for ever. Memory accesses are sequentially consistent and the \<open>long\<close> counters do not wrap.
\<close>

subsection \<open>State\<close>

record 'a xs_queue =
  qSpace :: nat
  qData :: "'a list option"
  qWriteInd :: nat
  qReadInd :: nat
  qAvailInd :: nat
  qReadLock :: int
  qWriteLock :: int
  qElemSize :: nat
  qDepth :: int
  qAttempt :: int
  qProcessed :: int
  qIsRunning :: bool
  qActive :: int
  qInactive :: int
  qRealSleeping :: int
  qWorking :: int
  qCreated :: int
  qMaxActive :: int
  qOneCount :: int
  qSleepCount :: int
  qWakeCount :: int
  qDoneCount :: int
  qWaitExecCount :: int
  e_signals :: nat
  e_threads :: nat

definition xs_queue_zero :: "'a xs_queue" where
  "xs_queue_zero = \<lparr>qSpace = 0, qData = None, qWriteInd = 0, qReadInd = 0, qAvailInd = 0, qReadLock = 0,
     qWriteLock = 0, qElemSize = 0, qDepth = 0, qAttempt = 0, qProcessed = 0, qIsRunning = False, qActive = 0,
     qInactive = 0, qRealSleeping = 0, qWorking = 0, qCreated = 0, qMaxActive = 0, qOneCount = 0, qSleepCount = 0,
     qWakeCount = 0, qDoneCount = 0, qWaitExecCount = 0, e_signals = 0, e_threads = 0\<rparr>"

definition xs_queue_create2 :: "(nat \<Rightarrow> bool) \<Rightarrow> 'a \<Rightarrow> 'a xs_queue \<Rightarrow> nat \<Rightarrow> nat \<Rightarrow> 'a xs_queue" where
  \<comment> \<open>\<open>junk\<close> is what the fresh memory holds\<close>
  "xs_queue_create2 room junk qs elemSize qsize =
     qs\<lparr>qWriteInd := 0, qReadInd := 0, qAvailInd := 0,
        qData := (if elemSize * qsize \<noteq> 0 \<and> room (elemSize * qsize) then Some (replicate qsize junk) else None),
        qSpace := qsize, qElemSize := elemSize\<rparr>"

definition xs_queue_create :: "(nat \<Rightarrow> bool) \<Rightarrow> 'a \<Rightarrow> nat \<Rightarrow> nat \<Rightarrow> 'a xs_queue" where
  "xs_queue_create room junk elemSize queueSize =
     (xs_queue_create2 room junk xs_queue_zero elemSize queueSize)\<lparr>qElemSize := elemSize\<rparr>"

definition xs_queue_destroy :: "'a xs_queue \<Rightarrow> 'a xs_queue option" where
  \<comment> \<open>waits until no worker is left\<close>
  "xs_queue_destroy qs = (if qActive qs \<noteq> 0 \<or> qInactive qs \<noteq> 0 then None else Some xs_queue_zero)"

definition xs_queue_size :: "'a xs_queue \<Rightarrow> int" where
  "xs_queue_size qs = qDepth qs"

definition xs_queue_full :: "'a xs_queue \<Rightarrow> bool" where
  "xs_queue_full qs \<longleftrightarrow> qDepth qs + 1 \<ge> int (qSpace qs)"

definition xs_queue_launchthreads :: "'a xs_queue \<Rightarrow> int \<Rightarrow> 'a xs_queue" where
  \<comment> \<open>the loop bound is 0: threads are started by \<open>xs_queue_push\<close>\<close>
  "xs_queue_launchthreads qs n = qs\<lparr>qIsRunning := True, qCreated := 0, qMaxActive := n\<rparr>"

definition xs_queue_grow :: "(nat \<Rightarrow> bool) \<Rightarrow> 'a \<Rightarrow> 'a xs_queue \<Rightarrow> nat \<Rightarrow> 'a xs_queue option" where
  \<comment> \<open>waits for \<open>qReadLock\<close>; \<open>qSpace\<close> keeps its value\<close>
  "xs_queue_grow room junk qs space =
     (if qReadLock qs \<noteq> 0 then None
      else
        let si = qElemSize qs * space;
            old = (case qData qs of None \<Rightarrow> [] | Some d \<Rightarrow> d);
            data = take space old @ replicate (space - length old) junk
        in Some (if room si then qs\<lparr>qData := Some data\<rparr> else qs))"

subsection \<open>Waking workers\<close>

definition xs_queue_resume :: "'a xs_queue \<Rightarrow> 'a xs_queue" where
  "xs_queue_resume qs =
     (if qInactive qs = 0 then qs else qs\<lparr>qWakeCount := qWakeCount qs + 1, e_signals := e_signals qs + 1\<rparr>)"

definition xs_queue_pause :: "'a xs_queue \<Rightarrow> 'a xs_queue \<times> bool" where
  \<comment> \<open>the state in which the worker sleeps on the condition variable, and whether it does; the counters
      \<open>qInactive\<close> and \<open>qRealSleeping\<close> go down again when it returns\<close>
  "xs_queue_pause qs0 =
     (let qs = qs0\<lparr>qSleepCount := qSleepCount qs0 + 1, qInactive := qInactive qs0 + 1,
                 qRealSleeping := qRealSleeping qs0 + 1\<rparr>;
          waits = ((qActive qs - qInactive qs - qWorking qs > qDepth qs \<or> qDepth qs = 0) \<and> qProcessed qs \<ge> qAttempt qs)
      in if waits then (qs, True)
         else (qs\<lparr>qInactive := qInactive qs - 1, qRealSleeping := qRealSleeping qs - 1\<rparr>, False))"

definition queue_kick :: "'a xs_queue \<Rightarrow> 'a xs_queue" where
  \<comment> \<open>the end of \<open>xs_queue_push\<close>\<close>
  "queue_kick qs =
     (if qMaxActive qs = 0 then qs
      else if qInactive qs = 0 \<and> qWorking qs = qActive qs \<and> qCreated qs < qMaxActive qs \<and> qCreated qs = qActive qs
      then qs\<lparr>e_threads := e_threads qs + 1\<rparr>
      else
        let qs1 = (if qInactive qs + 1 = qActive qs then qs\<lparr>qOneCount := qOneCount qs + 1\<rparr> else qs) in
        if qInactive qs1 + 1 \<ge> qActive qs1 then xs_queue_resume qs1
        else if qDepth qs1 + qWorking qs1 > qActive qs1 - qInactive qs1 then xs_queue_resume qs1
        else qs1)"

subsection \<open>Push and pop in one thread\<close>

definition ring_next :: "'a xs_queue \<Rightarrow> nat \<Rightarrow> nat" where
  "ring_next qs i = (if i + 1 = qSpace qs then 0 else i + 1)"

definition queue_store :: "'a xs_queue \<Rightarrow> nat \<Rightarrow> 'a \<Rightarrow> 'a xs_queue option" where
  "queue_store qs i v = do { d \<leftarrow> qData qs; d1 \<leftarrow> wr d i v; Some (qs\<lparr>qData := Some d1\<rparr>) }"

definition queue_load :: "'a xs_queue \<Rightarrow> nat \<Rightarrow> 'a option" where
  "queue_load qs i = do { d \<leftarrow> qData qs; rd d i }"

definition xs_queue_push :: "'a xs_queue \<Rightarrow> 'a \<Rightarrow> bool \<Rightarrow> ('a xs_queue \<times> int) option" where
  \<comment> \<open>when the ring has no room, \<open>continue\<close> in a blocking push goes on to the loop's condition, the swap\<close>
  "xs_queue_push qs0 v blocking =
     (let qs = (if blocking then qs0\<lparr>qAttempt := qAttempt qs0 + 1\<rparr> else qs0) in
      if xs_queue_full qs then (if blocking then None else Some (qs, 1))
      else
        let wi = qWriteInd qs; nwi = ring_next qs wi in
        if nwi = qReadInd qs \<and> \<not> blocking then Some (qs, 1)
        else do {
          let qs1 = qs\<lparr>qWriteInd := nwi\<rparr>;
          let qs2 = (if blocking then qs1 else qs1\<lparr>qAttempt := qAttempt qs1 + 1\<rparr>);
          qs3 \<leftarrow> queue_store qs2 wi v;
          if qAvailInd qs3 \<noteq> wi then None
          else
            let qs4 = qs3\<lparr>qAvailInd := nwi, qReadLock := qReadLock qs3 - 1, qDepth := qDepth qs3 + 1\<rparr>
            in Some (queue_kick qs4, 0) })"

definition xs_queue_pop :: "'a xs_queue \<Rightarrow> bool \<Rightarrow> ('a xs_queue \<times> 'a option \<times> int) option" where
  "xs_queue_pop qs blocking =
     (if qDepth qs = 0 \<or> qReadInd qs = qAvailInd qs then Some (qs, None, - 1)
      else do {
        v \<leftarrow> queue_load qs (qReadInd qs);
        Some (qs\<lparr>qReadInd := ring_next qs (qReadInd qs), qDepth := qDepth qs - 1\<rparr>, Some v, 0) })"

definition xs_queue_add :: "'a xs_queue \<Rightarrow> 'a \<Rightarrow> 'a xs_queue option" where
  "xs_queue_add qs v =
     (if \<not> qIsRunning qs then Some qs
      else if qData qs \<noteq> None then map_option fst (xs_queue_push qs v True)
      else Some qs)"

definition queue_exec_turn :: "('a \<Rightarrow> 'b \<Rightarrow> 'b) \<Rightarrow> 'a xs_queue \<Rightarrow> 'b \<Rightarrow> ('a xs_queue \<times> 'b \<times> bool) option" where
  \<comment> \<open>one turn of the inner loop of \<open>xs_queue_exec\<close> with the callback \<open>qProc\<close> on its data; \<open>True\<close> when the worker
      goes to sleep\<close>
  "queue_exec_turn proc qs s =
     (if qDepth qs \<noteq> 0 then do {
        (qs1, v, r) \<leftarrow> xs_queue_pop qs False;
        case (r = 0, v) of
          (True, Some x) \<Rightarrow>
            Some (qs1\<lparr>qProcessed := qProcessed qs1 + 1\<rparr>, proc x s, False)
        | _ \<Rightarrow>
            Some (if qActive qs1 - qInactive qs1 > qDepth qs1 then qs1\<lparr>qWaitExecCount := qWaitExecCount qs1 + 1\<rparr> else qs1,
              s, False) }
      else (let (qs1, w) = xs_queue_pause qs in Some (qs1, s, w)))"

primrec xs_queue_exec :: "('a \<Rightarrow> 'b \<Rightarrow> 'b) \<Rightarrow> nat \<Rightarrow> 'a xs_queue \<Rightarrow> 'b \<Rightarrow> ('a xs_queue \<times> 'b) option" where
  \<comment> \<open>a worker for at most so many turns, until the queue stops or it goes to sleep\<close>
  "xs_queue_exec proc 0 qs s = Some (qs, s)"
| "xs_queue_exec proc (Suc k) qs s =
     (if \<not> qIsRunning qs then Some (qs\<lparr>qDoneCount := qDoneCount qs + 1, qActive := qActive qs - 1, qCreated := qCreated qs - 1\<rparr>, s)
      else do {
        (qs1, s1, w) \<leftarrow> queue_exec_turn proc qs s;
        if w then Some (qs1, s1) else xs_queue_exec proc k qs1 s1 })"

subsection \<open>Push and pop, access by access\<close>

datatype 'a queue_result = Pushed | Busy | Popped 'a | Empty | Missed

datatype 'a queue_pc =
    Ready "'a queue_result option"
  | Push_attempt 'a bool
  | Push_depth 'a bool
  | Push_write_ind 'a bool
  | Push_read_ind 'a bool nat
  | Push_swap 'a bool nat nat
  | Push_attempt2 'a nat nat
  | Push_copy 'a nat nat
  | Push_avail 'a nat nat
  | Push_inc
  | Push_kick
  | Pop_depth bool
  | Pop_read_ind bool
  | Pop_avail_ind bool nat
  | Pop_copy bool nat
  | Pop_swap bool nat 'a
  | Pop_dec 'a

fun thread_step :: "'a queue_pc \<Rightarrow> 'a xs_queue \<Rightarrow> ('a queue_pc \<times> 'a xs_queue) option" where
  "thread_step (Ready r) qs = Some (Ready r, qs)"
| "thread_step (Push_attempt v b) qs =
     Some (Push_depth v b, if b then qs\<lparr>qAttempt := qAttempt qs + 1\<rparr> else qs)"
| "thread_step (Push_depth v b) qs =
     Some (if \<not> xs_queue_full qs then Push_write_ind v b else if b then Push_depth v b else Ready (Some Busy), qs)"
| "thread_step (Push_write_ind v b) qs = Some (Push_read_ind v b (qWriteInd qs), qs)"
| "thread_step (Push_read_ind v b wi) qs =
     (let nwi = ring_next qs wi in
      Some (if nwi = qReadInd qs \<and> \<not> b then Ready (Some Busy) else Push_swap v b wi nwi, qs))"
| "thread_step (Push_swap v b wi nwi) qs =
     Some (if qWriteInd qs \<noteq> wi then (Push_write_ind v b, qs)
           else (if b then Push_copy v wi nwi else Push_attempt2 v wi nwi, qs\<lparr>qWriteInd := nwi\<rparr>))"
| "thread_step (Push_attempt2 v wi nwi) qs = Some (Push_copy v wi nwi, qs\<lparr>qAttempt := qAttempt qs + 1\<rparr>)"
| "thread_step (Push_copy v wi nwi) qs = do { qs1 \<leftarrow> queue_store qs wi v; Some (Push_avail v wi nwi, qs1) }"
| "thread_step (Push_avail v wi nwi) qs =
     Some (if qAvailInd qs \<noteq> wi then (Push_avail v wi nwi, qs)
           else (Push_inc, qs\<lparr>qAvailInd := nwi, qReadLock := qReadLock qs - 1\<rparr>))"
| "thread_step Push_inc qs = Some (Push_kick, qs\<lparr>qDepth := qDepth qs + 1\<rparr>)"
| "thread_step Push_kick qs = Some (Ready (Some Pushed), queue_kick qs)"
| "thread_step (Pop_depth b) qs = Some (if qDepth qs = 0 then Ready (Some Empty) else Pop_read_ind b, qs)"
| "thread_step (Pop_read_ind b) qs = Some (Pop_avail_ind b (qReadInd qs), qs)"
| "thread_step (Pop_avail_ind b ri) qs = Some (if ri = qAvailInd qs then Ready (Some Empty) else Pop_copy b ri, qs)"
| "thread_step (Pop_copy b ri) qs = do { v \<leftarrow> queue_load qs ri; Some (Pop_swap b ri v, qs) }"
| "thread_step (Pop_swap b ri v) qs =
     Some (if qReadInd qs = ri then (Pop_dec v, qs\<lparr>qReadInd := ring_next qs ri\<rparr>)
           else (if b then Pop_read_ind b else Ready (Some Missed), qs))"
| "thread_step (Pop_dec v) qs = Some (Ready (Some (Popped v)), qs\<lparr>qDepth := qDepth qs - 1\<rparr>)"

record 'a queue_system =
  s_queue :: "'a xs_queue"
  s_pc :: "nat \<Rightarrow> 'a queue_pc"

datatype 'a queue_event = Call_push nat 'a bool | Call_pop nat bool | Run nat

fun queue_step :: "'a queue_event \<Rightarrow> 'a queue_system \<Rightarrow> 'a queue_system option" where
  \<comment> \<open>a thread that is not in an operation calls one, or a thread makes its next access\<close>
  "queue_step (Call_push t v b) s =
     (case s_pc s t of Ready r \<Rightarrow> Some (s\<lparr>s_pc := (s_pc s)(t := Push_attempt v b)\<rparr>) | _ \<Rightarrow> None)"
| "queue_step (Call_pop t b) s =
     (case s_pc s t of Ready r \<Rightarrow> Some (s\<lparr>s_pc := (s_pc s)(t := Pop_depth b)\<rparr>) | _ \<Rightarrow> None)"
| "queue_step (Run t) s = do {
     (p, qs) \<leftarrow> thread_step (s_pc s t) (s_queue s);
     Some (s\<lparr>s_queue := qs, s_pc := (s_pc s)(t := p)\<rparr>) }"

subsection \<open>One producer, one consumer\<close>

definition ring_contents :: "'a xs_queue \<Rightarrow> 'a list" where
  \<comment> \<open>the published elements, from the read index to the available index\<close>
  "ring_contents qs =
     (case qData qs of None \<Rightarrow> [] | Some d \<Rightarrow>
        map (\<lambda>i. d ! ((qReadInd qs + i) mod qSpace qs)) [0..<(qAvailInd qs + qSpace qs - qReadInd qs) mod qSpace qs])"

text \<open>
  The invariant relates the indices to three counters that only grow: \<open>W\<close> slots claimed, \<open>A\<close> published, \<open>R\<close>
  released; the indices are their residues.
\<close>

definition unfinished_push :: "'a queue_pc \<Rightarrow> nat" where
  "unfinished_push p = (case p of Push_attempt2 v wi nwi \<Rightarrow> 1 | Push_copy v wi nwi \<Rightarrow> 1 | Push_avail v wi nwi \<Rightarrow> 1 |
     Push_inc \<Rightarrow> 1 | _ \<Rightarrow> 0)"

definition unfinished_pop :: "'a queue_pc \<Rightarrow> nat" where
  "unfinished_pop p = (case p of Pop_dec v \<Rightarrow> 1 | _ \<Rightarrow> 0)"

fun producer_ok :: "'a queue_pc \<Rightarrow> nat \<Rightarrow> 'a list \<Rightarrow> nat \<Rightarrow> nat \<Rightarrow> nat \<Rightarrow> bool" where
  "producer_ok (Push_write_ind v b) n d W A R \<longleftrightarrow> A = W \<and> W + 1 < R + n"
| "producer_ok (Push_read_ind v b wi) n d W A R \<longleftrightarrow> A = W \<and> W + 1 < R + n \<and> wi = W mod n"
| "producer_ok (Push_swap v b wi nwi) n d W A R \<longleftrightarrow> A = W \<and> W + 1 < R + n \<and> wi = W mod n \<and> nwi = Suc W mod n"
| "producer_ok (Push_attempt2 v wi nwi) n d W A R \<longleftrightarrow> W = Suc A \<and> wi = A mod n \<and> nwi = W mod n"
| "producer_ok (Push_copy v wi nwi) n d W A R \<longleftrightarrow> W = Suc A \<and> wi = A mod n \<and> nwi = W mod n"
| "producer_ok (Push_avail v wi nwi) n d W A R \<longleftrightarrow> W = Suc A \<and> wi = A mod n \<and> nwi = W mod n \<and> d ! (A mod n) = v"
| "producer_ok (Pop_depth b) n d W A R \<longleftrightarrow> False"
| "producer_ok (Pop_read_ind b) n d W A R \<longleftrightarrow> False"
| "producer_ok (Pop_avail_ind b ri) n d W A R \<longleftrightarrow> False"
| "producer_ok (Pop_copy b ri) n d W A R \<longleftrightarrow> False"
| "producer_ok (Pop_swap b ri v) n d W A R \<longleftrightarrow> False"
| "producer_ok (Pop_dec v) n d W A R \<longleftrightarrow> False"
| "producer_ok p n d W A R \<longleftrightarrow> A = W"

fun consumer_ok :: "'a queue_pc \<Rightarrow> nat \<Rightarrow> 'a list \<Rightarrow> nat \<Rightarrow> nat \<Rightarrow> bool" where
  "consumer_ok (Ready r) n d A R \<longleftrightarrow> True"
| "consumer_ok (Pop_depth b) n d A R \<longleftrightarrow> True"
| "consumer_ok (Pop_read_ind b) n d A R \<longleftrightarrow> True"
| "consumer_ok (Pop_avail_ind b ri) n d A R \<longleftrightarrow> ri = R mod n"
| "consumer_ok (Pop_copy b ri) n d A R \<longleftrightarrow> ri = R mod n \<and> R < A"
| "consumer_ok (Pop_swap b ri v) n d A R \<longleftrightarrow> ri = R mod n \<and> R < A \<and> v = d ! (R mod n)"
| "consumer_ok (Pop_dec v) n d A R \<longleftrightarrow> 0 < R"
| "consumer_ok p n d A R \<longleftrightarrow> False"

definition ring_ok :: "'a xs_queue \<Rightarrow> 'a list \<Rightarrow> nat \<Rightarrow> nat \<Rightarrow> nat \<Rightarrow> bool" where
  "ring_ok qs d W A R \<longleftrightarrow> 2 \<le> qSpace qs \<and> qData qs = Some d \<and> length d = qSpace qs \<and>
     qWriteInd qs = W mod qSpace qs \<and> qAvailInd qs = A mod qSpace qs \<and> qReadInd qs = R mod qSpace qs \<and>
     R \<le> A \<and> A \<le> W \<and> W < R + qSpace qs"

definition spsc :: "'a xs_queue \<Rightarrow> 'a queue_pc \<Rightarrow> 'a queue_pc \<Rightarrow> 'a list \<Rightarrow> nat \<Rightarrow> nat \<Rightarrow> nat \<Rightarrow> bool" where
  "spsc qs p c d W A R \<longleftrightarrow> ring_ok qs d W A R \<and> producer_ok p (qSpace qs) d W A R \<and> consumer_ok c (qSpace qs) d A R \<and>
     qDepth qs = int W - int (unfinished_push p) - (int R - int (unfinished_pop c))"

definition spsc_inv :: "'a queue_system \<Rightarrow> bool" where
  "spsc_inv s \<longleftrightarrow> (\<exists>d W A R. spsc (s_queue s) (s_pc s 0) (s_pc s 1) d W A R) \<and> (\<forall>t. 1 < t \<longrightarrow> (\<exists>r. s_pc s t = Ready r))"

fun spsc_event :: "'a queue_event \<Rightarrow> bool" where
  \<comment> \<open>thread 0 pushes, thread 1 pops\<close>
  "spsc_event (Call_push t v b) \<longleftrightarrow> t = 0"
| "spsc_event (Call_pop t b) \<longleftrightarrow> t = 1"
| "spsc_event (Run t) \<longleftrightarrow> True"

definition spsc_step :: "'a queue_event \<Rightarrow> 'a queue_system \<Rightarrow> 'a queue_system option" where
  "spsc_step e s = (if spsc_event e then queue_step e s else None)"

fun published :: "'a queue_event \<Rightarrow> 'a queue_system \<Rightarrow> 'a list" where
  \<comment> \<open>the element a step makes available\<close>
  "published (Run t) s = (case s_pc s t of Push_avail v wi nwi \<Rightarrow> if qAvailInd (s_queue s) = wi then [v] else [] | _ \<Rightarrow> [])"
| "published e s = []"

fun released :: "'a queue_event \<Rightarrow> 'a queue_system \<Rightarrow> 'a list" where
  \<comment> \<open>the element a step takes out\<close>
  "released (Run t) s = (case s_pc s t of Pop_swap b ri v \<Rightarrow> if qReadInd (s_queue s) = ri then [v] else [] | _ \<Rightarrow> [])"
| "released e s = []"

lemma ring_distance:
  assumes "R \<le> A" "A < R + (n :: nat)"
  shows "(A mod n + n - R mod n) mod n = A - R"
proof -
  have n: "0 < n" using assms by simp
  have "(A mod n + n - R mod n) mod n = (A mod n + (n - R mod n)) mod n"
    using n by (simp add: Nat.add_diff_assoc less_imp_le)
  also have "\<dots> = (A + (n - R mod n)) mod n" by (simp add: mod_add_left_eq)
  also have "A + (n - R mod n) = (A - R) + n * (R div n) + n"
  proof -
    have "R = n * (R div n) + R mod n" by simp
    then show ?thesis using assms(1) n mod_less_divisor [of n R] by linarith
  qed
  also have "((A - R) + n * (R div n) + n) mod n = ((A - R) + n * Suc (R div n)) mod n" by (simp add: ac_simps)
  also have "\<dots> = A - R" using assms by (simp only: mod_mult_self2 mod_less)
  finally show ?thesis .
qed

lemma ring_contents_eq:
  assumes "ring_ok qs d W A R"
  shows "ring_contents qs = map (\<lambda>i. d ! ((R + i) mod qSpace qs)) [0..<A - R]"
  using assms ring_distance [of R A "qSpace qs"] by (auto simp: ring_ok_def ring_contents_def mod_add_left_eq)

lemma ring_next_eq: "qSpace qs = n \<Longrightarrow> 0 < n \<Longrightarrow> ring_next qs (k mod n) = Suc k mod n"
  by (simp add: ring_next_def mod_Suc)

lemma queue_kick_frame:
  "qSpace (queue_kick qs) = qSpace qs" "qData (queue_kick qs) = qData qs" "qWriteInd (queue_kick qs) = qWriteInd qs"
  "qAvailInd (queue_kick qs) = qAvailInd qs" "qReadInd (queue_kick qs) = qReadInd qs" "qDepth (queue_kick qs) = qDepth qs"
  by (simp_all add: queue_kick_def xs_queue_resume_def Let_def)

lemma ring_contents_cong:
  "qData qs = qData qs' \<Longrightarrow> qReadInd qs = qReadInd qs' \<Longrightarrow> qAvailInd qs = qAvailInd qs' \<Longrightarrow> qSpace qs = qSpace qs' \<Longrightarrow>
   ring_contents qs = ring_contents qs'"
  unfolding ring_contents_def by (cases "qData qs'") simp_all

lemma ring_ok_cong:
  "ring_ok qs d W A R \<Longrightarrow> qSpace qs' = qSpace qs \<Longrightarrow> qData qs' = qData qs \<Longrightarrow> qWriteInd qs' = qWriteInd qs \<Longrightarrow>
   qAvailInd qs' = qAvailInd qs \<Longrightarrow> qReadInd qs' = qReadInd qs \<Longrightarrow> ring_ok qs' d W A R"
  by (simp add: ring_ok_def)

definition producer_taken :: "'a queue_pc \<Rightarrow> 'a xs_queue \<Rightarrow> 'a list" where
  "producer_taken p qs = (case p of Push_avail v wi nwi \<Rightarrow> if qAvailInd qs = wi then [v] else [] | _ \<Rightarrow> [])"

definition consumer_given :: "'a queue_pc \<Rightarrow> 'a xs_queue \<Rightarrow> 'a list" where
  "consumer_given p qs = (case p of Pop_swap b ri v \<Rightarrow> if qReadInd qs = ri then [v] else [] | _ \<Rightarrow> [])"

lemma producer_step:
  assumes s: "spsc qs p c d W A R"
  shows "\<exists>p' qs' d' W' A'. thread_step p qs = Some (p', qs') \<and> spsc qs' p' c d' W' A' R \<and>
    ring_contents qs' = ring_contents qs @ producer_taken p qs"
proof -
  let ?n = "qSpace qs"
  have r: "ring_ok qs d W A R" and po: "producer_ok p ?n d W A R" and co: "consumer_ok c ?n d A R"
    and dep: "qDepth qs = int W - int (unfinished_push p) - (int R - int (unfinished_pop c))"
    using s by (simp_all add: spsc_def)
  have R: "2 \<le> ?n" "qData qs = Some d" "length d = ?n" "qWriteInd qs = W mod ?n" "qAvailInd qs = A mod ?n"
    "qReadInd qs = R mod ?n" "R \<le> A" "A \<le> W" "W < R + ?n" using r by (simp_all add: ring_ok_def)
  have n0: "0 < ?n" using R by simp
  note same = r po co dep spsc_def unfinished_push_def ring_contents_eq [OF r]
  show ?thesis
  proof (cases p)
    case (Push_depth v b)
    have "W + 1 < R + ?n" if "\<not> xs_queue_full qs"
      using that dep R Push_depth by (auto simp: xs_queue_full_def unfinished_push_def)
    then show ?thesis using s Push_depth
      by (auto simp: spsc_def unfinished_push_def producer_taken_def)
  next
    case (Push_attempt v b)
    then show ?thesis using s
      by (auto simp: spsc_def unfinished_push_def producer_taken_def ring_contents_def xs_queue_full_def ring_ok_def)
  next
    case (Push_write_ind v b)
    then show ?thesis using s R by (auto simp: spsc_def unfinished_push_def producer_taken_def)
  next
    case (Push_read_ind v b wi)
    have nx: "ring_next qs wi = Suc W mod ?n" using Push_read_ind po ring_next_eq [OF refl n0] by simp
    have "Suc W mod ?n \<noteq> R mod ?n"
    proof -
      have "Suc W = R + (Suc W - R)" "Suc W - R < ?n" "0 < Suc W - R" using R po Push_read_ind by auto
      then show ?thesis using mod_shift_neq [of "Suc W - R" ?n R] by metis
    qed
    then show ?thesis using s Push_read_ind nx R by (auto simp: spsc_def unfinished_push_def producer_taken_def)
  next
    case (Push_swap v b wi nwi)
    let ?qs = "qs\<lparr>qWriteInd := nwi\<rparr>"
    have "ring_ok ?qs d (Suc W) A R" using R po Push_swap by (simp add: ring_ok_def)
    moreover have "ring_contents ?qs = ring_contents qs" by (rule ring_contents_cong) simp_all
    ultimately show ?thesis using Push_swap po co dep R
      by (intro exI [of _ "if b then Push_copy v wi nwi else Push_attempt2 v wi nwi"] exI [of _ ?qs] exI [of _ d]
          exI [of _ "Suc W"] exI [of _ A])
        (auto simp: spsc_def unfinished_push_def producer_taken_def)
  next
    case (Push_attempt2 v wi nwi)
    then show ?thesis using s
      by (auto simp: spsc_def unfinished_push_def producer_taken_def ring_contents_def ring_ok_def)
  next
    case (Push_copy v wi nwi)
    let ?d = "d[wi := v]"
    let ?qs = "qs\<lparr>qData := Some ?d\<rparr>"
    have wi: "wi = A mod ?n" "W = Suc A" "nwi = W mod ?n" using po Push_copy by auto
    have other: "?d ! ((R + i) mod ?n) = d ! ((R + i) mod ?n)" if "i < A - R" for i
    proof -
      have "A = (R + i) + (A - R - i)" "0 < A - R - i" "A - R - i < ?n" using that R wi by auto
      then have "A mod ?n \<noteq> (R + i) mod ?n" using mod_shift_neq [of "A - R - i" ?n "R + i"] by metis
      then show ?thesis using wi by simp
    qed
    have r': "ring_ok ?qs ?d W A R" using r by (simp add: ring_ok_def)
    have "ring_contents ?qs = ring_contents qs"
      using ring_contents_eq [OF r'] ring_contents_eq [OF r] other by simp
    moreover have "consumer_ok c ?n ?d A R" using co other [of 0] by (cases c) auto
    moreover have "thread_step p qs = Some (Push_avail v wi nwi, ?qs)"
      using Push_copy R wi n0 by (simp add: queue_store_def mem_simps)
    moreover have "?d ! (A mod ?n) = v" using R n0 wi by simp
    ultimately show ?thesis using r' Push_copy wi dep
      by (intro exI [of _ "Push_avail v wi nwi"] exI [of _ ?qs] exI [of _ ?d] exI [of _ W] exI [of _ A])
        (simp add: spsc_def unfinished_push_def producer_taken_def)
  next
    case (Push_avail v wi nwi)
    let ?qs = "qs\<lparr>qAvailInd := nwi, qReadLock := qReadLock qs - 1\<rparr>"
    have po': "W = Suc A" "wi = A mod ?n" "nwi = W mod ?n" "d ! (A mod ?n) = v" using po Push_avail by auto
    have r': "ring_ok ?qs d W W R" using R po' by (simp add: ring_ok_def)
    have "Suc A - R = Suc (A - R)" using R by simp
    then have "ring_contents ?qs = ring_contents qs @ [v]"
      using ring_contents_eq [OF r'] ring_contents_eq [OF r] po' R by simp
    moreover have "consumer_ok c ?n d W R" using co po' by (cases c) auto
    ultimately show ?thesis using r' Push_avail po' dep R
      by (intro exI [of _ Push_inc] exI [of _ ?qs] exI [of _ d] exI [of _ W] exI [of _ W])
        (simp add: spsc_def unfinished_push_def producer_taken_def)
  next
    case Push_inc
    let ?qs = "qs\<lparr>qDepth := qDepth qs + 1\<rparr>"
    have "ring_ok ?qs d W A R" "ring_contents ?qs = ring_contents qs" using r ring_contents_cong [of ?qs qs] by (simp_all add: ring_ok_def)
    then show ?thesis using Push_inc po co dep
      by (intro exI [of _ Push_kick] exI [of _ ?qs] exI [of _ d] exI [of _ W] exI [of _ A])
        (simp add: spsc_def unfinished_push_def producer_taken_def)
  next
    case Push_kick
    have "ring_ok (queue_kick qs) d W A R" "ring_contents (queue_kick qs) = ring_contents qs"
      using ring_ok_cong [OF r] ring_contents_cong [of "queue_kick qs" qs] by (simp_all add: queue_kick_frame)
    then show ?thesis using Push_kick po co dep
      by (intro exI [of _ "Ready (Some Pushed)"] exI [of _ "queue_kick qs"] exI [of _ d] exI [of _ W] exI [of _ A])
        (simp add: spsc_def unfinished_push_def producer_taken_def queue_kick_frame)
  next
    case (Ready r)
    then show ?thesis using s by (auto simp: producer_taken_def)
  qed (use po in simp_all)
qed

lemma consumer_step:
  assumes s: "spsc qs p c d W A R"
  shows "\<exists>c' qs' R'. thread_step c qs = Some (c', qs') \<and> spsc qs' p c' d W A R' \<and>
    consumer_given c qs @ ring_contents qs' = ring_contents qs"
proof -
  let ?n = "qSpace qs"
  have r: "ring_ok qs d W A R" and po: "producer_ok p ?n d W A R" and co: "consumer_ok c ?n d A R"
    and dep: "qDepth qs = int W - int (unfinished_push p) - (int R - int (unfinished_pop c))"
    using s by (simp_all add: spsc_def)
  have R: "2 \<le> ?n" "qData qs = Some d" "length d = ?n" "qWriteInd qs = W mod ?n" "qAvailInd qs = A mod ?n"
    "qReadInd qs = R mod ?n" "R \<le> A" "A \<le> W" "W < R + ?n" using r by (simp_all add: ring_ok_def)
  have n0: "0 < ?n" using R by simp
  show ?thesis
  proof (cases c)
    case (Pop_avail_ind b ri)
    have "R < A" if "ri \<noteq> A mod ?n" using that co Pop_avail_ind R by (cases "R = A") auto
    then show ?thesis using s Pop_avail_ind R by (auto simp: spsc_def unfinished_pop_def consumer_given_def)
  next
    case (Pop_copy b ri)
    have "queue_load qs ri = Some (d ! (R mod ?n))" using Pop_copy co R n0 by (simp add: queue_load_def mem_simps)
    then show ?thesis using s Pop_copy by (auto simp: spsc_def unfinished_pop_def consumer_given_def)
  next
    case (Pop_swap b ri v)
    let ?qs = "qs\<lparr>qReadInd := ring_next qs ri\<rparr>"
    have c: "ri = R mod ?n" "R < A" "v = d ! (R mod ?n)" using co Pop_swap by auto
    have nx: "ring_next qs ri = Suc R mod ?n" using c ring_next_eq [OF refl n0] by simp
    have r': "ring_ok ?qs d W A (Suc R)" using R c nx by (simp add: ring_ok_def)
    have "A - R = Suc (A - Suc R)" using c(2) by simp
    then have "[0..<A - R] = 0 # map Suc [0..<A - Suc R]"
      by (simp only: map_Suc_upt) (simp only: upt_conv_Cons zero_less_Suc)
    then have "ring_contents qs = v # ring_contents ?qs"
      using ring_contents_eq [OF r'] ring_contents_eq [OF r] c by simp
    moreover have "producer_ok p ?n d W A (Suc R)" using po by (cases p) auto
    ultimately show ?thesis using r' Pop_swap c dep R
      by (intro exI [of _ "Pop_dec v"] exI [of _ ?qs] exI [of _ "Suc R"])
        (simp add: spsc_def unfinished_pop_def consumer_given_def)
  next
    case (Pop_dec v)
    let ?qs = "qs\<lparr>qDepth := qDepth qs - 1\<rparr>"
    have "ring_ok ?qs d W A R" "ring_contents ?qs = ring_contents qs" using r ring_contents_cong [of ?qs qs] by (simp_all add: ring_ok_def)
    then show ?thesis using Pop_dec po co dep
      by (intro exI [of _ "Ready (Some (Popped v))"] exI [of _ ?qs] exI [of _ R])
        (simp add: spsc_def unfinished_pop_def consumer_given_def)
  qed (use s co R in \<open>auto simp: spsc_def unfinished_pop_def consumer_given_def\<close>)
qed

subsection \<open>The ring as a pipe\<close>

lemma spsc_run:
  assumes i: "spsc_inv s"
  shows "\<exists>s'. queue_step (Run t) s = Some s' \<and> spsc_inv s' \<and>
    released (Run t) s @ ring_contents (s_queue s') = ring_contents (s_queue s) @ published (Run t) s"
proof -
  let ?qs = "s_queue s" and ?pc = "s_pc s"
  obtain d W A R where sp: "spsc ?qs (?pc 0) (?pc 1) d W A R" and idle: "\<forall>t. 1 < t \<longrightarrow> (\<exists>r. ?pc t = Ready r)"
    using i by (auto simp: spsc_inv_def)
  have po: "producer_ok (?pc 0) (qSpace ?qs) d W A R" and co: "consumer_ok (?pc 1) (qSpace ?qs) d A R"
    using sp by (simp_all add: spsc_def)
  consider "t = 0" | "t = 1" | "1 < t" by linarith
  then show ?thesis
  proof cases
    case 1
    obtain p' qs' d' W' A' where p: "thread_step (?pc 0) ?qs = Some (p', qs')" "spsc qs' p' (?pc 1) d' W' A' R"
      "ring_contents qs' = ring_contents ?qs @ producer_taken (?pc 0) ?qs"
      using producer_step [OF sp] by blast
    have "released (Run 0) s = []" using po by (cases "?pc 0") auto
    moreover have "published (Run 0) s = producer_taken (?pc 0) ?qs" by (simp add: producer_taken_def)
    ultimately show ?thesis using p idle 1 by (auto simp: spsc_inv_def)
  next
    case 2
    obtain c' qs' R' where c: "thread_step (?pc 1) ?qs = Some (c', qs')" "spsc qs' (?pc 0) c' d W A R'"
      "consumer_given (?pc 1) ?qs @ ring_contents qs' = ring_contents ?qs"
      using consumer_step [OF sp] by blast
    have "published (Run 1) s = []" using co by (cases "?pc 1") auto
    moreover have "released (Run 1) s = consumer_given (?pc 1) ?qs" by (simp add: consumer_given_def)
    ultimately show ?thesis using c idle 2 by (auto simp: spsc_inv_def)
  next
    case 3
    then obtain r where "?pc t = Ready r" using idle by blast
    then show ?thesis using i 3 by (auto simp: spsc_inv_def)
  qed
qed

lemma spsc_call:
  assumes i: "spsc_inv s" and e: "spsc_event e" "queue_step e s = Some s'" "\<forall>t. e \<noteq> Run t"
  shows "spsc_inv s' \<and> s_queue s' = s_queue s"
proof (cases e)
  case (Call_push t v b)
  then have t: "t = 0" using e by simp
  then obtain r where r: "s_pc s 0 = Ready r" using e Call_push by (auto split: queue_pc.splits)
  then have "s' = s\<lparr>s_pc := (s_pc s)(0 := Push_attempt v b)\<rparr>" using e Call_push t by simp
  then show ?thesis using i r by (auto simp: spsc_inv_def spsc_def unfinished_push_def)
next
  case (Call_pop t b)
  then have t: "t = 1" using e by simp
  then obtain r where r: "s_pc s 1 = Ready r" using e Call_pop by (auto split: queue_pc.splits)
  then have "s' = s\<lparr>s_pc := (s_pc s)(1 := Pop_depth b)\<rparr>" using e Call_pop t by simp
  then show ?thesis using i r by (auto simp: spsc_inv_def spsc_def unfinished_pop_def)
qed (use e in simp)

interpretation ring_pipe: pipe spsc_inv "\<lambda>s. ring_contents (s_queue s)" spsc_step published released
proof
  fix s e s'
  assume i: "spsc_inv s" and st: "spsc_step e s = Some s'"
  have e: "spsc_event e" "queue_step e s = Some s'" using st by (auto simp: spsc_step_def split: if_splits)
  have "spsc_inv s' \<and> released e s @ ring_contents (s_queue s') = ring_contents (s_queue s) @ published e s"
  proof (cases "\<exists>t. e = Run t")
    case True
    then show ?thesis using spsc_run [OF i] e(2) by (metis option.inject)
  next
    case False
    then have "published e s = []" "released e s = []" by (cases e; simp)+
    then show ?thesis using spsc_call [OF i e] False by simp
  qed
  then show "spsc_inv s'" "released e s @ ring_contents (s_queue s') = ring_contents (s_queue s) @ published e s" by simp_all
qed

definition queue_start :: "'a \<Rightarrow> nat \<Rightarrow> 'a queue_system" where
  \<comment> \<open>a fresh queue and no operation under way\<close>
  "queue_start junk n = \<lparr>s_queue = xs_queue_create (\<lambda>_. True) junk 1 n, s_pc = (\<lambda>_. Ready None)\<rparr>"

lemma queue_start_inv: "2 \<le> n \<Longrightarrow> spsc_inv (queue_start junk n)"
  by (auto simp: spsc_inv_def queue_start_def xs_queue_create_def xs_queue_create2_def xs_queue_zero_def spsc_def ring_ok_def
    unfinished_push_def unfinished_pop_def intro!: exI [of _ "replicate n junk"] exI [of _ 0])

lemma queue_start_empty: "ring_contents (s_queue (queue_start junk n)) = []"
  by (simp add: queue_start_def xs_queue_create_def xs_queue_create2_def ring_contents_def xs_queue_zero_def)

lemma spsc_bounded: "spsc_inv s \<Longrightarrow> length (ring_contents (s_queue s)) < qSpace (s_queue s)"
  by (auto simp: spsc_inv_def spsc_def ring_contents_eq ring_ok_def)

fun steps_left :: "'a queue_pc \<Rightarrow> nat" where
  \<comment> \<open>how many more accesses an operation makes\<close>
  "steps_left (Ready r) = 0"
| "steps_left (Push_attempt v b) = 10"
| "steps_left (Push_depth v b) = 9"
| "steps_left (Push_write_ind v b) = 8"
| "steps_left (Push_read_ind v b wi) = 7"
| "steps_left (Push_swap v b wi nwi) = 6"
| "steps_left (Push_attempt2 v wi nwi) = 5"
| "steps_left (Push_copy v wi nwi) = 4"
| "steps_left (Push_avail v wi nwi) = 3"
| "steps_left Push_inc = 2"
| "steps_left Push_kick = 1"
| "steps_left (Pop_depth b) = 6"
| "steps_left (Pop_read_ind b) = 5"
| "steps_left (Pop_avail_ind b ri) = 4"
| "steps_left (Pop_copy b ri) = 3"
| "steps_left (Pop_swap b ri v) = 2"
| "steps_left (Pop_dec v) = 1"

lemma producer_progress:
  assumes "spsc qs p c d W A R" "thread_step p qs = Some (p', qs')" "\<forall>r. p \<noteq> Ready r"
    "\<forall>v. p = Push_depth v True \<longrightarrow> \<not> xs_queue_full qs"
  shows "steps_left p' < steps_left p"
  using assms by (cases p) (auto simp: spsc_def ring_ok_def Let_def bind_eq_Some_conv split: if_splits)

lemma consumer_progress:
  assumes "spsc qs p c d W A R" "thread_step c qs = Some (c', qs')" "\<forall>r. c \<noteq> Ready r"
  shows "steps_left c' < steps_left c"
  using assms by (cases c) (auto simp: spsc_def ring_ok_def Let_def bind_eq_Some_conv split: if_splits)

lemma spsc_progress:
  assumes i: "spsc_inv s" and busy: "\<forall>r. s_pc s t \<noteq> Ready r" and room: "\<forall>v. s_pc s t = Push_depth v True \<longrightarrow> \<not> xs_queue_full (s_queue s)"
  shows "\<exists>s'. queue_step (Run t) s = Some s' \<and> spsc_inv s' \<and> steps_left (s_pc s' t) < steps_left (s_pc s t)"
proof -
  let ?qs = "s_queue s" and ?pc = "s_pc s"
  obtain s' where s': "queue_step (Run t) s = Some s'" "spsc_inv s'" using spsc_run [OF i] by blast
  then obtain p qs where st: "thread_step (?pc t) ?qs = Some (p, qs)" "s_pc s' t = p" by (auto simp: bind_eq_Some_conv)
  obtain d W A R where sp: "spsc ?qs (?pc 0) (?pc 1) d W A R" and idle: "\<forall>t. 1 < t \<longrightarrow> (\<exists>r. ?pc t = Ready r)"
    using i by (auto simp: spsc_inv_def)
  have "steps_left p < steps_left (?pc t)"
  proof (cases "t = 0")
    case True
    then show ?thesis using producer_progress [OF sp] st(1) busy room by blast
  next
    case False
    then have "t = 1" using idle busy by (cases "1 < t") (auto simp: not_less le_Suc_eq)
    then show ?thesis using consumer_progress [OF sp] st(1) busy by blast
  qed
  then show ?thesis using s' st by blast
qed

subsection \<open>A thread that runs alone\<close>

lemma run_ready: "s_pc s t = Ready r \<Longrightarrow> queue_step (Run t) s = Some s"
  by (simp add: fun_upd_idem)

lemma run_ready_many: "s_pc s t = Ready r \<Longrightarrow> pipe_run queue_step (replicate k (Run t)) s = Some s"
  by (induction k) (simp_all add: run_ready del: queue_step.simps)

lemma push_alone:
  assumes r: "s_pc s t = Ready r" and p: "xs_queue_push (s_queue s) v b = Some (qs', k)"
  shows "pipe_run queue_step (Call_push t v b # replicate 10 (Run t)) s =
    Some (s\<lparr>s_queue := qs', s_pc := (s_pc s)(t := Ready (Some (if k = 0 then Pushed else Busy)))\<rparr>)"
proof -
  let ?q0 = "s_queue s"
  let ?q = "if b then ?q0\<lparr>qAttempt := qAttempt ?q0 + 1\<rparr> else ?q0"
  have full: "xs_queue_full ?q = xs_queue_full ?q0" by (simp add: xs_queue_full_def)
  show ?thesis
  proof (cases "xs_queue_full ?q0")
    case True
    then show ?thesis using r p full
      by (auto simp: xs_queue_push_def Let_def eval_nat_numeral split: if_splits)
  next
    case False
    show ?thesis
    proof (cases b)
      case True
      then show ?thesis using r p False full
        by (auto simp: xs_queue_push_def Let_def eval_nat_numeral bind_eq_Some_conv queue_store_def ring_next_def xs_queue_full_def split: if_splits)
    next
      case nb: False
      then show ?thesis using r p False full
        by (auto simp: xs_queue_push_def Let_def eval_nat_numeral bind_eq_Some_conv queue_store_def ring_next_def xs_queue_full_def split: if_splits)
    qed
  qed
qed

lemma pop_alone:
  assumes r: "s_pc s t = Ready r" and p: "xs_queue_pop (s_queue s) b = Some (qs', v, k)"
  shows "pipe_run queue_step (Call_pop t b # replicate 6 (Run t)) s =
    Some (s\<lparr>s_queue := qs', s_pc := (s_pc s)(t := Ready (Some (case v of None \<Rightarrow> Empty | Some x \<Rightarrow> Popped x)))\<rparr>)"
  using r p
  by (auto simp: xs_queue_pop_def Let_def eval_nat_numeral bind_eq_Some_conv queue_load_def ring_next_def split: if_splits)

subsection \<open>A worker that runs alone\<close>

definition queue_quiet :: "'a xs_queue \<Rightarrow> bool" where
  \<comment> \<open>no push or pop is under way\<close>
  "queue_quiet qs \<longleftrightarrow> (\<exists>d W R. ring_ok qs d W W R) \<and> qDepth qs = int (length (ring_contents qs))"

lemma pop_quiet:
  assumes q: "queue_quiet qs" and c: "ring_contents qs = v # vs"
  shows "\<exists>qs'. xs_queue_pop qs b = Some (qs', Some v, 0) \<and> queue_quiet qs' \<and> ring_contents qs' = vs \<and>
    qIsRunning qs' = qIsRunning qs"
proof -
  obtain d W R where r: "ring_ok qs d W W R" and dep: "qDepth qs = int (length (ring_contents qs))"
    using q by (auto simp: queue_quiet_def)
  let ?n = "qSpace qs"
  have R: "2 \<le> ?n" "qData qs = Some d" "length d = ?n" "qAvailInd qs = W mod ?n" "qReadInd qs = R mod ?n" "R \<le> W" "W < R + ?n"
    using r by (simp_all add: ring_ok_def)
  have ce: "v # vs = map (\<lambda>i. d ! ((R + i) mod ?n)) [0..<W - R]" using ring_contents_eq [OF r] c by simp
  then have lt: "R < W" by (cases "R < W") simp_all
  have "W = R + (W - R)" "0 < W - R" "W - R < ?n" using R lt by simp_all
  then have ne: "R mod ?n \<noteq> W mod ?n" using mod_shift_neq [of "W - R" ?n R] by metis
  let ?qs = "qs\<lparr>qReadInd := ring_next qs (qReadInd qs), qDepth := qDepth qs - 1\<rparr>"
  have nx: "ring_next qs (qReadInd qs) = Suc R mod ?n" using R ring_next_eq [OF refl, of qs R] by simp
  have r': "ring_ok ?qs d W W (Suc R)" using r R lt nx by (simp add: ring_ok_def)
  have "W - R = Suc (W - Suc R)" using lt by simp
  then have "[0..<W - R] = 0 # map Suc [0..<W - Suc R]"
    by (simp only: map_Suc_upt) (simp only: upt_conv_Cons zero_less_Suc)
  then have vs: "v = d ! (R mod ?n)" "ring_contents ?qs = vs" using ce ring_contents_eq [OF r'] by simp_all
  have "xs_queue_pop qs b = Some (?qs, Some v, 0)"
    using R ne dep c vs(1) by (simp add: xs_queue_pop_def queue_load_def mem_simps)
  then show ?thesis using r' vs(2) dep c by (auto simp: queue_quiet_def)
qed

lemma exec_drains:
  "queue_quiet qs \<Longrightarrow> qIsRunning qs \<Longrightarrow>
   \<exists>qs'. xs_queue_exec proc (length (ring_contents qs)) qs s = Some (qs', fold proc (ring_contents qs) s) \<and>
     queue_quiet qs' \<and> ring_contents qs' = []"
proof (induction "ring_contents qs" arbitrary: qs s)
  case Nil
  then show ?case by (simp flip: Nil(1))
next
  case (Cons v vs)
  obtain qs' where p: "xs_queue_pop qs False = Some (qs', Some v, 0)" "queue_quiet qs'" "ring_contents qs' = vs"
    "qIsRunning qs' = qIsRunning qs" using pop_quiet [OF Cons.prems(1) Cons.hyps(2) [symmetric]] by blast
  let ?qs = "qs'\<lparr>qProcessed := qProcessed qs' + 1\<rparr>"
  have c: "ring_contents ?qs = vs" using p(3) ring_contents_cong [of ?qs qs'] by simp
  have "\<exists>d W R. ring_ok ?qs d W W R" using p(2) ring_ok_cong [of qs' _ _ _ _ ?qs] by (fastforce simp: queue_quiet_def)
  then have q: "queue_quiet ?qs" using p(2,3) c by (simp add: queue_quiet_def)
  have run: "qIsRunning ?qs" using p(4) Cons.prems(2) by simp
  have "qDepth qs \<noteq> 0" using Cons.prems(1) by (simp add: queue_quiet_def flip: Cons.hyps(2))
  then have "queue_exec_turn proc qs s = Some (?qs, proc v s, False)" using p(1) by (simp add: queue_exec_turn_def)
  then show ?case using Cons.hyps(1) [of ?qs "proc v s"] c q run Cons.prems(2) by (simp flip: Cons.hyps(2))
qed

subsection \<open>Properties\<close>

text \<open>C7: one producer and one consumer. However the two threads are interleaved, a queue that starts empty never
  accesses memory outside its ring, and the elements taken out, followed by those still in the ring, are exactly the
  elements published, in order; fewer than \<open>qSpace\<close> are in the ring at any time.\<close>

theorem xs_queue_spsc_fifo:
  assumes "2 \<le> n" "pipe_run spsc_step es (queue_start junk n) = Some s"
  shows "pipe_flow spsc_step released es (queue_start junk n) @ ring_contents (s_queue s) =
      pipe_flow spsc_step published es (queue_start junk n) \<and>
    length (ring_contents (s_queue s)) < qSpace (s_queue s) \<and> (\<forall>t. queue_step (Run t) s \<noteq> None)"
proof -
  have i: "spsc_inv (queue_start junk n)" using assms(1) by (rule queue_start_inv)
  have i': "spsc_inv s" using ring_pipe.run_inv [OF i assms(2)] .
  show ?thesis using ring_pipe.run_flow [OF i assms(2)] queue_start_empty [of junk n] spsc_bounded [OF i'] spsc_run [OF i']
    by fastforce
qed

theorem xs_queue_spsc_fifo_witness:
  "let es = Call_push 0 (7 :: nat) False # replicate 10 (Run 0) @ Call_push 0 8 True # replicate 6 (Run 0) @
      Call_pop 1 True # replicate 2 (Run 1) @ replicate 4 (Run 0) @ replicate 4 (Run 1) in
   \<exists>s. pipe_run spsc_step es (queue_start 0 4) = Some s \<and> ring_contents (s_queue s) = [8] \<and>
     s_pc s 1 = Ready (Some (Popped 7)) \<and> pipe_flow spsc_step released es (queue_start 0 4) = [7] \<and>
     pipe_flow spsc_step published es (queue_start 0 4) = [7, 8]"
proof -
  let ?es = "Call_push 0 (7 :: nat) False # replicate 10 (Run 0) @ Call_push 0 8 True # replicate 6 (Run 0) @
      Call_pop 1 True # replicate 2 (Run 1) @ replicate 4 (Run 0) @ replicate 4 (Run 1)"
  have c: "case pipe_run spsc_step ?es (queue_start 0 4) of None \<Rightarrow> False | Some s \<Rightarrow>
      s_pc s 1 = Ready (Some (Popped 7)) \<and> ring_contents (s_queue s) = [8]"
    by code_simp
  have p: "pipe_flow spsc_step published ?es (queue_start 0 4) = [7, 8]" by code_simp
  obtain s where s: "pipe_run spsc_step ?es (queue_start 0 4) = Some s" using c by (auto split: option.splits)
  have "s_pc s 1 = Ready (Some (Popped 7))" "ring_contents (s_queue s) = [8]" using c unfolding s by simp_all
  then show ?thesis using xs_queue_spsc_fifo [OF _ s] p s by (simp add: Let_def)
qed

text \<open>C21: progress. With one producer and one consumer no operation retries or waits for the other thread, except a
  blocking push while the queue is full: every access a thread makes brings its operation closer to its end, ten
  accesses away for a push and six for a pop.\<close>

theorem xs_queue_spsc_wait_free:
  assumes "2 \<le> n" "pipe_run spsc_step es (queue_start junk n) = Some s" "\<forall>r. s_pc s t \<noteq> Ready r"
    "\<forall>v. s_pc s t = Push_depth v True \<longrightarrow> \<not> xs_queue_full (s_queue s)"
  shows "\<exists>s'. queue_step (Run t) s = Some s' \<and> steps_left (s_pc s' t) < steps_left (s_pc s t) \<and> steps_left (s_pc s t) \<le> 10"
proof -
  have "spsc_inv s" using ring_pipe.run_inv [OF queue_start_inv [OF assms(1)] assms(2)] .
  moreover have "steps_left (s_pc s t) \<le> 10" by (cases "s_pc s t") simp_all
  ultimately show ?thesis using spsc_progress assms(3,4) by blast
qed

theorem xs_queue_spsc_wait_free_witness:
  "\<exists>s'. queue_step (Run 0) ((queue_start (0 :: nat) 4)\<lparr>s_pc := (\<lambda>_. Ready None)(0 := Push_attempt 5 True)\<rparr>) = Some s' \<and>
    steps_left (s_pc s' 0) < 10"
proof -
  have "pipe_run spsc_step [Call_push 0 5 True] (queue_start (0 :: nat) 4) =
      Some ((queue_start (0 :: nat) 4)\<lparr>s_pc := (\<lambda>_. Ready None)(0 := Push_attempt 5 True)\<rparr>)"
    by (simp add: spsc_step_def queue_start_def)
  from xs_queue_spsc_wait_free [OF _ this, of 0] show ?thesis by simp
qed

text \<open>The two descriptions agree. A thread that makes all accesses of a push without interruption leaves the
  queue and the result that the one-thread function \<open>xs_queue_push\<close> gives.\<close>

theorem xs_queue_push_uninterrupted:
  assumes "s_pc s t = Ready r" "xs_queue_push (s_queue s) v b = Some (qs', k)"
  shows "pipe_run queue_step (Call_push t v b # replicate 10 (Run t)) s =
    Some (s\<lparr>s_queue := qs', s_pc := (s_pc s)(t := Ready (Some (if k = 0 then Pushed else Busy)))\<rparr>)"
  by (rule push_alone [OF assms])

theorem xs_queue_push_uninterrupted_witness:
  "\<exists>qs'. pipe_run queue_step (Call_push 5 (9 :: nat) True # replicate 10 (Run 5)) (queue_start 0 4) =
    Some ((queue_start 0 4)\<lparr>s_queue := qs', s_pc := (\<lambda>_. Ready None)(5 := Ready (Some Pushed))\<rparr>) \<and> ring_contents qs' = [9]"
proof -
  have "case xs_queue_push (s_queue (queue_start (0 :: nat) 4)) 9 True of None \<Rightarrow> False | Some (qs', k) \<Rightarrow>
      k = 0 \<and> ring_contents qs' = [9]" by code_simp
  then obtain qs' where q: "xs_queue_push (s_queue (queue_start (0 :: nat) 4)) 9 True = Some (qs', 0)" "ring_contents qs' = [9]"
    by (auto split: option.splits)
  have "s_pc (queue_start (0 :: nat) 4) 5 = Ready None" by (simp add: queue_start_def)
  from xs_queue_push_uninterrupted [OF this q(1)] q(2) show ?thesis by (auto simp: queue_start_def)
qed

text \<open>A worker drains the queue. Alone with a queue on which no operation is under way, \<open>xs_queue_exec\<close> calls
  the queue's procedure on every element in the order they were pushed, and leaves the queue empty.\<close>

theorem xs_queue_exec_drains:
  assumes "queue_quiet qs" "qIsRunning qs"
  shows "\<exists>qs'. xs_queue_exec proc (length (ring_contents qs)) qs s = Some (qs', fold proc (ring_contents qs) s) \<and>
    queue_quiet qs' \<and> ring_contents qs' = []"
  by (rule exec_drains [OF assms])

definition queue_example :: "nat xs_queue" where
  "queue_example = (xs_queue_create (\<lambda>_. True) 0 1 3)\<lparr>qData := Some [0, 7, 8], qWriteInd := 0, qAvailInd := 0, qReadInd := 1,
     qDepth := 2, qIsRunning := True\<rparr>"

theorem xs_queue_exec_drains_witness:
  "\<exists>qs'. xs_queue_exec (\<lambda>x s. s @ [x]) 2 queue_example [] = Some (qs', [7, 8]) \<and> ring_contents qs' = []"
proof -
  have c: "ring_contents queue_example = [7, 8]" by code_simp
  have "ring_ok queue_example [0, 7, 8] 3 3 1"
    by (simp add: ring_ok_def queue_example_def xs_queue_create_def xs_queue_create2_def)
  then have "\<exists>d W R. ring_ok queue_example d W W R" by blast
  moreover have "qDepth queue_example = 2" "qIsRunning queue_example" by (simp_all add: queue_example_def)
  ultimately have "queue_quiet queue_example" "qIsRunning queue_example" by (simp_all add: queue_quiet_def c)
  from xs_queue_exec_drains [OF this, of "\<lambda>x s. s @ [x]" "[]"]
  obtain qs' where q: "xs_queue_exec (\<lambda>x s. s @ [x]) (length [7, 8 :: nat]) queue_example [] = Some (qs', fold (\<lambda>x s. s @ [x]) [7, 8] [])"
    "ring_contents qs' = []" unfolding c by blast
  have "length [7, 8 :: nat] = 2" "fold (\<lambda>x s. s @ [x]) [7, 8 :: nat] [] = [7, 8]" by simp_all
  then show ?thesis using q by metis
qed

text \<open>Two producers. When two blocking pushes pass the depth check at the same time, the second goes through
  \<open>continue\<close> to the swap although the ring has no room: all three elements are accepted, the ring is empty, a pop
  finds nothing and a further blocking push waits for ever.\<close>

theorem xs_queue_push_overruns:
  "let es = Call_push 0 (1 :: nat) True # replicate 10 (Run 0) @
      [Call_push 0 2 True, Run 0, Run 0, Call_push 1 3 True, Run 1, Run 1] @ replicate 8 (Run 0) @ replicate 8 (Run 1) in
   pipe_flow queue_step published es (queue_start 0 3) = [1, 2, 3] \<and>
   pipe_flow queue_step released es (queue_start 0 3) = [] \<and>
   (case pipe_run queue_step es (queue_start 0 3) of None \<Rightarrow> False | Some s \<Rightarrow>
      s_pc s 0 = Ready (Some Pushed) \<and> s_pc s 1 = Ready (Some Pushed) \<and> ring_contents (s_queue s) = [] \<and>
      xs_queue_pop (s_queue s) True = Some (s_queue s, None, - 1) \<and> xs_queue_push (s_queue s) 4 True = None)"
  by code_simp

text \<open>Two consumers. A pop that has copied its element and is then overtaken by a whole turn of the ring still
  succeeds in its swap: it returns the old element a second time, and the element now in that slot is lost.\<close>

theorem xs_queue_pop_repeats:
  "let push = \<lambda>v. Call_push 0 (v :: nat) True # replicate 10 (Run 0); pop = Call_pop 2 True # replicate 6 (Run 2);
     es = push 1 @ Call_pop 1 True # replicate 4 (Run 1) @ pop @ push 2 @ pop @ push 3 @ pop @ push 4 @ replicate 2 (Run 1) in
   pipe_flow queue_step published es (queue_start 0 3) = [1, 2, 3, 4] \<and>
   pipe_flow queue_step released es (queue_start 0 3) = [1, 2, 3, 1] \<and>
   (case pipe_run queue_step es (queue_start 0 3) of None \<Rightarrow> False | Some s \<Rightarrow>
      s_pc s 1 = Ready (Some (Popped 1)) \<and> ring_contents (s_queue s) = [])"
  by code_simp

end
