(* ===== verification/Json.thy ===== *)
theory Json
  imports Utils Arrays
begin

text \<open>
  The pull parser for JSON (\<open>xs/xs_json.h\<close>): \<open>xs_json_next\<close> returns one token at a time and keeps the open
  containers on a stack.

  The text is memory (\<open>j_mem\<close>, the terminator included) that is read with a bounds check, so \<open>None\<close> is a read
  outside it; pointers into it are offsets. The stack is the \<open>xs_arr\<close> of the code; nesting stays below \<open>2 ^ 29\<close>.
\<close>

subsection \<open>Data\<close>

abbreviation exs_JSON_Key :: int where "exs_JSON_Key \<equiv> 1"
abbreviation exs_JSON_Value :: int where "exs_JSON_Value \<equiv> 2"
abbreviation exs_JSON_ObjectStart :: int where "exs_JSON_ObjectStart \<equiv> 3"
abbreviation exs_JSON_ArrayStart :: int where "exs_JSON_ArrayStart \<equiv> 4"
abbreviation exs_JSON_ObjectEnd :: int where "exs_JSON_ObjectEnd \<equiv> 5"
abbreviation exs_JSON_ArrayEnd :: int where "exs_JSON_ArrayEnd \<equiv> 6"
abbreviation exs_JSON_String :: int where "exs_JSON_String \<equiv> 7"
abbreviation exs_JSON_Number :: int where "exs_JSON_Number \<equiv> 8"
abbreviation exs_JSON_Boolean :: int where "exs_JSON_Boolean \<equiv> 10"
abbreviation exs_JSON_Null :: int where "exs_JSON_Null \<equiv> 11"
abbreviation exs_JSON_EndOfFile :: int where "exs_JSON_EndOfFile \<equiv> 1"
abbreviation exs_JSON_Incomplete :: int where "exs_JSON_Incomplete \<equiv> - 1"
abbreviation exs_JSON_Err_Syntax :: int where "exs_JSON_Err_Syntax \<equiv> - 2"

record xs_json_tag =
  t_type :: int
  t_stype :: int
  t_has_escape :: bool
  t_ptr :: "nat option"
  t_len :: int
  t_i :: int

record xs_json =
  j_mem :: "byte list"
  j_mptr :: "nat option"
  j_msrc :: "nat option"
  j_mend :: int
  j_mstate :: int
  j_mstack :: "int xs_arr"

subsection \<open>Reading a string\<close>

function json_skip :: "byte list \<Rightarrow> nat \<Rightarrow> nat option" where
  \<comment> \<open>\<open>xs_skipspaces (str, 1)\<close>\<close>
  "json_skip m i =
     (case rd m i of None \<Rightarrow> None
      | Some c \<Rightarrow> if c \<noteq> 0 \<and> xs_isspace c then json_skip m (Suc i) else Some i)"
  by pat_completeness auto
termination
  by (relation "measure (\<lambda>(m, i). length m - i)") (auto simp: rd_def split: if_splits)

declare json_skip.simps [simp del]

function read_string_loop :: "byte list \<Rightarrow> byte \<Rightarrow> byte \<Rightarrow> bool \<Rightarrow> nat \<Rightarrow> bool \<Rightarrow> (nat \<times> bool \<times> bool) option" where
  \<comment> \<open>where it stops, whether the end was found, and \<open>hasEscape\<close>\<close>
  "read_string_loop m end esc hasstart i he =
     (case rd m i of None \<Rightarrow> None
      | Some c \<Rightarrow>
          if c = 0 then Some (i, False, he)
          else if c = esc then read_string_loop m end esc hasstart (i + 2) True
          else if c = end then Some (i + 1, True, he)
          else if \<not> hasstart \<and> (c = 58 \<or> c = 44) then Some (i, True, he)
          else read_string_loop m end esc hasstart (i + 1) he)"
  by pat_completeness auto
termination
  by (relation "measure (\<lambda>(m, end, esc, hs, i, he). length m - i)") (auto simp: rd_def split: if_splits)

declare read_string_loop.simps [simp del]

definition xs_JSONReadString :: "byte list \<Rightarrow> nat \<Rightarrow> byte \<Rightarrow> byte \<Rightarrow> byte \<Rightarrow> (nat option \<times> bool) option" where
  \<comment> \<open>the position after the string or \<open>NULL\<close>, and \<open>*hasEscape\<close>\<close>
  "xs_JSONReadString m str start end esc = do {
     i \<leftarrow> json_skip m str;
     c \<leftarrow> rd m i;
     let hasstart = (c = start);
     (k, found, he) \<leftarrow> read_string_loop m end esc hasstart (if hasstart then i + 1 else i) False;
     Some (if found \<or> \<not> hasstart then Some k else None, he) }"

subsection \<open>The parser\<close>

definition xs_json_create :: "(nat \<Rightarrow> bool) \<Rightarrow> byte list \<Rightarrow> nat option \<Rightarrow> int \<Rightarrow> xs_json option" where
  "xs_json_create room m str len = do {
     (st, err) \<leftarrow> xs_arr_makespace room 0 xs_arr_create 16;
     st1 \<leftarrow> xs_arr_push room 0 st (- 1);
     Some \<lparr>j_mem = m, j_mptr = str, j_msrc = str,
           j_mend = (case str of None \<Rightarrow> len | Some s \<Rightarrow> int s + len), j_mstate = 0, j_mstack = st1\<rparr> }"

definition json_last :: "int xs_arr \<Rightarrow> int option" where
  "json_last ar = do { d \<leftarrow> aData ar; if aCount ar \<le> 0 then None else rd d (nat (aCount ar - 1)) }"

definition json_end :: "xs_json \<Rightarrow> int" where
  "json_end js = (if aCount (j_mstack js) = 1 then exs_JSON_EndOfFile else exs_JSON_Incomplete)"

type_synonym json_result = "xs_json \<times> xs_json_tag \<times> int"

definition json_span :: "byte list \<Rightarrow> nat \<Rightarrow> nat \<Rightarrow> bool \<Rightarrow> (nat \<times> int \<times> nat) option option" where
  \<comment> \<open>the text between the quotes of a string from \<open>s\<close> (\<open>sptr\<close>) to \<open>n\<close> (\<open>nptr\<close>): its start, its length and what
      follows it; \<open>Some None\<close> on a syntax error\<close>
  "json_span m s n permissive =
     (if n - 1 < s then Some None
      else do {
        c \<leftarrow> rd m s;
        e \<leftarrow> rd m (n - 1);
        if (c \<noteq> 34 \<or> e \<noteq> 34) \<and> \<not> permissive then Some None
        else do {
          let n2 = (if e \<noteq> 34 then n else n - 1);
          e2 \<leftarrow> rd m n2;
          Some (Some (s + (if c = 34 then 1 else 0), int n2 - int s - (if e2 = 34 then 1 else 0),
                      if e2 = 34 then n2 + 1 else n2)) } })"

definition json_key :: "xs_json \<Rightarrow> xs_json_tag \<Rightarrow> nat \<Rightarrow> nat \<Rightarrow> bool \<Rightarrow> json_result option" where
  \<comment> \<open>a key and its colon\<close>
  "json_key js tag s n permissive = do {
     sp \<leftarrow> json_span (j_mem js) s n permissive;
     case sp of
       None \<Rightarrow> Some (js, tag, exs_JSON_Err_Syntax)
     | Some (q, len, k) \<Rightarrow> do {
         let js1 = js\<lparr>j_mstate := exs_JSON_Value\<rparr>;
         let tag1 = tag\<lparr>t_ptr := Some q, t_len := len, t_type := exs_JSON_Key\<rparr>;
         v \<leftarrow> json_skip (j_mem js) k;
         x \<leftarrow> rd (j_mem js) v;
         if x \<noteq> 58 then Some (js1, tag1, exs_JSON_Err_Syntax)
         else Some (js1\<lparr>j_mptr := Some (v + 1)\<rparr>, tag1, 0) } }"

definition json_open :: "(nat \<Rightarrow> bool) \<Rightarrow> xs_json \<Rightarrow> xs_json_tag \<Rightarrow> nat \<Rightarrow> int \<Rightarrow> json_result option" where
  "json_open room js tag s kind = do {
     st \<leftarrow> xs_arr_push room 0 (j_mstack js) kind;
     Some (js\<lparr>j_mstate := kind, j_mstack := st, j_mptr := Some (s + 1)\<rparr>, tag\<lparr>t_type := kind\<rparr>, 0) }"

definition json_close :: "xs_json \<Rightarrow> xs_json_tag \<Rightarrow> nat \<Rightarrow> int \<Rightarrow> int \<Rightarrow> json_result option" where
  \<comment> \<open>the end of a container that was opened as \<open>kind\<close>, with a trailing comma\<close>
  "json_close js tag s kind kind_end = do {
     (st, sv) \<leftarrow> xs_arr_pop (j_mstack js);
     let js1 = js\<lparr>j_mstack := st\<rparr>;
     if sv = None \<or> sv \<noteq> Some kind \<or> aCount st = 0 then Some (js1, tag, exs_JSON_Err_Syntax)
     else do {
       l \<leftarrow> json_last st;
       v \<leftarrow> json_skip (j_mem js) (s + 1);
       x \<leftarrow> rd (j_mem js) v;
       Some (js1\<lparr>j_mstate := l, j_mptr := Some (if x = 44 then v + 1 else v)\<rparr>, tag\<lparr>t_type := kind_end\<rparr>, 0) } }"

definition json_word :: "byte list \<Rightarrow> nat \<Rightarrow> string \<Rightarrow> bool" where
  \<comment> \<open>the text at \<open>s\<close> begins with the word, in any case\<close>
  "json_word m s w \<longleftrightarrow> xs_strncmp_case (Some (cstr (drop s m))) (Some (bytes w)) (length w) = 0"

definition json_plain :: "byte list \<Rightarrow> xs_json_tag \<Rightarrow> nat \<Rightarrow> nat \<Rightarrow> bool \<Rightarrow> (xs_json_tag \<times> nat option) option" where
  \<comment> \<open>a value without quotes: the tag and \<open>nptr\<close>, \<open>None\<close> on a syntax error\<close>
  "json_plain m tag s n permissive = do {
     c \<leftarrow> rd m s;
     let ch = xs_lower (schar c);
     let tag1 = tag\<lparr>t_ptr := Some s, t_len := int n - int s, t_type := exs_JSON_Value\<rparr>;
     if ch = 116 \<or> ch = 102 \<or> ch = 110 then
       (if json_word m s ''true'' then Some (tag1\<lparr>t_stype := exs_JSON_Boolean, t_i := 1\<rparr>, Some (s + 4))
        else if json_word m s ''false'' then Some (tag1\<lparr>t_stype := exs_JSON_Boolean, t_i := 0\<rparr>, Some (s + 5))
        else if json_word m s ''null'' then Some (tag1\<lparr>t_stype := exs_JSON_Null, t_i := 0\<rparr>, Some (s + 4))
        else Some (tag1, None))
     else Some (tag1\<lparr>t_stype := (if permissive then exs_JSON_String else exs_JSON_Number)\<rparr>, Some n) }"

definition json_quoted :: "byte list \<Rightarrow> xs_json_tag \<Rightarrow> nat \<Rightarrow> nat \<Rightarrow> bool \<Rightarrow> (xs_json_tag \<times> nat option) option" where
  "json_quoted m tag s n permissive = do {
     sp \<leftarrow> json_span m s n permissive;
     Some (case sp of
         None \<Rightarrow> (tag, None)
       | Some (q, len, k) \<Rightarrow>
           (tag\<lparr>t_ptr := Some q, t_len := len, t_type := exs_JSON_Value, t_stype := exs_JSON_String\<rparr>, Some k)) }"

definition json_follow :: "byte list \<Rightarrow> int \<Rightarrow> nat \<Rightarrow> nat option option" where
  \<comment> \<open>what must follow a value inside a container, with the comma taken; \<open>Some None\<close> on a syntax error\<close>
  "json_follow m mstate n =
     (if mstate \<noteq> 0 then do {
        v \<leftarrow> json_skip m n;
        x \<leftarrow> rd m v;
        Some (if x \<noteq> 44 \<and> x \<noteq> 93 \<and> x \<noteq> 125 then None else Some (if x = 44 then v + 1 else n)) }
      else Some (Some n))"

definition json_value :: "xs_json \<Rightarrow> xs_json_tag \<Rightarrow> nat \<Rightarrow> nat \<Rightarrow> bool \<Rightarrow> json_result option" where
  \<comment> \<open>a value, and the comma or end of container that must follow it\<close>
  "json_value js tag s n permissive =
     (if \<not> (j_mstate js = exs_JSON_ArrayStart \<or> j_mstate js = exs_JSON_Value \<or> (j_mstate js = 0 \<and> permissive))
      then Some (js, tag, exs_JSON_Err_Syntax)
      else do {
        c \<leftarrow> rd (j_mem js) s;
        (tag1, p) \<leftarrow> (if c \<noteq> 34 then json_plain (j_mem js) tag s n permissive else json_quoted (j_mem js) tag s n permissive);
        case p of
          None \<Rightarrow> Some (js, tag1, exs_JSON_Err_Syntax)
        | Some n1 \<Rightarrow> do {
            q \<leftarrow> json_follow (j_mem js) (j_mstate js) n1;
            case q of
              None \<Rightarrow> Some (js, tag1, exs_JSON_Err_Syntax)
            | Some n2 \<Rightarrow>
                if aCount (j_mstack js) = 0 then Some (js, tag1, exs_JSON_Err_Syntax)
                else do {
                  l \<leftarrow> json_last (j_mstack js);
                  Some (js\<lparr>j_mstate := l, j_mptr := Some n2\<rparr>, tag1, 0) } } })"

definition json_dispatch ::
  "(nat \<Rightarrow> bool) \<Rightarrow> xs_json \<Rightarrow> xs_json_tag \<Rightarrow> nat \<Rightarrow> nat \<Rightarrow> bool \<Rightarrow> bool \<Rightarrow> json_result option" where
  \<comment> \<open>by the state and the character at \<open>sptr\<close>\<close>
  "json_dispatch room js tag s n he permissive = do {
     let tag1 = tag\<lparr>t_ptr := None, t_type := 0, t_stype := 0, t_i := 0, t_len := 0, t_has_escape := he\<rparr>;
     c \<leftarrow> rd (j_mem js) s;
     let js1 = (if j_mstate js = 0 \<and> permissive \<and> c \<noteq> 123 \<and> c \<noteq> 91 then js\<lparr>j_mstate := exs_JSON_ObjectStart\<rparr> else js);
     if j_mstate js1 = - 1 then Some (js1, tag1, exs_JSON_Err_Syntax)
     else if j_mstate js1 = exs_JSON_ObjectStart \<and> c \<noteq> 125 then json_key js1 tag1 s n permissive
     else if c = 123 then json_open room js1 tag1 s exs_JSON_ObjectStart
     else if c = 125 then json_close js1 tag1 s exs_JSON_ObjectStart exs_JSON_ObjectEnd
     else if c = 91 then json_open room js1 tag1 s exs_JSON_ArrayStart
     else if c = 93 then json_close js1 tag1 s exs_JSON_ArrayStart exs_JSON_ArrayEnd
     else json_value js1 tag1 s n permissive }"

definition xs_json_next ::
  "(nat \<Rightarrow> bool) \<Rightarrow> xs_json \<Rightarrow> xs_json_tag \<Rightarrow> bool \<Rightarrow> json_result option" where
  "xs_json_next room js tag permissive =
     (case j_mptr js of
        None \<Rightarrow> Some (js, tag, json_end js)
      | Some p \<Rightarrow>
          if int p \<ge> j_mend js then Some (js, tag, json_end js)
          else do {
            s \<leftarrow> json_skip (j_mem js) p;
            (np, he) \<leftarrow> xs_JSONReadString (j_mem js) s 34 34 92;
            case np of
              None \<Rightarrow> Some (js, tag, json_end js)
            | Some n \<Rightarrow>
                if n \<le> s then Some (js, tag, json_end js)
                else json_dispatch room js tag s n he permissive })"

subsection \<open>Removing escapes\<close>

function json_unescape_loop :: "byte list \<Rightarrow> nat \<Rightarrow> nat \<Rightarrow> byte list \<Rightarrow> byte list \<Rightarrow> (byte list \<times> int) option" where
  \<comment> \<open>from \<open>src\<close> at \<open>s\<close> up to \<open>e\<close>; \<open>out\<close> is what has been written, at the front of \<open>dst\<close>\<close>
  "json_unescape_loop src s e dst out =
     (if s \<ge> e then Some (dst, 0)
      else case rd src s of None \<Rightarrow> None
      | Some c \<Rightarrow>
          if c = 0 then Some (dst, 0)
          else if c \<noteq> 92 then
            (case wr dst (length out) c of None \<Rightarrow> None
             | Some d \<Rightarrow> json_unescape_loop src (s + 1) e d (out @ [c]))
          else if s + 1 \<ge> e then Some (dst, exs_JSON_Err_Syntax)
          else case rd src (s + 1) of None \<Rightarrow> None
          | Some x \<Rightarrow>
              (case map_of [(114, 13), (110, 10), (102, 12), (98, 8), (116, 9), (34, 34), (92, 92), (47, 47)] x of
                 Some y \<Rightarrow>
                   (case wr dst (length out) y of None \<Rightarrow> None
                    | Some d \<Rightarrow> json_unescape_loop src (s + 2) e d (out @ [y]))
               | None \<Rightarrow>
                   if x \<noteq> 117 \<or> s + 4 \<ge> e then Some (dst, exs_JSON_Err_Syntax)
                   else case rds src (s + 1) 4 of None \<Rightarrow> None
                   | Some h \<Rightarrow>
                       if \<exists>i\<in>set [0, 1, 2, 3]. xs_fromhex (h ! i) < 0 then Some (dst, exs_JSON_Err_Syntax)
                       else
                         let y = word_of_int (xs_fromhex (h ! 0) * 4096 + xs_fromhex (h ! 1) * 256 +
                                   xs_fromhex (h ! 2) * 16 + xs_fromhex (h ! 3))
                         in case wr dst (length out) y of None \<Rightarrow> None
                            | Some d \<Rightarrow> json_unescape_loop src (s + 5) e d (out @ [y])))"
  by pat_completeness auto
termination
  by (relation "measure (\<lambda>(src, s, e, dst, out). e - s)") auto

declare json_unescape_loop.simps [simp del]

definition xs_json_unescape :: "byte list \<Rightarrow> byte list \<Rightarrow> (byte list \<times> int) option" where
  \<comment> \<open>\<open>dlen\<close> and \<open>slen\<close> are the lengths of the two buffers\<close>
  "xs_json_unescape dst src =
     (if src = [] \<or> dst = [] then Some (dst, 0)
      else json_unescape_loop src 0 (min (length src) (length dst)) dst [])"

subsection \<open>JSON values and their tokens\<close>

datatype json = JStr "byte list" | JBool bool | JNull | JArr "json list" | JObj "(byte list \<times> json) list"

datatype json_token = Tok_key "byte list" | Tok_string "byte list" | Tok_bool bool | Tok_null
  | Tok_object | Tok_object_end | Tok_array | Tok_array_end

fun json_join :: "byte list list \<Rightarrow> byte list" where
  "json_join [] = []"
| "json_join [x] = x"
| "json_join (x # y # ys) = x @ 44 # json_join (y # ys)"

fun json_text :: "json \<Rightarrow> byte list" where
  "json_text (JStr s) = 34 # s @ [34]"
| "json_text (JBool b) = bytes (if b then ''true'' else ''false'')"
| "json_text JNull = bytes ''null''"
| "json_text (JArr vs) = 91 # json_join (map json_text vs) @ [93]"
| "json_text (JObj kvs) = 123 # json_join (map (\<lambda>(k, v). 34 # k @ 34 # 58 # json_text v) kvs) @ [125]"

fun json_tokens :: "json \<Rightarrow> json_token list" where
  "json_tokens (JStr s) = [Tok_string s]"
| "json_tokens (JBool b) = [Tok_bool b]"
| "json_tokens JNull = [Tok_null]"
| "json_tokens (JArr vs) = Tok_array # concat (map json_tokens vs) @ [Tok_array_end]"
| "json_tokens (JObj kvs) = Tok_object # concat (map (\<lambda>(k, v). Tok_key k # json_tokens v) kvs) @ [Tok_object_end]"

definition json_chars :: "byte list \<Rightarrow> bool" where
  \<comment> \<open>a string that needs no escape\<close>
  "json_chars s \<longleftrightarrow> 0 \<notin> set s \<and> 34 \<notin> set s \<and> 92 \<notin> set s"

fun json_ok :: "json \<Rightarrow> bool" where
  "json_ok (JStr s) = json_chars s"
| "json_ok (JBool b) = True"
| "json_ok JNull = True"
| "json_ok (JArr vs) = list_all json_ok vs"
| "json_ok (JObj kvs) = list_all (\<lambda>(k, v). json_chars k \<and> json_ok v) kvs"

definition json_container :: "json \<Rightarrow> bool" where
  "json_container v = (case v of JArr vs \<Rightarrow> True | JObj kvs \<Rightarrow> True | _ \<Rightarrow> False)"

definition json_token :: "byte list \<Rightarrow> xs_json_tag \<Rightarrow> json_token option" where
  \<comment> \<open>what a filled tag says\<close>
  "json_token m tag =
     (let text = (case t_ptr tag of None \<Rightarrow> [] | Some p \<Rightarrow> take (nat (t_len tag)) (drop p m)) in
      map_of [(exs_JSON_Key, Tok_key text), (exs_JSON_ObjectStart, Tok_object), (exs_JSON_ObjectEnd, Tok_object_end),
        (exs_JSON_ArrayStart, Tok_array), (exs_JSON_ArrayEnd, Tok_array_end),
        (exs_JSON_Value,
           if t_stype tag = exs_JSON_String then Tok_string text
           else if t_stype tag = exs_JSON_Boolean then Tok_bool (t_i tag \<noteq> 0) else Tok_null)] (t_type tag))"

primrec json_reads :: "xs_json \<Rightarrow> json_token list \<Rightarrow> xs_json \<Rightarrow> bool" where
  \<comment> \<open>successive calls of \<open>xs_json_next\<close> return the tokens\<close>
  "json_reads js [] js' \<longleftrightarrow> js' = js"
| "json_reads js (t # ts) js' \<longleftrightarrow>
     (\<exists>js1. (\<forall>tag. \<exists>tag'. xs_json_next (\<lambda>_. True) js tag False = Some (js1, tag', 0) \<and> json_token (j_mem js) tag' = Some t) \<and>
        json_reads js1 ts js')"

subsection \<open>Lemmas: the text ahead\<close>

definition json_stack :: "int xs_arr \<Rightarrow> int list \<Rightarrow> bool" where
  "json_stack ar st \<longleftrightarrow> (\<exists>d. aData ar = Some d \<and> aCount ar = int (length st) \<and> int (length d) = aSpace ar \<and>
     length st \<le> length d \<and> take (length st) d = st)"

definition json_at :: "byte list \<Rightarrow> byte list \<Rightarrow> int \<Rightarrow> int list \<Rightarrow> xs_json \<Rightarrow> bool" where
  \<comment> \<open>the parser stands before the text \<open>u\<close> of the memory \<open>m\<close>\<close>
  "json_at m u ms st js \<longleftrightarrow> j_mem js = m \<and> j_mend js = int (length m) - 1 \<and> j_mstate js = ms \<and> json_stack (j_mstack js) st \<and>
     (\<exists>p. j_mptr js = Some p \<and> p < length m \<and> drop p m = u)"

definition json_memory :: "byte list \<Rightarrow> bool" where
  \<comment> \<open>terminated, and without a backslash\<close>
  "json_memory m \<longleftrightarrow> (\<exists>s. m = s @ [0]) \<and> 92 \<notin> set m"

lemma rd_drop: "drop p m = c # u \<Longrightarrow> rd m p = Some c"
  by (metis drop_eq_Nil2 hd_drop_conv_nth leI list.distinct(1) list.sel(1) rd_Some)

lemma drop_Cons_Suc: "drop p m = c # u \<Longrightarrow> drop (Suc p) m = u \<and> p < length m"
  by (metis drop_Suc drop_eq_Nil2 leI list.distinct(1) list.sel(3) tl_drop)

lemma drop_app: "drop p m = xs @ u \<Longrightarrow> drop (p + length xs) m = u"
  by (metis add.commute append_eq_conv_conj drop_drop)

lemma json_skip_at: "drop p m = c # u \<Longrightarrow> \<not> xs_isspace c \<Longrightarrow> json_skip m p = Some p"
  by (subst json_skip.simps) (auto dest: rd_drop)

lemma read_string_chars:
  assumes "drop i m = s @ 34 # u" "json_chars s"
  shows "read_string_loop m 34 92 True i he = Some (i + length s + 1, True, he)"
  using assms
proof (induction s arbitrary: i)
  case Nil
  then show ?case by (subst read_string_loop.simps) (auto dest: rd_drop)
next
  case (Cons c s)
  have c: "rd m i = Some c" "drop (Suc i) m = s @ 34 # u" using Cons.prems(1) drop_Cons_Suc [of i m c] rd_drop [of i m c] by auto
  have "c \<noteq> 0" "c \<noteq> 92" "c \<noteq> 34" "json_chars s" using Cons.prems(2) by (auto simp: json_chars_def)
  then show ?case using c Cons.IH [OF c(2)] by (subst read_string_loop.simps) simp
qed

lemma read_quoted:
  assumes "drop p m = 34 # s @ 34 # u" "json_chars s"
  shows "xs_JSONReadString m p 34 34 92 = Some (Some (p + length s + 2), False)"
proof -
  have "drop (Suc p) m = s @ 34 # u" using drop_Cons_Suc [OF assms(1)] by simp
  then show ?thesis using assms json_skip_at [OF assms(1)] rd_drop [OF assms(1)] read_string_chars [of "Suc p" m s u False]
    by (simp add: xs_JSONReadString_def xs_isspace_def)
qed

lemma read_string_stops:
  assumes "json_memory m" "i < length m"
  shows "\<exists>k f he'. read_string_loop m 34 92 False i he = Some (k, f, he') \<and> i \<le> k \<and>
    (m ! i \<notin> {0, 44, 58} \<longrightarrow> i < k)"
  using assms
proof (induction "length m - i" arbitrary: i)
  case (Suc n)
  have c: "rd m i = Some (m ! i)" "m ! i \<noteq> 92"
    using Suc.prems nth_mem [of i m] by (simp add: mem_simps, metis json_memory_def)
  show ?case
  proof (cases "m ! i \<in> {0, 34, 44, 58}")
    case True
    then show ?thesis using c by (subst read_string_loop.simps) auto
  next
    case False
    have "Suc i < length m"
    proof (rule ccontr)
      assume "\<not> Suc i < length m"
      then have "i = length m - 1" using Suc.prems(2) by simp
      then have "m ! i = 0" using Suc.prems(1) by (auto simp: json_memory_def nth_append)
      then show False using False by simp
    qed
    then have "\<exists>k f he'. read_string_loop m 34 92 False (Suc i) he = Some (k, f, he') \<and> Suc i \<le> k"
      using Suc.hyps(1) [of "Suc i"] Suc.hyps(2) Suc.prems(1) \<open>Suc i < length m\<close>
      by (metis Suc_diff_Suc diff_Suc_Suc diff_Suc_1 Suc.prems(2))
    then show ?thesis using c False by (subst read_string_loop.simps) auto
  qed
qed simp

lemma read_unquoted:
  assumes "json_memory m" "drop p m = c # u" "\<not> xs_isspace c" "c \<notin> {0, 34, 44, 58}"
  shows "\<exists>n he. xs_JSONReadString m p 34 34 92 = Some (Some n, he) \<and> p < n"
proof -
  have p: "p < length m" "m ! p = c" using drop_Cons_Suc [OF assms(2)] rd_drop [OF assms(2)] by (auto simp: mem_simps)
  obtain k f he where "read_string_loop m 34 92 False p False = Some (k, f, he)" "p < k"
    using read_string_stops [OF assms(1) p(1), of False] p(2) assms(4) by auto
  then show ?thesis using assms json_skip_at [OF assms(2,3)] rd_drop [OF assms(2)]
    by (auto simp: xs_JSONReadString_def)
qed

lemma push_stack:
  assumes "json_stack ar st"
  shows "\<exists>ar'. xs_arr_push (\<lambda>_. True) 0 ar k = Some ar' \<and> json_stack ar' (st @ [k])"
proof -
  obtain d where d: "aData ar = Some d" "aCount ar = int (length st)" "int (length d) = aSpace ar" "length st \<le> length d"
    "take (length st) d = st" using assms by (auto simp: json_stack_def)
  have upd: "take (Suc (length st)) (e[length st := k]) = st @ [k]" if "take (length st) e = st" "length st < length e" for e
    using that by (simp add: take_Suc_snoc take_update_swap)
  show ?thesis
  proof (cases "aSpace ar \<le> aCount ar + 1")
    case True
    let ?s = "if aSpace ar * 2 > aCount ar + 1 then aSpace ar * 2 else aCount ar + 1"
    let ?d = "if ?s > aSpace ar then take (nat (aSpace ar)) d @ replicate (nat (?s - aSpace ar)) 0 else d"
    have m: "xs_arr_makespace (\<lambda>_. True) 0 ar (aCount ar + 1) = Some (ar\<lparr>aData := Some ?d, aSpace := ?s\<rparr>, False)"
      using True d by (simp add: xs_arr_makespace_def xs_recalloc_def Let_def)
    have l: "int (length ?d) = ?s" "length st < length ?d" "take (length st) ?d = st" using d True by auto
    show ?thesis using m l upd [OF l(3,2)] True d(2) by (auto simp: xs_arr_push_def mem_simps json_stack_def)
  next
    case False
    then show ?thesis using d upd [of d] by (auto simp: xs_arr_push_def mem_simps json_stack_def)
  qed
qed

lemma pop_stack:
  assumes "json_stack ar (st @ [k])"
  shows "\<exists>ar'. xs_arr_pop ar = Some (ar', Some k) \<and> json_stack ar' st"
proof -
  obtain d where d: "aData ar = Some d" "aCount ar = int (Suc (length st))" "int (length d) = aSpace ar" "Suc (length st) \<le> length d"
    "take (Suc (length st)) d = st @ [k]" using assms by (auto simp: json_stack_def)
  have "d ! length st = k" "take (length st) d = st"
    using d(4,5) by (simp_all add: take_Suc_snoc)
  then show ?thesis using d by (auto simp: xs_arr_pop_def mem_simps json_stack_def)
qed

lemma last_stack: "json_stack ar (st @ [k]) \<Longrightarrow> json_last ar = Some k"
proof -
  assume "json_stack ar (st @ [k])"
  then obtain d where d: "aData ar = Some d" "aCount ar = int (Suc (length st))" "Suc (length st) \<le> length d"
    "take (Suc (length st)) d = st @ [k]" by (auto simp: json_stack_def)
  have "d ! length st = k" using d(3,4) by (simp add: take_Suc_snoc)
  then show ?thesis using d by (simp add: json_last_def mem_simps)
qed

subsection \<open>Lemmas: one token\<close>

definition after_comma :: "byte list \<Rightarrow> byte list" where
  "after_comma u = (case u of [] \<Rightarrow> [] | c # r \<Rightarrow> if c = 44 then r else u)"

lemma json_at_pointer:
  assumes "json_at m (c # u) ms st js"
  obtains p where "j_mptr js = Some p" "drop p m = c # u" "drop (Suc p) m = u" "int (Suc p) < int (length m) \<or> u = []"
    "p < length m" "rd m p = Some c"
proof -
  obtain p where p: "j_mptr js = Some p" "drop p m = c # u" using assms by (auto simp: json_at_def)
  have "drop (Suc p) m = u" "p < length m" using drop_Cons_Suc [OF p(2)] by simp_all
  moreover have "int (Suc p) < int (length m) \<or> u = []" using calculation by (cases "Suc p < length m") auto
  ultimately show ?thesis using that p rd_drop [OF p(2)] by blast
qed

lemma json_after:
  assumes m: "json_memory m" and p: "drop p m = c # u" "c \<noteq> 44 \<or> u \<noteq> []"
  shows "\<exists>q. drop q m = after_comma (c # u) \<and> q < length m \<and> q = (if c = 44 then p + 1 else p)"
  using drop_Cons_Suc [OF p(1)] p by (auto simp: after_comma_def)

lemma json_next_start:
  assumes a: "json_at m (c # u) ms st js" "u \<noteq> []" and c: "\<not> xs_isspace c" and ms: "ms \<noteq> - 1"
    and r: "j_mptr js = Some p" "xs_JSONReadString m p 34 34 92 = Some (Some n, he)" "p < n"
  shows "xs_json_next (\<lambda>_. True) js tag False =
    (let tag1 = tag\<lparr>t_ptr := None, t_type := 0, t_stype := 0, t_i := 0, t_len := 0, t_has_escape := he\<rparr> in
     if ms = exs_JSON_ObjectStart \<and> c \<noteq> 125 then json_key js tag1 p n False
     else if c = 123 then json_open (\<lambda>_. True) js tag1 p exs_JSON_ObjectStart
     else if c = 125 then json_close js tag1 p exs_JSON_ObjectStart exs_JSON_ObjectEnd
     else if c = 91 then json_open (\<lambda>_. True) js tag1 p exs_JSON_ArrayStart
     else if c = 93 then json_close js tag1 p exs_JSON_ArrayStart exs_JSON_ArrayEnd
     else json_value js tag1 p n False)"
proof -
  have A: "j_mem js = m" "j_mend js = int (length m) - 1" "j_mstate js = ms" using a by (simp_all add: json_at_def)
  have d: "drop p m = c # u" using a(1) r(1) by (auto simp: json_at_def)
  have "drop (Suc p) m = u" using drop_Cons_Suc [OF d] by simp
  then have "Suc p < length m" using a(2) by (metis drop_eq_Nil2 leI)
  then show ?thesis using A r ms json_skip_at [OF d c] rd_drop [OF d] by (simp add: xs_json_next_def json_dispatch_def Let_def)
qed

lemma step_open:
  assumes m: "json_memory m" and a: "json_at m (c # u) ms st js" "u \<noteq> []" and ms: "ms \<noteq> - 1" "ms \<noteq> exs_JSON_ObjectStart"
    and c: "c = 123 \<and> k = exs_JSON_ObjectStart \<and> t = Tok_object \<or> c = 91 \<and> k = exs_JSON_ArrayStart \<and> t = Tok_array"
  shows "\<exists>js1. (\<forall>tag. \<exists>tag'. xs_json_next (\<lambda>_. True) js tag False = Some (js1, tag', 0) \<and> json_token m tag' = Some t) \<and>
    json_at m u k (st @ [k]) js1"
proof -
  obtain p where p: "j_mptr js = Some p" "drop p m = c # u" "drop (Suc p) m = u" "int (Suc p) < int (length m) \<or> u = []"
    using json_at_pointer [OF a(1)] by metis
  have sp: "\<not> xs_isspace c" "c \<notin> {0, 34, 44, 58}" using c by (auto simp: xs_isspace_def)
  obtain n he where r: "xs_JSONReadString m p 34 34 92 = Some (Some n, he)" "p < n"
    using read_unquoted [OF m p(2) sp] by blast
  obtain ar where ar: "xs_arr_push (\<lambda>_. True) 0 (j_mstack js) k = Some ar" "json_stack ar (st @ [k])"
    using push_stack a(1) unfolding json_at_def by blast
  let ?js = "js\<lparr>j_mstate := k, j_mstack := ar, j_mptr := Some (p + 1)\<rparr>"
  have "json_at m u k (st @ [k]) ?js" using a p ar by (auto simp: json_at_def)
  moreover have "\<exists>tag'. xs_json_next (\<lambda>_. True) js tag False = Some (?js, tag', 0) \<and> json_token m tag' = Some t" for tag
  proof -
    let ?tag = "tag\<lparr>t_ptr := None, t_type := 0, t_stype := 0, t_i := 0, t_len := 0, t_has_escape := he\<rparr>"
    have "xs_json_next (\<lambda>_. True) js tag False = json_open (\<lambda>_. True) js ?tag p k"
      using c by (elim disjE) (use json_next_start [OF a sp(1) ms(1) p(1) r, of tag] ms(2) in \<open>simp add: Let_def\<close>)+
    moreover have "json_open (\<lambda>_. True) js ?tag p k = Some (?js, ?tag\<lparr>t_type := k\<rparr>, 0)" using ar(1) by (simp add: json_open_def)
    moreover have "json_token m (?tag\<lparr>t_type := k\<rparr>) = Some t" using c by (elim disjE) (simp_all add: json_token_def Let_def)
    ultimately show ?thesis by metis
  qed
  ultimately show ?thesis by blast
qed

lemma step_close:
  assumes m: "json_memory m" and a: "json_at m (c # x # u) ms (st @ [l, k]) js" and x: "\<not> xs_isspace x" "x \<noteq> 44 \<or> u \<noteq> []"
    and ms: "ms = k"
    and c: "c = 125 \<and> k = exs_JSON_ObjectStart \<and> t = Tok_object_end \<or> c = 93 \<and> k = exs_JSON_ArrayStart \<and> t = Tok_array_end"
  shows "\<exists>js1. (\<forall>tag. \<exists>tag'. xs_json_next (\<lambda>_. True) js tag False = Some (js1, tag', 0) \<and> json_token m tag' = Some t) \<and>
    json_at m (after_comma (x # u)) l (st @ [l]) js1"
proof -
  obtain p where p: "j_mptr js = Some p" "drop p m = c # x # u" "drop (Suc p) m = x # u"
    using json_at_pointer [OF a] by metis
  have sp: "\<not> xs_isspace c" "c \<notin> {0, 34, 44, 58}" using c by (auto simp: xs_isspace_def)
  obtain n he where r: "xs_JSONReadString m p 34 34 92 = Some (Some n, he)" "p < n"
    using read_unquoted [OF m p(2) sp] by blast
  have st: "json_stack (j_mstack js) ((st @ [l]) @ [k])" using a by (simp add: json_at_def)
  obtain ar where ar: "xs_arr_pop (j_mstack js) = Some (ar, Some k)" "json_stack ar (st @ [l])" using pop_stack [OF st] by blast
  have cnt: "aCount ar \<noteq> 0" using ar(2) by (auto simp: json_stack_def)
  obtain q where q: "drop q m = after_comma (x # u)" "q < length m" "q = (if x = 44 then Suc p + 1 else Suc p)"
    using json_after [OF m p(3) x(2)] by blast
  let ?js = "js\<lparr>j_mstack := ar, j_mstate := l, j_mptr := Some q\<rparr>"
  have "json_at m (after_comma (x # u)) l (st @ [l]) ?js" using a q ar by (auto simp: json_at_def)
  moreover have "\<exists>tag'. xs_json_next (\<lambda>_. True) js tag False = Some (?js, tag', 0) \<and> json_token m tag' = Some t" for tag
  proof -
    have mem: "j_mem js = m" using a by (simp add: json_at_def)
    have ne: "x # u \<noteq> []" "ms \<noteq> - 1" using ms c by auto
    let ?tag = "tag\<lparr>t_ptr := None, t_type := 0, t_stype := 0, t_i := 0, t_len := 0, t_has_escape := he\<rparr>"
    have "xs_json_next (\<lambda>_. True) js tag False = json_close js ?tag p k (k + 2)"
      using c by (elim disjE) (use json_next_start [OF a ne(1) sp(1) ne(2) p(1) r, of tag] ms in \<open>simp add: Let_def\<close>)+
    moreover have "json_close js ?tag p k (k + 2) = Some (?js, ?tag\<lparr>t_type := k + 2\<rparr>, 0)"
      using ar(1) cnt last_stack [OF ar(2)] json_skip_at [OF p(3) x(1)] rd_drop [OF p(3)] q(3) mem by (simp add: json_close_def)
    moreover have "json_token m (?tag\<lparr>t_type := k + 2\<rparr>) = Some t" using c by (elim disjE) (simp_all add: json_token_def Let_def)
    ultimately show ?thesis by metis
  qed
  ultimately show ?thesis by blast
qed

lemma span_quoted:
  assumes "drop p m = 34 # s @ 34 # u" "u \<noteq> []"
  shows "json_span m p (p + length s + 2) permissive = Some (Some (p + 1, int (length s), p + length s + 2))"
proof -
  have "drop (p + length s + 1) m = 34 # u" using drop_app [of p m "34 # s" "34 # u"] assms(1) by simp
  then show ?thesis using rd_drop [OF assms(1)] rd_drop [of "p + length s + 1" m 34 u] by (simp add: json_span_def Let_def)
qed

lemma span_end: "json_span m s n permissive = Some (Some (q, l, k)) \<Longrightarrow> s < n \<Longrightarrow> s < k"
  by (auto simp: json_span_def bind_eq_Some_conv Let_def split: if_splits)

lemma step_key:
  assumes m: "json_memory m" and a: "json_at m (34 # k @ 34 # 58 # u) exs_JSON_ObjectStart st js" and k: "json_chars k" and u: "u \<noteq> []"
  shows "\<exists>js1. (\<forall>tag. \<exists>tag'. xs_json_next (\<lambda>_. True) js tag False = Some (js1, tag', 0) \<and> json_token m tag' = Some (Tok_key k)) \<and>
    json_at m u exs_JSON_Value st js1"
proof -
  obtain p where p: "j_mptr js = Some p" "drop p m = 34 # k @ 34 # 58 # u" "drop (Suc p) m = k @ 34 # 58 # u" "rd m p = Some 34"
    using json_at_pointer [OF a] by metis
  have r: "xs_JSONReadString m p 34 34 92 = Some (Some (p + length k + 2), False)" "p < p + length k + 2"
    using read_quoted [OF p(2) k] by simp_all
  have e: "drop (p + length k + 1) m = 34 # 58 # u" using drop_app [of "Suc p" m k] p(3) by simp
  have v: "drop (p + length k + 2) m = 58 # u" using drop_Cons_Suc [OF e] by simp
  have w: "drop (p + length k + 3) m = u" using drop_Cons_Suc [OF v] by (simp add: eval_nat_numeral)
  let ?js = "js\<lparr>j_mstate := exs_JSON_Value, j_mptr := Some (p + length k + 3)\<rparr>"
  have "p + length k + 3 < length m" using w u by (metis drop_eq_Nil2 leI)
  then have "json_at m u exs_JSON_Value st ?js" using a w by (auto simp: json_at_def)
  moreover have "\<exists>tag'. xs_json_next (\<lambda>_. True) js tag False = Some (?js, tag', 0) \<and> json_token m tag' = Some (Tok_key k)" for tag
  proof -
    have mem: "j_mem js = m" using a by (simp add: json_at_def)
    have sp: "k @ 34 # 58 # u \<noteq> []" "\<not> xs_isspace 34" "exs_JSON_ObjectStart \<noteq> - 1" by (simp_all add: xs_isspace_def)
    have tk: "take (length k) (drop (Suc p) m) = k" using p(3) by simp
    let ?tag = "tag\<lparr>t_ptr := None, t_type := 0, t_stype := 0, t_i := 0, t_len := 0, t_has_escape := False\<rparr>"
    have "xs_json_next (\<lambda>_. True) js tag False = json_key js ?tag p (p + length k + 2) False"
      using json_next_start [OF a sp p(1) r, of tag] by (simp add: Let_def)
    also have "\<dots> = Some (?js, ?tag\<lparr>t_ptr := Some (p + 1), t_len := int (length k), t_type := exs_JSON_Key\<rparr>, 0)"
      using mem span_quoted [OF p(2), of False] rd_drop [OF v] json_skip_at [OF v]
      by (simp add: json_key_def Let_def xs_isspace_def)
    finally show ?thesis using tk by (simp add: json_token_def Let_def)
  qed
  ultimately show ?thesis by blast
qed

lemma strncmp_loop_zero_length [simp]: "strncmp_loop f a b 0 = 0"
  by (cases a) simp_all

lemma json_word_true:
  "drop p m = bytes ''true'' @ r \<Longrightarrow> json_word m p ''true''"
  "drop p m = bytes ''false'' @ r \<Longrightarrow> \<not> json_word m p ''true'' \<and> json_word m p ''false''"
  "drop p m = bytes ''null'' @ r \<Longrightarrow> \<not> json_word m p ''true'' \<and> \<not> json_word m p ''false'' \<and> json_word m p ''null''"
  by (simp_all add: json_word_def xs_strncmp_case_def cstr_def xs_lower_def uint32_def)

lemma value_end:
  assumes m: "json_memory m" and a: "json_at m w ms (st @ [l]) js" and ms: "ms \<in> {exs_JSON_Value, exs_JSON_ArrayStart}"
    and p: "rd m p = Some c" "(if c \<noteq> 34 then json_plain m tag p n False else json_quoted m tag p n False) = Some (tag1, Some k)"
    and k: "drop k m = x # u" "x \<in> {44, 93, 125}" "x \<noteq> 44 \<or> u \<noteq> []"
  shows "\<exists>q. q = (if x = 44 then k + 1 else k) \<and> json_value js tag p n False = Some (js\<lparr>j_mstate := l, j_mptr := Some q\<rparr>, tag1, 0) \<and>
    json_at m (after_comma (x # u)) l (st @ [l]) (js\<lparr>j_mstate := l, j_mptr := Some q\<rparr>)"
proof -
  have A: "j_mem js = m" "j_mstate js = ms" "json_stack (j_mstack js) (st @ [l])" using a by (simp_all add: json_at_def)
  have cnt: "aCount (j_mstack js) \<noteq> 0" using A(3) by (auto simp: json_stack_def)
  have sp: "\<not> xs_isspace x" using k(2) by (auto simp: xs_isspace_def)
  obtain q where q: "drop q m = after_comma (x # u)" "q < length m" "q = (if x = 44 then k + 1 else k)"
    using json_after [OF m k(1,3)] by blast
  have "json_value js tag p n False = Some (js\<lparr>j_mstate := l, j_mptr := Some q\<rparr>, tag1, 0)"
    using ms A cnt p json_skip_at [OF k(1) sp] rd_drop [OF k(1)] k(2) q(3) last_stack [OF A(3)]
    by (auto simp: json_value_def json_follow_def Let_def)
  moreover have "json_at m (after_comma (x # u)) l (st @ [l]) (js\<lparr>j_mstate := l, j_mptr := Some q\<rparr>)"
    using a q by (auto simp: json_at_def)
  ultimately show ?thesis using q(3) by blast
qed

lemma step_value:
  assumes m: "json_memory m" and a: "json_at m (json_text v @ x # u) ms (st @ [l]) js" and ms: "ms \<in> {exs_JSON_Value, exs_JSON_ArrayStart}"
    and v: "\<not> json_container v" "json_ok v" and x: "x \<in> {44, 93, 125}" "x \<noteq> 44 \<or> u \<noteq> []"
  shows "\<exists>js1 t. json_tokens v = [t] \<and>
    (\<forall>tag. \<exists>tag'. xs_json_next (\<lambda>_. True) js tag False = Some (js1, tag', 0) \<and> json_token m tag' = Some t) \<and>
    json_at m (after_comma (x # u)) l (st @ [l]) js1"
proof -
  define c where "c = hd (json_text v)"
  define u1 where "u1 = tl (json_text v) @ x # u"
  have w: "json_text v @ x # u = c # u1" using v(1) by (cases v) (auto simp: c_def u1_def json_container_def)
  obtain p where p: "j_mptr js = Some p" "drop p m = c # u1" "rd m p = Some c" using a json_at_pointer unfolding w by metis
  have c: "c \<in> {34, 116, 102, 110}" using v(1) by (cases v) (auto simp: c_def json_container_def)
  have sp: "\<not> xs_isspace c" "u1 \<noteq> []" "ms \<noteq> - 1" using c ms by (auto simp: xs_isspace_def u1_def)
  have k: "drop (p + length (json_text v)) m = x # u" using drop_app [of p m "json_text v" "x # u"] p(2) w by simp
  obtain n he where r: "xs_JSONReadString m p 34 34 92 = Some (Some n, he)" "p < n"
    "\<forall>s. v = JStr s \<longrightarrow> n = p + length s + 2"
  proof (cases "c = 34")
    case True
    then obtain s where s: "v = JStr s" using v(1) by (cases v) (auto simp: c_def json_container_def split: if_splits)
    then show ?thesis using that [of "p + length s + 2" False] read_quoted [of p m s "x # u"] p(2) w v(2) by simp
  next
    case False
    then have "c \<notin> {0, 34, 44, 58}" using c by auto
    then obtain n he where "xs_JSONReadString m p 34 34 92 = Some (Some n, he)" "p < n"
      using read_unquoted [OF m p(2) sp(1)] by blast
    moreover have "\<forall>s. v \<noteq> JStr s" using False by (auto simp: c_def)
    ultimately show ?thesis using that by blast
  qed
  have start: "xs_json_next (\<lambda>_. True) js tag False =
      json_value js (tag\<lparr>t_ptr := None, t_type := 0, t_stype := 0, t_i := 0, t_len := 0, t_has_escape := he\<rparr>) p n False" for tag
    using json_next_start [OF a [unfolded w] sp(2,1,3) p(1) r(1,2), of tag] ms c by (auto simp: Let_def)
  obtain t where t: "json_tokens v = [t]"
    "\<exists>tag1. (if c \<noteq> 34 then json_plain m tag p n False else json_quoted m tag p n False) = Some (tag1, Some (p + length (json_text v))) \<and>
      json_token m tag1 = Some t" for tag
  proof (cases v)
    case (JStr s)
    have e: "drop (p + length s + 1) m = 34 # x # u" using drop_app [of p m "34 # s" "34 # x # u"] p(2) w JStr by simp
    have d: "drop (Suc p) m = s @ 34 # x # u" using drop_Cons_Suc [OF p(2)] w JStr by (simp add: u1_def)
    have q: "drop p m = 34 # s @ 34 # x # u" using p(2) w JStr by simp
    show ?thesis using that [of "Tok_string s"] JStr r(3) span_quoted [OF q, of False] d
      by (simp add: json_quoted_def json_token_def c_def Let_def)
  next
    case (JBool b)
    then show ?thesis using that [of "Tok_bool b"] p(3) json_word_true(1,2) [of p m "x # u"] p(2) w
      by (cases b) (simp_all add: json_plain_def json_token_def c_def Let_def xs_lower_def uint32_def)
  next
    case JNull
    then show ?thesis using that [of Tok_null] p(3) json_word_true(3) [of p m "x # u"] p(2) w
      by (simp add: json_plain_def json_token_def c_def Let_def xs_lower_def uint32_def)
  qed (use v(1) in \<open>simp_all add: json_container_def\<close>)
  obtain q where q: "json_at m (after_comma (x # u)) l (st @ [l]) (js\<lparr>j_mstate := l, j_mptr := Some q\<rparr>)"
    "\<forall>tag. \<exists>tag1. json_value js tag p n False = Some (js\<lparr>j_mstate := l, j_mptr := Some q\<rparr>, tag1, 0) \<and> json_token m tag1 = Some t"
  proof -
    let ?q = "if x = 44 then p + length (json_text v) + 1 else p + length (json_text v)"
    have all: "\<exists>tag1. json_value js tag p n False = Some (js\<lparr>j_mstate := l, j_mptr := Some ?q\<rparr>, tag1, 0) \<and> json_token m tag1 = Some t \<and>
        json_at m (after_comma (x # u)) l (st @ [l]) (js\<lparr>j_mstate := l, j_mptr := Some ?q\<rparr>)" for tag
    proof -
      obtain tag1 where t1: "(if c \<noteq> 34 then json_plain m tag p n False else json_quoted m tag p n False) = Some (tag1, Some (p + length (json_text v)))"
        "json_token m tag1 = Some t" using t(2) by blast
      from value_end [OF m a ms p(3) t1(1) k x]
      have "json_value js tag p n False = Some (js\<lparr>j_mstate := l, j_mptr := Some ?q\<rparr>, tag1, 0) \<and>
        json_at m (after_comma (x # u)) l (st @ [l]) (js\<lparr>j_mstate := l, j_mptr := Some ?q\<rparr>)" by (elim exE conjE) (simp only: simp_thms)
      then show ?thesis using t1(2) by blast
    qed
    show ?thesis using that [of ?q] all by blast
  qed
  show ?thesis using q start t(1) by (intro exI [of _ "js\<lparr>j_mstate := l, j_mptr := Some q\<rparr>"] exI [of _ t]) auto
qed

subsection \<open>Lemmas: all tokens of a value\<close>

lemma json_reads_append: "json_reads js (ts @ us) js' \<longleftrightarrow> (\<exists>js1. json_reads js ts js1 \<and> json_reads js1 us js')"
  by (induction ts arbitrary: js) auto

lemma json_reads_one:
  assumes "json_at m u ms st js"
    and "\<forall>tag. \<exists>tag'. xs_json_next (\<lambda>_. True) js tag False = Some (js1, tag', 0) \<and> json_token m tag' = Some t"
    and "json_reads js1 ts js'"
  shows "json_reads js (t # ts) js'"
  using assms by (auto simp: json_at_def)

definition value_reads :: "byte list \<Rightarrow> json \<Rightarrow> bool" where
  \<comment> \<open>wherever the text of the value stands in \<open>m\<close>, its tokens are read\<close>
  "value_reads m v \<longleftrightarrow> (\<forall>js ms st l x u. json_at m (json_text v @ x # u) ms (st @ [l]) js \<longrightarrow>
     ms \<in> {exs_JSON_Value, exs_JSON_ArrayStart} \<or> ms = 0 \<and> json_container v \<longrightarrow> \<not> xs_isspace x \<longrightarrow> x \<noteq> 44 \<or> u \<noteq> [] \<longrightarrow>
     json_container v \<or> x \<in> {44, 93, 125} \<longrightarrow>
     (\<exists>js'. json_reads js (json_tokens v) js' \<and> json_at m (after_comma (x # u)) l (st @ [l]) js'))"

lemma value_readsD:
  assumes "value_reads m v" "json_at m (json_text v @ x # u) ms (st @ [l]) js" "ms \<in> {exs_JSON_Value, exs_JSON_ArrayStart}"
    "x \<in> {44, 93, 125}" "x \<noteq> 44 \<or> u \<noteq> []"
  shows "\<exists>js'. json_reads js (json_tokens v) js' \<and> json_at m (after_comma (x # u)) l (st @ [l]) js'"
  using assms unfolding value_reads_def by (auto simp: xs_isspace_def)

lemma array_reads:
  assumes "\<forall>v\<in>set vs. value_reads m v"
    and "json_at m (json_join (map json_text vs) @ 93 # u) exs_JSON_ArrayStart (st @ [exs_JSON_ArrayStart]) js"
  shows "\<exists>js'. json_reads js (concat (map json_tokens vs)) js' \<and> json_at m (93 # u) exs_JSON_ArrayStart (st @ [exs_JSON_ArrayStart]) js'"
  using assms
proof (induction vs arbitrary: js)
  case (Cons v vs)
  have v: "value_reads m v" using Cons.prems(1) by simp
  show ?case
  proof (cases vs)
    case Nil
    then show ?thesis using value_readsD [OF v, of 93 u] Cons.prems(2) by (simp add: after_comma_def)
  next
    case (Cons w ws)
    let ?u = "json_join (map json_text vs) @ 93 # u"
    have "json_at m (json_text v @ 44 # ?u) exs_JSON_ArrayStart (st @ [exs_JSON_ArrayStart]) js"
      using \<open>json_at m (json_join (map json_text (v # vs)) @ 93 # u) _ _ js\<close> Cons by simp
    then obtain js1 where 1: "json_reads js (json_tokens v) js1" "json_at m (after_comma (44 # ?u)) exs_JSON_ArrayStart (st @ [exs_JSON_ArrayStart]) js1"
      using value_readsD [OF v] by blast
    moreover obtain js2 where "json_reads js1 (concat (map json_tokens vs)) js2" "json_at m (93 # u) exs_JSON_ArrayStart (st @ [exs_JSON_ArrayStart]) js2"
      using Cons.IH [of js1] Cons.prems(1) 1(2) by (auto simp: after_comma_def)
    ultimately show ?thesis by (auto simp: json_reads_append)
  qed
qed auto

definition member_text :: "byte list \<times> json \<Rightarrow> byte list" where
  "member_text = (\<lambda>(k, v). 34 # k @ 34 # 58 # json_text v)"

definition member_tokens :: "byte list \<times> json \<Rightarrow> json_token list" where
  "member_tokens = (\<lambda>(k, v). Tok_key k # json_tokens v)"

lemma member_reads:
  assumes m: "json_memory m" and k: "json_chars k" and v: "value_reads m v" and x: "x \<in> {44, 125}" "x \<noteq> 44 \<or> u \<noteq> []"
    and a: "json_at m (member_text (k, v) @ x # u) exs_JSON_ObjectStart (st @ [exs_JSON_ObjectStart]) js"
  shows "\<exists>js'. json_reads js (member_tokens (k, v)) js' \<and> json_at m (after_comma (x # u)) exs_JSON_ObjectStart (st @ [exs_JSON_ObjectStart]) js'"
proof -
  have a': "json_at m (34 # k @ 34 # 58 # (json_text v @ x # u)) exs_JSON_ObjectStart (st @ [exs_JSON_ObjectStart]) js"
    using a by (simp add: member_text_def)
  obtain js1 where 1: "\<forall>tag. \<exists>tag'. xs_json_next (\<lambda>_. True) js tag False = Some (js1, tag', 0) \<and> json_token m tag' = Some (Tok_key k)"
    "json_at m (json_text v @ x # u) exs_JSON_Value (st @ [exs_JSON_ObjectStart]) js1"
    using step_key [OF m a' k] by auto
  obtain js2 where 2: "json_reads js1 (json_tokens v) js2" "json_at m (after_comma (x # u)) exs_JSON_ObjectStart (st @ [exs_JSON_ObjectStart]) js2"
    using value_readsD [OF v 1(2)] x by auto
  then show ?thesis using json_reads_one [OF a' 1(1) 2(1)] by (auto simp: member_tokens_def)
qed

lemma object_reads:
  assumes m: "json_memory m" and "\<forall>(k, v)\<in>set kvs. json_chars k \<and> value_reads m v"
    and "json_at m (json_join (map member_text kvs) @ 125 # u) exs_JSON_ObjectStart (st @ [exs_JSON_ObjectStart]) js"
  shows "\<exists>js'. json_reads js (concat (map member_tokens kvs)) js' \<and> json_at m (125 # u) exs_JSON_ObjectStart (st @ [exs_JSON_ObjectStart]) js'"
  using assms(2,3)
proof (induction kvs arbitrary: js)
  case (Cons kv kvs)
  obtain k v where kv: "kv = (k, v)" by (cases kv)
  have v: "json_chars k" "value_reads m v" using Cons.prems(1) kv by auto
  show ?case
  proof (cases kvs)
    case Nil
    then show ?thesis using member_reads [OF m v, of 125 u] Cons.prems(2) kv by (simp add: after_comma_def)
  next
    case (Cons w ws)
    let ?u = "json_join (map member_text kvs) @ 125 # u"
    have "json_at m (member_text (k, v) @ 44 # ?u) exs_JSON_ObjectStart (st @ [exs_JSON_ObjectStart]) js"
      using \<open>json_at m (json_join (map member_text (kv # kvs)) @ 125 # u) _ _ js\<close> Cons kv by simp
    then obtain js1 where 1: "json_reads js (member_tokens (k, v)) js1" "json_at m (after_comma (44 # ?u)) exs_JSON_ObjectStart (st @ [exs_JSON_ObjectStart]) js1"
      using member_reads [OF m v] by blast
    moreover obtain js2 where "json_reads js1 (concat (map member_tokens kvs)) js2" "json_at m (125 # u) exs_JSON_ObjectStart (st @ [exs_JSON_ObjectStart]) js2"
      using Cons.IH [of js1] Cons.prems(1) 1(2) by (auto simp: after_comma_def)
    ultimately show ?thesis using kv by (auto simp: json_reads_append)
  qed
qed auto

lemma container_reads:
  assumes m: "json_memory m" and ms: "ms \<in> {exs_JSON_Value, exs_JSON_ArrayStart, 0}" and x: "\<not> xs_isspace x" "x \<noteq> 44 \<or> u \<noteq> []"
    and c: "c = 123 \<and> e = 125 \<and> k = exs_JSON_ObjectStart \<and> t = Tok_object \<and> t' = Tok_object_end \<or>
      c = 91 \<and> e = 93 \<and> k = exs_JSON_ArrayStart \<and> t = Tok_array \<and> t' = Tok_array_end"
    and a: "json_at m (c # w @ e # x # u) ms (st @ [l]) js"
    and inner: "\<And>js st. json_at m (w @ e # x # u) k (st @ [k]) js \<Longrightarrow> \<exists>js'. json_reads js ts js' \<and> json_at m (e # x # u) k (st @ [k]) js'"
  shows "\<exists>js'. json_reads js (t # ts @ [t']) js' \<and> json_at m (after_comma (x # u)) l (st @ [l]) js'"
proof -
  have ne: "w @ e # x # u \<noteq> []" "ms \<noteq> - 1" "ms \<noteq> exs_JSON_ObjectStart" using ms by auto
  have c1: "c = 123 \<and> k = exs_JSON_ObjectStart \<and> t = Tok_object \<or> c = 91 \<and> k = exs_JSON_ArrayStart \<and> t = Tok_array"
    and c2: "e = 125 \<and> k = exs_JSON_ObjectStart \<and> t' = Tok_object_end \<or> e = 93 \<and> k = exs_JSON_ArrayStart \<and> t' = Tok_array_end"
    using c by auto
  obtain js1 where 1: "\<forall>tag. \<exists>tag'. xs_json_next (\<lambda>_. True) js tag False = Some (js1, tag', 0) \<and> json_token m tag' = Some t"
    "json_at m (w @ e # x # u) k ((st @ [l]) @ [k]) js1" using step_open [OF m a ne c1] by blast
  obtain js2 where 2: "json_reads js1 ts js2" "json_at m (e # x # u) k ((st @ [l]) @ [k]) js2" using inner [OF 1(2)] by blast
  have pre: "json_at m (e # x # u) k (st @ [l, k]) js2" using 2(2) by simp
  obtain js3 where 3: "\<forall>tag. \<exists>tag'. xs_json_next (\<lambda>_. True) js2 tag False = Some (js3, tag', 0) \<and> json_token m tag' = Some t'"
    "json_at m (after_comma (x # u)) l (st @ [l]) js3" using step_close [OF m pre x refl c2] by blast
  have "json_reads js2 [t'] js3" by (rule json_reads_one [OF pre 3(1)]) simp
  then have "json_reads js1 (ts @ [t']) js3" using 2(1) json_reads_append by blast
  then show ?thesis using json_reads_one [OF a 1(1)] 3(2) by blast
qed

lemma simple_reads:
  assumes m: "json_memory m" and v: "\<not> json_container v" "json_ok v"
  shows "value_reads m v"
  unfolding value_reads_def
proof (intro allI impI)
  fix js ms st l x u
  assume a: "json_at m (json_text v @ x # u) ms (st @ [l]) js"
    and "ms \<in> {exs_JSON_Value, exs_JSON_ArrayStart} \<or> ms = 0 \<and> json_container v" "json_container v \<or> x \<in> {44, 93, 125}"
    and x: "x \<noteq> 44 \<or> u \<noteq> []"
  then have ms: "ms \<in> {exs_JSON_Value, exs_JSON_ArrayStart}" "x \<in> {44, 93, 125}" using v(1) by simp_all
  obtain js1 t where 1: "json_tokens v = [t]"
    "\<forall>tag. \<exists>tag'. xs_json_next (\<lambda>_. True) js tag False = Some (js1, tag', 0) \<and> json_token m tag' = Some t"
    "json_at m (after_comma (x # u)) l (st @ [l]) js1" using step_value [OF m a ms(1) v ms(2) x] by blast
  have "json_reads js [t] js1" by (rule json_reads_one [OF a 1(2)]) simp
  then show "\<exists>js'. json_reads js (json_tokens v) js' \<and> json_at m (after_comma (x # u)) l (st @ [l]) js'" using 1 by auto
qed

lemma value_reads_all:
  assumes m: "json_memory m"
  shows "json_ok v \<Longrightarrow> value_reads m v"
proof (induction v)
  case (JArr vs)
  have vs: "\<forall>v\<in>set vs. value_reads m v" using JArr by (auto simp: list_all_iff)
  show ?case unfolding value_reads_def
  proof (intro allI impI)
    fix js ms st l x u
    assume a: "json_at m (json_text (JArr vs) @ x # u) ms (st @ [l]) js" and ms: "ms \<in> {exs_JSON_Value, exs_JSON_ArrayStart} \<or> ms = 0 \<and> json_container (JArr vs)"
      and x: "\<not> xs_isspace x" "x \<noteq> 44 \<or> u \<noteq> []"
    have ms': "ms \<in> {exs_JSON_Value, exs_JSON_ArrayStart, 0}" using ms by auto
    have a': "json_at m (91 # json_join (map json_text vs) @ 93 # x # u) ms (st @ [l]) js" using a by simp
    show "\<exists>js'. json_reads js (json_tokens (JArr vs)) js' \<and> json_at m (after_comma (x # u)) l (st @ [l]) js'"
      using container_reads [OF m ms' x _ a' array_reads [OF vs], where t = Tok_array and t' = Tok_array_end] by simp
  qed
next
  case (JObj kvs)
  have kvs: "\<forall>(k, v)\<in>set kvs. json_chars k \<and> value_reads m v" using JObj by (fastforce simp: list_all_iff)
  show ?case unfolding value_reads_def
  proof (intro allI impI)
    fix js ms st l x u
    assume a: "json_at m (json_text (JObj kvs) @ x # u) ms (st @ [l]) js" and ms: "ms \<in> {exs_JSON_Value, exs_JSON_ArrayStart} \<or> ms = 0 \<and> json_container (JObj kvs)"
      and x: "\<not> xs_isspace x" "x \<noteq> 44 \<or> u \<noteq> []"
    have ms': "ms \<in> {exs_JSON_Value, exs_JSON_ArrayStart, 0}" using ms by auto
    have a': "json_at m (123 # json_join (map member_text kvs) @ 125 # x # u) ms (st @ [l]) js" using a by (simp add: member_text_def)
    show "\<exists>js'. json_reads js (json_tokens (JObj kvs)) js' \<and> json_at m (after_comma (x # u)) l (st @ [l]) js'"
      using container_reads [OF m ms' x _ a' object_reads [OF m kvs], where t = Tok_object and t' = Tok_object_end]
      by (simp add: member_tokens_def)
  qed
qed (rule simple_reads [OF m]; simp add: json_container_def)+

lemma json_join_set: "set (json_join xs) \<subseteq> insert 44 (\<Union> (set ` set xs))"
  by (induction xs rule: json_join.induct) auto

lemma json_text_plain: "json_ok v \<Longrightarrow> 92 \<notin> set (json_text v)"
proof (induction v)
  case (JArr vs)
  then show ?case using json_join_set [of "map json_text vs"] by (auto simp: list_all_iff)
next
  case (JObj kvs)
  have "92 \<notin> set (member_text kv)" if "kv \<in> set kvs" for kv
  proof -
    obtain k v where kv: "kv = (k, v)" by (cases kv)
    then have "json_chars k" "json_ok v" using JObj.prems that by (auto simp: list_all_iff)
    then show ?thesis using JObj.IH [OF that, of v] kv by (auto simp: member_text_def json_chars_def)
  qed
  then show ?case using json_join_set [of "map member_text kvs"] by (auto simp flip: member_text_def)
qed (auto simp: json_chars_def)

lemma create_at:
  assumes "s \<noteq> []"
  shows "\<exists>js. xs_json_create (\<lambda>_. True) (s @ [0]) (Some 0) (int (length s)) = Some js \<and> json_at (s @ [0]) (s @ [0]) 0 [- 1] js"
proof -
  have m: "xs_arr_makespace (\<lambda>_. True) (0 :: int) xs_arr_create 16 = Some (\<lparr>aData = Some (replicate 16 0), aCount = 0, aSpace = 16\<rparr>, False)"
    by (simp add: xs_arr_makespace_def xs_arr_create_def xs_recalloc_def)
  have "json_stack \<lparr>aData = Some (replicate 16 (0 :: int)), aCount = 0, aSpace = 16\<rparr> []" by (simp add: json_stack_def)
  then obtain ar where ar: "xs_arr_push (\<lambda>_. True) 0 \<lparr>aData = Some (replicate 16 (0 :: int)), aCount = 0, aSpace = 16\<rparr> (- 1) = Some ar"
    "json_stack ar [- 1]" using push_stack by force
  let ?js = "\<lparr>j_mem = s @ [0], j_mptr = Some 0, j_msrc = Some 0, j_mend = int (length s), j_mstate = 0, j_mstack = ar\<rparr>"
  have "xs_json_create (\<lambda>_. True) (s @ [0]) (Some 0) (int (length s)) = Some ?js" using m ar(1) by (simp add: xs_json_create_def)
  moreover have "json_at (s @ [0]) (s @ [0]) 0 [- 1] ?js" using ar(2) by (simp add: json_at_def)
  ultimately show ?thesis by blast
qed

subsection \<open>Lemmas: progress and bounds\<close>

lemma json_skip_ge: "json_skip m i = Some k \<Longrightarrow> i \<le> k \<and> k < length m"
proof (induction m i rule: json_skip.induct)
  case (1 m i)
  then show ?case by (subst (asm) (2) json_skip.simps) (auto split: option.splits if_splits simp: rd_def)
qed

lemma json_next_cases:
  assumes "xs_json_next room js tag permissive = Some r"
  obtains "r = (js, tag, json_end js)"
  | p s n he where "j_mptr js = Some p" "int p < j_mend js" "json_skip (j_mem js) p = Some s"
      "xs_JSONReadString (j_mem js) s 34 34 92 = Some (Some n, he)" "s < n" "json_dispatch room js tag s n he permissive = Some r"
proof (cases "j_mptr js")
  case None
  then show ?thesis using assms that(1) by (simp add: xs_json_next_def)
next
  case (Some p)
  show ?thesis
  proof (cases "int p < j_mend js")
    case True
    then obtain s np he where s: "json_skip (j_mem js) p = Some s" "xs_JSONReadString (j_mem js) s 34 34 92 = Some (np, he)"
      using assms Some by (auto simp: xs_json_next_def bind_eq_Some_conv)
    show ?thesis
    proof (cases "\<exists>n. np = Some n \<and> s < n")
      case True
      then show ?thesis using assms Some \<open>int p < j_mend js\<close> s that(2) by (auto simp: xs_json_next_def)
    next
      case False
      then show ?thesis using assms Some \<open>int p < j_mend js\<close> s that(1) by (auto simp: xs_json_next_def split: option.splits)
    qed
  next
    case False
    then show ?thesis using assms Some that(1) by (simp add: xs_json_next_def)
  qed
qed

lemma json_dispatch_cases:
  assumes "json_dispatch room js tag s n he permissive = Some r"
  obtains js1 tag1 where "j_mem js1 = j_mem js" "j_mend js1 = j_mend js" "j_mstack js1 = j_mstack js" "j_mptr js1 = j_mptr js"
    "r = (js1, tag1, exs_JSON_Err_Syntax) \<or> json_key js1 tag1 s n permissive = Some r \<or>
     (\<exists>k. json_open room js1 tag1 s k = Some r) \<or> (\<exists>k k'. json_close js1 tag1 s k k' = Some r) \<or>
     json_value js1 tag1 s n permissive = Some r"
proof -
  let ?tag = "tag\<lparr>t_ptr := None, t_type := 0, t_stype := 0, t_i := 0, t_len := 0, t_has_escape := he\<rparr>"
  obtain c where c: "rd (j_mem js) s = Some c" using assms by (cases "rd (j_mem js) s") (simp_all add: json_dispatch_def Let_def)
  let ?js = "if j_mstate js = 0 \<and> permissive \<and> c \<noteq> 123 \<and> c \<noteq> 91 then js\<lparr>j_mstate := exs_JSON_ObjectStart\<rparr> else js"
  have "r = (?js, ?tag, exs_JSON_Err_Syntax) \<or> json_key ?js ?tag s n permissive = Some r \<or>
     (\<exists>k. json_open room ?js ?tag s k = Some r) \<or> (\<exists>k k'. json_close ?js ?tag s k k' = Some r) \<or>
     json_value ?js ?tag s n permissive = Some r"
    using assms unfolding json_dispatch_def c Let_def bind.bind_lunit by (simp only: split: if_splits) blast+
  then show ?thesis by (intro that [of ?js ?tag]) simp_all
qed

lemma json_value_done:
  assumes "json_value js tag s n permissive = Some (js', tag', 0)"
  obtains c k q l where "rd (j_mem js) s = Some c"
    "(if c \<noteq> 34 then json_plain (j_mem js) tag s n permissive else json_quoted (j_mem js) tag s n permissive) = Some (tag', Some k)"
    "json_follow (j_mem js) (j_mstate js) k = Some (Some q)" "js' = js\<lparr>j_mstate := l, j_mptr := Some q\<rparr>"
proof -
  let ?rest = "\<lambda>(tag1, p). case p of None \<Rightarrow> Some (js, tag1, exs_JSON_Err_Syntax)
    | Some n1 \<Rightarrow> do {
        q \<leftarrow> json_follow (j_mem js) (j_mstate js) n1;
        case q of None \<Rightarrow> Some (js, tag1, exs_JSON_Err_Syntax)
        | Some n2 \<Rightarrow>
            if aCount (j_mstack js) = 0 then Some (js, tag1, exs_JSON_Err_Syntax)
            else do { l \<leftarrow> json_last (j_mstack js); Some (js\<lparr>j_mstate := l, j_mptr := Some n2\<rparr>, tag1, 0) } }"
  obtain c where c: "rd (j_mem js) s = Some c"
    using assms by (cases "rd (j_mem js) s") (simp_all add: json_value_def split: if_splits)
  define w where "w = (if c \<noteq> 34 then json_plain (j_mem js) tag s n permissive else json_quoted (j_mem js) tag s n permissive)"
  have a: "w \<bind> ?rest = Some (js', tag', 0)"
    using assms c by (simp add: json_value_def w_def split: if_splits)
  obtain tag1 p where 1: "w = Some (tag1, p)" using a by (cases w) auto
  obtain k where 2: "p = Some k" using a 1 by (cases p) auto
  obtain q where 3: "json_follow (j_mem js) (j_mstate js) k = Some (Some q)"
    using a 1 2 by (cases "json_follow (j_mem js) (j_mstate js) k") (auto split: option.splits)
  obtain l where "tag1 = tag'" "js' = js\<lparr>j_mstate := l, j_mptr := Some q\<rparr>"
    using a 1 2 3 by (cases "json_last (j_mstack js)") (auto split: if_splits)
  then show ?thesis using that c 1 2 3 unfolding w_def by blast
qed

lemma json_follow_ge: "json_follow m ms k = Some (Some q) \<Longrightarrow> k \<le> q"
  by (auto simp: json_follow_def bind_eq_Some_conv dest!: json_skip_ge split: if_splits)

lemma json_next_advances:
  assumes "xs_json_next room js tag permissive = Some (js', tag', 0)"
  shows "\<exists>p q. j_mptr js = Some p \<and> int p < j_mend js \<and> j_mptr js' = Some q \<and> p < q \<and> j_mend js' = j_mend js \<and> j_mem js' = j_mem js"
proof -
  have e: "json_end js \<noteq> 0" by (simp add: json_end_def)
  obtain p s n he where p: "j_mptr js = Some p" "int p < j_mend js" "json_skip (j_mem js) p = Some s" "s < n"
    and d: "json_dispatch room js tag s n he permissive = Some (js', tag', 0)"
    using json_next_cases [OF assms] e by (metis prod.inject)
  have ps: "p \<le> s" using json_skip_ge [OF p(3)] by simp
  obtain js1 tag1 where J: "j_mem js1 = j_mem js" "j_mend js1 = j_mend js"
    and c: "(js', tag', 0) = (js1, tag1, exs_JSON_Err_Syntax) \<or> json_key js1 tag1 s n permissive = Some (js', tag', 0) \<or>
     (\<exists>k. json_open room js1 tag1 s k = Some (js', tag', 0)) \<or> (\<exists>k k'. json_close js1 tag1 s k k' = Some (js', tag', 0)) \<or>
     json_value js1 tag1 s n permissive = Some (js', tag', 0)" using json_dispatch_cases [OF d] by metis
  from c consider "json_key js1 tag1 s n permissive = Some (js', tag', 0)" | k where "json_open room js1 tag1 s k = Some (js', tag', 0)"
    | k k' where "json_close js1 tag1 s k k' = Some (js', tag', 0)" | "json_value js1 tag1 s n permissive = Some (js', tag', 0)"
    by auto
  then have "\<exists>q. j_mptr js' = Some q \<and> s < q \<and> j_mend js' = j_mend js1 \<and> j_mem js' = j_mem js1"
  proof cases
    case 1
    then show ?thesis using p(4)
      by (auto simp: json_key_def bind_eq_Some_conv Let_def dest!: json_skip_ge span_end split: if_splits option.splits)
  next
    case 2
    then show ?thesis by (auto simp: json_open_def bind_eq_Some_conv)
  next
    case 3
    then show ?thesis by (auto simp: json_close_def bind_eq_Some_conv Let_def dest!: json_skip_ge split: if_splits)
  next
    case 4
    obtain c1 k q l where k: "rd (j_mem js1) s = Some c1"
      "(if c1 \<noteq> 34 then json_plain (j_mem js1) tag1 s n permissive else json_quoted (j_mem js1) tag1 s n permissive) = Some (tag', Some k)"
      "json_follow (j_mem js1) (j_mstate js1) k = Some (Some q)" "js' = js1\<lparr>j_mstate := l, j_mptr := Some q\<rparr>"
      using json_value_done [OF 4] by blast
    have "s < k" using k(2) p(4)
      by (auto simp: json_plain_def json_quoted_def bind_eq_Some_conv Let_def dest: span_end split: if_splits option.splits)
    then show ?thesis using k(4) json_follow_ge [OF k(3)] by simp
  qed
  then show ?thesis using p ps J by fastforce
qed

definition json_safe :: "xs_json \<Rightarrow> bool" where
  \<comment> \<open>a parser on a terminated text without backslashes\<close>
  "json_safe js \<longleftrightarrow> json_memory (j_mem js) \<and> j_mend js = int (length (j_mem js)) - 1 \<and> (\<exists>st. json_stack (j_mstack js) st) \<and>
     (\<forall>p. j_mptr js = Some p \<longrightarrow> p < length (j_mem js))"

lemma memory_before_end:
  assumes "json_memory m" "i < length m" "m ! i \<noteq> 0"
  shows "Suc i < length m"
proof (rule ccontr)
  assume "\<not> Suc i < length m"
  then have "i = length m - 1" using assms(2) by simp
  then show False using assms(1,3) by (auto simp: json_memory_def nth_append)
qed

lemma memory_skip:
  assumes "json_memory m" "i < length m"
  shows "\<exists>k c. json_skip m i = Some k \<and> i \<le> k \<and> k < length m \<and> rd m k = Some c \<and> (c \<noteq> 0 \<longrightarrow> Suc k < length m)"
  using assms
proof (induction "length m - i" arbitrary: i)
  case (Suc n)
  show ?case
  proof (cases "m ! i \<noteq> 0 \<and> xs_isspace (m ! i)")
    case True
    have lt: "Suc i < length m" using memory_before_end [OF Suc.prems] True by simp
    have "n = length m - Suc i" using Suc.hyps(2) by simp
    from Suc.hyps(1) [OF this Suc.prems(1) lt] obtain k c where k: "json_skip m (Suc i) = Some k" "Suc i \<le> k" "k < length m"
      "rd m k = Some c" "c \<noteq> 0 \<longrightarrow> Suc k < length m" by blast
    have "json_skip m i = Some k" using True Suc.prems(2) k(1) by (subst json_skip.simps) (simp add: mem_simps)
    then show ?thesis using k by (metis Suc_leD)
  next
    case False
    then have "json_skip m i = Some i" using Suc.prems(2) by (subst json_skip.simps) (auto simp: mem_simps)
    then show ?thesis using Suc.prems memory_before_end [OF Suc.prems] by (auto simp: mem_simps)
  qed
qed simp

lemma memory_read_loop:
  assumes "json_memory m" "i < length m"
  shows "\<exists>k f he'. read_string_loop m 34 92 hs i he = Some (k, f, he') \<and> i \<le> k \<and> k < length m"
  using assms
proof (induction "length m - i" arbitrary: i)
  case (Suc n)
  have c: "rd m i = Some (m ! i)" "m ! i \<noteq> 92"
    using Suc.prems nth_mem [of i m] by (simp add: mem_simps, metis json_memory_def)
  show ?case
  proof (cases "m ! i = 0 \<or> m ! i \<noteq> 34 \<and> \<not> hs \<and> (m ! i = 58 \<or> m ! i = 44)")
    case True
    then show ?thesis using c Suc.prems(2) by (subst read_string_loop.simps) auto
  next
    case False
    then have lt: "Suc i < length m" using memory_before_end [OF Suc.prems] by simp
    have "n = length m - Suc i" using Suc.hyps(2) by simp
    from Suc.hyps(1) [OF this Suc.prems(1) lt] obtain k f he' where k: "read_string_loop m 34 92 hs (Suc i) he = Some (k, f, he')"
      "Suc i \<le> k" "k < length m" by blast
    show ?thesis using k c False lt by (subst read_string_loop.simps) auto
  qed
qed simp

lemma memory_read_string:
  assumes "json_memory m" "i < length m"
  shows "\<exists>np he. xs_JSONReadString m i 34 34 92 = Some (np, he) \<and> (\<forall>n. np = Some n \<longrightarrow> n < length m)"
proof -
  obtain k c where k: "json_skip m i = Some k" "k < length m" "rd m k = Some c" "c \<noteq> 0 \<longrightarrow> Suc k < length m"
    using memory_skip [OF assms] by blast
  have "(if c = 34 then k + 1 else k) < length m" using k by auto
  from memory_read_loop [OF assms(1) this, of "c = 34" False] obtain n f he
    where "read_string_loop m 34 92 (c = 34) (if c = 34 then k + 1 else k) False = Some (n, f, he)" "n < length m" by blast
  then show ?thesis using k by (auto simp: xs_JSONReadString_def Let_def)
qed

lemma strncmp_equal_length:
  "strncmp_loop xs_lower a b n = 0 \<Longrightarrow> n = length b \<Longrightarrow> 0 \<notin> set b \<Longrightarrow> 0 \<notin> set a \<Longrightarrow> length b \<le> length a"
proof (induction b arbitrary: a n)
  case (Cons y b)
  have y: "y \<noteq> 0" using Cons.prems by auto
  then have ly: "xs_lower (schar y) \<noteq> xs_lower 0" using lower_byte_zero_iff [of y] by (simp add: xs_lower_def uint32_def)
  show ?case
  proof (cases a)
    case Nil
    then show ?thesis using Cons.prems ly by simp
  next
    case (Cons x a')
    then have "strncmp_loop xs_lower a' b (length b) = 0"
      using Cons.prems(1,2) Cons.prems(4) y by (auto simp: Let_def split: if_splits)
    then show ?thesis using Cons.IH [of a' "length b"] Cons.prems(3,4) Cons by simp
  qed
qed simp

lemma cstr_inside:
  assumes "json_memory m" "s < length m"
  shows "s + length (cstr (drop s m)) < length m"
proof -
  obtain r where r: "m = r @ [0]" using assms(1) by (auto simp: json_memory_def)
  then have "cstr (drop s m) = cstr (drop s r)" "s \<le> length r" using assms(2)
    using takeWhile_tail [of "\<lambda>c. c \<noteq> 0" 0 "drop s r" "[]"] by (auto simp: cstr_def)
  moreover have "length (cstr (drop s r)) \<le> length r - s" unfolding cstr_def by (metis length_drop length_takeWhile_le)
  ultimately show ?thesis using r by simp
qed

lemma json_word_inside:
  assumes "json_memory m" "s < length m" "json_word m s w" "0 \<notin> set (bytes w)"
  shows "s + length w < length m"
proof -
  have "length (bytes w) \<le> length (cstr (drop s m))"
  proof (rule strncmp_equal_length [of _ _ "length w"])
    show "strncmp_loop xs_lower (cstr (drop s m)) (bytes w) (length w) = 0"
      using assms(3) by (simp only: json_word_def xs_strncmp_case_def prod.case option.case)
  qed (simp_all add: assms(4))
  then show ?thesis using cstr_inside [OF assms(1,2)] by simp
qed

lemma span_safe:
  assumes m: "json_memory m" and n: "s < n" "n < length m"
  shows "\<exists>r. json_span m s n permissive = Some r \<and> (\<forall>q l k. r = Some (q, l, k) \<longrightarrow> k < length m)"
proof -
  let ?k = "if m ! (n - 1) \<noteq> 34 then n else n - 1"
  have k: "?k < length m" using n by auto
  have "Suc ?k < length m" if "m ! ?k = 34" using memory_before_end [OF m k] that by simp
  then show ?thesis using n k by (auto simp: json_span_def mem_simps Let_def)
qed

lemma plain_safe:
  assumes m: "json_memory m" and s: "s < length m" "n < length m"
  shows "\<exists>tag' r. json_plain m tag s n permissive = Some (tag', r) \<and> (\<forall>k. r = Some k \<longrightarrow> k < length m)"
proof -
  have w: "json_word m s ''true'' \<Longrightarrow> s + 4 < length m" "json_word m s ''false'' \<Longrightarrow> s + 5 < length m"
    "json_word m s ''null'' \<Longrightarrow> s + 4 < length m"
    using json_word_inside [OF m s(1), of "''true''"] json_word_inside [OF m s(1), of "''false''"]
      json_word_inside [OF m s(1), of "''null''"] by simp_all
  have c: "rd m s = Some (m ! s)" using s(1) by (simp add: mem_simps)
  show ?thesis unfolding json_plain_def c Let_def bind.bind_lunit
    using w s(2) by (simp only: option.inject prod.inject split: if_splits) blast
qed

lemma follow_safe:
  assumes "json_memory m" "k < length m"
  shows "\<exists>r. json_follow m ms k = Some r \<and> (\<forall>q. r = Some q \<longrightarrow> q < length m)"
proof -
  obtain v c where v: "json_skip m k = Some v" "k \<le> v" "v < length m" "rd m v = Some c" "c \<noteq> 0 \<longrightarrow> Suc v < length m"
    using memory_skip [OF assms] by blast
  show ?thesis
  proof (cases "ms \<noteq> 0 \<and> c = 44")
    case True
    then show ?thesis using v by (auto simp: json_follow_def)
  next
    case False
    then show ?thesis using v assms by (auto simp: json_follow_def)
  qed
qed

lemma safe_stack_last: "json_stack ar st \<Longrightarrow> aCount ar \<noteq> 0 \<Longrightarrow> \<exists>l. json_last ar = Some l"
  using last_stack [of ar "butlast st" "last st"] by (cases "st = []") (auto simp: json_stack_def)

lemma safe_move: "json_safe js \<Longrightarrow> q < length (j_mem js) \<Longrightarrow> json_safe (js\<lparr>j_mstate := l, j_mptr := Some q\<rparr>)"
  by (simp add: json_safe_def)

lemma value_safe:
  assumes js: "json_safe js" and s: "s < n" "n < length (j_mem js)"
  shows "\<exists>js' tag' r. json_value js tag s n permissive = Some (js', tag', r) \<and> json_safe js'"
proof (cases "j_mstate js = exs_JSON_ArrayStart \<or> j_mstate js = exs_JSON_Value \<or> j_mstate js = 0 \<and> permissive")
  case False
  then show ?thesis using js by (auto simp: json_value_def)
next
  case st: True
  let ?m = "j_mem js"
  have m: "json_memory ?m" and sl: "s < length ?m" using js s by (simp_all add: json_safe_def)
  obtain c where c: "rd ?m s = Some c" using sl by (auto simp: mem_simps)
  define w where "w = (if c \<noteq> 34 then json_plain ?m tag s n permissive else json_quoted ?m tag s n permissive)"
  obtain r where sp: "json_span ?m s n permissive = Some r" "\<forall>q l k. r = Some (q, l, k) \<longrightarrow> k < length ?m"
    using span_safe [OF m s] by blast
  have "\<exists>tag1 p. json_quoted ?m tag s n permissive = Some (tag1, p) \<and> (\<forall>k. p = Some k \<longrightarrow> k < length ?m)"
    using sp by (auto simp: json_quoted_def split: option.splits)
  then obtain tag1 p where w: "w = Some (tag1, p)" "\<forall>k. p = Some k \<longrightarrow> k < length ?m"
    using plain_safe [OF m sl s(2), of tag permissive] unfolding w_def by (cases "c = 34") auto
  show ?thesis
  proof (cases p)
    case None
    then show ?thesis using st c w js unfolding w_def by (auto simp: json_value_def)
  next
    case (Some k)
    obtain q where q: "json_follow ?m (j_mstate js) k = Some q" "\<forall>i. q = Some i \<longrightarrow> i < length ?m"
      using follow_safe [OF m, of k "j_mstate js"] w(2) Some by blast
    show ?thesis
    proof (cases "q = None \<or> aCount (j_mstack js) = 0")
      case True
      then show ?thesis using st c w(1) js q Some unfolding w_def by (auto simp: json_value_def split: option.splits)
    next
      case False
      then obtain i where i: "q = Some i" "i < length ?m" using q(2) by auto
      obtain stk where "json_stack (j_mstack js) stk" using js by (auto simp: json_safe_def)
      then obtain l where l: "json_last (j_mstack js) = Some l" using safe_stack_last False by blast
      have "json_value js tag s n permissive = Some (js\<lparr>j_mstate := l, j_mptr := Some i\<rparr>, tag1, 0)"
        using st c w(1) q(1) i(1) l False Some unfolding w_def by (auto simp: json_value_def)
      then show ?thesis using safe_move [OF js i(2)] by blast
    qed
  qed
qed

lemma key_safe:
  assumes js: "json_safe js" and s: "s < n" "n < length (j_mem js)"
  shows "\<exists>js' tag' r. json_key js tag s n permissive = Some (js', tag', r) \<and> json_safe js'"
proof -
  let ?m = "j_mem js"
  have m: "json_memory ?m" using js by (simp add: json_safe_def)
  obtain r where sp: "json_span ?m s n permissive = Some r" "\<forall>q l k. r = Some (q, l, k) \<longrightarrow> k < length ?m"
    using span_safe [OF m s] by blast
  show ?thesis
  proof (cases r)
    case None
    then show ?thesis using sp js by (auto simp: json_key_def)
  next
    case (Some z)
    obtain q l k where z: "r = Some (q, l, k)" using Some by (cases z) auto
    then have "k < length ?m" using sp by blast
    then obtain v c where v: "json_skip ?m k = Some v" "v < length ?m" "rd ?m v = Some c" "c \<noteq> 0 \<longrightarrow> Suc v < length ?m"
      using memory_skip [OF m] by blast
    have "json_safe (js\<lparr>j_mstate := exs_JSON_Value\<rparr>)" using js by (simp add: json_safe_def)
    moreover have "json_safe (js\<lparr>j_mstate := exs_JSON_Value, j_mptr := Some (Suc v)\<rparr>)" if "c = 58"
      using safe_move [OF js] v that by simp
    ultimately show ?thesis using sp(1) z v by (cases "c = 58") (auto simp: json_key_def)
  qed
qed

lemma close_safe:
  assumes js: "json_safe js" and s: "Suc s < length (j_mem js)"
  shows "\<exists>js' tag' r. json_close js tag s k k' = Some (js', tag', r) \<and> json_safe js'"
proof -
  let ?m = "j_mem js"
  have m: "json_memory ?m" using js by (simp add: json_safe_def)
  obtain st where st: "json_stack (j_mstack js) st" using js by (auto simp: json_safe_def)
  show ?thesis
  proof (cases st rule: rev_cases)
    case Nil
    then have "xs_arr_pop (j_mstack js) = Some (j_mstack js, None)" using st by (auto simp: json_stack_def xs_arr_pop_def)
    then show ?thesis using js by (auto simp: json_close_def)
  next
    case (snoc st' l)
    obtain ar where ar: "xs_arr_pop (j_mstack js) = Some (ar, Some l)" "json_stack ar st'" using pop_stack st snoc by blast
    have safe: "json_safe (js\<lparr>j_mstack := ar\<rparr>)" using js ar(2) by (auto simp: json_safe_def)
    show ?thesis
    proof (cases "l \<noteq> k \<or> aCount ar = 0")
      case True
      then show ?thesis using ar(1) safe by (auto simp: json_close_def)
    next
      case False
      obtain l' where l': "json_last ar = Some l'" using safe_stack_last ar(2) False by blast
      obtain v c where v: "json_skip ?m (s + 1) = Some v" "v < length ?m" "rd ?m v = Some c" "c \<noteq> 0 \<longrightarrow> Suc v < length ?m"
        using memory_skip [OF m, of "s + 1"] s by auto
      have "json_safe (js\<lparr>j_mstack := ar, j_mstate := l', j_mptr := Some (if c = 44 then v + 1 else v)\<rparr>)"
        using safe_move [OF safe] v by auto
      then show ?thesis using ar(1) False l' v by (auto simp: json_close_def)
    qed
  qed
qed

lemma open_safe:
  assumes js: "json_safe js" and s: "Suc s < length (j_mem js)"
  shows "\<exists>js' tag' r. json_open (\<lambda>_. True) js tag s k = Some (js', tag', r) \<and> json_safe js'"
proof -
  obtain st where "json_stack (j_mstack js) st" using js by (auto simp: json_safe_def)
  then obtain ar where "xs_arr_push (\<lambda>_. True) 0 (j_mstack js) k = Some ar" "json_stack ar (st @ [k])" using push_stack by blast
  then show ?thesis using js s by (auto simp: json_open_def json_safe_def)
qed

lemma if_both: "P x \<Longrightarrow> P y \<Longrightarrow> P (if b then x else y)"
  by simp

lemma dispatch_safe:
  assumes js: "json_safe js" and s: "s < n" "n < length (j_mem js)"
  shows "\<exists>js' tag' r. json_dispatch (\<lambda>_. True) js tag s n he permissive = Some (js', tag', r) \<and> json_safe js'"
proof -
  obtain c where c: "rd (j_mem js) s = Some c" using s by (auto simp: mem_simps)
  let ?js = "if j_mstate js = 0 \<and> permissive \<and> c \<noteq> 123 \<and> c \<noteq> 91 then js\<lparr>j_mstate := exs_JSON_ObjectStart\<rparr> else js"
  let ?tag = "tag\<lparr>t_ptr := None, t_type := 0, t_stype := 0, t_i := 0, t_len := 0, t_has_escape := he\<rparr>"
  have J: "json_safe ?js" "j_mem ?js = j_mem js" using js by (simp_all add: json_safe_def)
  have s': "n < length (j_mem ?js)" "Suc s < length (j_mem ?js)" using s J(2) by simp_all
  show ?thesis
    unfolding json_dispatch_def c Let_def bind.bind_lunit
    by (intro if_both [where P = "\<lambda>x. \<exists>js' tag' r. x = Some (js', tag', r) \<and> json_safe js'"]
        value_safe [OF J(1) s(1) s'(1)] key_safe [OF J(1) s(1) s'(1)] close_safe [OF J(1) s'(2)] open_safe [OF J(1) s'(2)])
      (use J(1) in blast)
qed

lemma read_to_end:
  assumes "drop i m = s @ [0]" "\<forall>c\<in>set s. c \<notin> {0, 34, 44, 58, 92}"
  shows "read_string_loop m 34 92 False i he = Some (i + length s, False, he)"
  using assms
proof (induction s arbitrary: i)
  case Nil
  then show ?case by (subst read_string_loop.simps) (auto dest: rd_drop)
next
  case (Cons c s)
  have c: "rd m i = Some c" "drop (Suc i) m = s @ [0]" using Cons.prems(1) drop_Cons_Suc [of i m c] rd_drop [of i m c] by auto
  have "c \<notin> {0, 34, 44, 58, 92}" "\<forall>c\<in>set s. c \<notin> {0, 34, 44, 58, 92}" using Cons.prems(2) by auto
  then show ?case using c Cons.IH [OF c(2)] by (subst read_string_loop.simps) simp
qed

definition digit_byte :: "byte \<Rightarrow> bool" where
  "digit_byte c \<longleftrightarrow> 48 \<le> schar c \<and> schar c \<le> 57"

lemma digit_byte_facts:
  assumes "digit_byte c"
  shows "c \<notin> {0, 34, 44, 58, 91, 92, 93, 123, 125}" "\<not> xs_isspace c" "xs_lower (schar c) \<notin> {116, 102, 110}"
  using assms by (auto simp: digit_byte_def xs_isspace_def xs_lower_def uint32_def)

lemma step_last_number:
  assumes m: "json_memory m" and a: "json_at m (ds @ [93, 0]) exs_JSON_ArrayStart st js" and ds: "ds \<noteq> []" "\<forall>c\<in>set ds. digit_byte c"
  shows "\<exists>tag'. xs_json_next (\<lambda>_. True) js tag False = Some (js, tag', exs_JSON_Err_Syntax)"
proof -
  obtain c cs where c: "ds = c # cs" using ds(1) by (cases ds) auto
  have dc: "digit_byte c" using ds(2) c by simp
  note D = digit_byte_facts [OF dc]
  have a': "json_at m (c # (cs @ [93, 0])) exs_JSON_ArrayStart st js" using a c by simp
  obtain p where p: "j_mptr js = Some p" "drop p m = c # cs @ [93, 0]" "rd m p = Some c" using json_at_pointer [OF a'] by metis
  have "drop p m = (c # cs @ [93]) @ [0]" using p(2) by simp
  moreover have "\<forall>x\<in>set (c # cs @ [93]). x \<notin> {0, 34, 44, 58, 92}" using ds(2) c digit_byte_facts(1) by fastforce
  ultimately have "read_string_loop m 34 92 False p False = Some (p + length (c # cs @ [93]), False, False)" by (rule read_to_end)
  then have r: "xs_JSONReadString m p 34 34 92 = Some (Some (p + length cs + 2), False)" "p < p + length cs + 2"
    using json_skip_at [OF p(2) D(2)] p(3) D(1) by (simp_all add: xs_JSONReadString_def)
  have e: "drop (p + length cs + 2) m = 0 # []" using drop_app [of p m "c # cs @ [93]" "[0]"] p(2) by simp
  have follow: "json_follow m exs_JSON_ArrayStart (p + length cs + 2) = Some None"
    using json_skip_at [OF e] rd_drop [OF e] by (simp add: json_follow_def xs_isspace_def)
  have A: "j_mem js = m" "j_mstate js = exs_JSON_ArrayStart" using a by (simp_all add: json_at_def)
  let ?tag = "tag\<lparr>t_ptr := None, t_type := 0, t_stype := 0, t_i := 0, t_len := 0, t_has_escape := False\<rparr>"
  obtain tag1 where "json_plain m ?tag p (p + length cs + 2) False = Some (tag1, Some (p + length cs + 2))"
    using p(3) D(3) by (simp add: json_plain_def Let_def)
  then have "json_value js ?tag p (p + length cs + 2) False = Some (js, tag1, exs_JSON_Err_Syntax)"
    using A p(3) D(1) follow by (simp add: json_value_def)
  moreover have "xs_json_next (\<lambda>_. True) js tag False = json_value js ?tag p (p + length cs + 2) False"
    using json_next_start [OF a' _ D(2) _ p(1) r, of tag] D(1) by (simp add: Let_def)
  ultimately show ?thesis by auto
qed

lemma unescape_u:
  assumes "92 \<notin> set s" "0 \<notin> set s" "i + length s + 5 \<le> e" "e \<le> length src" "drop i src = s @ 92 # 117 # r" "length out + length s \<le> length dst"
  shows "\<exists>d. json_unescape_loop src i e dst out = Some (d, exs_JSON_Err_Syntax)"
  using assms
proof (induction s arbitrary: i dst out)
  case Nil
  have 1: "rd src i = Some 92" "rd src (Suc i) = Some 117"
    using Nil.prems(5) rd_drop [of i src 92] rd_drop [of "Suc i" src 117 r] drop_Cons_Suc [of i src 92] by auto
  have "Suc i < length src" "src ! Suc i = 117" using 1(2) by (auto simp: rd_def split: if_splits)
  then have "take 4 (drop (Suc i) src) ! 0 = 117" by simp
  moreover have "xs_fromhex 117 < 0" by (simp add: xs_fromhex_def)
  ultimately show ?case using 1 Nil.prems(3,4) by (subst json_unescape_loop.simps) (simp add: mem_simps)
next
  case (Cons c s)
  have c: "rd src i = Some c" "drop (Suc i) src = s @ 92 # 117 # r"
    using Cons.prems(5) rd_drop [of i src c] drop_Cons_Suc [of i src c] by auto
  have "\<exists>d. json_unescape_loop src (Suc i) e (dst[length out := c]) (out @ [c]) = Some (d, exs_JSON_Err_Syntax)"
    using Cons.prems c(2) by (intro Cons.IH) auto
  then show ?case using Cons.prems c by (subst json_unescape_loop.simps) (simp add: mem_simps)
qed

subsection \<open>Properties\<close>

text \<open>C8: tokens of printed text. For an object or an array of strings without escapes, booleans, nulls, objects
  and arrays, \<open>xs_json_next\<close> called on its text returns exactly its tokens, in order, with the texts of keys and
  strings, and then \<open>exs_JSON_EndOfFile\<close>.\<close>

theorem xs_json_next_tokens:
  assumes "json_container v" "json_ok v"
  shows "\<exists>js js'. xs_json_create (\<lambda>_. True) (json_text v @ [0]) (Some 0) (int (length (json_text v))) = Some js \<and>
    json_reads js (json_tokens v) js' \<and> (\<forall>tag. xs_json_next (\<lambda>_. True) js' tag False = Some (js', tag, exs_JSON_EndOfFile))"
proof -
  let ?t = "json_text v"
  have m: "json_memory (?t @ [0])" using json_text_plain [OF assms(2)] by (auto simp: json_memory_def)
  have "?t \<noteq> []" using assms(1) by (cases v) (simp_all add: json_container_def)
  then obtain js where js: "xs_json_create (\<lambda>_. True) (?t @ [0]) (Some 0) (int (length ?t)) = Some js"
    "json_at (?t @ [0]) (?t @ [0]) 0 [- 1] js" using create_at by blast
  have "json_at (?t @ [0]) (?t @ 0 # []) 0 ([] @ [- 1]) js" using js(2) by simp
  then have "\<exists>js'. json_reads js (json_tokens v) js' \<and> json_at (?t @ [0]) (after_comma [0]) (- 1) ([] @ [- 1]) js'"
    by (rule value_reads_all [OF m assms(2), unfolded value_reads_def, rule_format]) (simp_all add: assms(1) xs_isspace_def)
  then obtain js' where r: "json_reads js (json_tokens v) js'" "json_at (?t @ [0]) (after_comma [0]) (- 1) ([] @ [- 1]) js'"
    by blast
  obtain p where p: "j_mptr js' = Some p" "drop p (?t @ [0]) = [0]" "p < Suc (length ?t)" "j_mend js' = int (length ?t)"
    "json_stack (j_mstack js') [- 1]" using r(2) by (auto simp: json_at_def after_comma_def)
  have "length (drop p (?t @ [0])) = 1" unfolding p(2) by simp
  then have "p = length ?t" using p(3) by simp
  moreover have "aCount (j_mstack js') = 1" using p(5) by (auto simp: json_stack_def)
  ultimately have "\<forall>tag. xs_json_next (\<lambda>_. True) js' tag False = Some (js', tag, exs_JSON_EndOfFile)"
    using p by (simp add: xs_json_next_def json_end_def)
  then show ?thesis using js(1) r(1) by blast
qed

theorem xs_json_next_tokens_witness:
  "\<exists>js js'. xs_json_create (\<lambda>_. True) (bytes ''{'' @ [34, 97, 34] @ bytes '':[true,null]}'' @ [0]) (Some 0) 17 = Some js \<and>
    json_reads js [Tok_object, Tok_key [97], Tok_array, Tok_bool True, Tok_null, Tok_array_end, Tok_object_end] js'"
proof -
  let ?v = "JObj [([97], JArr [JBool True, JNull])]"
  have "json_container ?v" "json_ok ?v" by (simp_all add: json_container_def json_chars_def)
  moreover have "json_text ?v @ [0] = bytes ''{'' @ [34, 97, 34] @ bytes '':[true,null]}'' @ [0]" "int (length (json_text ?v)) = 17"
    "json_tokens ?v = [Tok_object, Tok_key [97], Tok_array, Tok_bool True, Tok_null, Tok_array_end, Tok_object_end]" by simp_all
  ultimately show ?thesis using xs_json_next_tokens [of ?v] by metis
qed



text \<open>C19: memory safety. On a terminated text without backslashes, whatever else it contains, \<open>xs_json_next\<close> never
  reads outside the text, at any point of the parse, in either mode, and also after errors.\<close>

theorem xs_json_next_in_bounds:
  assumes "json_safe js"
  shows "\<exists>js' tag' r. xs_json_next (\<lambda>_. True) js tag permissive = Some (js', tag', r) \<and> json_safe js'"
proof (cases "\<exists>p. j_mptr js = Some p \<and> int p < j_mend js")
  case False
  then show ?thesis using assms by (auto simp: xs_json_next_def split: option.splits)
next
  case True
  then obtain p where p: "j_mptr js = Some p" "int p < j_mend js" by blast
  have m: "json_memory (j_mem js)" "p < length (j_mem js)" using assms p(1) by (auto simp: json_safe_def)
  obtain s where s: "json_skip (j_mem js) p = Some s" "s < length (j_mem js)" using memory_skip [OF m] by blast
  obtain np he where r: "xs_JSONReadString (j_mem js) s 34 34 92 = Some (np, he)" "\<forall>n. np = Some n \<longrightarrow> n < length (j_mem js)"
    using memory_read_string [OF m(1) s(2)] by blast
  show ?thesis
  proof (cases "\<exists>n. np = Some n \<and> s < n")
    case True
    then obtain n where n: "np = Some n" "s < n" by blast
    then show ?thesis using p s r dispatch_safe [OF assms n(2), of tag he permissive] by (auto simp: xs_json_next_def)
  next
    case False
    then show ?thesis using assms p s r by (auto simp: xs_json_next_def split: option.splits)
  qed
qed

theorem xs_json_next_in_bounds_witness:
  "\<exists>js js' tag tag' r. xs_json_create (\<lambda>_. True) (bytes ''{]'' @ [0]) (Some 0) 2 = Some js \<and>
    xs_json_next (\<lambda>_. True) js tag True = Some (js', tag', r) \<and> json_safe js'"
proof -
  obtain js where js: "xs_json_create (\<lambda>_. True) (bytes ''{]'' @ [0]) (Some 0) 2 = Some js" "json_at (bytes ''{]'' @ [0]) (bytes ''{]'' @ [0]) 0 [- 1] js"
    using create_at [of "bytes ''{]''"] by auto
  have "json_memory (bytes ''{]'' @ [0])" by (simp add: json_memory_def)
  then have "json_safe js" using js(2) unfolding json_at_def json_safe_def by auto
  from xs_json_next_in_bounds [OF this, of tag True] show ?thesis using js(1) by blast
qed

text \<open>Numbers. A number that is the last element of an array is reported as a syntax error: \<open>xs_json_next\<close>
  does not measure it, and looks for the comma or the bracket behind the end of the text.\<close>

theorem xs_json_next_rejects_last_number:
  assumes "ds \<noteq> []" "\<forall>c\<in>set ds. digit_byte c"
  shows "\<exists>js js1 tag' tag''. xs_json_create (\<lambda>_. True) (91 # ds @ [93, 0]) (Some 0) (int (length ds + 2)) = Some js \<and>
    xs_json_next (\<lambda>_. True) js tag False = Some (js1, tag', 0) \<and>
    xs_json_next (\<lambda>_. True) js1 tag' False = Some (js1, tag'', exs_JSON_Err_Syntax)"
proof -
  let ?s = "91 # ds @ [93]"
  have m: "json_memory (?s @ [0])" using assms(2) digit_byte_facts(1) by (fastforce simp: json_memory_def)
  obtain js where js: "xs_json_create (\<lambda>_. True) (?s @ [0]) (Some 0) (int (length ?s)) = Some js" "json_at (?s @ [0]) (?s @ [0]) 0 [- 1] js"
    using create_at [of ?s] by blast
  have a: "json_at (?s @ [0]) (91 # (ds @ [93, 0])) 0 [- 1] js" using js(2) by simp
  obtain js1 where 1: "\<forall>tag. \<exists>tag'. xs_json_next (\<lambda>_. True) js tag False = Some (js1, tag', 0) \<and> json_token (?s @ [0]) tag' = Some Tok_array"
    "json_at (?s @ [0]) (ds @ [93, 0]) exs_JSON_ArrayStart ([- 1] @ [exs_JSON_ArrayStart]) js1" using step_open [OF m a] by auto
  obtain tag' where 2: "xs_json_next (\<lambda>_. True) js tag False = Some (js1, tag', 0)" using 1(1) by blast
  obtain tag'' where 3: "xs_json_next (\<lambda>_. True) js1 tag' False = Some (js1, tag'', exs_JSON_Err_Syntax)"
    using step_last_number [OF m 1(2) assms] by blast
  show ?thesis using js(1) 2 3 by auto
qed

theorem xs_json_next_rejects_last_number_witness:
  "\<exists>js js1 tag tag' tag''. xs_json_create (\<lambda>_. True) (91 # [49, 50] @ [93, 0]) (Some 0) 4 = Some js \<and>
    xs_json_next (\<lambda>_. True) js tag False = Some (js1, tag', 0) \<and>
    xs_json_next (\<lambda>_. True) js1 tag' False = Some (js1, tag'', exs_JSON_Err_Syntax)"
  using xs_json_next_rejects_last_number [of "[49, 50]"] by (simp add: digit_byte_def) blast

text \<open>Unicode escapes. The first escape of the form backslash, u and four digits makes \<open>xs_json_unescape\<close> fail, whatever digits follow:
  it reads the first digit at the letter \<open>u\<close> itself.\<close>

theorem xs_json_unescape_rejects_unicode:
  assumes "92 \<notin> set s" "0 \<notin> set s" "length s + 5 \<le> min (length dst) (length (s @ 92 # 117 # r))"
  shows "\<exists>d. xs_json_unescape dst (s @ 92 # 117 # r) = Some (d, exs_JSON_Err_Syntax)"
proof -
  have "s @ 92 # 117 # r \<noteq> []" "dst \<noteq> []" using assms(3) by auto
  then show ?thesis using assms unescape_u [of s 0 "min (length (s @ 92 # 117 # r)) (length dst)" "s @ 92 # 117 # r" r "[]" dst]
    by (simp add: xs_json_unescape_def min.commute)
qed

theorem xs_json_unescape_rejects_unicode_witness:
  "\<exists>d. xs_json_unescape (replicate 20 0) (bytes ''ab'' @ 92 # 117 # bytes ''0041'') = Some (d, exs_JSON_Err_Syntax)"
  using xs_json_unescape_rejects_unicode [of "bytes ''ab''" "replicate 20 0" "bytes ''0041''"] by simp

text \<open>An unfinished escape. A string that ends in a backslash makes \<open>xs_json_next\<close> read behind the text.\<close>

theorem xs_json_next_overreads:
  "(case xs_json_create (\<lambda>_. True) [91, 34, 92, 0] (Some 0) 3 of None \<Rightarrow> False | Some js \<Rightarrow>
     (case xs_json_next (\<lambda>_. True) js \<lparr>t_type = 0, t_stype = 0, t_has_escape = False, t_ptr = None, t_len = 0, t_i = 0\<rparr> False of
        None \<Rightarrow> False
      | Some (js1, tag1, r) \<Rightarrow> r = 0 \<and> xs_json_next (\<lambda>_. True) js1 tag1 False = None))"
  by code_simp

end
