(* ===== verification/Pollfd.thy ===== *)
theory Pollfd
  imports Prelude "HOL-Library.Sublist"
begin

text \<open>
  The poll set of \<open>xs/xs_socket.h\<close> (the build over \<open>poll\<close>): the parallel arrays of descriptors and sockets, the map from
  tokens to positions with its list of free tokens, and one round of the polling thread.

  A handler is a function of its own state and of the poll set; it changes the set only through the functions for
  callbacks (\<open>poll_cmd\<close>). What \<open>accept\<close> returns is an environment. The queue of new sockets is a list: with one thread
  taking from it, \<open>Queue\<close> shows that the ring behaves like one. An \<open>assert\<close> that fails is \<open>None\<close>, as an access outside an array is.
\<close>

subsection \<open>The poll set\<close>

abbreviation (input) POLLIN :: int where "POLLIN \<equiv> 1"
abbreviation (input) POLLOUT :: int where "POLLOUT \<equiv> 4"
abbreviation (input) POLLERR :: int where "POLLERR \<equiv> 8"
abbreviation (input) POLLHUP :: int where "POLLHUP \<equiv> 16"
abbreviation (input) POLLNVAL :: int where "POLLNVAL \<equiv> 32"

record pollfd =
  fd :: int
  events :: int
  revents :: int

record xs_socket =
  sid :: nat
  sa :: nat
  cfd :: nat

record xs_queuesock =
  qs_s :: int
  qs_listener :: bool
  qs_sa :: nat
  qs_userdata :: nat

record xs_pollfd =
  xp_running :: int
  listenCount :: nat
  freesid :: int
  sidmap :: "int list"
  pfd :: "pollfd list"
  pss :: "xs_socket list"
  pfdCount :: nat
  pfdTotal :: nat
  pfdMax :: nat

definition xs_pollfd_Init :: "nat \<Rightarrow> xs_pollfd" where
  "xs_pollfd_Init space =
     \<lparr>xp_running = 0, listenCount = 0, freesid = - 1, sidmap = replicate space 0,
      pfd = replicate space \<lparr>fd = 0, events = 0, revents = 0\<rparr>, pss = replicate space \<lparr>sid = 0, sa = 0, cfd = 0\<rparr>,
      pfdCount = 0, pfdTotal = space, pfdMax = 0\<rparr>"

definition xs_pollfd_setrunning :: "xs_pollfd \<Rightarrow> int \<Rightarrow> xs_pollfd" where
  "xs_pollfd_setrunning xp newstate = (if xp_running xp \<ge> 0 then xp\<lparr>xp_running := newstate\<rparr> else xp)"

subsection \<open>Tokens\<close>

definition xptok_ind :: "xs_pollfd \<Rightarrow> int \<Rightarrow> int option" where
  "xptok_ind xp xptoken =
     (if xptoken < 0 \<or> xptoken \<ge> int (pfdTotal xp) then Some (- 1)
      else do {
        t \<leftarrow> rd (sidmap xp) (nat xptoken);
        Some (if t < 0 \<or> t \<ge> int (pfdCount xp) then - 1 else t) })"

definition upd_pfd :: "xs_pollfd \<Rightarrow> nat \<Rightarrow> (pollfd \<Rightarrow> pollfd) \<Rightarrow> xs_pollfd option" where
  "upd_pfd xp i f = do { p \<leftarrow> rd (pfd xp) i; ps \<leftarrow> wr (pfd xp) i (f p); Some (xp\<lparr>pfd := ps\<rparr>) }"

definition upd_pss :: "xs_pollfd \<Rightarrow> nat \<Rightarrow> (xs_socket \<Rightarrow> xs_socket) \<Rightarrow> xs_pollfd option" where
  "upd_pss xp i f = do { p \<leftarrow> rd (pss xp) i; ps \<leftarrow> wr (pss xp) i (f p); Some (xp\<lparr>pss := ps\<rparr>) }"

definition xs_pollfd_clear :: "xs_pollfd \<Rightarrow> int \<Rightarrow> (xs_pollfd \<times> int) option" where
  "xs_pollfd_clear xp xptoken = do {
     i \<leftarrow> xptok_ind xp xptoken;
     if i < 0 then Some (xp, - 50)
     else do {
       x1 \<leftarrow> upd_pfd xp (nat i) (\<lambda>p. p\<lparr>fd := 0\<rparr>);
       x2 \<leftarrow> upd_pss x1 (nat i) (\<lambda>p. p\<lparr>cfd := 0\<rparr>);
       Some (x2, 0) } }"

definition xs_pollfd_setsocket_userdata :: "xs_pollfd \<Rightarrow> int \<Rightarrow> nat \<Rightarrow> (xs_pollfd \<times> int) option" where
  "xs_pollfd_setsocket_userdata xp xptoken data = do {
     i \<leftarrow> xptok_ind xp xptoken;
     if i < 0 then Some (xp, - 50)
     else do { x1 \<leftarrow> upd_pss xp (nat i) (\<lambda>p. p\<lparr>cfd := data\<rparr>); Some (x1, 0) } }"

definition xs_pollfd_getsocket_userdata :: "xs_pollfd \<Rightarrow> int \<Rightarrow> nat option" where
  "xs_pollfd_getsocket_userdata xp xptoken = do {
     i \<leftarrow> xptok_ind xp xptoken;
     if i < 0 then Some 0 else do { p \<leftarrow> rd (pss xp) (nat i); Some (cfd p) } }"

definition xs_pollfd_setsocket_events :: "xs_pollfd \<Rightarrow> int \<Rightarrow> int \<Rightarrow> (xs_pollfd \<times> int) option" where
  "xs_pollfd_setsocket_events xp xptoken ev = do {
     i \<leftarrow> xptok_ind xp xptoken;
     if i < 0 then Some (xp, - 50)
     else do { x1 \<leftarrow> upd_pfd xp (nat i) (\<lambda>p. p\<lparr>events := ev\<rparr>); Some (x1, 0) } }"

definition xs_pollfd_getsocket_addr :: "xs_pollfd \<Rightarrow> int \<Rightarrow> nat option option" where
  \<comment> \<open>the address of the socket, or NULL\<close>
  "xs_pollfd_getsocket_addr xp xptoken = do {
     i \<leftarrow> xptok_ind xp xptoken;
     if i < 0 then Some None else do { p \<leftarrow> rd (pss xp) (nat i); Some (Some (sa p)) } }"

subsection \<open>Handlers\<close>

datatype poll_msg = exs_pollfd_New | exs_pollfd_Delete | exs_pollfd_Read | exs_pollfd_Write | exs_pollfd_Idle | exs_pollfd_Error

datatype poll_cmd = Clear int | Set_userdata int nat | Set_events int int | Stop

primrec poll_do :: "poll_cmd \<Rightarrow> xs_pollfd \<Rightarrow> xs_pollfd option" where
  "poll_do (Clear t) xp = map_option fst (xs_pollfd_clear xp t)"
| "poll_do (Set_userdata t d) xp = map_option fst (xs_pollfd_setsocket_userdata xp t d)"
| "poll_do (Set_events t e) xp = map_option fst (xs_pollfd_setsocket_events xp t e)"
| "poll_do Stop xp = Some (xp\<lparr>xp_running := - 2\<rparr>)"

primrec poll_dos :: "poll_cmd list \<Rightarrow> xs_pollfd \<Rightarrow> xs_pollfd option" where
  "poll_dos [] xp = Some xp"
| "poll_dos (c # cs) xp = do { x1 \<leftarrow> poll_do c xp; poll_dos cs x1 }"

type_synonym 'c handler = "'c \<Rightarrow> xs_pollfd \<Rightarrow> poll_msg \<Rightarrow> int \<Rightarrow> int \<Rightarrow> nat \<Rightarrow> 'c \<times> poll_cmd list"

definition poll_call :: "'c handler \<Rightarrow> 'c \<Rightarrow> xs_pollfd \<Rightarrow> poll_msg \<Rightarrow> int \<Rightarrow> int \<Rightarrow> nat \<Rightarrow> ('c \<times> xs_pollfd) option" where
  \<comment> \<open>a callback, between two changes of the thread's state\<close>
  "poll_call proc c xp msg sock token data =
     (let (c1, cmds) = proc c (xs_pollfd_setrunning xp 3) msg sock token data in do {
        x1 \<leftarrow> poll_dos cmds (xs_pollfd_setrunning xp 3);
        Some (c1, x1) })"

subsection \<open>Adding a socket\<close>

definition newtoken :: "xs_pollfd \<Rightarrow> nat \<Rightarrow> xs_pollfd option" where
  \<comment> \<open>a token for the entry \<open>i\<close>: the number of the entry while no token is free\<close>
  "newtoken xp i =
     (if freesid xp < 0 then
        if i \<ge> pfdTotal xp then None
        else do { m \<leftarrow> wr (sidmap xp) i (int i);
                  upd_pss (xp\<lparr>sidmap := m, pfdMax := pfdMax xp + 1\<rparr>) i (\<lambda>p. p\<lparr>sid := i\<rparr>) }
      else
        let fi = nat (freesid xp) in
        if fi \<ge> pfdTotal xp then None
        else do { nxt \<leftarrow> rd (sidmap xp) fi; m \<leftarrow> wr (sidmap xp) fi (int i);
                  upd_pss (xp\<lparr>freesid := nxt, sidmap := m, pfdMax := pfdMax xp + 1\<rparr>) i (\<lambda>p. p\<lparr>sid := fi\<rparr>) })"

definition xs_pollfd_internaladd :: "'c handler \<Rightarrow> 'c \<Rightarrow> xs_pollfd \<Rightarrow> xs_queuesock \<Rightarrow> ('c \<times> xs_pollfd) option" where
  "xs_pollfd_internaladd proc c xp qs = do {
     (i, x0) \<leftarrow> (if qs_listener qs
                  then do { p \<leftarrow> rd (pfd xp) (pfdMax xp); ps \<leftarrow> wr (pfd xp) (listenCount xp) p;
                            Some (listenCount xp, xp\<lparr>listenCount := listenCount xp + 1, pfd := ps\<rparr>) }
                  else Some (pfdMax xp, xp));
     let x1 = x0\<lparr>pfdCount := pfdCount x0 + 1\<rparr>;
     x2 \<leftarrow> newtoken x1 i;
     x3 \<leftarrow> upd_pfd x2 i (\<lambda>p. p\<lparr>events := POLLIN, fd := qs_s qs\<rparr>);
     x4 \<leftarrow> upd_pss x3 i (\<lambda>p. p\<lparr>sa := qs_sa qs, cfd := 0\<rparr>);
     p \<leftarrow> rd (pss x4) i;
     (c1, x5) \<leftarrow> poll_call proc c x4 exs_pollfd_New (qs_s qs) (int (sid p)) (qs_userdata qs);
     x6 \<leftarrow> (if qs_listener qs then upd_pss x5 i (\<lambda>p. p\<lparr>cfd := qs_userdata qs\<rparr>) else Some x5);
     Some (c1, xs_pollfd_setrunning x6 1) }"

primrec take_new :: "'c handler \<Rightarrow> xs_queuesock list \<Rightarrow> 'c \<Rightarrow> xs_pollfd \<Rightarrow> ('c \<times> xs_pollfd \<times> xs_queuesock list) option" where
  \<comment> \<open>sockets from the queue, while there is room\<close>
  "take_new proc [] c xp = Some (c, xp, [])"
| "take_new proc (q # qs) c xp =
     (if pfdCount xp < pfdTotal xp
      then do { (c1, x1) \<leftarrow> xs_pollfd_internaladd proc c xp q; take_new proc qs c1 x1 }
      else Some (c, xp, q # qs))"

subsection \<open>A round of the polling thread\<close>

record 'c poll_state =
  ps_user :: 'c
  ps_xp :: xs_pollfd
  ps_accept :: "(int \<times> nat) list"
  ps_queue :: "xs_queuesock list"
  ps_closed :: "int list"

definition poll_failed :: "'c handler \<Rightarrow> 'c \<Rightarrow> xs_pollfd \<Rightarrow> nat \<Rightarrow> pollfd \<Rightarrow> xs_socket \<Rightarrow> ('c \<times> xs_pollfd) option" where
  "poll_failed proc c xp i p s = do {
     (c1, x1) \<leftarrow> poll_call proc c xp (if revents p AND (POLLERR OR POLLNVAL) \<noteq> 0 then exs_pollfd_Error else exs_pollfd_Delete)
                    (fd p) (int (sid s)) (cfd s);
     x2 \<leftarrow> (if i < listenCount x1 then do {
               y1 \<leftarrow> upd_pfd x1 i (\<lambda>p. p\<lparr>fd := 0\<rparr>);
               y2 \<leftarrow> upd_pss y1 i (\<lambda>p. p\<lparr>cfd := 0\<rparr>);
               Some (y2\<lparr>listenCount := listenCount y2 - 1\<rparr>) }
             else Some x1);
     Some (c1, xs_pollfd_setrunning x2 1) }"

definition poll_event :: "'c handler \<Rightarrow> 'c \<Rightarrow> xs_pollfd \<Rightarrow> bool \<Rightarrow> poll_msg \<Rightarrow> nat \<Rightarrow> int \<Rightarrow> ('c \<times> xs_pollfd) option" where
  \<comment> \<open>the callback for one event, if it is set\<close>
  "poll_event proc c xp flag msg i sock =
     (if flag then do {
        s \<leftarrow> rd (pss xp) i;
        (c1, x1) \<leftarrow> poll_call proc c xp msg sock (int (sid s)) (cfd s);
        Some (c1, xs_pollfd_setrunning x1 1) }
      else Some (c, xp))"

definition poll_serve :: "'c handler \<Rightarrow> 'c poll_state \<Rightarrow> nat \<Rightarrow> 'c poll_state option" where
  \<comment> \<open>what one entry of the array asks for\<close>
  "poll_serve proc st i = do {
     let xp = ps_xp st;
     p \<leftarrow> rd (pfd xp) i;
     s \<leftarrow> rd (pss xp) i;
     back \<leftarrow> rd (sidmap xp) (sid s);
     if back \<noteq> 0 \<and> back \<noteq> int i then None
     else if fd p \<le> 0 \<or> revents p AND (POLLERR OR POLLHUP OR POLLNVAL) \<noteq> 0 then do {
       (c1, x1) \<leftarrow> poll_failed proc (ps_user st) xp i p s;
       Some (st\<lparr>ps_user := c1, ps_xp := x1, ps_closed := ps_closed st @ (if i < listenCount xp \<and> 0 < fd p then [fd p] else [])\<rparr>) }
     else if i < listenCount xp \<and> revents p AND POLLIN \<noteq> 0 then
       (case ps_accept st of
          [] \<Rightarrow> Some st
        | (n, addr) # ns \<Rightarrow>
            if xp_running xp \<le> 0 then Some st
            else if n > 0 then do {
              x1 \<leftarrow> upd_pss xp i (\<lambda>s. s\<lparr>sa := addr\<rparr>);
              Some (st\<lparr>ps_xp := x1, ps_accept := ns,
                 ps_queue := ps_queue st @ [\<lparr>qs_s = n, qs_listener = False, qs_sa = addr, qs_userdata = cfd s\<rparr>]\<rparr>) }
            else Some (st\<lparr>ps_accept := ns\<rparr>))
     else do {
       (c1, x1) \<leftarrow> poll_event proc (ps_user st) xp (revents p AND POLLIN \<noteq> 0) exs_pollfd_Read i (fd p);
       (c2, x2) \<leftarrow> poll_event proc c1 x1 (revents p AND POLLOUT \<noteq> 0) exs_pollfd_Write i (fd p);
       Some (st\<lparr>ps_user := c2, ps_xp := x2\<rparr>) } }"

definition poll_keep :: "xs_pollfd \<Rightarrow> nat \<Rightarrow> nat \<Rightarrow> (xs_pollfd \<times> nat) option" where
  \<comment> \<open>the entry moves to \<open>ip\<close>, or its token becomes free\<close>
  "poll_keep xp i ip = do {
     p \<leftarrow> rd (pfd xp) i;
     ps \<leftarrow> wr (pfd xp) ip p;
     s \<leftarrow> rd (pss xp) i;
     ss \<leftarrow> wr (pss xp) ip s;
     if sid s \<ge> pfdTotal xp then None
     else if fd p \<le> 0
     then do { m \<leftarrow> wr (sidmap xp) (sid s) (freesid xp); Some (xp\<lparr>pfd := ps, pss := ss, sidmap := m, freesid := int (sid s)\<rparr>, ip) }
     else do { m \<leftarrow> wr (sidmap xp) (sid s) (int ip); Some (xp\<lparr>pfd := ps, pss := ss, sidmap := m\<rparr>, ip + 1) } }"

subsection \<open>Lemmas: what callbacks leave alone\<close>

lemma setrunning_fields [simp]:
  "listenCount (xs_pollfd_setrunning xp n) = listenCount xp" "freesid (xs_pollfd_setrunning xp n) = freesid xp"
  "sidmap (xs_pollfd_setrunning xp n) = sidmap xp" "pfd (xs_pollfd_setrunning xp n) = pfd xp"
  "pss (xs_pollfd_setrunning xp n) = pss xp" "pfdCount (xs_pollfd_setrunning xp n) = pfdCount xp"
  "pfdTotal (xs_pollfd_setrunning xp n) = pfdTotal xp" "pfdMax (xs_pollfd_setrunning xp n) = pfdMax xp"
  by (simp_all add: xs_pollfd_setrunning_def)

definition tokens_kept :: "xs_pollfd \<Rightarrow> xs_pollfd \<Rightarrow> bool" where
  \<comment> \<open>the tokens, the counts and the sizes are the same; descriptors and user data may differ\<close>
  "tokens_kept xp xp' \<longleftrightarrow> listenCount xp' = listenCount xp \<and> freesid xp' = freesid xp \<and> sidmap xp' = sidmap xp \<and>
     pfdCount xp' = pfdCount xp \<and> pfdTotal xp' = pfdTotal xp \<and> pfdMax xp' = pfdMax xp \<and>
     length (pfd xp') = length (pfd xp) \<and> map sid (pss xp') = map sid (pss xp)"

lemma tokens_kept_refl [simp]: "tokens_kept xp xp"
  by (simp add: tokens_kept_def)

lemma tokens_kept_trans [trans]: "tokens_kept x y \<Longrightarrow> tokens_kept y z \<Longrightarrow> tokens_kept x z"
  by (simp add: tokens_kept_def)

lemma tokens_kept_setrunning [simp]: "tokens_kept xp (xs_pollfd_setrunning xp' n) = tokens_kept xp xp'"
  "tokens_kept (xs_pollfd_setrunning xp n) xp' = tokens_kept xp xp'"
  by (simp_all add: tokens_kept_def)

lemma upd_pfd_kept: "upd_pfd xp i f = Some xp' \<Longrightarrow> tokens_kept xp xp'"
  by (auto simp: upd_pfd_def tokens_kept_def wr_def bind_eq_Some_conv split: if_splits)

lemma upd_pss_kept: "upd_pss xp i f = Some xp' \<Longrightarrow> (\<And>s. sid (f s) = sid s) \<Longrightarrow> tokens_kept xp xp'"
  by (auto simp: upd_pss_def tokens_kept_def wr_def rd_def bind_eq_Some_conv map_update list_update_id nth_map split: if_splits)
    (metis list_update_id nth_map)+

lemma poll_do_kept: "poll_do c xp = Some xp' \<Longrightarrow> tokens_kept xp xp'"
proof (cases c)
  case (Clear t)
  assume "poll_do c xp = Some xp'"
  then show ?thesis using Clear
    by (auto simp: xs_pollfd_clear_def bind_eq_Some_conv split: if_splits dest!: upd_pfd_kept upd_pss_kept intro: tokens_kept_trans)
next
  case (Set_userdata t d)
  assume "poll_do c xp = Some xp'"
  then show ?thesis using Set_userdata
    by (auto simp: xs_pollfd_setsocket_userdata_def bind_eq_Some_conv split: if_splits dest!: upd_pss_kept)
next
  case (Set_events t e)
  assume "poll_do c xp = Some xp'"
  then show ?thesis using Set_events
    by (auto simp: xs_pollfd_setsocket_events_def bind_eq_Some_conv split: if_splits dest!: upd_pfd_kept)
next
  case Stop
  assume "poll_do c xp = Some xp'"
  then show ?thesis using Stop by (auto simp: tokens_kept_def)
qed

lemma poll_dos_kept: "poll_dos cs xp = Some xp' \<Longrightarrow> tokens_kept xp xp'"
proof (induction cs arbitrary: xp)
  case (Cons c cs)
  then obtain x1 where "poll_do c xp = Some x1" "poll_dos cs x1 = Some xp'" by (auto simp: bind_eq_Some_conv)
  then show ?case using Cons.IH poll_do_kept tokens_kept_trans by blast
qed simp

lemma poll_call_kept: "poll_call proc c xp msg sock token data = Some (c', xp') \<Longrightarrow> tokens_kept xp xp'"
  by (auto simp: poll_call_def bind_eq_Some_conv split: prod.splits dest!: poll_dos_kept)

definition listeners_go :: "xs_pollfd \<Rightarrow> xs_pollfd \<Rightarrow> bool" where
  \<comment> \<open>as \<open>tokens_kept\<close>, but a listening socket may have failed\<close>
  "listeners_go xp xp' \<longleftrightarrow> listenCount xp' \<le> listenCount xp \<and> tokens_kept (xp\<lparr>listenCount := 0\<rparr>) (xp'\<lparr>listenCount := 0\<rparr>)"

lemma kept_listeners: "tokens_kept xp xp' \<Longrightarrow> listeners_go xp xp'"
  by (simp add: tokens_kept_def listeners_go_def)

lemma listeners_trans [trans]: "listeners_go x y \<Longrightarrow> listeners_go y z \<Longrightarrow> listeners_go x z"
  by (auto simp: listeners_go_def tokens_kept_def)

lemma poll_failed_kept: "poll_failed proc c xp i p s = Some (c', xp') \<Longrightarrow> listeners_go xp xp'"
proof -
  assume "poll_failed proc c xp i p s = Some (c', xp')"
  then obtain x1 x2 msg where x: "poll_call proc c xp msg (fd p) (int (sid s)) (cfd s) = Some (c', x1)"
    "(if i < listenCount x1 then do {
               y1 \<leftarrow> upd_pfd x1 i (\<lambda>p. p\<lparr>fd := 0\<rparr>);
               y2 \<leftarrow> upd_pss y1 i (\<lambda>p. p\<lparr>cfd := 0\<rparr>);
               Some (y2\<lparr>listenCount := listenCount y2 - 1\<rparr>) }
             else Some x1) = Some x2" "xp' = xs_pollfd_setrunning x2 1"
    unfolding poll_failed_def by (auto simp: bind_eq_Some_conv simp del: if_split_asm split: prod.splits)
  have "listeners_go x1 x2"
  proof (cases "i < listenCount x1")
    case True
    then obtain y1 y2 where y: "upd_pfd x1 i (\<lambda>p. p\<lparr>fd := 0\<rparr>) = Some y1" "upd_pss y1 i (\<lambda>p. p\<lparr>cfd := 0\<rparr>) = Some y2"
      "x2 = y2\<lparr>listenCount := listenCount y2 - 1\<rparr>" using x(2) by (auto simp: bind_eq_Some_conv)
    have "tokens_kept x1 y2" using upd_pfd_kept [OF y(1)] upd_pss_kept [OF y(2)] tokens_kept_trans by fastforce
    then show ?thesis by (simp add: y(3) listeners_go_def tokens_kept_def)
  next
    case False
    then show ?thesis using x(2) by (simp add: kept_listeners)
  qed
  moreover have "listeners_go xp x1" using poll_call_kept [OF x(1)] kept_listeners by blast
  ultimately have "listeners_go xp x2" using listeners_trans by blast
  then show ?thesis by (simp add: x(3) listeners_go_def tokens_kept_def)
qed

lemma poll_event_kept: "poll_event proc c xp flag msg i sock = Some (c', xp') \<Longrightarrow> tokens_kept xp xp'"
  by (auto simp: poll_event_def bind_eq_Some_conv split: if_splits dest!: poll_call_kept)

lemma poll_serve_eq:
  fixes st :: "'c poll_state" and i :: nat
  assumes "poll_serve proc st i = Some st'"
  defines "p \<equiv> pfd (ps_xp st) ! i" and "s \<equiv> pss (ps_xp st) ! i"
  shows "(if fd p \<le> 0 \<or> revents p AND (POLLERR OR POLLHUP OR POLLNVAL) \<noteq> 0 then do {
       (c1, x1) \<leftarrow> poll_failed proc (ps_user st) (ps_xp st) i p s;
       Some (st\<lparr>ps_user := c1, ps_xp := x1, ps_closed := ps_closed st @ (if i < listenCount (ps_xp st) \<and> 0 < fd p then [fd p] else [])\<rparr>) }
     else if i < listenCount (ps_xp st) \<and> revents p AND POLLIN \<noteq> 0 then
       (case ps_accept st of
          [] \<Rightarrow> Some st
        | (n, addr) # ns \<Rightarrow>
            if xp_running (ps_xp st) \<le> 0 then Some st
            else if n > 0 then do {
              x1 \<leftarrow> upd_pss (ps_xp st) i (\<lambda>s. s\<lparr>sa := addr\<rparr>);
              Some (st\<lparr>ps_xp := x1, ps_accept := ns,
                 ps_queue := ps_queue st @ [\<lparr>qs_s = n, qs_listener = False, qs_sa = addr, qs_userdata = cfd s\<rparr>]\<rparr>) }
            else Some (st\<lparr>ps_accept := ns\<rparr>))
     else do {
       (c1, x1) \<leftarrow> poll_event proc (ps_user st) (ps_xp st) (revents p AND POLLIN \<noteq> 0) exs_pollfd_Read i (fd p);
       (c2, x2) \<leftarrow> poll_event proc c1 x1 (revents p AND POLLOUT \<noteq> 0) exs_pollfd_Write i (fd p);
       Some (st\<lparr>ps_user := c2, ps_xp := x2\<rparr>) }) = Some st'"
proof -
  have "rd (pfd (ps_xp st)) i = Some p" "rd (pss (ps_xp st)) i = Some s"
    using assms(1) by (auto simp: poll_serve_def Let_def rd_def p_def s_def split: if_splits)
  then show ?thesis using assms(1) by (auto simp: poll_serve_def Let_def bind_eq_Some_conv simp del: if_split split: if_split_asm)
qed

lemma poll_serve_kept: "poll_serve proc st i = Some st' \<Longrightarrow> listeners_go (ps_xp st) (ps_xp st')"
proof -
  let ?xp = "ps_xp st" and ?p = "pfd (ps_xp st) ! i" and ?s = "pss (ps_xp st) ! i"
  assume s: "poll_serve proc st i = Some st'"
  note s = poll_serve_eq [OF s]
  show ?thesis
  proof (cases "fd ?p \<le> 0 \<or> revents ?p AND (POLLERR OR POLLHUP OR POLLNVAL) \<noteq> 0")
    case True
    then obtain c1 x1 where "poll_failed proc (ps_user st) ?xp i ?p ?s = Some (c1, x1)" "ps_xp st' = x1"
      using s by (auto simp: bind_eq_Some_conv simp del: if_split_asm)
    then show ?thesis using poll_failed_kept by simp
  next
    case False
    note s = s [unfolded if_not_P [OF False]]
    show ?thesis
    proof (cases "i < listenCount ?xp \<and> revents ?p AND POLLIN \<noteq> 0")
      case True
      note s = s [unfolded if_P [OF True]]
      show ?thesis
      proof (cases "ps_xp st' = ?xp")
        case True
        then show ?thesis by (simp add: kept_listeners)
      next
        case False
        then obtain addr where "upd_pss ?xp i (\<lambda>s. s\<lparr>sa := addr\<rparr>) = Some (ps_xp st')"
          using s by (auto simp: bind_eq_Some_conv split: list.splits if_split_asm)
        then show ?thesis using kept_listeners [OF upd_pss_kept] by fastforce
      qed
    next
      case False
      then obtain c1 x1 c2 where "poll_event proc (ps_user st) ?xp (revents ?p AND POLLIN \<noteq> 0) exs_pollfd_Read i (fd ?p) = Some (c1, x1)"
        "poll_event proc c1 x1 (revents ?p AND POLLOUT \<noteq> 0) exs_pollfd_Write i (fd ?p) = Some (c2, ps_xp st')"
        using s by (auto simp: bind_eq_Some_conv)
      then show ?thesis using tokens_kept_trans [OF poll_event_kept poll_event_kept] kept_listeners by fastforce
    qed
  qed
qed

lemma poll_serve_count: "poll_serve proc st i = Some st' \<Longrightarrow> pfdCount (ps_xp st') = pfdCount (ps_xp st)"
  using poll_serve_kept by (fastforce simp: listeners_go_def tokens_kept_def)

lemma poll_keep_count: "poll_keep xp i ip = Some (xp', ip') \<Longrightarrow> pfdCount xp' = pfdCount xp"
  by (auto simp: poll_keep_def bind_eq_Some_conv split: if_splits)

function poll_loop :: "'c handler \<Rightarrow> 'c poll_state \<Rightarrow> nat \<Rightarrow> nat \<Rightarrow> ('c poll_state \<times> nat) option" where
  "poll_loop proc st i ip =
     (if i < pfdCount (ps_xp st) then
        (case poll_serve proc st i of
           None \<Rightarrow> None
         | Some st1 \<Rightarrow>
             (case poll_keep (ps_xp st1) i ip of
                None \<Rightarrow> None
              | Some (x2, ip2) \<Rightarrow>
                  if xp_running x2 < 0 then Some (st1\<lparr>ps_xp := x2\<rparr>, ip2)
                  else poll_loop proc (st1\<lparr>ps_xp := x2\<rparr>) (i + 1) ip2))
      else Some (st, ip))"
  by pat_completeness auto
termination
  by (relation "measure (\<lambda>(proc, st, i, ip). pfdCount (ps_xp st) - i)")
    (auto dest!: poll_serve_count poll_keep_count)

declare poll_loop.simps [simp del]

definition set_revents :: "xs_pollfd \<Rightarrow> (nat \<Rightarrow> int) \<Rightarrow> xs_pollfd" where
  \<comment> \<open>what \<open>poll\<close> stores\<close>
  "set_revents xp rv = xp\<lparr>pfd := map (\<lambda>(k, p). if k < pfdCount xp then p\<lparr>revents := rv k\<rparr> else p) (enumerate 0 (pfd xp))\<rparr>"

definition poll_round :: "'c handler \<Rightarrow> 'c poll_state \<Rightarrow> int \<Rightarrow> (nat \<Rightarrow> int) \<Rightarrow> 'c poll_state option" where
  \<comment> \<open>one round; \<open>rret\<close> and \<open>rv\<close> are what \<open>poll\<close> returns and stores\<close>
  "poll_round proc st rret rv = do {
     (c1, x1, q) \<leftarrow> take_new proc (ps_queue st) (ps_user st) (ps_xp st);
     (c2, x2) \<leftarrow> poll_call proc c1 x1 exs_pollfd_Idle 0 (- 1) 0;
     let x3 = xs_pollfd_setrunning (set_revents (xs_pollfd_setrunning x2 1) rv) 1;
     let st1 = st\<lparr>ps_user := c2, ps_xp := x3, ps_queue := q\<rparr>;
     if rret \<noteq> 0 \<and> xp_running x3 > 0 then do {
       (st2, ip) \<leftarrow> poll_loop proc st1 0 0;
       Some (if xp_running (ps_xp st2) > 0 then st2\<lparr>ps_xp := (ps_xp st2)\<lparr>pfdMax := ip, pfdCount := ip\<rparr>\<rparr> else st2) }
     else Some st1 }"

subsection \<open>The end of the thread\<close>

primrec exit_entries :: "'c handler \<Rightarrow> nat list \<Rightarrow> 'c \<Rightarrow> xs_pollfd \<Rightarrow> int list \<Rightarrow> ('c \<times> xs_pollfd \<times> int list) option" where
  "exit_entries proc [] c xp closed = Some (c, xp, closed)"
| "exit_entries proc (i # is) c xp closed = do {
     p \<leftarrow> rd (pfd xp) i;
     s \<leftarrow> rd (pss xp) i;
     let (c1, cmds) = proc c xp exs_pollfd_Delete (fd p) (int (sid s)) (cfd s);
     x1 \<leftarrow> poll_dos cmds xp;
     x2 \<leftarrow> upd_pfd x1 i (\<lambda>p. p\<lparr>fd := 0\<rparr>);
     x3 \<leftarrow> upd_pss x2 i (\<lambda>p. p\<lparr>cfd := 0\<rparr>);
     exit_entries proc is c1 x3 (closed @ (if 0 < fd p then [fd p] else [])) }"

definition poll_exit :: "'c handler \<Rightarrow> 'c poll_state \<Rightarrow> 'c poll_state option" where
  \<comment> \<open>every socket is reported as deleted and closed\<close>
  "poll_exit proc st = do {
     let x0 = xs_pollfd_setrunning (ps_xp st) (- 1);
     (c1, x1, closed) \<leftarrow> exit_entries proc [0..<pfdCount x0] (ps_user st) x0 (ps_closed st);
     Some (st\<lparr>ps_user := c1, ps_xp := x1\<lparr>pfdCount := 0\<rparr>, ps_closed := closed\<rparr>) }"

subsection \<open>The states of a thread\<close>

inductive polled :: "'c handler \<Rightarrow> nat \<Rightarrow> 'c poll_state \<Rightarrow> bool" for proc :: "'c handler" and n :: nat where
  \<comment> \<open>between the rounds: sockets come into the queue, a listening one only while the table has room and holds no connection\<close>
  start: "polled proc n \<lparr>ps_user = c, ps_xp = (xs_pollfd_Init n)\<lparr>xp_running := 1\<rparr>, ps_accept = [], ps_queue = [], ps_closed = []\<rparr>"
| accept: "polled proc n st \<Longrightarrow> polled proc n (st\<lparr>ps_accept := acc\<rparr>)"
| push: "polled proc n st \<Longrightarrow>
     \<not> qs_listener q \<or> ps_queue st = [] \<and> listenCount (ps_xp st) = pfdCount (ps_xp st) \<and> pfdCount (ps_xp st) < pfdTotal (ps_xp st) \<Longrightarrow>
     polled proc n (st\<lparr>ps_queue := ps_queue st @ [q]\<rparr>)"
| round: "polled proc n st \<Longrightarrow> 0 < xp_running (ps_xp st) \<Longrightarrow> poll_round proc st rret rv = Some st' \<Longrightarrow> polled proc n st'"

subsection \<open>The table is well formed\<close>

fun free_chain :: "int list \<Rightarrow> int \<Rightarrow> nat list \<Rightarrow> bool" where
  \<comment> \<open>the free tokens, linked through \<open>sidmap\<close>\<close>
  "free_chain m f [] = (f = - 1)"
| "free_chain m f (x # xs) = (f = int x \<and> free_chain m (m ! x) xs)"

lemma free_chain_update: "s \<notin> set fl \<Longrightarrow> free_chain (m[s := v]) f fl = free_chain m f fl"
  by (induction fl arbitrary: f) (auto simp: nth_list_update)

definition sizes_ok :: "xs_pollfd \<Rightarrow> bool" where
  "sizes_ok xp \<longleftrightarrow> length (pfd xp) = pfdTotal xp \<and> length (pss xp) = pfdTotal xp \<and> length (sidmap xp) = pfdTotal xp \<and> pfdCount xp \<le> pfdTotal xp"

definition between :: "nat \<Rightarrow> nat \<Rightarrow> nat \<Rightarrow> 'a list \<Rightarrow> 'a list" where
  \<comment> \<open>the entries of a pass that has come to \<open>i\<close> and kept \<open>ip\<close>\<close>
  "between n i ip xs = take ip xs @ drop i (take n xs)"

definition pass_ok :: "xs_pollfd \<Rightarrow> nat \<Rightarrow> nat \<Rightarrow> nat list \<Rightarrow> bool" where
  \<comment> \<open>the tokens in use and the free ones are the first so many numbers; each one in use leads to its entry\<close>
  "pass_ok xp i ip fl \<longleftrightarrow> sizes_ok xp \<and> ip \<le> i \<and> i \<le> pfdCount xp \<and>
     (let toks = map sid (pss xp); used = between (pfdCount xp) i ip toks in
      distinct (used @ fl) \<and> set (used @ fl) = {..<length (used @ fl)} \<and> length (used @ fl) \<le> pfdTotal xp \<and>
      free_chain (sidmap xp) (freesid xp) fl \<and>
      (\<forall>k < pfdCount xp. k < ip \<or> i \<le> k \<longrightarrow> sidmap xp ! (toks ! k) = int k))"

lemma pass_okI:
  assumes "sizes_ok xp" "ip \<le> i" "i \<le> pfdCount xp" "between (pfdCount xp) i ip (map sid (pss xp)) = used"
    and "distinct (used @ fl)" "set (used @ fl) = {..<length (used @ fl)}" "length (used @ fl) \<le> pfdTotal xp"
    and "free_chain (sidmap xp) (freesid xp) fl"
    and "\<And>k. k < pfdCount xp \<Longrightarrow> k < ip \<or> i \<le> k \<Longrightarrow> sidmap xp ! (map sid (pss xp) ! k) = int k"
  shows "pass_ok xp i ip fl"
  unfolding pass_ok_def Let_def assms(4) using assms(1-3,5-9) by blast

definition table_ok :: "xs_pollfd \<Rightarrow> bool" where
  "table_ok xp \<longleftrightarrow> pfdMax xp = pfdCount xp \<and> (\<exists>fl. pass_ok xp 0 0 fl)"

definition tokens :: "xs_pollfd \<Rightarrow> nat list" where
  \<comment> \<open>the tokens in use, in the order of the array\<close>
  "tokens xp = take (pfdCount xp) (map sid (pss xp))"

lemma init_ok: "table_ok (xs_pollfd_Init n)"
  by (auto simp: table_ok_def pass_ok_def xs_pollfd_Init_def sizes_ok_def between_def Let_def intro: exI [of _ "[]"])

lemma sizes_kept: "listeners_go xp xp' \<Longrightarrow> sizes_ok xp' = sizes_ok xp"
  by (auto simp: listeners_go_def tokens_kept_def sizes_ok_def dest: arg_cong [of "map sid (pss xp')" _ length])

lemma pass_kept: "listeners_go xp xp' \<Longrightarrow> pass_ok xp' i ip fl = pass_ok xp i ip fl"
  using sizes_kept [of xp xp'] by (simp add: listeners_go_def tokens_kept_def pass_ok_def Let_def)

lemma xptok_ind_some: "sizes_ok xp \<Longrightarrow> \<exists>i. xptok_ind xp t = Some i \<and> i < int (pfdTotal xp) \<and> (0 \<le> i \<longrightarrow> nat i < pfdTotal xp)"
  by (auto simp: xptok_ind_def sizes_ok_def rd_def bind_eq_Some_conv)

lemma upd_some: "i < length (pfd xp) \<Longrightarrow> \<exists>xp'. upd_pfd xp i f = Some xp'" "i < length (pss xp) \<Longrightarrow> \<exists>xp'. upd_pss xp i g = Some xp'"
  by (simp_all add: upd_pfd_def upd_pss_def mem_simps)

lemma upd_pfd_pss: "upd_pfd xp i f = Some xp' \<Longrightarrow> pss xp' = pss xp"
  by (auto simp: upd_pfd_def bind_eq_Some_conv)

lemma poll_do_some:
  assumes "sizes_ok xp"
  shows "\<exists>xp'. poll_do c xp = Some xp'"
proof -
  obtain i where i: "xptok_ind xp t = Some (i t)" "0 \<le> i t \<Longrightarrow> nat (i t) < pfdTotal xp" for t
    using xptok_ind_some [OF assms] by metis
  have l: "length (pfd xp) = pfdTotal xp" "length (pss xp) = pfdTotal xp" using assms by (simp_all add: sizes_ok_def)
  have clear: "\<exists>xp'. xs_pollfd_clear xp t = Some xp'" for t
  proof (cases "0 \<le> i t")
    case True
    then obtain x1 where x1: "upd_pfd xp (nat (i t)) (\<lambda>p. p\<lparr>fd := 0\<rparr>) = Some x1" using upd_some(1) i(2) l by metis
    then obtain x2 where "upd_pss x1 (nat (i t)) (\<lambda>p. p\<lparr>cfd := 0\<rparr>) = Some x2"
      using upd_some(2) [of "nat (i t)" x1] i(2) [OF True] l(2) upd_pfd_pss [OF x1] by auto
    then show ?thesis using i(1) x1 True by (simp add: xs_pollfd_clear_def)
  qed (use i(1) in \<open>simp add: xs_pollfd_clear_def\<close>)
  have user: "\<exists>xp'. xs_pollfd_setsocket_userdata xp t d = Some xp'" for t d
  proof (cases "0 \<le> i t")
    case True
    then obtain x1 where "upd_pss xp (nat (i t)) (\<lambda>p. p\<lparr>cfd := d\<rparr>) = Some x1" using upd_some(2) i(2) l by metis
    then show ?thesis using i(1) True by (simp add: xs_pollfd_setsocket_userdata_def)
  qed (use i(1) in \<open>simp add: xs_pollfd_setsocket_userdata_def\<close>)
  have ev: "\<exists>xp'. xs_pollfd_setsocket_events xp t e = Some xp'" for t e
  proof (cases "0 \<le> i t")
    case True
    then obtain x1 where "upd_pfd xp (nat (i t)) (\<lambda>p. p\<lparr>events := e\<rparr>) = Some x1" using upd_some(1) i(2) l by metis
    then show ?thesis using i(1) True by (simp add: xs_pollfd_setsocket_events_def)
  qed (use i(1) in \<open>simp add: xs_pollfd_setsocket_events_def\<close>)
  show ?thesis by (cases c) (use clear user ev in \<open>fastforce+\<close>)
qed

lemma poll_dos_some: "sizes_ok xp \<Longrightarrow> \<exists>xp'. poll_dos cs xp = Some xp'"
proof (induction cs arbitrary: xp)
  case (Cons c cs)
  obtain x1 where x1: "poll_do c xp = Some x1" using poll_do_some [OF Cons.prems] by blast
  then have "sizes_ok x1" using sizes_kept [OF kept_listeners [OF poll_do_kept]] Cons.prems by blast
  then show ?case using Cons.IH x1 by simp
qed simp

lemma poll_call_some: "sizes_ok xp \<Longrightarrow> \<exists>c' xp'. poll_call proc c xp msg sock token data = Some (c', xp')"
proof -
  assume "sizes_ok xp"
  then have "sizes_ok (xs_pollfd_setrunning xp 3)" by (simp add: sizes_ok_def)
  then have "\<exists>x1. poll_dos cs (xs_pollfd_setrunning xp 3) = Some x1" for cs by (rule poll_dos_some)
  moreover obtain c1 cmds where p: "proc c (xs_pollfd_setrunning xp 3) msg sock token data = (c1, cmds)" by force
  ultimately obtain x1 where "poll_dos cmds (xs_pollfd_setrunning xp 3) = Some x1" by blast
  then show ?thesis using p by (simp add: poll_call_def)
qed

lemma listeners_setrunning [simp]: "listeners_go xp (xs_pollfd_setrunning xp' n) = listeners_go xp xp'"
  by (simp add: listeners_go_def tokens_kept_def)

lemma poll_failed_some:
  assumes "sizes_ok xp" "i < pfdTotal xp"
  shows "\<exists>c' xp'. poll_failed proc c xp i p s = Some (c', xp')"
proof -
  let ?msg = "if revents p AND (POLLERR OR POLLNVAL) \<noteq> 0 then exs_pollfd_Error else exs_pollfd_Delete"
  obtain c1 x1 where x1: "poll_call proc c xp ?msg (fd p) (int (sid s)) (cfd s) = Some (c1, x1)"
    using poll_call_some [OF assms(1), of proc c ?msg "fd p" "int (sid s)" "cfd s"] by blast
  then have s1: "sizes_ok x1" "pfdTotal x1 = pfdTotal xp" using assms(1) poll_call_kept [OF x1] sizes_kept kept_listeners
    by (blast, simp add: tokens_kept_def)
  then have "i < length (pfd x1)" using assms(2) by (simp add: sizes_ok_def)
  then obtain y1 where y1: "upd_pfd x1 i (\<lambda>p. p\<lparr>fd := 0\<rparr>) = Some y1" using upd_some(1) by blast
  have "i < length (pss y1)" using upd_pfd_pss [OF y1] s1 assms(2) by (simp add: sizes_ok_def)
  then obtain y2 where "upd_pss y1 i (\<lambda>p. p\<lparr>cfd := 0\<rparr>) = Some y2" using upd_some(2) by blast
  then show ?thesis using x1 y1 by (simp add: poll_failed_def)
qed

lemma poll_event_some:
  assumes "sizes_ok xp" "i < pfdTotal xp"
  shows "\<exists>c' xp'. poll_event proc c xp flag msg i sock = Some (c', xp')"
proof -
  have "rd (pss xp) i = Some (pss xp ! i)" using assms by (simp add: sizes_ok_def mem_simps)
  moreover obtain c1 x1 where "poll_call proc c xp msg sock (int (sid (pss xp ! i))) (cfd (pss xp ! i)) = Some (c1, x1)"
    using poll_call_some [OF assms(1), of proc c msg sock "int (sid (pss xp ! i))" "cfd (pss xp ! i)"] by blast
  ultimately show ?thesis by (simp add: poll_event_def)
qed

lemma pass_entry:
  assumes "pass_ok xp i ip fl" "i < pfdCount xp"
  shows "sid (pss xp ! i) < pfdTotal xp" "sidmap xp ! sid (pss xp ! i) = int i" "i < pfdTotal xp" "sizes_ok xp"
proof -
  let ?toks = "map sid (pss xp)"
  have z: "sizes_ok xp" and used: "set (between (pfdCount xp) i ip ?toks @ fl) = {..<length (between (pfdCount xp) i ip ?toks @ fl)}"
    "length (between (pfdCount xp) i ip ?toks @ fl) \<le> pfdTotal xp" and entry: "sidmap xp ! (?toks ! i) = int i"
    using assms by (auto simp: pass_ok_def Let_def)
  have l: "i < length (pss xp)" using z assms(2) by (simp add: sizes_ok_def)
  then show "i < pfdTotal xp" "sizes_ok xp" using z by (simp_all add: sizes_ok_def)
  show "sidmap xp ! sid (pss xp ! i) = int i" using entry l by simp
  have "drop i (take (pfdCount xp) ?toks) = ?toks ! i # drop (Suc i) (take (pfdCount xp) ?toks)"
    using l assms(2) by (simp add: Cons_nth_drop_Suc [symmetric])
  then have "?toks ! i \<in> set (between (pfdCount xp) i ip ?toks @ fl)" by (simp add: between_def)
  then have "?toks ! i < pfdTotal xp" using used by (metis lessThan_iff less_le_trans)
  then show "sid (pss xp ! i) < pfdTotal xp" using l by simp
qed

lemma poll_serve_some:
  assumes ok: "pass_ok (ps_xp st) i ip fl" "i < pfdCount (ps_xp st)"
  shows "\<exists>st'. poll_serve proc st i = Some st'"
proof -
  let ?xp = "ps_xp st"
  note e = pass_entry [OF ok]
  have r: "rd (pfd ?xp) i = Some (pfd ?xp ! i)" "rd (pss ?xp) i = Some (pss ?xp ! i)"
    "rd (sidmap ?xp) (sid (pss ?xp ! i)) = Some (int i)"
    using e by (simp_all add: sizes_ok_def mem_simps)
  obtain c1 x1 where f: "poll_failed proc (ps_user st) ?xp i (pfd ?xp ! i) (pss ?xp ! i) = Some (c1, x1)"
    using poll_failed_some [OF e(4,3), of proc "ps_user st" "pfd ?xp ! i" "pss ?xp ! i"] by blast
  obtain c2 x2 where g: "poll_event proc (ps_user st) ?xp (revents (pfd ?xp ! i) AND POLLIN \<noteq> 0) exs_pollfd_Read i (fd (pfd ?xp ! i)) = Some (c2, x2)"
    using poll_event_some [OF e(4,3), of proc "ps_user st" "revents (pfd ?xp ! i) AND POLLIN \<noteq> 0" exs_pollfd_Read "fd (pfd ?xp ! i)"] by blast
  have "sizes_ok x2" "i < pfdTotal x2" using e(3,4) sizes_kept [OF kept_listeners [OF poll_event_kept [OF g]]] poll_event_kept [OF g]
    by (simp_all add: tokens_kept_def)
  then obtain c3 x3 where h: "poll_event proc c2 x2 (revents (pfd ?xp ! i) AND POLLOUT \<noteq> 0) exs_pollfd_Write i (fd (pfd ?xp ! i)) = Some (c3, x3)"
    using poll_event_some [of x2 i proc c2 "revents (pfd ?xp ! i) AND POLLOUT \<noteq> 0" exs_pollfd_Write "fd (pfd ?xp ! i)"] by blast
  obtain x4 where "upd_pss ?xp i (\<lambda>s. s\<lparr>sa := snd (hd (ps_accept st))\<rparr>) = Some x4" using upd_some(2) [of i ?xp] e by (auto simp: sizes_ok_def)
  then show ?thesis using r f g h by (cases "ps_accept st") (auto simp: poll_serve_def Let_def)
qed

subsection \<open>Lemmas: a pass keeps the table well formed\<close>

lemma between_split: "ip \<le> i \<Longrightarrow> i < n \<Longrightarrow> n \<le> length xs \<Longrightarrow> between n i ip xs = take ip xs @ xs ! i # between n (Suc i) 0 xs"
  by (simp add: between_def Cons_nth_drop_Suc [symmetric])

lemma drop_take_update: "ip < j \<Longrightarrow> drop j (take n (xs[ip := v])) = drop j (take n xs)"
  by (simp add: take_update_swap drop_update_cancel)

lemma between_keep: "ip \<le> i \<Longrightarrow> i < n \<Longrightarrow> n \<le> length xs \<Longrightarrow> between n (Suc i) (Suc ip) (xs[ip := xs ! i]) = between n i ip xs"
  by (simp add: between_split) (simp add: between_def drop_take_update take_Suc_conv_app_nth)

lemma between_drop: "ip \<le> i \<Longrightarrow> between n (Suc i) ip (xs[ip := v]) = take ip xs @ between n (Suc i) 0 xs"
  by (simp add: between_def drop_take_update)

lemma between_mem:
  "ip \<le> i \<Longrightarrow> n \<le> length xs \<Longrightarrow> k < ip \<Longrightarrow> i \<le> n \<Longrightarrow> xs ! k \<in> set (take ip xs)"
  "n \<le> length xs \<Longrightarrow> Suc i \<le> k \<Longrightarrow> k < n \<Longrightarrow> xs ! k \<in> set (between n (Suc i) 0 xs)"
proof -
  show "ip \<le> i \<Longrightarrow> n \<le> length xs \<Longrightarrow> k < ip \<Longrightarrow> i \<le> n \<Longrightarrow> xs ! k \<in> set (take ip xs)" by (auto simp: in_set_conv_nth)
  assume "n \<le> length xs" "Suc i \<le> k" "k < n"
  then have "drop (Suc i) (take n xs) ! (k - Suc i) = xs ! k" "k - Suc i < length (drop (Suc i) (take n xs))" by auto
  then show "xs ! k \<in> set (between n (Suc i) 0 xs)" unfolding between_def by (metis append_Nil nth_mem take_0)
qed

lemma poll_keep_ok:
  assumes ok: "pass_ok xp i ip fl" "i < pfdCount xp"
  defines "open \<equiv> 0 < fd (pfd xp ! i)"
  shows "\<exists>xp'. poll_keep xp i ip = Some (xp', if open then ip + 1 else ip) \<and>
    pass_ok xp' (i + 1) (if open then ip + 1 else ip) (if open then fl else sid (pss xp ! i) # fl) \<and>
    pfdCount xp' = pfdCount xp \<and> listenCount xp' = listenCount xp \<and> xp_running xp' = xp_running xp \<and> pfdTotal xp' = pfdTotal xp \<and>
    between (pfdCount xp) (i + 1) (if open then ip + 1 else ip) (map sid (pss xp')) =
      (if open then between (pfdCount xp) i ip (map sid (pss xp))
       else take ip (map sid (pss xp)) @ between (pfdCount xp) (Suc i) 0 (map sid (pss xp)))"
proof -
  note e = pass_entry [OF ok]
  let ?n = "pfdCount xp" and ?toks = "map sid (pss xp)" and ?t = "sid (pss xp ! i)"
  have l: "length (pfd xp) = pfdTotal xp" "length (pss xp) = pfdTotal xp" "length (sidmap xp) = pfdTotal xp" "?n \<le> pfdTotal xp"
    using e(4) by (simp_all add: sizes_ok_def)
  have ip: "ip \<le> i" "?n \<le> length ?toks" "ip < pfdTotal xp" and ti: "?toks ! i = ?t" using ok l e(3) by (auto simp: pass_ok_def)
  let ?rest = "between ?n (Suc i) 0 ?toks"
  have used: "between ?n i ip ?toks = take ip ?toks @ ?t # ?rest" using between_split [OF ip(1) ok(2) ip(2)] ti by simp
  have d: "distinct (take ip ?toks @ ?t # ?rest @ fl)" "set (take ip ?toks @ ?t # ?rest @ fl) = {..<length (take ip ?toks @ ?t # ?rest @ fl)}"
    "length (take ip ?toks @ ?t # ?rest @ fl) \<le> pfdTotal xp" "free_chain (sidmap xp) (freesid xp) fl"
    using ok(1) unfolding pass_ok_def Let_def used by simp_all
  have lead: "sidmap xp ! (?toks ! k) = int k" if "k < ?n" "k < ip \<or> i \<le> k" for k
    using ok(1) that unfolding pass_ok_def Let_def by blast
  have other: "?toks ! k \<noteq> ?t" if "k < ip \<or> Suc i \<le> k" "k < ?n" for k
    using d(1) that between_mem(1) [OF ip(1,2), of k] between_mem(2) [OF ip(2), of i k] ok(2) by auto
  have tk: "map sid ((pss xp)[ip := pss xp ! i]) = ?toks[ip := ?t]" "map sid ((pss xp)[ip := pss xp ! i]) = (map sid (pss xp))[ip := map sid (pss xp) ! i]"
    using e(3) l by (simp_all add: map_update)
  have nth: "?toks[ip := ?t] ! k = (if k = ip then ?t else ?toks ! k)" if "k < ?n" for k using that ip(2) by (simp add: nth_list_update)
  let ?x = "xp\<lparr>pfd := (pfd xp)[ip := pfd xp ! i], pss := (pss xp)[ip := pss xp ! i]\<rparr>"
  show ?thesis
  proof (cases "open")
    case True
    let ?xp' = "?x\<lparr>sidmap := (sidmap xp)[?t := int ip]\<rparr>"
    have k: "poll_keep xp i ip = Some (?xp', ip + 1)" using True e ip l by (simp add: poll_keep_def open_def mem_simps)
    have u: "between ?n (Suc i) (Suc ip) (?toks[ip := ?t]) = take ip ?toks @ ?t # ?rest"
      using between_keep [OF ip(1) ok(2) ip(2)] ti used by simp
    have lead': "(sidmap xp)[?t := int ip] ! (?toks[ip := ?t] ! k) = int k" if k: "k < ?n" "k < Suc ip \<or> Suc i \<le> k" for k
    proof -
      show "(sidmap xp)[?t := int ip] ! (?toks[ip := ?t] ! k) = int k"
      proof (cases "k = ip")
        case True
        then show ?thesis using nth [OF k(1)] e(1) l(3) by simp
      next
        case False
        then have k': "k < ip \<or> Suc i \<le> k" "k < ip \<or> i \<le> k" using k(2) by auto
        then have "(sidmap xp)[?t := int ip] ! (?toks ! k) = int k" using other [OF k'(1) k(1)] lead [OF k(1)] by (metis nth_list_update_neq)
        then show ?thesis using nth [OF k(1)] False by simp
      qed
    qed
    have fc: "free_chain ((sidmap xp)[?t := int ip]) (freesid xp) fl" using d(1,4) by (subst free_chain_update) auto
    have "pass_ok ?xp' (Suc i) (Suc ip) fl"
    proof (rule pass_okI)
      show "between (pfdCount ?xp') (Suc i) (Suc ip) (map sid (pss ?xp')) = take ip ?toks @ ?t # ?rest" using u tk by simp
      show "sidmap ?xp' ! (map sid (pss ?xp') ! k) = int k" if "k < pfdCount ?xp'" "k < Suc ip \<or> Suc i \<le> k" for k
        using lead' that tk by simp
    qed (use d(1-3) ok(2) ip(1) e(4) fc in \<open>simp_all add: sizes_ok_def\<close>)
    moreover have "between ?n (Suc i) (Suc ip) (map sid (pss ?xp')) = between ?n i ip (map sid (pss xp))"
      using between_keep [OF ip(1) ok(2) ip(2), unfolded ti] tk by simp
    ultimately show ?thesis using k True by simp
  next
    case False
    let ?xp' = "?x\<lparr>sidmap := (sidmap xp)[?t := freesid xp], freesid := int ?t\<rparr>"
    have k: "poll_keep xp i ip = Some (?xp', ip)" using False e ip l by (simp add: poll_keep_def open_def mem_simps)
    have u: "between ?n (Suc i) ip (?toks[ip := ?t]) = take ip ?toks @ ?rest" by (rule between_drop [OF ip(1)])
    have lead': "(sidmap xp)[?t := freesid xp] ! (?toks[ip := ?t] ! k) = int k" if k: "k < ?n" "k < ip \<or> Suc i \<le> k" for k
    proof -
      have "k \<noteq> ip" "k < ip \<or> i \<le> k" using k ip(1) by auto
      then have "(sidmap xp)[?t := freesid xp] ! (?toks ! k) = int k" using other [OF k(2,1)] lead [OF k(1)] by (metis nth_list_update_neq)
      then show ?thesis using nth [OF k(1)] \<open>k \<noteq> ip\<close> by simp
    qed
    have fc: "free_chain ((sidmap xp)[?t := freesid xp]) (int ?t) (?t # fl)"
      using d(1,4) e(1) l(3) free_chain_update [of ?t fl] by simp
    have d': "distinct ((take ip ?toks @ ?rest) @ ?t # fl)" "set ((take ip ?toks @ ?rest) @ ?t # fl) = {..<length ((take ip ?toks @ ?rest) @ ?t # fl)}"
      "length ((take ip ?toks @ ?rest) @ ?t # fl) \<le> pfdTotal xp"
      using d(1-3) by auto
    have "pass_ok ?xp' (Suc i) ip (?t # fl)"
    proof (rule pass_okI)
      show "between (pfdCount ?xp') (Suc i) ip (map sid (pss ?xp')) = take ip ?toks @ ?rest" using u tk by simp
      show "sidmap ?xp' ! (map sid (pss ?xp') ! k) = int k" if "k < pfdCount ?xp'" "k < ip \<or> Suc i \<le> k" for k
        using lead' that tk by simp
    qed (use d' ok(2) ip(1) e(4) fc in \<open>simp_all add: sizes_ok_def\<close>)
    moreover have "between ?n (Suc i) ip (map sid (pss ?xp')) = take ip (map sid (pss xp)) @ between ?n (Suc i) 0 (map sid (pss xp))"
      using between_drop [OF ip(1), of ?n ?toks ?t] tk by simp
    ultimately show ?thesis using k False by simp
  qed
qed

lemma subseq_drop_mid [simp]: "subseq (xs @ ys) (xs @ y # ys)"
  by (rule list_emb_append_mono) auto

lemma poll_loop_ok:
  assumes "pass_ok (ps_xp st) i ip fl"
  shows "\<exists>st' ip' fl' i'. poll_loop proc st i ip = Some (st', ip') \<and> pass_ok (ps_xp st') i' ip' fl' \<and>
    (0 \<le> xp_running (ps_xp st') \<longrightarrow> i' = pfdCount (ps_xp st')) \<and>
    pfdCount (ps_xp st') = pfdCount (ps_xp st) \<and> pfdTotal (ps_xp st') = pfdTotal (ps_xp st) \<and>
    subseq (between (pfdCount (ps_xp st)) i' ip' (map sid (pss (ps_xp st')))) (between (pfdCount (ps_xp st)) i ip (map sid (pss (ps_xp st))))"
  using assms
proof (induction proc st i ip arbitrary: fl rule: poll_loop.induct)
  case (1 proc st i ip)
  let ?n = "pfdCount (ps_xp st)"
  show ?case
  proof (cases "i < ?n")
    case False
    then have "i = ?n" using 1(2) by (simp add: pass_ok_def)
    then have "poll_loop proc st i ip = Some (st, ip)" by (simp add: poll_loop.simps [of proc st])
    then show ?thesis using 1(2) \<open>i = ?n\<close> by fastforce
  next
    case True
    obtain st1 where st1: "poll_serve proc st i = Some st1" using poll_serve_some [OF 1(2) True] by blast
    note kept = poll_serve_kept [OF st1]
    then have same: "pfdCount (ps_xp st1) = ?n" "pfdTotal (ps_xp st1) = pfdTotal (ps_xp st)" "map sid (pss (ps_xp st1)) = map sid (pss (ps_xp st))"
      by (simp_all add: listeners_go_def tokens_kept_def)
    have ok1: "pass_ok (ps_xp st1) i ip fl" using pass_kept [OF kept] 1(2) by simp
    define opn where "opn = (0 < fd (pfd (ps_xp st1) ! i))"
    define ip2 where "ip2 = (if opn then ip + 1 else ip)"
    define fl2 where "fl2 = (if opn then fl else sid (pss (ps_xp st1) ! i) # fl)"
    obtain x2 where x2: "poll_keep (ps_xp st1) i ip = Some (x2, ip2)" "pass_ok x2 (i + 1) ip2 fl2"
      "pfdCount x2 = ?n" "pfdTotal x2 = pfdTotal (ps_xp st)"
      "between ?n (i + 1) ip2 (map sid (pss x2)) = (if opn then between ?n i ip (map sid (pss (ps_xp st)))
         else take ip (map sid (pss (ps_xp st))) @ between ?n (Suc i) 0 (map sid (pss (ps_xp st))))"
      using poll_keep_ok [OF ok1, folded opn_def] True unfolding same ip2_def fl2_def by auto
    have "ip \<le> i" "?n \<le> length (map sid (pss (ps_xp st)))" using 1(2) by (auto simp: pass_ok_def sizes_ok_def)
    then have sub: "subseq (between ?n (i + 1) ip2 (map sid (pss x2))) (between ?n i ip (map sid (pss (ps_xp st))))"
      using True subseq_drop_mid by (simp add: x2(5) [simplified] between_split)
    have step: "poll_loop proc st i ip =
        (if xp_running x2 < 0 then Some (st1\<lparr>ps_xp := x2\<rparr>, ip2) else poll_loop proc (st1\<lparr>ps_xp := x2\<rparr>) (i + 1) ip2)"
      using True st1 x2(1) by (simp add: poll_loop.simps [of proc st])
    show ?thesis
    proof (cases "xp_running x2 < 0")
      case True
      then show ?thesis using step x2(2-4) sub by force
    next
      case False
      then obtain st' ip' fl' i' where r: "poll_loop proc (st1\<lparr>ps_xp := x2\<rparr>) (i + 1) ip2 = Some (st', ip')" "pass_ok (ps_xp st') i' ip' fl'"
        "0 \<le> xp_running (ps_xp st') \<longrightarrow> i' = pfdCount (ps_xp st')" "pfdCount (ps_xp st') = ?n" "pfdTotal (ps_xp st') = pfdTotal (ps_xp st)"
        "subseq (between ?n i' ip' (map sid (pss (ps_xp st')))) (between ?n (i + 1) ip2 (map sid (pss x2)))"
        using 1(1) [OF True st1 x2(1) refl False, of fl2] x2(2-4) by auto
      then show ?thesis using step False subseq_order.order_trans [OF r(6) sub] by auto
    qed
  qed
qed

subsection \<open>Lemmas: a new socket\<close>

lemma table_sizes: "table_ok xp \<Longrightarrow> sizes_ok xp"
  by (auto simp: table_ok_def pass_ok_def)

lemma table_kept: "tokens_kept xp xp' \<Longrightarrow> table_ok xp' = table_ok xp"
  using pass_kept [OF kept_listeners, of xp xp' 0 0] by (simp add: table_ok_def) (simp add: tokens_kept_def)

lemma tokens_same: "tokens_kept xp xp' \<Longrightarrow> tokens xp' = tokens xp"
  by (simp add: tokens_kept_def tokens_def)

lemma between_start: "between n 0 0 xs = take n xs"
  by (simp add: between_def)

lemma newtoken_ok:
  assumes ok: "table_ok xp" and room: "pfdCount xp < pfdTotal xp"
  shows "\<exists>xp' t. newtoken (xp\<lparr>pfdCount := pfdCount xp + 1\<rparr>) (pfdCount xp) = Some xp' \<and> table_ok xp' \<and>
    tokens xp' = tokens xp @ [t] \<and> t \<notin> set (tokens xp) \<and> pfdCount xp' = pfdCount xp + 1 \<and> pfdTotal xp' = pfdTotal xp \<and>
    listenCount xp' = listenCount xp"
proof -
  let ?n = "pfdCount xp" and ?toks = "map sid (pss xp)"
  obtain fl where fl: "pass_ok xp 0 0 fl" and mx: "pfdMax xp = ?n" using ok by (auto simp: table_ok_def)
  have l: "length (pfd xp) = pfdTotal xp" "length (pss xp) = pfdTotal xp" "length (sidmap xp) = pfdTotal xp"
    using table_sizes [OF ok] by (simp_all add: sizes_ok_def)
  have d: "distinct (take ?n ?toks @ fl)" "set (take ?n ?toks @ fl) = {..<length (take ?n ?toks @ fl)}" "length (take ?n ?toks @ fl) \<le> pfdTotal xp"
    "free_chain (sidmap xp) (freesid xp) fl" using fl by (simp_all add: pass_ok_def Let_def between_start)
  have lead: "sidmap xp ! (?toks ! k) = int k" if "k < ?n" for k using fl that by (simp add: pass_ok_def Let_def)
  have mem: "?toks ! k \<in> set (take ?n ?toks)" if "k < ?n" for k using that l room by (auto simp: in_set_conv_nth)
  obtain t fl' where t: "t < pfdTotal xp" "t \<notin> set (take ?n ?toks)" "t \<notin> set fl'"
    "set (take ?n ?toks @ t # fl') = {..<length (take ?n ?toks @ t # fl')}" "distinct fl'" "set (take ?n ?toks) \<inter> set fl' = {}"
    "length (take ?n ?toks @ t # fl') \<le> pfdTotal xp"
    and new: "newtoken (xp\<lparr>pfdCount := ?n + 1\<rparr>) ?n =
      Some (xp\<lparr>pfdCount := ?n + 1, freesid := (if fl = [] then freesid xp else sidmap xp ! t), sidmap := (sidmap xp)[t := int ?n], pfdMax := ?n + 1,
        pss := (pss xp)[?n := (pss xp ! ?n)\<lparr>sid := t\<rparr>]\<rparr>)"
    and fc: "free_chain (sidmap xp) (if fl = [] then freesid xp else sidmap xp ! t) fl'"
  proof (cases fl)
    case Nil
    then have "set (take ?n ?toks) = {..<?n}" "freesid xp = - 1" using d l room by auto
    then show thesis using that [of ?n "[]"] room l d Nil mx by (auto simp: newtoken_def upd_pss_def mem_simps lessThan_Suc)
  next
    case (Cons t fl')
    then have "t < pfdTotal xp" using d(2,3) by (metis in_set_conv_decomp lessThan_iff order_less_le_trans)
    moreover have "freesid xp = int t" "free_chain (sidmap xp) (sidmap xp ! t) fl'" using d(4) Cons by simp_all
    ultimately show thesis using that [of t fl'] d(1-3) Cons l room mx by (simp add: newtoken_def upd_pss_def mem_simps Let_def)
  qed
  let ?y = "xp\<lparr>pfdCount := ?n + 1, freesid := (if fl = [] then freesid xp else sidmap xp ! t), sidmap := (sidmap xp)[t := int ?n], pfdMax := ?n + 1,
        pss := (pss xp)[?n := (pss xp ! ?n)\<lparr>sid := t\<rparr>]\<rparr>"
  have toks: "map sid (pss ?y) = ?toks[?n := t]" by (simp add: map_update)
  then have used: "take (?n + 1) (map sid (pss ?y)) = take ?n ?toks @ [t]" using l room by (simp add: take_Suc_conv_app_nth)
  have "pass_ok ?y 0 0 fl'"
  proof (rule pass_okI)
    show "between (pfdCount ?y) 0 0 (map sid (pss ?y)) = take ?n ?toks @ [t]" using used by (simp add: between_start)
    show "free_chain (sidmap ?y) (freesid ?y) fl'" using fc t(3) by (simp add: free_chain_update)
    show "sidmap ?y ! (map sid (pss ?y) ! k) = int k" if k: "k < pfdCount ?y" for k
    proof (cases "k = ?n")
      case True
      then show ?thesis using t(1) l room toks by simp
    next
      case False
      then have "k < ?n" using k by simp
      moreover from this have "?toks ! k \<noteq> t" using mem t(2) by metis
      ultimately show ?thesis using toks lead False by simp
    qed
    show "sizes_ok ?y" using l room by (simp add: sizes_ok_def)
  qed (use t d(1) in simp_all)
  then have "table_ok ?y" by (auto simp: table_ok_def)
  moreover have "tokens ?y = tokens xp @ [t]" using used by (simp add: tokens_def)
  ultimately show ?thesis using new t(2) by (simp add: tokens_def)
qed

lemma kept_length: "tokens_kept x y \<Longrightarrow> length (pss y) = length (pss x)"
  unfolding tokens_kept_def by (metis length_map)

lemma kept_room:
  assumes "tokens_kept x y" "sizes_ok x" "i < pfdCount x"
  shows "sizes_ok y" "i < length (pss y)"
proof -
  show y: "sizes_ok y" using sizes_kept [OF kept_listeners [OF assms(1)]] assms(2) by simp
  then show "i < length (pss y)" using assms(1,3) by (simp add: sizes_ok_def tokens_kept_def)
qed

lemma internaladd_ok:
  assumes ok: "table_ok xp" and room: "pfdCount xp < pfdTotal xp" and list: "qs_listener qs \<Longrightarrow> listenCount xp = pfdCount xp"
  shows "\<exists>c' xp' t. xs_pollfd_internaladd proc c xp qs = Some (c', xp') \<and> table_ok xp' \<and> pfdTotal xp' = pfdTotal xp \<and>
    tokens xp' = tokens xp @ [t] \<and> t \<notin> set (tokens xp)"
proof -
  let ?n = "pfdCount xp" 
  have mx: "pfdMax xp = ?n" using ok by (simp add: table_ok_def)
  have l: "?n < length (pfd xp)" using table_sizes [OF ok] room by (simp add: sizes_ok_def)
  obtain x0 where first: "(if qs_listener qs
                  then do { p \<leftarrow> rd (pfd xp) (pfdMax xp); ps \<leftarrow> wr (pfd xp) (listenCount xp) p;
                            Some (listenCount xp, xp\<lparr>listenCount := listenCount xp + 1, pfd := ps\<rparr>) }
                  else Some (pfdMax xp, xp)) = Some (?n, x0)"
    and x0: "table_ok x0" "tokens x0 = tokens xp" "pfdCount x0 = ?n" "pfdTotal x0 = pfdTotal xp"
  proof (rule that)
    let ?x0 = "if qs_listener qs then xp\<lparr>listenCount := listenCount xp + 1\<rparr> else xp"
    show "(if qs_listener qs
                  then do { p \<leftarrow> rd (pfd xp) (pfdMax xp); ps \<leftarrow> wr (pfd xp) (listenCount xp) p;
                            Some (listenCount xp, xp\<lparr>listenCount := listenCount xp + 1, pfd := ps\<rparr>) }
                  else Some (pfdMax xp, xp)) = Some (?n, ?x0)"
      using list l by (auto simp: mx mem_simps)
    show "table_ok ?x0" using ok by (auto simp: table_ok_def pass_ok_def sizes_ok_def)
    show "tokens ?x0 = tokens xp" "pfdCount ?x0 = ?n" "pfdTotal ?x0 = pfdTotal xp" by (simp_all add: tokens_def)
  qed
  obtain x2 t where x2: "newtoken (x0\<lparr>pfdCount := ?n + 1\<rparr>) ?n = Some x2" "table_ok x2" "tokens x2 = tokens xp @ [t]"
    "t \<notin> set (tokens xp)" "pfdCount x2 = ?n + 1" "pfdTotal x2 = pfdTotal xp"
    using newtoken_ok [OF x0(1)] room x0(2-4) by auto
  have s2: "sizes_ok x2" using table_sizes x2(2) by blast
  then obtain x3 where x3: "upd_pfd x2 ?n (\<lambda>p. p\<lparr>events := POLLIN, fd := qs_s qs\<rparr>) = Some x3"
    using upd_some(1) [of ?n x2] x2(5) by (auto simp: sizes_ok_def)
  have k3: "tokens_kept x2 x3" by (rule upd_pfd_kept [OF x3])
  have "?n < length (pss x3)" using s2 x2(5) upd_pfd_pss [OF x3] by (simp add: sizes_ok_def)
  then obtain x4 where x4: "upd_pss x3 ?n (\<lambda>p. p\<lparr>sa := qs_sa qs, cfd := 0\<rparr>) = Some x4" using upd_some(2) by blast
  then have k4: "tokens_kept x2 x4" using k3 upd_pss_kept [OF x4] tokens_kept_trans by fastforce
  then have s4: "sizes_ok x4" "?n < length (pss x4)" using kept_room [OF k4 s2, of ?n] x2(5) by simp_all
  then have r: "rd (pss x4) ?n = Some (pss x4 ! ?n)" by (simp add: mem_simps)
  obtain c1 x5 where x5: "poll_call proc c x4 exs_pollfd_New (qs_s qs) (int (sid (pss x4 ! ?n))) (qs_userdata qs) = Some (c1, x5)"
    using poll_call_some [OF s4(1), of proc c exs_pollfd_New "qs_s qs" "int (sid (pss x4 ! ?n))" "qs_userdata qs"] by blast
  have k5: "tokens_kept x2 x5" using k4 poll_call_kept [OF x5] tokens_kept_trans by blast
  have "?n < length (pss x5)" using kept_room [OF k5 s2, of ?n] x2(5) by simp
  then obtain y where y: "upd_pss x5 ?n (\<lambda>p. p\<lparr>cfd := qs_userdata qs\<rparr>) = Some y" using upd_some(2) by blast
  let ?x6 = "if qs_listener qs then y else x5"
  have k6: "tokens_kept x2 (xs_pollfd_setrunning ?x6 1)" using k5 upd_pss_kept [OF y] tokens_kept_trans by fastforce
  have "xs_pollfd_internaladd proc c xp qs = Some (c1, xs_pollfd_setrunning ?x6 1)"
    unfolding xs_pollfd_internaladd_def first using x2(1) x0(3) x3 x4 r x5 y by auto
  then show ?thesis using table_kept [OF k6] tokens_same [OF k6] x2(2-4,6) k6 by (auto simp: tokens_kept_def)
qed

lemma take_new_ok:
  assumes "table_ok xp" "\<forall>q \<in> set qs. \<not> qs_listener q"
  shows "\<exists>c' xp' ts k. take_new proc qs c xp = Some (c', xp', drop k qs) \<and> table_ok xp' \<and> pfdTotal xp' = pfdTotal xp \<and>
    tokens xp' = tokens xp @ ts \<and> length ts = k \<and> k = min (length qs) (pfdTotal xp - pfdCount xp)"
  using assms
proof (induction qs arbitrary: c xp)
  case Nil
  then show ?case by auto
next
  case (Cons q qs)
  show ?case
  proof (cases "pfdCount xp < pfdTotal xp")
    case True
    then obtain c1 x1 t where x1: "xs_pollfd_internaladd proc c xp q = Some (c1, x1)" "table_ok x1" "pfdTotal x1 = pfdTotal xp"
      "tokens x1 = tokens xp @ [t]" using internaladd_ok [OF Cons.prems(1)] Cons.prems(2) by fastforce
    have "length (tokens x1) = pfdCount x1" "length (tokens xp) = pfdCount xp" using table_sizes x1(2) Cons.prems(1)
      by (auto simp: tokens_def sizes_ok_def)
    then have "pfdCount x1 = pfdCount xp + 1" using x1(4) by simp
    moreover obtain c' xp' ts k where "take_new proc qs c1 x1 = Some (c', xp', drop k qs)" "table_ok xp'" "pfdTotal xp' = pfdTotal x1"
      "tokens xp' = tokens x1 @ ts" "length ts = k" "k = min (length qs) (pfdTotal x1 - pfdCount x1)"
      using Cons.IH [OF x1(2), of c1] Cons.prems(2) by auto
    ultimately show ?thesis using True x1 by (intro exI [of _ c'] exI [of _ xp'] exI [of _ "t # ts"] exI [of _ "Suc k"]) auto
  next
    case False
    then show ?thesis using Cons.prems(1) by auto
  qed
qed

lemma set_revents_kept: "tokens_kept xp (set_revents xp rv)"
  by (simp add: tokens_kept_def set_revents_def)

subsection \<open>Lemmas: a round\<close>

definition conns :: "xs_queuesock list \<Rightarrow> bool" where
  "conns qs \<longleftrightarrow> (\<forall>q \<in> set qs. \<not> qs_listener q)"

lemma poll_serve_conns: "poll_serve proc st i = Some st' \<Longrightarrow> conns (ps_queue st) \<Longrightarrow> conns (ps_queue st')"
  by (drule poll_serve_eq) (auto simp: bind_eq_Some_conv conns_def split: if_split_asm list.splits)

lemma poll_loop_step:
  assumes "i < pfdCount (ps_xp st)" "poll_loop proc st i ip = Some r"
  shows "\<exists>st1 x2 ip2. poll_serve proc st i = Some st1 \<and> poll_keep (ps_xp st1) i ip = Some (x2, ip2) \<and>
     (if xp_running x2 < 0 then Some (st1\<lparr>ps_xp := x2\<rparr>, ip2) else poll_loop proc (st1\<lparr>ps_xp := x2\<rparr>) (i + 1) ip2) = Some r"
proof -
  have l: "(case poll_serve proc st i of None \<Rightarrow> None
         | Some st1 \<Rightarrow>
             (case poll_keep (ps_xp st1) i ip of None \<Rightarrow> None
              | Some (x2, ip2) \<Rightarrow> if xp_running x2 < 0 then Some (st1\<lparr>ps_xp := x2\<rparr>, ip2)
                  else poll_loop proc (st1\<lparr>ps_xp := x2\<rparr>) (i + 1) ip2)) = Some r"
    using assms(2) unfolding poll_loop.simps [of proc st i ip] if_P [OF assms(1)] .
  then obtain st1 where st1: "poll_serve proc st i = Some st1" by (cases "poll_serve proc st i") auto
  then obtain x2 ip2 where "poll_keep (ps_xp st1) i ip = Some (x2, ip2)" using l by (cases "poll_keep (ps_xp st1) i ip") auto
  then show ?thesis using l st1 by (simp only: option.case prod.case) blast
qed

lemma poll_loop_conns: "poll_loop proc st i ip = Some (st', ip') \<Longrightarrow> conns (ps_queue st) \<Longrightarrow> conns (ps_queue st')"
proof (induction proc st i ip rule: poll_loop.induct)
  case (1 proc st i ip)
  show ?case
  proof (cases "i < pfdCount (ps_xp st)")
    case True
    then obtain st1 x2 ip2 where s: "poll_serve proc st i = Some st1" "poll_keep (ps_xp st1) i ip = Some (x2, ip2)"
      "(if xp_running x2 < 0 then Some (st1\<lparr>ps_xp := x2\<rparr>, ip2) else poll_loop proc (st1\<lparr>ps_xp := x2\<rparr>) (i + 1) ip2) = Some (st', ip')"
      using poll_loop_step [OF True 1(2)] by blast
    have "conns (ps_queue st1)" using poll_serve_conns [OF s(1) 1(3)] .
    then show ?thesis using 1(1) [OF True s(1,2) refl] s(3) by (auto split: if_split_asm)
  next
    case False
    then have "poll_loop proc st i ip = Some (st, ip)" by (subst poll_loop.simps) simp
    then show ?thesis using 1(2,3) by simp
  qed
qed

definition queue_ok :: "'c poll_state \<Rightarrow> bool" where
  \<comment> \<open>at most the first socket of the queue listens, and then there is room for it and only listening sockets are in the table\<close>
  "queue_ok st = (case ps_queue st of [] \<Rightarrow> True
     | q # qs \<Rightarrow> conns qs \<and> (qs_listener q \<longrightarrow> pfdCount (ps_xp st) < pfdTotal (ps_xp st) \<and> listenCount (ps_xp st) = pfdCount (ps_xp st)))"

lemma conns_queue_ok: "conns (ps_queue st) \<Longrightarrow> queue_ok st"
  by (simp add: queue_ok_def conns_def split: list.splits)

lemma table_count: "table_ok xp \<Longrightarrow> length (tokens xp) = pfdCount xp"
  using table_sizes [of xp] by (simp add: tokens_def sizes_ok_def)

lemma take_queue_ok:
  assumes "table_ok (ps_xp st)" "queue_ok st"
  shows "\<exists>c' xp' ts q'. take_new proc (ps_queue st) c (ps_xp st) = Some (c', xp', q') \<and> table_ok xp' \<and> pfdTotal xp' = pfdTotal (ps_xp st) \<and>
    tokens xp' = tokens (ps_xp st) @ ts \<and> conns q'"
proof (cases "ps_queue st")
  case Nil
  then show ?thesis using assms(1) by (auto simp: conns_def)
next
  case (Cons q qs)
  have qs: "\<forall>q \<in> set qs. \<not> qs_listener q" "conns (drop k qs)" for k
    using assms(2) by (auto simp: Cons queue_ok_def conns_def dest: in_set_dropD)
  show ?thesis
  proof (cases "pfdCount (ps_xp st) < pfdTotal (ps_xp st)")
    case True
    then obtain c1 x1 t where x1: "xs_pollfd_internaladd proc c (ps_xp st) q = Some (c1, x1)" "table_ok x1" "pfdTotal x1 = pfdTotal (ps_xp st)"
      "tokens x1 = tokens (ps_xp st) @ [t]"
      using internaladd_ok [OF assms(1) True, of q proc c] assms(2) by (auto simp: Cons queue_ok_def)
    then show ?thesis using take_new_ok [OF x1(2) qs(1), of proc c1] True qs(2) by (fastforce simp: Cons)
  next
    case False
    then have "\<not> qs_listener q" using assms(2) by (auto simp: Cons queue_ok_def)
    then show ?thesis using False assms(1) qs(1) by (auto simp: Cons conns_def)
  qed
qed

lemma poll_round_ok:
  assumes ok: "table_ok (ps_xp st)" "queue_ok st"
  shows "\<exists>st'. poll_round proc st rret rv = Some st' \<and> sizes_ok (ps_xp st') \<and> pfdTotal (ps_xp st') = pfdTotal (ps_xp st) \<and>
    (0 < xp_running (ps_xp st') \<longrightarrow> table_ok (ps_xp st') \<and> conns (ps_queue st') \<and>
      (\<exists>ts. subseq (tokens (ps_xp st')) (tokens (ps_xp st) @ ts)))"
proof -
  obtain c1 x1 ts q where x1: "take_new proc (ps_queue st) (ps_user st) (ps_xp st) = Some (c1, x1, q)" "table_ok x1"
    "pfdTotal x1 = pfdTotal (ps_xp st)" "tokens x1 = tokens (ps_xp st) @ ts" "conns q"
    using take_queue_ok [OF ok, of proc "ps_user st"] by blast
  obtain c2 x2 where x2: "poll_call proc c1 x1 exs_pollfd_Idle 0 (- 1) 0 = Some (c2, x2)"
    using poll_call_some [OF table_sizes [OF x1(2)], of proc c1 exs_pollfd_Idle 0 "- 1" 0] by blast
  define x3 where "x3 = xs_pollfd_setrunning (set_revents (xs_pollfd_setrunning x2 1) rv) 1"
  have "tokens_kept x2 x3" using set_revents_kept [of "xs_pollfd_setrunning x2 1" rv] by (simp add: x3_def)
  then have k: "tokens_kept x1 x3" using poll_call_kept [OF x2] tokens_kept_trans by blast
  then have x3: "table_ok x3" "tokens x3 = tokens (ps_xp st) @ ts" "pfdTotal x3 = pfdTotal (ps_xp st)"
    using table_kept [OF k] tokens_same [OF k] x1(2-4) k by (simp_all add: tokens_kept_def)
  let ?st1 = "st\<lparr>ps_user := c2, ps_xp := x3, ps_queue := q\<rparr>"
  have r: "poll_round proc st rret rv = (if rret \<noteq> 0 \<and> xp_running x3 > 0 then do {
       (st2, ip) \<leftarrow> poll_loop proc ?st1 0 0;
       Some (if xp_running (ps_xp st2) > 0 then st2\<lparr>ps_xp := (ps_xp st2)\<lparr>pfdMax := ip, pfdCount := ip\<rparr>\<rparr> else st2) }
     else Some ?st1)"
    by (simp add: poll_round_def x1(1) x2 x3_def Let_def)
  show ?thesis
  proof (cases "rret \<noteq> 0 \<and> xp_running x3 > 0")
    case True
    obtain fl where fl: "pass_ok (ps_xp ?st1) 0 0 fl" using x3(1) by (auto simp: table_ok_def)
    from poll_loop_ok [OF fl, of proc] obtain st2 ip fl' i' where
      l: "poll_loop proc ?st1 0 0 = Some (st2, ip)" "pass_ok (ps_xp st2) i' ip fl'"
        "0 \<le> xp_running (ps_xp st2) \<longrightarrow> i' = pfdCount (ps_xp st2)"
      and l': "pfdTotal (ps_xp st2) = pfdTotal (ps_xp ?st1)" "pfdCount (ps_xp st2) = pfdCount (ps_xp ?st1)"
        "subseq (between (pfdCount (ps_xp ?st1)) i' ip (map sid (pss (ps_xp st2)))) (between (pfdCount (ps_xp ?st1)) 0 0 (map sid (pss (ps_xp ?st1))))"
      by blast
    have l'': "pfdTotal (ps_xp st2) = pfdTotal (ps_xp st)" "pfdCount (ps_xp st2) = pfdCount x3"
      "subseq (between (pfdCount x3) i' ip (map sid (pss (ps_xp st2)))) (tokens x3)"
      using l' x3(3) by (simp_all add: between_start tokens_def)
    note l = l l''
    let ?x = "(ps_xp st2)\<lparr>pfdMax := ip, pfdCount := ip\<rparr>"
    have "table_ok ?x \<and> subseq (tokens ?x) (tokens (ps_xp st) @ ts)" if "0 < xp_running (ps_xp st2)"
    proof -
      have i': "i' = pfdCount (ps_xp st2)" using l(3) that by simp
      have b: "between (pfdCount (ps_xp st2)) i' ip (map sid (pss (ps_xp st2))) = take ip (map sid (pss (ps_xp st2)))"
        by (simp add: between_def i')
      have m: "min (length (pss (ps_xp st2))) ip = ip" using l(2) by (auto simp: pass_ok_def sizes_ok_def)
      have "pass_ok ?x 0 0 fl'"
      proof (rule pass_okI)
        show "between (pfdCount ?x) 0 0 (map sid (pss ?x)) = take ip (map sid (pss (ps_xp st2)))" by (simp add: between_start)
        show "sidmap ?x ! (map sid (pss ?x) ! k) = int k" if "k < pfdCount ?x" for k
          using l(2) that unfolding pass_ok_def Let_def i' by simp
      qed (use l(2) in \<open>simp_all only: pass_ok_def Let_def b, simp_all add: sizes_ok_def i' m\<close>)
      then show ?thesis using l(5,6) b x3(2) by (auto simp: table_ok_def tokens_def)
    qed
    moreover have "conns (ps_queue st2)" using poll_loop_conns [OF l(1)] x1(5) by simp
    moreover have "sizes_ok (ps_xp st2)" "sizes_ok ?x" using l(2) by (auto simp: pass_ok_def sizes_ok_def)
    ultimately show ?thesis using r True l(1,4) by auto
  next
    case False
    then have "poll_round proc st rret rv = Some ?st1" using r by (simp only: if_False)
    then show ?thesis using x3 x1(5) table_sizes by auto
  qed
qed

lemma polled_ok: "polled proc n st \<Longrightarrow> sizes_ok (ps_xp st) \<and> pfdTotal (ps_xp st) = n \<and> (0 < xp_running (ps_xp st) \<longrightarrow> table_ok (ps_xp st) \<and> queue_ok st)"
proof (induction rule: polled.induct)
  case (start c)
  have "table_ok ((xs_pollfd_Init n)\<lparr>xp_running := 1\<rparr>)" using init_ok [of n] by (auto simp: table_ok_def pass_ok_def sizes_ok_def)
  then show ?case using table_sizes by (simp add: queue_ok_def xs_pollfd_Init_def)
next
  case (push st q)
  then show ?case by (auto simp: queue_ok_def conns_def split: list.splits)
next
  case (round st rret rv st')
  then have "table_ok (ps_xp st)" "queue_ok st" by simp_all
  from poll_round_ok [OF this, of proc rret rv] show ?case using round conns_queue_ok by auto
qed (auto simp: queue_ok_def split: list.splits)

lemma table_token:
  assumes "table_ok xp" "k < pfdCount xp"
  shows "xptok_ind xp (int (sid (pss xp ! k))) = Some (int k)"
proof -
  obtain fl where fl: "pass_ok xp 0 0 fl" using assms(1) by (auto simp: table_ok_def)
  have l: "k < length (pss xp)" "length (sidmap xp) = pfdTotal xp" using table_sizes [OF assms(1)] assms(2) by (auto simp: sizes_ok_def)
  have "sidmap xp ! (map sid (pss xp) ! k) = int k" using fl assms(2) unfolding pass_ok_def Let_def by blast
  then have "sidmap xp ! sid (pss xp ! k) = int k" using l by simp
  have "sid (pss xp ! k) \<in> set (take (pfdCount xp) (map sid (pss xp)))" using l assms(2) by (force simp: in_set_conv_nth)
  moreover have "set (take (pfdCount xp) (map sid (pss xp)) @ fl) \<subseteq> {..<pfdTotal xp}"
    using fl by (simp only: pass_ok_def Let_def between_start lessThan_subset_iff)
  ultimately have "sid (pss xp ! k) < pfdTotal xp" by auto
  note this \<open>sidmap xp ! sid (pss xp ! k) = int k\<close>
  then show ?thesis using l assms(2) by (simp add: xptok_ind_def mem_simps)
qed

lemma table_distinct: "table_ok xp \<Longrightarrow> distinct (tokens xp)"
  by (auto simp: table_ok_def pass_ok_def Let_def between_start tokens_def)

lemma polled_tokens:
  assumes "polled proc n st" "0 < xp_running (ps_xp st)"
  shows "\<exists>st'. poll_round proc st rret rv = Some st'" "distinct (tokens (ps_xp st))"
    "k < pfdCount (ps_xp st) \<Longrightarrow> xptok_ind (ps_xp st) (int (sid (pss (ps_xp st) ! k))) = Some (int k)"
proof -
  have ok: "table_ok (ps_xp st)" "queue_ok st" using polled_ok assms by blast+
  show "\<exists>st'. poll_round proc st rret rv = Some st'" using poll_round_ok [OF ok] by blast
  show "distinct (tokens (ps_xp st))" by (rule table_distinct [OF ok(1)])
  show "k < pfdCount (ps_xp st) \<Longrightarrow> xptok_ind (ps_xp st) (int (sid (pss (ps_xp st) ! k))) = Some (int k)" by (rule table_token [OF ok(1)])
qed

lemma exit_entries_some:
  assumes "sizes_ok xp" "\<forall>i \<in> set is. i < pfdTotal xp"
  shows "\<exists>c' xp' cl'. exit_entries proc is c xp cl = Some (c', xp', cl') \<and> tokens_kept xp xp'"
  using assms
proof (induction "is" arbitrary: c xp cl)
  case (Cons i "is")
  let ?p = "pfd xp ! i" and ?s = "pss xp ! i"
  have l: "i < pfdTotal xp" "length (pfd xp) = pfdTotal xp" "length (pss xp) = pfdTotal xp" using Cons.prems by (simp_all add: sizes_ok_def)
  obtain c1 cmds where c: "proc c xp exs_pollfd_Delete (fd ?p) (int (sid ?s)) (cfd ?s) = (c1, cmds)" by force
  obtain x1 where x1: "poll_dos cmds xp = Some x1" using poll_dos_some [OF Cons.prems(1)] by blast
  have k1: "tokens_kept xp x1" by (rule poll_dos_kept [OF x1])
  then obtain x2 where x2: "upd_pfd x1 i (\<lambda>p. p\<lparr>fd := 0\<rparr>) = Some x2" using upd_some(1) [of i x1] l by (auto simp: tokens_kept_def)
  have k2: "tokens_kept xp x2" using k1 upd_pfd_kept [OF x2] tokens_kept_trans by blast
  then have "length (pss x2) = pfdTotal xp" using kept_length [OF k2] l by simp
  then obtain x3 where x3: "upd_pss x2 i (\<lambda>p. p\<lparr>cfd := 0\<rparr>) = Some x3" using upd_some(2) [of i x2] l by auto
  have k3: "tokens_kept xp x3" using k2 upd_pss_kept [OF x3] tokens_kept_trans by fastforce
  have "sizes_ok x3" "pfdTotal x3 = pfdTotal xp" using sizes_kept [OF kept_listeners [OF k3]] Cons.prems(1) k3 by (simp_all add: tokens_kept_def)
  then obtain c' xp' cl' where "exit_entries proc is c1 x3 (cl @ (if 0 < fd ?p then [fd ?p] else [])) = Some (c', xp', cl')" "tokens_kept x3 xp'"
    using Cons.IH [of x3 c1 "cl @ (if 0 < fd ?p then [fd ?p] else [])"] Cons.prems(2) by auto
  then show ?case using l c x1 x2 x3 tokens_kept_trans [OF k3] by (simp add: mem_simps)
qed simp

lemma exit_entries_closed:
  assumes "\<And>c xp msg sock token data. snd (proc c xp msg sock token data) = []" "distinct is"
    and "exit_entries proc is c xp cl = Some (c', xp', cl')"
  shows "cl' = cl @ filter (\<lambda>f. 0 < f) (map (\<lambda>i. fd (pfd xp ! i)) is)"
  using assms(2,3)
proof (induction "is" arbitrary: c xp cl)
  case (Cons i "is")
  let ?p = "pfd xp ! i" and ?s = "pss xp ! i"
  obtain c1 where c1: "proc c xp exs_pollfd_Delete (fd ?p) (int (sid ?s)) (cfd ?s) = (c1, [])"
    using assms(1) [of c xp exs_pollfd_Delete "fd ?p" "int (sid ?s)" "cfd ?s"] by (metis prod.collapse)
  have r: "rd (pfd xp) i = Some ?p" "rd (pss xp) i = Some ?s" using Cons.prems(2) by (auto simp: rd_def split: if_split_asm)
  then obtain x2 x3 where x: "upd_pfd xp i (\<lambda>p. p\<lparr>fd := 0\<rparr>) = Some x2" "upd_pss x2 i (\<lambda>p. p\<lparr>cfd := 0\<rparr>) = Some x3"
    "exit_entries proc is c1 x3 (cl @ (if 0 < fd ?p then [fd ?p] else [])) = Some (c', xp', cl')"
    using Cons.prems(2) c1 by (auto simp: bind_eq_Some_conv)
  have "pfd x3 ! j = pfd xp ! j" if "j \<noteq> i" for j
    using x(1,2) that by (auto simp: upd_pfd_def upd_pss_def wr_def bind_eq_Some_conv split: if_split_asm)
  then have "\<forall>j \<in> set is. pfd x3 ! j = pfd xp ! j" using Cons.prems(1) by (metis distinct.simps(2))
  then have "map (\<lambda>j. fd (pfd x3 ! j)) is = map (\<lambda>j. fd (pfd xp ! j)) is" by simp
  from Cons.IH [OF _ x(3), unfolded this] show ?case using Cons.prems(1) by simp
qed simp

lemma poll_exit_ok:
  assumes "sizes_ok (ps_xp st)"
  shows "\<exists>st'. poll_exit proc st = Some st' \<and> xptok_ind (ps_xp st') t = Some (- 1) \<and>
    ((\<forall>c xp msg sock token data. snd (proc c xp msg sock token data) = []) \<longrightarrow>
      ps_closed st' = ps_closed st @ filter (\<lambda>f. 0 < f) (map fd (take (pfdCount (ps_xp st)) (pfd (ps_xp st)))))"
proof -
  let ?x0 = "xs_pollfd_setrunning (ps_xp st) (- 1)"
  have s0: "sizes_ok ?x0" "\<forall>i \<in> set [0..<pfdCount ?x0]. i < pfdTotal ?x0" using assms by (auto simp: sizes_ok_def)
  from exit_entries_some [OF this, of proc "ps_user st" "ps_closed st"] obtain c' xp' cl' where
    e: "exit_entries proc [0..<pfdCount ?x0] (ps_user st) ?x0 (ps_closed st) = Some (c', xp', cl')" and k: "tokens_kept ?x0 xp'" by blast
  have "length (sidmap xp') = pfdTotal xp'" using sizes_kept [OF kept_listeners [OF k]] s0(1) by (simp add: sizes_ok_def)
  then have t: "xptok_ind (xp'\<lparr>pfdCount := 0\<rparr>) t = Some (- 1)" by (auto simp: xptok_ind_def mem_simps)
  have "map (\<lambda>i. fd (pfd ?x0 ! i)) [0..<pfdCount ?x0] = map fd (take (pfdCount (ps_xp st)) (pfd (ps_xp st)))"
    using assms by (intro nth_equalityI) (simp_all add: sizes_ok_def)
  then have "cl' = ps_closed st @ filter (\<lambda>f. 0 < f) (map fd (take (pfdCount (ps_xp st)) (pfd (ps_xp st))))"
    if "\<forall>c xp msg sock token data. snd (proc c xp msg sock token data) = []"
    using exit_entries_closed [OF _ _ e] that by simp
  then show ?thesis using e t by (simp add: poll_exit_def Let_def)
qed

subsection \<open>User data\<close>

lemma token_entry:
  assumes "table_ok xp" "t \<in> set (tokens xp)"
  obtains k where "k < pfdCount xp" "k < length (pss xp)" "sid (pss xp ! k) = t" "xptok_ind xp (int t) = Some (int k)"
proof -
  obtain k where "k < pfdCount xp" "k < length (pss xp)" "sid (pss xp ! k) = t"
    using assms(2) by (auto simp: tokens_def in_set_conv_nth)
  then show thesis using that table_token [OF assms(1)] by blast
qed

lemma userdata_get:
  assumes "table_ok xp" "k < pfdCount xp"
  shows "xs_pollfd_getsocket_userdata xp (int (sid (pss xp ! k))) = Some (cfd (pss xp ! k))"
  using table_token [OF assms] table_sizes [OF assms(1)] assms(2) by (simp add: xs_pollfd_getsocket_userdata_def sizes_ok_def mem_simps)

lemma userdata_set:
  assumes ok: "table_ok xp" and t: "t \<in> set (tokens xp)"
  shows "\<exists>xp'. xs_pollfd_setsocket_userdata xp (int t) d = Some (xp', 0) \<and> table_ok xp' \<and> tokens xp' = tokens xp \<and>
    (\<forall>u \<in> set (tokens xp). xs_pollfd_getsocket_userdata xp' (int u) = (if u = t then Some d else xs_pollfd_getsocket_userdata xp (int u)))"
proof -
  obtain k where k: "k < pfdCount xp" "k < length (pss xp)" "sid (pss xp ! k) = t" "xptok_ind xp (int t) = Some (int k)"
    using token_entry [OF assms] .
  let ?y = "xp\<lparr>pss := (pss xp)[k := (pss xp ! k)\<lparr>cfd := d\<rparr>]\<rparr>"
  have u: "upd_pss xp k (\<lambda>p. p\<lparr>cfd := d\<rparr>) = Some ?y" using k(2) by (simp add: upd_pss_def mem_simps)
  have kept: "tokens_kept xp ?y" using upd_pss_kept [OF u] by simp
  have y: "table_ok ?y" "tokens ?y = tokens xp" using table_kept [OF kept] tokens_same [OF kept] ok by simp_all
  have "xs_pollfd_getsocket_userdata ?y (int v) = (if v = t then Some d else xs_pollfd_getsocket_userdata xp (int v))" if v: "v \<in> set (tokens xp)" for v
  proof -
    obtain j where j: "j < pfdCount xp" "j < length (pss xp)" "sid (pss xp ! j) = v" using token_entry [OF ok v] by metis
    have s: "sid (pss ?y ! j) = v" using j by (cases "j = k") auto
    have "xs_pollfd_getsocket_userdata ?y (int v) = Some (cfd (pss ?y ! j))" using userdata_get [OF y(1), of j] j(1) s by simp
    moreover have "v = t \<Longrightarrow> j = k" using table_token [OF ok j(1), unfolded j(3)] k(4) by simp
    moreover have "j = k \<Longrightarrow> v = t" using j(3) k(3) by simp
    ultimately show ?thesis using userdata_get [OF ok j(1), unfolded j(3)] j(2) k(2) by (cases "j = k") auto
  qed
  moreover have "xs_pollfd_setsocket_userdata xp (int t) d = Some (?y, 0)" using k(4) u by (simp add: xs_pollfd_setsocket_userdata_def)
  ultimately show ?thesis using y by blast
qed

subsection \<open>Three sockets, of which two close\<close>

definition quiet :: "nat handler" where
  \<comment> \<open>a handler that counts the messages\<close>
  "quiet c xp msg sock token data = (c + 1, [])"

definition sock_of :: "int \<Rightarrow> xs_queuesock" where
  "sock_of s = \<lparr>qs_s = s, qs_listener = False, qs_sa = 0, qs_userdata = 0\<rparr>"

definition fresh_thread :: "nat \<Rightarrow> nat poll_state" where
  "fresh_thread n = \<lparr>ps_user = 0, ps_xp = (xs_pollfd_Init n)\<lparr>xp_running := 1\<rparr>, ps_accept = [], ps_queue = [], ps_closed = []\<rparr>"

definition clearing :: "nat handler" where
  \<comment> \<open>a handler that clears the sockets that are gone, and in the idle message of the second round the tokens 0 and 1\<close>
  "clearing c xp msg sock token data =
     (c + 1, if msg = exs_pollfd_Error \<or> msg = exs_pollfd_Delete then [Clear token]
             else if msg = exs_pollfd_Idle \<and> c = 4 then [Clear 0, Clear 1] else [])"

definition two_rounds :: "nat poll_state option" where
  "two_rounds = do {
     st1 \<leftarrow> poll_round clearing ((fresh_thread 4)\<lparr>ps_queue := [sock_of 7, sock_of 8, sock_of 9]\<rparr>) 1 (\<lambda>_. 0);
     poll_round clearing st1 1 (\<lambda>_. 0) }"

lemma quiet_polled: "polled quiet 4 ((fresh_thread 4)\<lparr>ps_queue := [sock_of 7]\<rparr>)"
proof -
  have "polled quiet 4 (fresh_thread 4)" unfolding fresh_thread_def by (rule polled.start)
  from polled.push [OF this, of "sock_of 7"] show ?thesis by (simp add: sock_of_def fresh_thread_def)
qed

text \<open>C11: the table of a polling thread stays well formed. In every state between two rounds, whatever the handler does in its
  callbacks, whatever \<open>poll\<close> and \<open>accept\<close> returned and whatever connections came in, no two entries have the same token,
  each token in use leads to its own entry, and the next round finishes with none of its assertions failing; listening sockets may
  come in while the table holds no connection.\<close>

theorem xs_pollfd_table:
  assumes "polled proc n st" "0 < xp_running (ps_xp st)"
  shows "distinct (tokens (ps_xp st)) \<and> (\<exists>st'. poll_round proc st rret rv = Some st') \<and>
    (\<forall>k < pfdCount (ps_xp st). xptok_ind (ps_xp st) (int (sid (pss (ps_xp st) ! k))) = Some (int k))"
  using polled_tokens [OF assms] by blast

theorem xs_pollfd_table_witness:
  "let st = (fresh_thread 4)\<lparr>ps_queue := [sock_of 7]\<rparr> in distinct (tokens (ps_xp st)) \<and> (\<exists>st'. poll_round quiet st 0 (\<lambda>_. 0) = Some st')"
  using xs_pollfd_table [OF quiet_polled, of 0 "\<lambda>_. 0"] by (simp add: Let_def fresh_thread_def xs_pollfd_Init_def)

text \<open>C26: the user data of a socket. In a well-formed table, \<open>xs_pollfd_setsocket_userdata\<close> with the token of a socket succeeds,
  \<open>xs_pollfd_getsocket_userdata\<close> then reads what was stored, the other sockets keep theirs, and the tokens stay.\<close>

theorem xs_pollfd_userdata:
  assumes "table_ok xp" "t \<in> set (tokens xp)"
  shows "\<exists>xp'. xs_pollfd_setsocket_userdata xp (int t) d = Some (xp', 0) \<and> table_ok xp' \<and> tokens xp' = tokens xp \<and>
    (\<forall>u \<in> set (tokens xp). xs_pollfd_getsocket_userdata xp' (int u) = (if u = t then Some d else xs_pollfd_getsocket_userdata xp (int u)))"
  by (rule userdata_set [OF assms])




lemma internaladd_listener_loses:
  \<comment> \<open>a listening socket while the table holds a connection: the descriptor of the connection is gone\<close>
  "map_option (\<lambda>st. map fd (pfd (ps_xp st))) (do {
     st \<leftarrow> poll_round quiet ((fresh_thread 3)\<lparr>ps_queue := [sock_of 7]\<rparr>) 0 (\<lambda>_. 0);
     poll_round quiet (st\<lparr>ps_queue := [(sock_of 8)\<lparr>qs_listener := True\<rparr>]\<rparr>) 0 (\<lambda>_. 0) }) = Some [8, 0, 0]"
  by code_simp

lemma listeners_fail_together:
  \<comment> \<open>two listening sockets fail in one round: only the first is counted off, and the connection that is left counts as listening\<close>
  "map_option (\<lambda>st. (map fd (take (pfdCount (ps_xp st)) (pfd (ps_xp st))), listenCount (ps_xp st), ps_closed st)) (
     poll_round clearing ((fresh_thread 3)\<lparr>ps_queue := [(sock_of 7)\<lparr>qs_listener := True\<rparr>, (sock_of 8)\<lparr>qs_listener := True\<rparr>, sock_of 9]\<rparr>) 1
       (\<lambda>k. if k < 2 then POLLERR else 0)) = Some ([9], 1, [7])"
  by code_simp

lemma fresh_thread_table:
  "\<exists>xp. map_option ps_xp (poll_round quiet ((fresh_thread 2)\<lparr>ps_queue := [sock_of 7]\<rparr>) 0 (\<lambda>_. 0)) = Some xp \<and> table_ok xp \<and> 0 \<in> set (tokens xp)"
proof -
  let ?st = "(fresh_thread 2)\<lparr>ps_queue := [sock_of 7]\<rparr>"
  have "table_ok (ps_xp ?st)" using init_ok [of 2] by (auto simp: fresh_thread_def table_ok_def pass_ok_def sizes_ok_def)
  moreover have "queue_ok ?st" by (simp add: queue_ok_def conns_def sock_of_def)
  ultimately obtain st' where st': "poll_round quiet ?st 0 (\<lambda>_. 0) = Some st'" "0 < xp_running (ps_xp st') \<longrightarrow> table_ok (ps_xp st')"
    using poll_round_ok [of ?st quiet 0 "\<lambda>_. 0"] by blast
  have "map_option (\<lambda>st. (xp_running (ps_xp st), tokens (ps_xp st))) (poll_round quiet ?st 0 (\<lambda>_. 0)) = Some (1, [0])" by code_simp
  then show ?thesis using st' by auto
qed

theorem xs_pollfd_userdata_witness:
  "\<exists>xp xp'. xs_pollfd_setsocket_userdata xp (int 0) 5 = Some (xp', 0) \<and> xs_pollfd_getsocket_userdata xp' (int 0) = Some 5"
proof -
  obtain xp where "table_ok xp" "0 \<in> set (tokens xp)" using fresh_thread_table by blast
  then show ?thesis using xs_pollfd_userdata [of xp 0 5] by metis
qed

end
