(* ===== verification/Fileinfo.thy ===== *)
theory Fileinfo
  imports Utils
begin

text \<open>
  The file cache \<open>xs/xs_fileinfo.h\<close>: the table of what is known about files, with their mapped contents, and the
  locks around it.

  The file system is a parameter: what is at a path at the moment of the call. A mapping holds the contents the
  file had when it was mapped (a file is replaced, not overwritten in place). The hash table is a map from paths;
  its entries are never removed, so a path also stands for the pointer to its entry. A loop that waits for another
  thread gives \<open>None\<close> in the one-thread functions; the readers' and writers' lock is also a program of single
  accesses (\<open>lock_step\<close>) that any number of threads interleave. The POSIX build with \<open>mmap\<close> is modelled.
\<close>

subsection \<open>Files and their entries\<close>

datatype fs_node = Fs_file "byte list" int bool | Fs_dir nat int
  \<comment> \<open>contents, modification time and whether it can be opened; size and modification time\<close>

type_synonym file_system = "byte list \<Rightarrow> fs_node option"

record xs_fileinfo =
  fi_status :: int
  fi_readcount :: int
  fi_check_time :: int
  fi_stat_ret :: int
  fi_size :: nat
  fi_msize :: nat
  fi_mtime :: int
  fi_folder_mod :: int
  fi_isdir :: bool
  fi_data :: "byte list option"
  fi_userinfo :: nat

definition fileinfo_zero :: xs_fileinfo where
  "fileinfo_zero = \<lparr>fi_status = 0, fi_readcount = 0, fi_check_time = 0, fi_stat_ret = 0, fi_size = 0, fi_msize = 0,
     fi_mtime = 0, fi_folder_mod = 0, fi_isdir = False, fi_data = None, fi_userinfo = 0\<rparr>"

primrec path_back :: "byte list \<Rightarrow> nat \<Rightarrow> nat" where
  \<comment> \<open>back to the last separator, or to the start\<close>
  "path_back f 0 = 0"
| "path_back f (Suc i) = (if at0 f (Suc i) \<noteq> 92 \<and> at0 f (Suc i) \<noteq> 47 then path_back f i else Suc i)"

definition xs_path_getdirectory :: "byte list \<Rightarrow> nat \<Rightarrow> byte list \<Rightarrow> (byte list \<times> int) option" where
  "xs_path_getdirectory dirpath maxpath filepath =
     (let ch = path_back filepath (length filepath) in do {
        d \<leftarrow> (if ch = 0 \<or> maxpath \<noteq> 0 \<and> ch + 1 > maxpath - 1 then wr dirpath 0 0
             else do { d1 \<leftarrow> blit dirpath 0 (take (ch + 1) filepath); wr d1 (ch + 1) 0 });
        c \<leftarrow> rd d 0;
        Some (d, if c \<noteq> 0 then 0 else - 1) })"

definition xs_stat :: "file_system \<Rightarrow> byte list \<Rightarrow> xs_fileinfo \<times> int" where
  "xs_stat fs path =
     (let fi = (case fs path of
          Some (Fs_file content m r) \<Rightarrow> fileinfo_zero\<lparr>fi_stat_ret := 0, fi_size := length content, fi_mtime := m\<rparr>
        | Some (Fs_dir sz m) \<Rightarrow> fileinfo_zero\<lparr>fi_stat_ret := 0, fi_size := sz, fi_mtime := m, fi_isdir := True\<rparr>
        | None \<Rightarrow> fileinfo_zero\<lparr>fi_stat_ret := - 1\<rparr>);
          fi1 = (if fi_isdir fi then fi\<lparr>fi_size := 0\<rparr> else fi)
      in (fi1, fi_stat_ret fi1))"

definition sys_mmap :: "file_system \<Rightarrow> byte list \<Rightarrow> nat \<Rightarrow> byte list option" where
  \<comment> \<open>\<open>xs_open\<close> and \<open>mmap\<close>: no mapping of length 0, or of what cannot be opened as a file\<close>
  "sys_mmap fs path len =
     (case fs path of
        Some (Fs_file content m r) \<Rightarrow> if r \<and> len \<noteq> 0 then Some (take len content) else None
      | _ \<Rightarrow> None)"

abbreviation maxsize :: nat where "maxsize \<equiv> 10000000"

definition xs_fileinfo_loaddata :: "file_system \<Rightarrow> xs_fileinfo \<Rightarrow> byte list option \<Rightarrow> (xs_fileinfo \<times> int) option" where
  "xs_fileinfo_loaddata fs fi0 path =
     (let unload = (fi_status fi0 = 10 \<and> path = None);
          fi = (if unload then fi0\<lparr>fi_status := 0\<rparr> else fi0);
          locallock = (if unload then 0 else fi_status fi0)
      in
      if fi_stat_ret fi \<noteq> 0 \<or> fi_status fi > 1 \<or> fi_isdir fi then Some (fi, - 1)
      else if fi_status fi \<noteq> locallock then None
      else
        let fi1 = (if path = None \<or> fi_size fi > maxsize then fi\<lparr>fi_status := 2, fi_data := None\<rparr>
                   else if fi_data fi \<noteq> None then fi\<lparr>fi_status := 2, fi_data := None\<rparr>
                   else fi\<lparr>fi_status := 2\<rparr>);
            fi2 = (case path of
                Some p \<Rightarrow> fi1\<lparr>fi_data := sys_mmap fs p (fi_size fi1), fi_msize := fi_size fi1\<rparr>
              | None \<Rightarrow> fi1);
            fi3 = fi2\<lparr>fi_status := locallock\<rparr>
        in Some (fi3, if fi_data fi3 \<noteq> None then 0 else - 3))"

definition xs_fileinfo_unloaddata :: "file_system \<Rightarrow> xs_fileinfo \<Rightarrow> (xs_fileinfo \<times> int) option" where
  "xs_fileinfo_unloaddata fs fi = xs_fileinfo_loaddata fs fi None"

definition xs_fileinfo_lock :: "xs_fileinfo \<Rightarrow> xs_fileinfo option" where
  "xs_fileinfo_lock fi =
     (if fi_readcount fi = 0 \<and> fi_status fi \<noteq> 10 then None else Some (fi\<lparr>fi_readcount := fi_readcount fi + 1\<rparr>))"

definition xs_fileinfo_unlock :: "xs_fileinfo \<Rightarrow> xs_fileinfo option" where
  "xs_fileinfo_unlock fi =
     (if fi_readcount fi = 0 \<and> fi_status fi \<noteq> 10 then None else Some (fi\<lparr>fi_readcount := fi_readcount fi - 1\<rparr>))"

subsection \<open>The table\<close>

record filecache =
  gxs_statptr :: "(byte list \<Rightarrow> xs_fileinfo option) option"
  gxs_statwrite :: int
  gxs_statread :: int

definition filecache_start :: filecache where
  "filecache_start = \<lparr>gxs_statptr = None, gxs_statwrite = 0, gxs_statread = 0\<rparr>"

definition xs_fileinfo_init :: "filecache \<Rightarrow> filecache" where
  "xs_fileinfo_init st = (if gxs_statptr st \<noteq> None then st else st\<lparr>gxs_statptr := Some Map.empty\<rparr>)"

definition xs_fileinfo_global_lockstatus :: "int \<Rightarrow> int \<Rightarrow> filecache \<Rightarrow> filecache option" where
  "xs_fileinfo_global_lockstatus oldstatus newstatus st =
     (if newstatus = 2 then
        if gxs_statwrite st \<noteq> 0 then None
        else
          let st1 = st\<lparr>gxs_statwrite := 1\<rparr>;
              st2 = (if oldstatus = 1 then st1\<lparr>gxs_statread := gxs_statread st1 - 1\<rparr> else st1)
          in if gxs_statread st2 \<noteq> 0 then None else Some st2
      else if oldstatus = 2 then
        let st1 = st\<lparr>gxs_statwrite := gxs_statwrite st - 1\<rparr>
        in Some (if newstatus = 1 then st1\<lparr>gxs_statread := gxs_statread st1 + 1\<rparr> else st1)
      else if oldstatus = 1 then Some (st\<lparr>gxs_statread := gxs_statread st - 1\<rparr>)
      else if oldstatus = 0 then
        if gxs_statwrite st \<noteq> 0 then None else Some (st\<lparr>gxs_statread := gxs_statread st + 1\<rparr>)
      else Some st)"

definition fileinfo_entry :: "filecache \<Rightarrow> byte list \<Rightarrow> xs_fileinfo option" where
  "fileinfo_entry st path = (case gxs_statptr st of None \<Rightarrow> None | Some tab \<Rightarrow> tab path)"

definition fileinfo_set :: "filecache \<Rightarrow> byte list \<Rightarrow> xs_fileinfo \<Rightarrow> filecache" where
  "fileinfo_set st path fi = st\<lparr>gxs_statptr := Some ((case gxs_statptr st of None \<Rightarrow> Map.empty | Some tab \<Rightarrow> tab)(path \<mapsto> fi))\<rparr>"

definition fileinfo_refresh :: "file_system \<Rightarrow> int \<Rightarrow> xs_fileinfo \<Rightarrow> byte list \<Rightarrow> bool \<Rightarrow> xs_fileinfo option" where
  \<comment> \<open>the second half of \<open>xs_fileinfo_get\<close>: check the time, and bring the entry up to date\<close>
  "fileinfo_refresh fs ct fi0 path load_data =
     (let fi = (if ct - fi_check_time fi0 > 2 \<and> fi_status fi0 = 10 then fi0\<lparr>fi_status := 0\<rparr> else fi0) in
      if fi_status fi = 0 then
        let fi1 = fi\<lparr>fi_status := 1\<rparr>;
            tfi = (fst (xs_stat fs path))\<lparr>fi_check_time := ct, fi_status := fi_status fi1, fi_folder_mod := fi_folder_mod fi1\<rparr>
        in do {
          tfi1 \<leftarrow> (if load_data \<and> fi_mtime tfi \<noteq> fi_mtime fi1
                   then map_option fst (xs_fileinfo_loaddata fs tfi (Some path))
                   else Some (tfi\<lparr>fi_data := fi_data fi1\<rparr>));
          if fi_readcount fi1 \<noteq> 0 then None else Some (tfi1\<lparr>fi_status := 10\<rparr>) }
      else if fi_status fi < 10 then None
      else Some fi)"

definition xs_fileinfo_get ::
  "(nat \<Rightarrow> bool) \<Rightarrow> file_system \<Rightarrow> int \<Rightarrow> filecache \<Rightarrow> byte list \<Rightarrow> bool \<Rightarrow> (filecache \<times> int) option" where
  \<comment> \<open>afterwards \<open>*fip\<close> points to the entry of the path, or is 0 after -108; \<open>room\<close> is asked for the entry\<close>
  "xs_fileinfo_get room fs ct st path load_data = do {
     tab \<leftarrow> gxs_statptr st;
     st1 \<leftarrow> xs_fileinfo_global_lockstatus 0 1 st;
     (st2, found) \<leftarrow> (case tab path of
        Some fi \<Rightarrow> Some (st1, True)
      | None \<Rightarrow> do {
          s1 \<leftarrow> xs_fileinfo_global_lockstatus 1 2 st1;
          if room 112 then do {
            s2 \<leftarrow> xs_fileinfo_global_lockstatus 2 1 (fileinfo_set s1 path fileinfo_zero);
            Some (s2, True) }
          else do { s2 \<leftarrow> xs_fileinfo_global_lockstatus 2 0 s1; Some (s2, False) } });
     if \<not> found then Some (st2, - 108)
     else do {
       st3 \<leftarrow> xs_fileinfo_global_lockstatus 1 0 st2;
       fi \<leftarrow> fileinfo_entry st3 path;
       fi1 \<leftarrow> fileinfo_refresh fs ct fi path load_data;
       Some (fileinfo_set st3 path fi1, fi_stat_ret fi1) } }"

subsection \<open>The lock, access by access\<close>

text \<open>The accesses of \<open>xs_fileinfo_global_lockstatus\<close> as \<open>xs_fileinfo_get\<close> calls it: \<open>0 \<rightarrow> 1\<close>, a lookup, and if
  the path is new \<open>1 \<rightarrow> 2\<close>, an insertion and \<open>2 \<rightarrow> 1\<close>; then \<open>1 \<rightarrow> 0\<close>.\<close>

datatype lock_pc = L_wait_write | L_inc_read | L_lookup | L_swap_write | L_dec_read | L_wait_read | L_insert
  | L_dec_write | L_inc_again | L_release | L_done

record lock_state =
  lk_write :: int
  lk_read :: int
  lk_table :: "byte list list"
  lk_threads :: "(byte list \<times> lock_pc) list"

definition lock_goto :: "nat \<Rightarrow> lock_pc \<Rightarrow> lock_state \<Rightarrow> lock_state" where
  "lock_goto i pc s = s\<lparr>lk_threads := (lk_threads s)[i := (fst (lk_threads s ! i), pc)]\<rparr>"

definition lock_step :: "nat \<Rightarrow> lock_state \<Rightarrow> lock_state" where
  \<comment> \<open>one access of thread \<open>i\<close>; a loop whose condition holds stays where it is\<close>
  "lock_step i s =
     (if i \<ge> length (lk_threads s) then s
      else
        let (path, pc) = lk_threads s ! i in
        case pc of
          L_wait_write \<Rightarrow> if lk_write s \<noteq> 0 then s else lock_goto i L_inc_read s
        | L_inc_read \<Rightarrow> lock_goto i L_lookup (s\<lparr>lk_read := lk_read s + 1\<rparr>)
        | L_lookup \<Rightarrow> lock_goto i (if path \<in> set (lk_table s) then L_release else L_swap_write) s
        | L_swap_write \<Rightarrow> if lk_write s \<noteq> 0 then s else lock_goto i L_dec_read (s\<lparr>lk_write := 1\<rparr>)
        | L_dec_read \<Rightarrow> lock_goto i L_wait_read (s\<lparr>lk_read := lk_read s - 1\<rparr>)
        | L_wait_read \<Rightarrow> if lk_read s \<noteq> 0 then s else lock_goto i L_insert s
        | L_insert \<Rightarrow> lock_goto i L_dec_write (s\<lparr>lk_table := path # lk_table s\<rparr>)
        | L_dec_write \<Rightarrow> lock_goto i L_inc_again (s\<lparr>lk_write := lk_write s - 1\<rparr>)
        | L_inc_again \<Rightarrow> lock_goto i L_release (s\<lparr>lk_read := lk_read s + 1\<rparr>)
        | L_release \<Rightarrow> lock_goto i L_done (s\<lparr>lk_read := lk_read s - 1\<rparr>)
        | L_done \<Rightarrow> s)"

definition lock_run :: "nat list \<Rightarrow> lock_state \<Rightarrow> lock_state" where
  "lock_run sched s = fold lock_step sched s"

definition lock_start :: "byte list list \<Rightarrow> byte list list \<Rightarrow> lock_state" where
  "lock_start tab paths = \<lparr>lk_write = 0, lk_read = 0, lk_table = tab, lk_threads = map (\<lambda>p. (p, L_wait_write)) paths\<rparr>"

subsection \<open>Lemmas: what an entry says of its file\<close>

definition node_mtime :: "fs_node option \<Rightarrow> int" where
  "node_mtime n = (case n of None \<Rightarrow> 0 | Some (Fs_file c m r) \<Rightarrow> m | Some (Fs_dir s m) \<Rightarrow> m)"

definition describes :: "fs_node option \<Rightarrow> xs_fileinfo \<Rightarrow> bool" where
  "describes n fi \<longleftrightarrow> fi_mtime fi = node_mtime n \<and>
     (case n of
        None \<Rightarrow> fi_stat_ret fi = - 1 \<and> fi_data fi = None \<and> fi_size fi = 0 \<and> \<not> fi_isdir fi
      | Some (Fs_dir s m) \<Rightarrow> fi_stat_ret fi = 0 \<and> fi_data fi = None \<and> fi_size fi = 0 \<and> fi_isdir fi
      | Some (Fs_file c m r) \<Rightarrow> fi_stat_ret fi = 0 \<and> \<not> fi_isdir fi \<and> fi_size fi = length c \<and>
          fi_data fi = (if r \<and> c \<noteq> [] then Some c else None))"

definition mtime_tells :: "(int \<Rightarrow> file_system) \<Rightarrow> bool" where
  \<comment> \<open>over time, what is at a path does not change without its modification time changing, which is never 0\<close>
  "mtime_tells node \<longleftrightarrow>
     (\<forall>p t t'. node_mtime (node t p) = node_mtime (node t' p) \<longrightarrow> node t p = node t' p) \<and>
     (\<forall>p t. node t p \<noteq> None \<longrightarrow> node_mtime (node t p) \<noteq> 0)"

definition entry_ok :: "(int \<Rightarrow> file_system) \<Rightarrow> byte list \<Rightarrow> xs_fileinfo \<Rightarrow> bool" where
  "entry_ok node path fi \<longleftrightarrow> fi_status fi = 10 \<and> fi_readcount fi = 0 \<and> describes (node (fi_check_time fi) path) fi"

definition cache_quiet :: "(int \<Rightarrow> file_system) \<Rightarrow> filecache \<Rightarrow> bool" where
  \<comment> \<open>no lock is held and every entry describes its file as of its check time\<close>
  "cache_quiet node st \<longleftrightarrow> gxs_statptr st \<noteq> None \<and> gxs_statwrite st = 0 \<and> gxs_statread st = 0 \<and>
     (\<forall>p fi. fileinfo_entry st p = Some fi \<longrightarrow> entry_ok node p fi)"

lemma refresh_same:
  assumes "mtime_tells node" "fi = fileinfo_zero \<or> entry_ok node path fi" "node_mtime (node now path) = fi_mtime fi"
  shows "case node now path of Some (Fs_file c m r) \<Rightarrow> fi_data fi = (if r \<and> c \<noteq> [] then Some c else None) | _ \<Rightarrow> fi_data fi = None"
  using assms(2)
proof
  assume z: "fi = fileinfo_zero"
  then have "node now path = None" using assms(1,3) by (metis fileinfo_zero_def mtime_tells_def xs_fileinfo.select_convs(7))
  then show ?thesis using z by (simp add: fileinfo_zero_def)
next
  assume e: "entry_ok node path fi"
  then have "node now path = node (fi_check_time fi) path"
    using assms(1,3) by (simp add: mtime_tells_def entry_ok_def describes_def)
  then show ?thesis using e by (simp add: entry_ok_def describes_def split: option.splits fs_node.splits)
qed

lemma loaddata_describes:
  "\<exists>tfi. map_option fst (xs_fileinfo_loaddata fs ((fst (xs_stat fs path))\<lparr>fi_check_time := now, fi_status := 1, fi_folder_mod := fm\<rparr>)
     (Some path)) = Some tfi \<and> describes (fs path) tfi \<and> fi_check_time tfi = now \<and> fi_readcount tfi = 0"
proof (cases "fs path")
  case (Some n)
  then show ?thesis
    by (cases n) (auto simp: xs_fileinfo_loaddata_def xs_stat_def fileinfo_zero_def describes_def node_mtime_def sys_mmap_def Let_def)
qed (simp add: xs_fileinfo_loaddata_def xs_stat_def fileinfo_zero_def describes_def node_mtime_def)

lemma refresh_describes:
  assumes "mtime_tells node" "fi_readcount fi = 0"
    "fi = fileinfo_zero \<or> entry_ok node path fi"
  shows "\<exists>fi'. fileinfo_refresh (node now) now fi path True = Some fi' \<and> entry_ok node path fi' \<and> now - fi_check_time fi' \<le> 2"
proof (cases "entry_ok node path fi \<and> now - fi_check_time fi \<le> 2")
  case True
  then show ?thesis by (simp add: fileinfo_refresh_def entry_ok_def)
next
  case False
  let ?n = "node now path" and ?tfi = "(fst (xs_stat (node now) path))\<lparr>fi_check_time := now, fi_status := 1, fi_folder_mod := fi_folder_mod fi\<rparr>"
  have st: "(if now - fi_check_time fi > 2 \<and> fi_status fi = 10 then fi\<lparr>fi_status := 0\<rparr> else fi) = fi\<lparr>fi_status := 0\<rparr>"
    using assms(3) False by (auto simp: entry_ok_def fileinfo_zero_def)
  have m: "fi_mtime ?tfi = node_mtime ?n"
    by (auto simp: xs_stat_def fileinfo_zero_def node_mtime_def Let_def split: option.splits fs_node.splits)
  obtain tfi where tfi: "(if node_mtime ?n \<noteq> fi_mtime fi then map_option fst (xs_fileinfo_loaddata (node now) ?tfi (Some path))
      else Some (?tfi\<lparr>fi_data := fi_data fi\<rparr>)) = Some tfi"
    "describes ?n tfi" "fi_check_time tfi = now" "fi_readcount tfi = 0"
  proof (cases "node_mtime ?n = fi_mtime fi")
    case True
    have "describes ?n (?tfi\<lparr>fi_data := fi_data fi\<rparr>)"
      using refresh_same [OF assms(1,3) True] m by (auto simp: describes_def xs_stat_def fileinfo_zero_def Let_def split: option.splits fs_node.splits)
    then show ?thesis using True that by (simp add: xs_stat_def fileinfo_zero_def Let_def split: option.splits fs_node.splits)
  next
    case False
    then show ?thesis using that loaddata_describes [where fs = "node now" and path = path and now = now and fm = "fi_folder_mod fi"] by auto
  qed
  let ?fi' = "tfi\<lparr>fi_status := 10\<rparr>"
  have "fileinfo_refresh (node now) now fi path True = Some ?fi'"
    using tfi(1) m assms(2) unfolding fileinfo_refresh_def Let_def st by (cases "node_mtime ?n = fi_mtime fi") auto
  moreover have "entry_ok node path ?fi'" using tfi by (simp add: entry_ok_def describes_def split: option.splits fs_node.splits)
  ultimately show ?thesis using tfi(3) by auto
qed

lemma fileinfo_get_quiet:
  assumes tells: "mtime_tells node" and q: "cache_quiet node st"
  shows "\<exists>st' fi. xs_fileinfo_get (\<lambda>_. True) (node now) now st path True = Some (st', fi_stat_ret fi) \<and>
    fileinfo_entry st' path = Some fi \<and> entry_ok node path fi \<and> now - fi_check_time fi \<le> 2 \<and> cache_quiet node st'"
proof -
  obtain tab where tab: "gxs_statptr st = Some tab" using q by (auto simp: cache_quiet_def)
  let ?fi = "case tab path of Some fi \<Rightarrow> fi | None \<Rightarrow> fileinfo_zero"
  let ?st = "st\<lparr>gxs_statptr := Some (tab(path \<mapsto> ?fi))\<rparr>"
  have "fi_readcount ?fi = 0" "?fi = fileinfo_zero \<or> entry_ok node path ?fi"
    using q tab by (auto simp: cache_quiet_def fileinfo_entry_def entry_ok_def fileinfo_zero_def split: option.splits)
  then obtain fi' where fi': "fileinfo_refresh (node now) now ?fi path True = Some fi'" "entry_ok node path fi'"
    "now - fi_check_time fi' \<le> 2" using refresh_describes [OF tells] by blast
  let ?st' = "fileinfo_set st path fi'"
  have "xs_fileinfo_get (\<lambda>_. True) (node now) now st path True = Some (?st', fi_stat_ret fi')"
    using q tab fi'(1)
    by (cases "tab path") (simp_all add: xs_fileinfo_get_def xs_fileinfo_global_lockstatus_def cache_quiet_def
        fileinfo_entry_def fileinfo_set_def Let_def)
  moreover have "cache_quiet node ?st'"
    using q fi'(2) tab by (auto simp: cache_quiet_def fileinfo_set_def fileinfo_entry_def)
  ultimately show ?thesis using fi' by (auto simp: fileinfo_set_def fileinfo_entry_def)
qed

primrec fileinfo_gets :: "(int \<Rightarrow> file_system) \<Rightarrow> (int \<times> byte list) list \<Rightarrow> filecache \<Rightarrow> filecache option" where
  \<comment> \<open>a history of requests that load their file\<close>
  "fileinfo_gets node [] st = Some st"
| "fileinfo_gets node (x # xs) st = do {
     (st1, r) \<leftarrow> xs_fileinfo_get (\<lambda>_. True) (node (fst x)) (fst x) st (snd x) True;
     fileinfo_gets node xs st1 }"

lemma fileinfo_gets_quiet:
  "mtime_tells node \<Longrightarrow> cache_quiet node st \<Longrightarrow> \<exists>st'. fileinfo_gets node reqs st = Some st' \<and> cache_quiet node st'"
proof (induction reqs arbitrary: st)
  case (Cons x reqs)
  then show ?case using fileinfo_get_quiet [OF Cons.prems, of "fst x" "snd x"] by fastforce
qed simp

lemma init_quiet: "cache_quiet node (xs_fileinfo_init filecache_start)"
  by (simp add: cache_quiet_def xs_fileinfo_init_def filecache_start_def fileinfo_entry_def)

subsection \<open>Lemmas: the lock\<close>

definition holds_write :: "lock_pc \<Rightarrow> bool" where
  "holds_write pc \<longleftrightarrow> pc \<in> {L_dec_read, L_wait_read, L_insert, L_dec_write}"

definition holds_read :: "lock_pc \<Rightarrow> bool" where
  "holds_read pc \<longleftrightarrow> pc \<in> {L_lookup, L_swap_write, L_dec_read, L_release}"

definition holders :: "(lock_pc \<Rightarrow> bool) \<Rightarrow> lock_state \<Rightarrow> int" where
  "holders P s = int (length (filter (\<lambda>x. P (snd x)) (lk_threads s)))"

definition lock_ok :: "lock_state \<Rightarrow> bool" where
  "lock_ok s \<longleftrightarrow> lk_write s = holders holds_write s \<and> lk_write s \<le> 1 \<and> lk_read s = holders holds_read s"

lemma filter_update:
  "i < length xs \<Longrightarrow> length (filter P (xs[i := y])) + (if P (xs ! i) then 1 else 0) = length (filter P xs) + (if P y then 1 else 0)"
proof (induction xs arbitrary: i)
  case (Cons x xs)
  then show ?case by (cases i) auto
qed simp

lemma holders_goto:
  assumes "i < length (lk_threads s)"
  shows "holders P (lock_goto i pc s) = holders P s - (if P (snd (lk_threads s ! i)) then 1 else 0) + (if P pc then 1 else 0)"
  using filter_update [OF assms, of "\<lambda>x. P (snd x)" "(fst (lk_threads s ! i), pc)"]
  by (auto simp: holders_def lock_goto_def split: if_splits)

lemma holders_upd [simp]:
  "holders P (s\<lparr>lk_write := w\<rparr>) = holders P s" "holders P (s\<lparr>lk_read := r\<rparr>) = holders P s"
  "holders P (s\<lparr>lk_table := t\<rparr>) = holders P s"
  by (simp_all add: holders_def)

lemma goto_counters [simp]:
  "lk_write (lock_goto i pc s) = lk_write s" "lk_read (lock_goto i pc s) = lk_read s"
  by (simp_all add: lock_goto_def)

lemma holders_pos:
  assumes "i < length (lk_threads s)" "P (snd (lk_threads s ! i))"
  shows "0 < holders P s"
proof -
  have "filter (\<lambda>x. P (snd x)) (lk_threads s) \<noteq> []" using assms nth_mem by (fastforce simp: filter_empty_conv)
  then show ?thesis by (simp add: holders_def)
qed

lemma lock_step_ok:
  assumes "lock_ok s"
  shows "lock_ok (lock_step i s)"
proof (cases "i < length (lk_threads s)")
  case True
  obtain path pc where t: "lk_threads s ! i = (path, pc)" by force
  show ?thesis
    using assms True t holders_pos [OF True, of holds_write] holders_pos [OF True, of holds_read]
    by (cases pc) (simp_all add: lock_step_def lock_ok_def holders_goto holds_write_def holds_read_def)
qed (use assms in \<open>simp add: lock_step_def\<close>)

lemma lock_run_ok: "lock_ok s \<Longrightarrow> lock_ok (lock_run sched s)"
  unfolding lock_run_def by (rule fold_invariant [where P = lock_ok]) (simp_all add: lock_step_ok)

lemma lock_start_ok: "lock_ok (lock_start tab paths)"
  by (simp add: lock_ok_def lock_start_def holders_def holds_write_def holds_read_def)

lemma lock_step_other: "j \<noteq> i \<Longrightarrow> lk_threads (lock_step i s) ! j = lk_threads s ! j"
  by (cases "snd (lk_threads s ! i)") (auto simp: lock_step_def lock_goto_def split: prod.split)

lemma lock_step_length [simp]: "length (lk_threads (lock_step i s)) = length (lk_threads s)"
  by (cases "snd (lk_threads s ! i)") (auto simp: lock_step_def lock_goto_def split: prod.split)

definition upgrades :: "nat \<Rightarrow> nat \<Rightarrow> lock_state \<Rightarrow> bool" where
  \<comment> \<open>thread \<open>i\<close> waits for the readers to leave, and thread \<open>j\<close>, a reader, waits for the writer\<close>
  "upgrades i j s \<longleftrightarrow> lock_ok s \<and> i < length (lk_threads s) \<and> j < length (lk_threads s) \<and>
     snd (lk_threads s ! i) = L_wait_read \<and> snd (lk_threads s ! j) = L_swap_write"

lemma upgrades_step:
  assumes "upgrades i j s"
  shows "upgrades i j (lock_step k s)" "k < length (lk_threads s) \<Longrightarrow> snd (lk_threads s ! k) = L_wait_write \<Longrightarrow>
    snd (lk_threads (lock_step k s) ! k) = L_wait_write"
proof -
  have r: "lk_read s \<noteq> 0" and w: "lk_write s \<noteq> 0"
    using assms holders_pos [of j s holds_read] holders_pos [of i s holds_write]
    by (auto simp: upgrades_def lock_ok_def holds_read_def holds_write_def)
  have "k = i \<or> k = j \<Longrightarrow> lock_step k s = s"
    using assms r w by (auto simp: lock_step_def upgrades_def split: prod.split)
  then show "upgrades i j (lock_step k s)"
    using assms lock_step_ok [of s k] lock_step_other [of _ k s] by (cases "k = i \<or> k = j") (auto simp: upgrades_def)
  show "k < length (lk_threads s) \<Longrightarrow> snd (lk_threads s ! k) = L_wait_write \<Longrightarrow>
    snd (lk_threads (lock_step k s) ! k) = L_wait_write"
    using w by (auto simp: lock_step_def split: prod.split)
qed

lemma upgrades_for_ever:
  assumes "upgrades i j s"
  shows "upgrades i j (lock_run sched s) \<and> length (lk_threads (lock_run sched s)) = length (lk_threads s) \<and>
    (\<forall>k. k < length (lk_threads s) \<and> snd (lk_threads s ! k) = L_wait_write \<longrightarrow>
      snd (lk_threads (lock_run sched s) ! k) = L_wait_write)"
  using assms
proof (induction sched arbitrary: s)
  case (Cons k sched)
  have w: "snd (lk_threads (lock_step k s) ! m) = L_wait_write"
    if "m < length (lk_threads s)" "snd (lk_threads s ! m) = L_wait_write" for m
    using that upgrades_step(2) [OF Cons.prems, of k] lock_step_other [of m k s] by (cases "m = k") auto
  show ?case using Cons.IH [OF upgrades_step(1) [OF Cons.prems, of k]] w by (simp add: lock_run_def)
qed (simp add: lock_run_def)

subsection \<open>Properties\<close>



text \<open>An update that is seen first by a request that does not load poisons the entry. When a file has
  been replaced and the first request after that is one without loading (as a directory listing makes), every
  later request for loading returns the old contents with the new size and the new modification time.\<close>

theorem xs_fileinfo_get_stale:
  assumes "c1 \<noteq> []" "m1 \<noteq> 0" "m1 \<noteq> m2" "t0 + 2 < t1" "t1 \<le> t2"
  shows "\<exists>st1 st2 st3 fi.
    xs_fileinfo_get (\<lambda>_. True) [path \<mapsto> Fs_file c1 m1 True] t0 (xs_fileinfo_init filecache_start) path True = Some (st1, 0) \<and>
    xs_fileinfo_get (\<lambda>_. True) [path \<mapsto> Fs_file c2 m2 True] t1 st1 path False = Some (st2, 0) \<and>
    xs_fileinfo_get (\<lambda>_. True) [path \<mapsto> Fs_file c2 m2 True] t2 st2 path True = Some (st3, 0) \<and>
    fileinfo_entry st3 path = Some fi \<and> fi_data fi = Some c1 \<and> fi_size fi = length c2 \<and> fi_mtime fi = m2"
  using assms
  by (simp add: xs_fileinfo_get_def xs_fileinfo_init_def filecache_start_def xs_fileinfo_global_lockstatus_def fileinfo_set_def
      fileinfo_entry_def fileinfo_refresh_def xs_stat_def xs_fileinfo_loaddata_def fileinfo_zero_def sys_mmap_def Let_def)

theorem xs_fileinfo_get_stale_witness:
  "\<exists>st1 st2 st3 fi.
    xs_fileinfo_get (\<lambda>_. True) [bytes ''a'' \<mapsto> Fs_file [7] 1 True] 10 (xs_fileinfo_init filecache_start) (bytes ''a'') True = Some (st1, 0) \<and>
    xs_fileinfo_get (\<lambda>_. True) [bytes ''a'' \<mapsto> Fs_file [8, 9] 2 True] 20 st1 (bytes ''a'') False = Some (st2, 0) \<and>
    xs_fileinfo_get (\<lambda>_. True) [bytes ''a'' \<mapsto> Fs_file [8, 9] 2 True] 30 st2 (bytes ''a'') True = Some (st3, 0) \<and>
    fileinfo_entry st3 (bytes ''a'') = Some fi \<and> fi_data fi = Some [7] \<and> fi_size fi = length [8 :: byte, 9] \<and> fi_mtime fi = 2"
  using xs_fileinfo_get_stale [of "[7]" 1 2 10 20 30 "bytes ''a''" "[8, 9]"] by simp

text \<open>C17: One writer. Under any interleaving of any number of requests at most one of them is between taking
  and releasing the write lock, and the counters of the lock count exactly those that hold it.\<close>

theorem xs_fileinfo_one_writer:
  "holders holds_write (lock_run sched (lock_start tab paths)) \<le> 1 \<and>
   lk_write (lock_run sched (lock_start tab paths)) = holders holds_write (lock_run sched (lock_start tab paths)) \<and>
   lk_read (lock_run sched (lock_start tab paths)) = holders holds_read (lock_run sched (lock_start tab paths))"
  using lock_run_ok [OF lock_start_ok, of sched tab paths] by (simp add: lock_ok_def)

text \<open>C39: Deadlock. When two requests for files that are not in the table look them up at the same time, there
  is a schedule after which no request ever completes: one waits for the readers to leave, the other, a reader,
  waits for the writer, and all that come later wait for both.\<close>

theorem xs_fileinfo_upgrade_deadlock:
  assumes "p \<notin> set tab" "q \<notin> set tab"
  shows "\<exists>sched. \<forall>sched' k. k < length paths + 2 \<longrightarrow>
    snd (lk_threads (lock_run sched' (lock_run sched (lock_start tab (p # q # paths)))) ! k) \<in> {L_wait_read, L_swap_write, L_wait_write}"
proof -
  let ?s = "lock_run [0, 0, 0, 1, 1, 1, 0, 0] (lock_start tab (p # q # paths))"
  have s: "lk_threads ?s = (p, L_wait_read) # (q, L_swap_write) # map (\<lambda>p. (p, L_wait_write)) paths"
    using assms by (simp add: lock_run_def lock_start_def lock_step_def lock_goto_def)
  have "upgrades 0 1 ?s" using s lock_run_ok [OF lock_start_ok] by (simp add: upgrades_def)
  note f = upgrades_for_ever [OF this]
  have "snd (lk_threads (lock_run sched' ?s) ! k) \<in> {L_wait_read, L_swap_write, L_wait_write}" if "k < length paths + 2" for sched' k
  proof (cases "k < 2")
    case True
    then have "k = 0 \<or> k = 1" by auto
    then show ?thesis using f [of sched'] by (auto simp: upgrades_def)
  next
    case False
    then have "k < length (lk_threads ?s)" "snd (lk_threads ?s ! k) = L_wait_write"
      using that unfolding s by (auto simp: nth_Cons split: nat.split)
    then show ?thesis using f [of sched'] by blast
  qed
  then show ?thesis by blast
qed

theorem xs_fileinfo_upgrade_deadlock_witness:
  "\<exists>sched. \<forall>sched'. snd (lk_threads (lock_run sched' (lock_run sched (lock_start [] [bytes ''a'', bytes ''b'']))) ! 0) \<noteq> L_done"
proof -
  obtain sched where s: "\<forall>sched' k. k < length ([] :: byte list list) + 2 \<longrightarrow>
    snd (lk_threads (lock_run sched' (lock_run sched (lock_start [] [bytes ''a'', bytes ''b'']))) ! k) \<in> {L_wait_read, L_swap_write, L_wait_write}"
    using xs_fileinfo_upgrade_deadlock [of "bytes ''a''" "[]" "bytes ''b''" "[]"] by auto
  have "snd (lk_threads (lock_run sched' (lock_run sched (lock_start [] [bytes ''a'', bytes ''b'']))) ! 0) \<noteq> L_done" for sched'
    using s [rule_format, of 0 sched'] by auto
  then show ?thesis by blast
qed

text \<open>No exclusion. A reader that has seen no writer but not yet counted itself enters while another
  thread inserts into the table.\<close>

theorem xs_fileinfo_reader_meets_writer:
  assumes "q \<notin> set tab"
  shows "map snd (lk_threads (lock_run [0, 1, 1, 1, 1, 1, 1, 0] (lock_start tab [p, q]))) = [L_lookup, L_insert]"
  using assms by (simp add: lock_run_def lock_start_def lock_step_def lock_goto_def)

theorem xs_fileinfo_reader_meets_writer_witness:
  "map snd (lk_threads (lock_run [0, 1, 1, 1, 1, 1, 1, 0] (lock_start [] [bytes ''a'', bytes ''b'']))) = [L_lookup, L_insert]"
  using xs_fileinfo_reader_meets_writer [of "bytes ''b''" "[]" "bytes ''a''"] by simp

end
