(* ===== verification/Dir.thy ===== *)
theory Dir
  imports ConnWrite Fileinfo
begin

text \<open>
  Directory listings (\<open>xs/xs_server.h\<close>): scanning a directory through the file cache, the six orders a
  listing can have, and the page \<open>xs_http_dirresponse\<close> writes.

  What \<open>opendir\<close> and \<open>readdir\<close> give for a path is a parameter (the names, or \<open>None\<close> when it cannot be
  opened), as are the texts of the current time and of a modification time.
\<close>

abbreviation PATH_MAX :: nat where "PATH_MAX \<equiv> 4096"

subsection \<open>Scanning\<close>

record xs_dirlist =
  dl_rootpath :: "byte list"
  dl_pathdata :: "byte xs_arr"
  dl_dir :: "xs_fileinfo xs_arr"

definition xs_dirlist_create :: xs_dirlist where
  "xs_dirlist_create = \<lparr>dl_rootpath = replicate PATH_MAX 0, dl_pathdata = xs_arr_create, dl_dir = xs_arr_create\<rparr>"

definition xs_dirlist_destroy :: "xs_dirlist \<Rightarrow> xs_dirlist" where
  \<comment> \<open>the arrays are freed, the list itself is not\<close>
  "xs_dirlist_destroy dl = dl\<lparr>dl_pathdata := xs_arr_destroy (dl_pathdata dl), dl_dir := xs_arr_destroy (dl_dir dl)\<rparr>"

definition xs_dirlist_add :: "(nat \<Rightarrow> bool) \<Rightarrow> xs_dirlist \<Rightarrow> byte list \<Rightarrow> xs_fileinfo \<Rightarrow> (xs_dirlist \<times> int) option" where
  "xs_dirlist_add room dl filename fd =
     (let len = length filename in
      if len = 0 then Some (dl, - 50)
      else do {
        (pd, p) \<leftarrow> xs_arr_add room 0 (dl_pathdata dl) (Some (filename @ [0])) (int len + 1);
        (dir, q) \<leftarrow> xs_arr_add room fileinfo_zero (dl_dir dl) (Some [fd]) 1;
        let dl1 = dl\<lparr>dl_pathdata := pd, dl_dir := dir\<rparr>;
        (case (p, q) of
           (Some i, Some k) \<Rightarrow> do {
             d \<leftarrow> aData pd;
             d1 \<leftarrow> wr d (nat i + len) 0;
             e \<leftarrow> aData dir;
             x \<leftarrow> rd e (nat k);
             e1 \<leftarrow> wr e (nat k) (x\<lparr>fi_userinfo := nat i\<rparr>);
             Some (dl1\<lparr>dl_pathdata := pd\<lparr>aData := Some d1\<rparr>, dl_dir := dir\<lparr>aData := Some e1\<rparr>\<rparr>, 0) }
         | _ \<Rightarrow> Some (dl1, - 108)) })"

definition path_print :: "byte list \<Rightarrow> pf_arg list \<Rightarrow> byte list option" where
  \<comment> \<open>\<open>xs_sprintf\<close> into a local \<open>char[PATH_MAX]\<close>\<close>
  "path_print fmt args = do {
     (b, r) \<leftarrow> xs_sprintf (Some (replicate PATH_MAX 0)) (int PATH_MAX) (Some fmt) args;
     map_option cstr b }"

definition xs_dirnext :: "byte list \<Rightarrow> byte list \<Rightarrow> byte list option" where
  \<comment> \<open>the path for a name that \<open>readdir\<close> gave, empty for the two dot entries\<close>
  "xs_dirnext dirpath name =
     (if name = bytes ''.'' \<or> name = bytes ''..'' then Some []
      else path_print (bytes ''%s%c%s'') [Arg_str dirpath, Arg_int 47, Arg_str name])"

primrec dirscan_loop ::
  "(nat \<Rightarrow> bool) \<Rightarrow> file_system \<Rightarrow> int \<Rightarrow> byte list \<Rightarrow> byte list list \<Rightarrow> filecache \<Rightarrow> xs_dirlist \<Rightarrow> (filecache \<times> xs_dirlist) option"
  where
  "dirscan_loop room fs ct dirpath [] st dl = Some (st, dl)"
| "dirscan_loop room fs ct dirpath (name # names) st dl = do {
     path \<leftarrow> xs_dirnext dirpath name;
     if path = [] then dirscan_loop room fs ct dirpath names st dl
     else do {
       (st1, r) \<leftarrow> xs_fileinfo_get room fs ct st path False;
       fd \<leftarrow> (if r = - 108 then None else fileinfo_entry st1 path);
       dl1 \<leftarrow> (if fi_stat_ret fd = 0 then map_option fst (xs_dirlist_add room dl name fd) else Some dl);
       dirscan_loop room fs ct dirpath names st1 dl1 } }"

definition xs_dirscan ::
  "(nat \<Rightarrow> bool) \<Rightarrow> file_system \<Rightarrow> int \<Rightarrow> (byte list \<Rightarrow> byte list list option) \<Rightarrow> filecache \<Rightarrow> byte list \<Rightarrow>
    (filecache \<times> xs_dirlist option) option" where
  \<comment> \<open>an inner \<open>None\<close>: no memory, or the directory cannot be opened\<close>
  "xs_dirscan room fs ct entries st dirpath =
     (if \<not> room 4144 then Some (st, None)
      else case entries dirpath of
        None \<Rightarrow> Some (st, None)
      | Some names \<Rightarrow> do {
          root \<leftarrow> xs_strlcpy (dl_rootpath xs_dirlist_create) (Some dirpath) PATH_MAX;
          (st1, dl) \<leftarrow> dirscan_loop room fs ct dirpath names st (xs_dirlist_create\<lparr>dl_rootpath := root\<rparr>);
          Some (st1, Some dl) })"

definition dl_names :: "xs_dirlist \<Rightarrow> byte list" where
  \<comment> \<open>\<open>xs_arr_ptr(char, dl->pathdata)\<close>: the names, one after the other\<close>
  "dl_names dl = (case aData (dl_pathdata dl) of None \<Rightarrow> [] | Some d \<Rightarrow> d)"

subsection \<open>Orders\<close>

type_synonym dircompare = "byte list \<Rightarrow> xs_fileinfo \<Rightarrow> xs_fileinfo \<Rightarrow> int"

definition dirs_first :: "xs_fileinfo \<Rightarrow> xs_fileinfo \<Rightarrow> int" where
  "dirs_first a b = (of_bool (fi_isdir b) - of_bool (fi_isdir a))"

definition dir_name :: "byte list \<Rightarrow> xs_fileinfo \<Rightarrow> byte list" where
  \<comment> \<open>\<open>comp+a->userinfo\<close>\<close>
  "dir_name names a = cstr (drop (fi_userinfo a) names)"

definition xs_dircompare_an :: dircompare where
  "xs_dircompare_an names a b =
     (let c = dirs_first a b in if c \<noteq> 0 then c else xs_strcmp_case (Some (dir_name names a)) (Some (dir_name names b)))"

definition xs_dircompare_dn :: dircompare where
  "xs_dircompare_dn names a b =
     (let c = dirs_first a b in if c \<noteq> 0 then c else xs_strcmp_case (Some (dir_name names b)) (Some (dir_name names a)))"

definition xs_dircompare_ad :: dircompare where
  "xs_dircompare_ad names a b = (let c = dirs_first a b in if c \<noteq> 0 then c else if fi_mtime a > fi_mtime b then - 1 else 1)"

definition xs_dircompare_dd :: dircompare where
  "xs_dircompare_dd names a b = (let c = dirs_first a b in if c \<noteq> 0 then c else if fi_mtime b > fi_mtime a then - 1 else 1)"

definition xs_dircompare_as :: dircompare where
  "xs_dircompare_as names a b =
     (let c = dirs_first a b;
          c1 = (if c \<noteq> 0 then c else if fi_size a < fi_size b then - 1 else if fi_size a > fi_size b then 1 else 0)
      in if c1 \<noteq> 0 then c1 else xs_dircompare_an names a b)"

definition xs_dircompare_ds :: dircompare where
  "xs_dircompare_ds names a b =
     (let c = dirs_first a b;
          c1 = (if c \<noteq> 0 then c else if fi_size b < fi_size a then - 1 else if fi_size b > fi_size a then 1 else 0)
      in if c1 \<noteq> 0 then c1 else xs_dircompare_dn names a b)"

definition dir_order :: "byte \<Rightarrow> byte \<Rightarrow> dircompare option" where
  \<comment> \<open>for the two characters of \<open>sortinfo\<close>; other keys leave the list as it is\<close>
  "dir_order s0 s1 =
     (if s1 = 110 then Some (if s0 = 97 then xs_dircompare_an else xs_dircompare_dn)
      else if s1 = 100 then Some (if s0 = 97 then xs_dircompare_ad else xs_dircompare_dd)
      else if s1 = 115 then Some (if s0 = 97 then xs_dircompare_as else xs_dircompare_ds)
      else None)"

definition dir_sortinfo :: "byte list option \<Rightarrow> byte \<times> byte" where
  "dir_sortinfo query =
     (case query of
        None \<Rightarrow> (97, 110)
      | Some h \<Rightarrow>
          if h = [] then (97, 110)
          else (if at0 h 0 = 100 then 100 else 97, if at0 h 1 \<noteq> 0 then at0 h 1 else 110))"

definition dir_sort :: "byte list option \<Rightarrow> xs_dirlist \<Rightarrow> xs_fileinfo list option" where
  \<comment> \<open>the entries in the order of the query\<close>
  "dir_sort query dl =
     (let (s0, s1) = dir_sortinfo query;
          fdp = (case aData (dl_dir dl) of None \<Rightarrow> [] | Some d \<Rightarrow> d);
          cnt = nat (aCount (dl_dir dl))
      in case dir_order s0 s1 of
           None \<Rightarrow> Some (take cnt fdp)
         | Some cmp \<Rightarrow> do { (xs, r) \<leftarrow> xs_ptr_qsort (cmp (dl_names dl)) fdp cnt; Some (take cnt xs) })"

subsection \<open>The page\<close>

type_synonym conn_printf = "xs_conn \<Rightarrow> byte list \<Rightarrow> pf_arg list \<Rightarrow> (xs_conn \<times> int) option"

primrec conn_prints :: "conn_printf \<Rightarrow> (byte list \<times> pf_arg list) list \<Rightarrow> xs_conn \<Rightarrow> int \<Rightarrow> (xs_conn \<times> int) option" where
  \<comment> \<open>\<open>result += (*proc) (conn, ...)\<close> one after the other\<close>
  "conn_prints proc [] conn result = Some (conn, result)"
| "conn_prints proc (x # xs) conn result = do {
     (c1, r) \<leftarrow> proc conn (fst x) (snd x);
     conn_prints proc xs c1 (result + r) }"

abbreviation nl :: "byte list" where "nl \<equiv> [10]"
abbreviation dq :: "byte list" where "dq \<equiv> [34]"

definition dir_page_head :: "byte list \<Rightarrow> byte \<times> byte \<Rightarrow> (byte list \<times> pf_arg list) list" where
  "dir_page_head origpath sortinfo =
     (let (s0, s1) = sortinfo; s2 = (if s0 = 100 then 97 else 100 :: byte);
          key = (\<lambda>c :: byte. Arg_int (uint (if s1 = c then s2 else s0)))
      in
      [(bytes ''<html>'' @ nl @ bytes ''<head>'' @ nl @ bytes ''<title>'%s' Directory Listing</title>'' @ nl, [Arg_str origpath]),
       (bytes ''<style>'' @ nl @
        bytes ''body{background:#fff;font:16px Georgia,Palatino,Serif;color:#aaa;padding:20px 0 0 20px;}'' @ nl @
        bytes ''table{border-spacing:0px 0}td,th{text-align:left;}th{padding:10px 0px;}td{padding:2px 10px 0px 10px;}'' @ nl @
        bytes ''h1{font-size:24px;font-weight:200;color:#ccc}'' @ nl @
        bytes ''tr:nth-child(even){background: #f0f0f0;}'' @ nl @
        bytes ''tr:hover{background:rgba(0,0,0,0.15)}'' @ nl @
        bytes ''thead tr:hover{background:0}'' @ nl @
        bytes ''a {text-decoration:none;}'' @ nl @
        bytes ''</style>'' @ nl, []),
       (bytes ''</head>'' @ nl @ bytes ''<body>'' @ nl, []),
       (bytes ''<h1>Directory Listing for '%s'</h1>'' @ nl @ bytes ''<pre><table>'' @ nl, [Arg_str origpath]),
       (bytes ''<thead>'' @ nl @ bytes ''<tr>'' @
        bytes ''<th><a href='' @ dq @ bytes ''?%cn'' @ dq @ bytes ''>Name</a></th>'' @ nl @
        bytes ''<th><a href='' @ dq @ bytes ''?%cd'' @ dq @ bytes ''>Mod-Date</a></th>'' @ nl @
        bytes ''<th><a href='' @ dq @ bytes ''?%cs'' @ dq @ bytes ''>Size</a></th></tr>'' @ nl @ bytes ''</thead>'' @ nl,
        [key 110, key 100, key 115])])"

definition dir_page_parent :: "byte list \<Rightarrow> bool \<Rightarrow> (byte list \<times> pf_arg list) list" where
  "dir_page_parent origpath appendSlash =
     (if xs_strcmp (Some origpath) (Some (bytes ''/'')) = 0 then []
      else if appendSlash
      then [(bytes ''<tr><td>^<a href='%s/..'><b>..</b></a></td><td>-</td><td>-</td></tr>'' @ nl, [Arg_str origpath])]
      else [(bytes ''<tr><td>^<a href='%s..'><b>..</b></a></td><td>-</td><td>-</td></tr>'' @ nl, [Arg_str origpath])])"

definition dir_page_row ::
  "(int \<Rightarrow> byte list) \<Rightarrow> byte list \<Rightarrow> bool \<Rightarrow> byte list \<Rightarrow> xs_fileinfo \<Rightarrow> (byte list \<times> pf_arg list) option" where
  "dir_page_row timestr origpath appendSlash names fd = do {
     let name = dir_name names fd;
     tpath \<leftarrow> path_print (if appendSlash then bytes ''%s/%s'' else bytes ''%s%s'') [Arg_str origpath, Arg_str name, Arg_int 4096];
     let date = drop 4 (timestr (fi_mtime fd));
     Some (if fi_isdir fd
       then (bytes ''<tr><td>/<a href='%s'><b>%s</b></a></td><td>%s</td><td>-</td></tr>'' @ nl, [Arg_str tpath, Arg_str name, Arg_str date])
       else (bytes ''<tr><td>&nbsp;<a href='%s'>%s</a></td><td>%s</td><td>%zd</td></tr>'' @ nl,
             [Arg_str tpath, Arg_str name, Arg_str date, Arg_int (int (fi_size fd))])) }"

primrec dir_page_rows ::
  "(int \<Rightarrow> byte list) \<Rightarrow> byte list \<Rightarrow> bool \<Rightarrow> byte list \<Rightarrow> xs_fileinfo list \<Rightarrow> (byte list \<times> pf_arg list) list option" where
  "dir_page_rows timestr origpath appendSlash names [] = Some []"
| "dir_page_rows timestr origpath appendSlash names (fd # fds) = do {
     x \<leftarrow> dir_page_row timestr origpath appendSlash names fd;
     xs \<leftarrow> dir_page_rows timestr origpath appendSlash names fds;
     Some (x # xs) }"

definition xs_http_dirresponse ::
  "(nat \<Rightarrow> bool) \<Rightarrow> file_system \<Rightarrow> int \<Rightarrow> (byte list \<Rightarrow> byte list list option) \<Rightarrow> byte list \<Rightarrow> (int \<Rightarrow> byte list) \<Rightarrow>
    filecache \<Rightarrow> xs_conn \<Rightarrow> byte list option \<Rightarrow> byte list \<Rightarrow> (filecache \<times> xs_conn \<times> int) option" where
  "xs_http_dirresponse room fs ct entries now timestr st conn origpath path = do {
     (st1, dlo) \<leftarrow> xs_dirscan room fs ct entries st path;
     let req = xs_conn_getreq conn;
     (case (req, dlo) of
        (Some _, Some dl) \<Rightarrow> do {
          orig \<leftarrow> origpath;
          let ver = (case xs_http_get req exs_Req_Version of
             None \<Rightarrow> None
           | Some v \<Rightarrow> if v = bytes ''1.0'' then None else Some v);
          let proc = (if ver \<noteq> None then xs_conn_printf_chunked room else xs_conn_printf room);
          (c1, n1) \<leftarrow> xs_conn_printf_header room conn
             (bytes ''HTTP/%s 200 OK'' @ crlf @ bytes ''Server: %s'' @ crlf @ bytes ''Date: %s'' @ crlf @
              bytes ''Connection: %s'' @ crlf @ bytes ''Content-Type: text/html; charset=utf-8'' @ crlf @ bytes ''%s'')
             [Arg_str (case ver of None \<Rightarrow> bytes ''1.0'' | Some v \<Rightarrow> v), Arg_str xs_server_name, Arg_str now,
              Arg_str (if ver \<noteq> None then bytes ''keep-alive'' else bytes ''close''),
              Arg_str (if ver \<noteq> None then bytes ''Transfer-Encoding: chunked'' @ crlf else [])];
          (c2, n2) \<leftarrow> xs_conn_header_done room c1 True;
          fds \<leftarrow> dir_sort (xs_http_get req exs_Req_Query) dl;
          lastc \<leftarrow> (if orig = [] then None else rd orig (length orig - 1));
          rows \<leftarrow> dir_page_rows timestr orig (lastc \<noteq> 47) (dl_names dl) fds;
          (c3, result) \<leftarrow> conn_prints proc
             (dir_page_head orig (dir_sortinfo (xs_http_get req exs_Req_Query)) @ dir_page_parent orig (lastc \<noteq> 47) @ rows @
              [(bytes ''</table></pre>'' @ nl @ bytes ''</body>'' @ nl @ bytes ''</html>'' @ nl, []), ([], [])]) c2 0;
          Some (st1, c3\<lparr>c_req := upd_undone (\<lambda>r. fst (xs_http_setint r exs_Req_Status 200)) (c_req c3)\<rparr>, result) }
      | _ \<Rightarrow> do {
          (c1, r) \<leftarrow> xs_conn_write_httperror room now conn 400 (bytes ''Bad Directory Request'') path [];
          Some (st1, c1, r) }) }"

subsection \<open>Lemmas: the orders\<close>

lemma strncmp_loop_anti: "strncmp_loop f s t n = - strncmp_loop f t s n"
proof (induction s arbitrary: t n)
  case Nil
  then show ?case by (cases t) (auto simp: Let_def)
next
  case (Cons a s)
  show ?case
  proof (cases t)
    case (Cons b t')
    then show ?thesis using Cons.IH [of t' "n - 1"] by (auto simp: Let_def)
  qed (auto simp: Let_def)
qed

lemma strncmp_loop_head:
  assumes "strncmp_loop f s t n \<le> 0" "0 < n"
  shows "f (schar (at0 s 0)) \<le> f (schar (at0 t 0))"
  using assms by (cases s) (auto simp: Let_def split: if_splits)

lemma strncmp_loop_trans:
  assumes f: "\<And>c. f (schar c) = f (schar 0) \<longleftrightarrow> c = 0"
  shows "strncmp_loop f s t n \<le> 0 \<Longrightarrow> strncmp_loop f t u n \<le> 0 \<Longrightarrow> strncmp_loop f s u n \<le> 0"
proof (induction s arbitrary: t u n)
  case Nil
  show ?case
  proof (cases "0 < n")
    case True
    then show ?thesis using strncmp_loop_head [OF Nil(1) True] strncmp_loop_head [OF Nil(2) True] by simp
  qed simp
next
  case (Cons a s)
  show ?case
  proof (cases "0 < n")
    case n: True
    note h = strncmp_loop_head [OF Cons.prems(1) n] strncmp_loop_head [OF Cons.prems(2) n]
    let ?a = "f (schar a)" and ?b = "f (schar (at0 t 0))" and ?c = "f (schar (at0 u 0))"
    show ?thesis
    proof (cases "?a < ?c \<or> a = 0 \<or> at0 u 0 = 0")
      case True
      then show ?thesis using h n by (auto simp: Let_def)
    next
      case False
      then have e: "?a = ?b" "?b = ?c" using h by auto
      have nz: "a \<noteq> 0" "at0 t 0 \<noteq> 0" "at0 u 0 \<noteq> 0" using False e f [of a] f [of "at0 t 0"] by auto
      obtain b t' c u' where t: "t = b # t'" "u = c # u'" using nz by (cases t; cases u) auto
      have "strncmp_loop f s t' (n - 1) \<le> 0" "strncmp_loop f t' u' (n - 1) \<le> 0"
        using Cons.prems e nz n t by (auto simp: Let_def)
      then have "strncmp_loop f s u' (n - 1) \<le> 0" by (rule Cons.IH)
      then show ?thesis using e nz n t by (auto simp: Let_def)
    qed
  qed simp
qed

lemma xs_lower_zero: "xs_lower (schar c) = xs_lower (schar 0) \<longleftrightarrow> c = 0"
  using lower_byte_zero_iff [of c] by simp

lemma strcmp_case_order: "cmp_order (\<lambda>a b. xs_strcmp_case (Some (key a)) (Some (key b)))"
proof -
  let ?p = "\<lambda>a b. strncmp_loop xs_lower (key a) (key b) 2147483647"
  have anti: "(?p x y < 0) = (?p y x > 0)" for x y
    using strncmp_loop_anti [of xs_lower "key x" "key y" 2147483647] by linarith
  have "?p x y \<le> 0 \<Longrightarrow> ?p y z \<le> 0 \<Longrightarrow> ?p x z \<le> 0" for x y z
    by (rule strncmp_loop_trans [OF xs_lower_zero])
  then have "cmp_order ?p" unfolding cmp_order_def using anti by blast
  then show ?thesis by (simp add: xs_strcmp_case_def xs_strncmp_case_def)
qed

lemma cmp_order_lex:
  assumes "cmp_order p" "cmp_order q"
  shows "cmp_order (\<lambda>a b. if p a b \<noteq> 0 then p a b else q a b)"
  using assms unfolding cmp_order_def by (smt (verit, best))

lemma cmp_order_flip: "cmp_order p \<Longrightarrow> cmp_order (\<lambda>a b. p b a)"
  unfolding cmp_order_def by blast

lemma dirs_first_order: "cmp_order dirs_first"
  by (auto simp: cmp_order_def dirs_first_def of_bool_def split: if_splits)

lemma size_order: "cmp_order (\<lambda>a b. if fi_size a < fi_size b then - 1 else if fi_size a > fi_size b then 1 else 0)"
  by (auto simp: cmp_order_def)

lemma dir_name_order:
  "cmp_order (xs_dircompare_an names)" "cmp_order (xs_dircompare_dn names)"
  using cmp_order_lex [OF dirs_first_order strcmp_case_order [of "dir_name names"]]
    cmp_order_lex [OF dirs_first_order cmp_order_flip [OF strcmp_case_order [of "dir_name names"]]]
  unfolding xs_dircompare_an_def xs_dircompare_dn_def Let_def by simp_all

lemma dir_size_order: "cmp_order (xs_dircompare_as names)" "cmp_order (xs_dircompare_ds names)"
  using cmp_order_lex [OF cmp_order_lex [OF dirs_first_order size_order] dir_name_order(1) [of names]]
    cmp_order_lex [OF cmp_order_lex [OF dirs_first_order cmp_order_flip [OF size_order]] dir_name_order(2) [of names]]
  unfolding xs_dircompare_as_def xs_dircompare_ds_def Let_def by simp_all

lemma dir_order_sorts: "dir_order s0 s1 = Some cmp \<Longrightarrow> s1 \<noteq> 100 \<Longrightarrow> cmp_order (cmp names)"
  by (auto simp: dir_order_def dir_name_order dir_size_order split: if_splits)

subsection \<open>Lemmas: scanning\<close>

lemma path_print_text:
  assumes "pieces_ok ps" "length (text_of ps) + 1 < PATH_MAX" "is_cstr (text_of ps)"
  shows "path_print (fmt_of ps) (args_of ps) = Some (text_of ps)"
proof -
  obtain b where b: "xs_sprintf (Some (replicate PATH_MAX 0)) (int PATH_MAX) (Some (fmt_of ps)) (args_of ps) =
      Some (Some b, int (length (text_of ps)))" "take (length (text_of ps) + 1) b = text_of ps @ [0]"
    using sprintf_text [OF assms(1,2), of "replicate PATH_MAX 0"] by auto
  have "cstr b = text_of ps"
    using b(2) assms(3) append_take_drop_id [of "length (text_of ps) + 1" b] cstr_terminated [of "text_of ps"]
    by (metis append.assoc append_Cons append_Nil)
  then show ?thesis using b(1) by (simp add: path_print_def)
qed

lemma dirnext_path:
  assumes "name \<noteq> bytes ''.''" "name \<noteq> bytes ''..''" "is_cstr dir" "is_cstr name" "length dir + length name + 2 < PATH_MAX"
  shows "xs_dirnext dir name = Some (dir @ 47 # name)"
proof -
  let ?ps = "[P_str dir, P_char 47, P_str name]"
  have "path_print (fmt_of ?ps) (args_of ?ps) = Some (text_of ?ps)"
    using assms(3-) by (intro path_print_text) (auto simp: is_lit_def)
  then show ?thesis using assms(1,2) by (simp add: xs_dirnext_def)
qed

definition fd_stat :: "xs_fileinfo \<Rightarrow> bool \<times> nat \<times> int" where
  "fd_stat fd = (fi_isdir fd, fi_size fd, fi_mtime fd)"

definition dl_ok :: "xs_dirlist \<Rightarrow> (byte list \<times> bool \<times> nat \<times> int) list \<Rightarrow> bool" where
  \<comment> \<open>the list holds the given rows of name, kind, size and time\<close>
  "dl_ok dl rows \<longleftrightarrow> arr_wf (dl_pathdata dl) \<and> arr_wf (dl_dir dl) \<and>
     aSpace (dl_pathdata dl) \<le> 2 * aCount (dl_pathdata dl) \<and> aSpace (dl_dir dl) \<le> 2 * aCount (dl_dir dl) \<and>
     aCount (dl_pathdata dl) = (\<Sum>r\<leftarrow>rows. int (length (fst r)) + 1) \<and>
     map (\<lambda>fd. (dir_name (dl_names dl) fd, fd_stat fd)) (arr_contents (dl_dir dl)) = rows \<and>
     (\<forall>fd\<in>set (arr_contents (dl_dir dl)). 0 \<in> set (drop (fi_userinfo fd) (arr_contents (dl_pathdata dl))))"

lemma cstr_drop_append: "0 \<in> set (drop k p) \<Longrightarrow> cstr (drop k (p @ x)) = cstr (drop k p)"
  by (simp add: cstr_def takeWhile_append1)

lemma arr_space_add:
  assumes "xs_arr_add room z ar (Some s) n = Some (ar', Some i)" "aSpace ar \<le> 2 * aCount ar" "0 \<le> n" "0 \<le> aCount ar"
  shows "aSpace ar' \<le> 2 * aCount ar'" "aCount ar' = aCount ar + n"
proof -
  note sp = xs_arr_add_space [OF assms(1)]
  show c: "aCount ar' = aCount ar + n" using sp(2) by simp
  show "aSpace ar' \<le> 2 * aCount ar'"
  proof (cases "aSpace ar' = aSpace ar")
    case True
    then show ?thesis using assms(2,3) c by linarith
  next
    case False
    then have "aSpace ar < aCount ar + n" using sp(3) by simp
    then show ?thesis using sp(1) assms(2-4) c by simp
  qed
qed

lemma arr_contents_data:
  assumes "arr_wf ar" "arr_contents ar \<noteq> []"
  obtains x where "aData ar = Some (arr_contents ar @ x)"
proof -
  obtain d where d: "aData ar = Some d" using assms(2) by (auto simp: arr_contents_def split: option.splits)
  have "arr_contents ar @ drop (nat (aCount ar)) d = d" using arr_wf_Some(6) [OF assms(1) d] by simp
  then show ?thesis using d that by metis
qed

lemma dirlist_add_ok:
  assumes ok: "dl_ok dl rows" and name: "name \<noteq> []" "is_cstr name"
    and lim: "aCount (dl_pathdata dl) + int (length name) + 1 < 2 ^ 28" "int (length rows) + 1 < 2 ^ 28"
  shows "\<exists>dl'. xs_dirlist_add (\<lambda>_. True) dl name fd = Some (dl', 0) \<and> dl_ok dl' (rows @ [(name, fd_stat fd)])"
proof -
  let ?pd = "dl_pathdata dl" and ?dir = "dl_dir dl" and ?s = "name @ [0]"
  have wf: "arr_wf ?pd" "arr_wf ?dir" "aSpace ?pd \<le> 2 * aCount ?pd" "aSpace ?dir \<le> 2 * aCount ?dir"
    using ok by (simp_all add: dl_ok_def)
  have rows: "map (\<lambda>fd. (dir_name (dl_names dl) fd, fd_stat fd)) (arr_contents ?dir) = rows" using ok by (simp add: dl_ok_def)
  have cnt: "aCount ?dir = int (length rows)" "aCount ?pd = int (length (arr_contents ?pd))"
    using wf arg_cong [OF rows, of length] by (auto simp: arr_wf_def arr_contents_def split: option.splits)
  obtain pd where pd: "xs_arr_add (\<lambda>_. True) 0 ?pd (Some ?s) (int (length ?s)) = Some (pd, Some (aCount ?pd))" "arr_wf pd"
    "arr_contents pd = arr_contents ?pd @ ?s"
    using xs_arr_add_spec [where room = "\<lambda>_. True" and z = 0, OF wf(1), of ?s] wf(3) lim(1) by auto
  obtain dir where dir: "xs_arr_add (\<lambda>_. True) fileinfo_zero ?dir (Some [fd]) (int (length [fd])) = Some (dir, Some (aCount ?dir))"
    "arr_wf dir" "arr_contents dir = arr_contents ?dir @ [fd]"
    using xs_arr_add_spec [where room = "\<lambda>_. True" and z = fileinfo_zero, OF wf(2), of "[fd]"] wf(4) lim(2) cnt by auto
  have n: "int (length ?s) = int (length name) + 1" "int (length [fd]) = 1" by simp_all
  have nn: "0 \<le> aCount ?pd" "0 \<le> aCount ?dir" using cnt by simp_all
  note pd1 = pd(1) [unfolded n] and dir1 = dir(1) [unfolded n]
  note sp = arr_space_add [OF pd1 wf(3) _ nn(1)] arr_space_add [OF dir1 wf(4) _ nn(2)]
  obtain x where x: "aData pd = Some ((arr_contents ?pd @ ?s) @ x)" using arr_contents_data [OF pd(2)] pd(3) by auto
  obtain y where y: "aData dir = Some ((arr_contents ?dir @ [fd]) @ y)" using arr_contents_data [OF dir(2)] dir(3) by auto
  let ?d = "(arr_contents ?pd @ ?s) @ x" and ?e = "(arr_contents ?dir @ [fd]) @ y"
  let ?i = "length (arr_contents ?pd)" and ?k = "length rows" and ?fd = "fd\<lparr>fi_userinfo := length (arr_contents ?pd)\<rparr>"
  have k: "length (arr_contents ?dir) = ?k" using arg_cong [OF rows, of length] by simp
  have w1: "wr ?d (?i + length name) 0 = Some ?d" by (simp add: mem_simps list_update_append nth_append)
  have w2: "rd ?e ?k = Some fd" "wr ?e ?k ?fd = Some ((arr_contents ?dir @ [?fd]) @ y)"
    using k by (simp_all add: mem_simps nth_append list_update_append)
  let ?pd' = "pd\<lparr>aData := Some ?d\<rparr>" and ?dir' = "dir\<lparr>aData := Some ((arr_contents ?dir @ [?fd]) @ y)\<rparr>"
  let ?dl = "dl\<lparr>dl_pathdata := ?pd', dl_dir := ?dir'\<rparr>"
  have add: "xs_dirlist_add (\<lambda>_. True) dl name fd = Some (?dl, 0)"
    using name(1) pd1 dir1 x y w1 w2 cnt by (simp add: xs_dirlist_add_def Let_def)
  have pd': "?pd' = pd" using x by simp
  have cdir: "arr_contents ?dir' = arr_contents ?dir @ [?fd]"
  proof -
    have "nat (aCount dir) = Suc ?k" using sp cnt by simp
    then show ?thesis using k by (simp add: arr_contents_def)
  qed
  have names: "dl_names ?dl = ?d" by (simp add: dl_names_def)
  have old: "dir_name (dl_names ?dl) f = dir_name (dl_names dl) f" if "f \<in> set (arr_contents ?dir)" for f
  proof -
    have z: "0 \<in> set (drop (fi_userinfo f) (arr_contents ?pd))" using ok that by (simp add: dl_ok_def)
    then have "arr_contents ?pd \<noteq> []" by auto
    then obtain x0 where "aData ?pd = Some (arr_contents ?pd @ x0)" using arr_contents_data [OF wf(1)] by blast
    then have d0: "dl_names dl = arr_contents ?pd @ x0" by (simp add: dl_names_def)
    have d1: "dl_names ?dl = arr_contents ?pd @ (?s @ x)" by (simp add: dl_names_def)
    show ?thesis unfolding dir_name_def d0 d1 cstr_drop_append [OF z] ..
  qed
  have new: "dir_name (dl_names ?dl) ?fd = name"
    unfolding dir_name_def names using name(2) by (simp add: cstr_terminated)
  have m: "map (\<lambda>fd. (dir_name (dl_names ?dl) fd, fd_stat fd)) (arr_contents ?dir) = rows"
    unfolding rows [symmetric] by (intro map_cong refl) (simp only: old)
  have wf': "arr_wf ?pd'" "arr_wf ?dir'" using pd(2) dir(2) y unfolding pd' by (simp_all add: arr_wf_def)
  have sel: "dl_pathdata ?dl = ?pd'" "dl_dir ?dl = ?dir'" by simp_all
  have sp': "aSpace ?pd' \<le> 2 * aCount ?pd'" "aSpace ?dir' \<le> 2 * aCount ?dir'" using sp by simp_all
  have c': "aCount ?pd' = (\<Sum>r\<leftarrow>rows @ [(name, fd_stat fd)]. int (length (fst r)) + 1)"
    using sp(2) ok by (simp add: dl_ok_def)
  have m': "map (\<lambda>fd. (dir_name (dl_names ?dl) fd, fd_stat fd)) (arr_contents ?dir') = rows @ [(name, fd_stat fd)]"
    unfolding cdir using m new by (simp add: fd_stat_def)
  have z': "\<forall>f\<in>set (arr_contents ?dir'). 0 \<in> set (drop (fi_userinfo f) (arr_contents ?pd'))"
    unfolding cdir pd' pd(3) using ok by (auto simp: dl_ok_def)
  have "dl_ok ?dl (rows @ [(name, fd_stat fd)])"
    unfolding dl_ok_def sel by (intro conjI wf' sp' c' m' z')
  then show ?thesis using add by blast
qed

definition node_stat :: "fs_node option \<Rightarrow> bool \<times> nat \<times> int" where
  "node_stat n = (case n of None \<Rightarrow> (False, 0, 0) | Some (Fs_file c m r) \<Rightarrow> (False, length c, m) | Some (Fs_dir k m) \<Rightarrow> (True, 0, m))"

definition stat_ok :: "fs_node option \<Rightarrow> xs_fileinfo \<Rightarrow> bool" where
  "stat_ok n fi \<longleftrightarrow> fi_stat_ret fi = (if n = None then - 1 else 0) \<and> fd_stat fi = node_stat n"

definition cache_stat :: "file_system \<Rightarrow> filecache \<Rightarrow> bool" where
  \<comment> \<open>no lock is held and the entries have the status of what is in the file system\<close>
  "cache_stat fs st \<longleftrightarrow> gxs_statptr st \<noteq> None \<and> gxs_statwrite st = 0 \<and> gxs_statread st = 0 \<and>
     (\<forall>p fi. fileinfo_entry st p = Some fi \<longrightarrow> fi_status fi = 10 \<and> fi_readcount fi = 0 \<and> stat_ok (fs p) fi)"

lemma refresh_stat:
  assumes "fi = fileinfo_zero \<or> fi_status fi = 10 \<and> fi_readcount fi = 0 \<and> stat_ok (fs path) fi"
  shows "\<exists>fi'. fileinfo_refresh fs ct fi path False = Some fi' \<and> fi_status fi' = 10 \<and> fi_readcount fi' = 0 \<and> stat_ok (fs path) fi'"
proof (cases "fi_status fi = 10 \<and> ct - fi_check_time fi \<le> 2")
  case True
  then show ?thesis using assms by (auto simp: fileinfo_refresh_def fileinfo_zero_def)
next
  case False
  then have st: "(if ct - fi_check_time fi > 2 \<and> fi_status fi = 10 then fi\<lparr>fi_status := 0\<rparr> else fi) = fi\<lparr>fi_status := 0\<rparr>"
    and r: "fi_readcount fi = 0" using assms by (auto simp: fileinfo_zero_def)
  show ?thesis unfolding fileinfo_refresh_def Let_def st using r
    by (auto simp: xs_stat_def fileinfo_zero_def stat_ok_def fd_stat_def node_stat_def Let_def split: option.splits fs_node.splits)
qed

lemma get_stat:
  assumes q: "cache_stat fs st"
  shows "\<exists>st' fi. xs_fileinfo_get (\<lambda>_. True) fs ct st path False = Some (st', fi_stat_ret fi) \<and>
    fileinfo_entry st' path = Some fi \<and> stat_ok (fs path) fi \<and> cache_stat fs st'"
proof -
  obtain tab where tab: "gxs_statptr st = Some tab" using q by (auto simp: cache_stat_def)
  let ?fi = "case tab path of Some fi \<Rightarrow> fi | None \<Rightarrow> fileinfo_zero"
  have "?fi = fileinfo_zero \<or> fi_status ?fi = 10 \<and> fi_readcount ?fi = 0 \<and> stat_ok (fs path) ?fi"
    using q tab by (auto simp: cache_stat_def fileinfo_entry_def split: option.splits)
  then obtain fi' where fi': "fileinfo_refresh fs ct ?fi path False = Some fi'" "fi_status fi' = 10" "fi_readcount fi' = 0"
    "stat_ok (fs path) fi'" using refresh_stat by blast
  let ?st' = "fileinfo_set st path fi'"
  have "xs_fileinfo_get (\<lambda>_. True) fs ct st path False = Some (?st', fi_stat_ret fi')"
    using q tab fi'(1)
    by (cases "tab path") (simp_all add: xs_fileinfo_get_def xs_fileinfo_global_lockstatus_def cache_stat_def
        fileinfo_entry_def fileinfo_set_def Let_def)
  moreover have "cache_stat fs ?st'"
    using q fi' tab by (auto simp: cache_stat_def fileinfo_set_def fileinfo_entry_def)
  ultimately show ?thesis using fi' by (auto simp: fileinfo_set_def fileinfo_entry_def)
qed

definition listed :: "file_system \<Rightarrow> byte list \<Rightarrow> byte list list \<Rightarrow> (byte list \<times> bool \<times> nat \<times> int) list" where
  \<comment> \<open>what a listing should show: the names that are there, but for the dot entries, with their status\<close>
  "listed fs dir names =
     map (\<lambda>n. (n, node_stat (fs (dir @ 47 # n))))
       (filter (\<lambda>n. n \<noteq> bytes ''.'' \<and> n \<noteq> bytes ''..'' \<and> fs (dir @ 47 # n) \<noteq> None) names)"

definition scannable :: "byte list \<Rightarrow> byte list list \<Rightarrow> bool" where
  \<comment> \<open>proper names whose paths fit a path buffer\<close>
  "scannable dir names \<longleftrightarrow> is_cstr dir \<and>
     (\<forall>n\<in>set names. n \<noteq> [] \<and> is_cstr n \<and> length dir + length n + 2 < PATH_MAX)"

lemma dirscan_loop_rows:
  assumes "cache_stat fs st" "dl_ok dl rows" "scannable dir names"
    "aCount (dl_pathdata dl) + (\<Sum>n\<leftarrow>names. int (length n) + 1) < 2 ^ 28" "int (length rows) + int (length names) < 2 ^ 28"
  shows "\<exists>st' dl'. dirscan_loop (\<lambda>_. True) fs ct dir names st dl = Some (st', dl') \<and> cache_stat fs st' \<and>
    dl_ok dl' (rows @ listed fs dir names)"
  using assms
proof (induction names arbitrary: st dl rows)
  case (Cons n names)
  have sc: "scannable dir names" "n \<noteq> []" "is_cstr n" "is_cstr dir" "length dir + length n + 2 < PATH_MAX"
    using Cons.prems(3) by (auto simp: scannable_def)
  have pos: "0 \<le> (\<Sum>n\<leftarrow>names. int (length n) + 1)" by (rule sum_list_nonneg) auto
  have lim: "aCount (dl_pathdata dl) + (\<Sum>n\<leftarrow>names. int (length n) + 1) < 2 ^ 28" "int (length rows) + int (length names) < 2 ^ 28"
    using Cons.prems(4,5) by simp_all
  show ?case
  proof (cases "n = bytes ''.'' \<or> n = bytes ''..''")
    case True
    then have "xs_dirnext dir n = Some []" by (auto simp: xs_dirnext_def)
    then show ?thesis using Cons.IH [OF Cons.prems(1,2) sc(1) lim] True by (auto simp: listed_def)
  next
    case dots: False
    have next': "xs_dirnext dir n = Some (dir @ 47 # n)" using dirnext_path dots sc by simp
    obtain st1 fd where g: "xs_fileinfo_get (\<lambda>_. True) fs ct st (dir @ 47 # n) False = Some (st1, fi_stat_ret fd)"
      "fileinfo_entry st1 (dir @ 47 # n) = Some fd" "stat_ok (fs (dir @ 47 # n)) fd" "cache_stat fs st1"
      using get_stat [OF Cons.prems(1)] by blast
    have r: "fi_stat_ret fd \<noteq> - 108" using g(3) by (auto simp: stat_ok_def)
    show ?thesis
    proof (cases "fs (dir @ 47 # n) = None")
      case True
      then have "fi_stat_ret fd \<noteq> 0" using g(3) by (simp add: stat_ok_def)
      then show ?thesis using Cons.IH [OF g(4) Cons.prems(2) sc(1) lim] next' g r True by (auto simp: listed_def)
    next
      case False
      then have s: "fi_stat_ret fd = 0" "fd_stat fd = node_stat (fs (dir @ 47 # n))" using g(3) by (simp_all add: stat_ok_def)
      obtain dl' where dl': "xs_dirlist_add (\<lambda>_. True) dl n fd = Some (dl', 0)" "dl_ok dl' (rows @ [(n, fd_stat fd)])"
        using dirlist_add_ok [OF Cons.prems(2) sc(2,3)] Cons.prems(4,5) pos by force
      have "aCount (dl_pathdata dl') = aCount (dl_pathdata dl) + int (length n) + 1"
        using dl'(2) Cons.prems(2) by (simp add: dl_ok_def)
      then show ?thesis
        using Cons.IH [OF g(4) dl'(2) sc(1)] Cons.prems(4,5) next' g r s dl'(1) False dots by (auto simp: listed_def)
    qed
  qed
qed (simp add: listed_def)

lemma dirlist_create_ok: "dl_ok (xs_dirlist_create\<lparr>dl_rootpath := r\<rparr>) []"
  by (simp add: dl_ok_def xs_dirlist_create_def xs_arr_create_def arr_wf_def arr_contents_def)

subsection \<open>Lemmas: a path as a format\<close>

lemma loop_missing_string:
  assumes "p_args s = []" "p_ind s < 1024"
  shows "pf_loop None 2147483647 1024 (37 # 115 # b) s = None"
proof -
  have u: "s\<lparr>p_args := []\<rparr> = s" using assms(1) by simp
  show ?thesis
    using assms parse_plain [of 115 1024 b "[]"] u
    by (subst pf_loop.simps) (simp add: pf_flush_if_def pf_then_Inr plain_spec_def pf_conv_def pf_then_def)
qed

lemma length_missing_string:
  assumes "a \<noteq> []" "37 \<notin> set a" "length a < 1000"
  shows "xs_sprintf_len (Some (a @ 37 # 115 # b)) [] = None"
proof -
  let ?s = "\<lparr>p_str = replicate 1024 0, p_ind = 0, p_tot = 0, p_user = (), p_args = [], p_nout = []\<rparr>"
  obtain c a' where a: "a = c # a'" using assms(1) by (cases a) auto
  have sp: "pf_span (a' @ 37 # 115 # b) = a'" using pf_span_lit [of a' "37 # 115 # b"] assms(2) a by simp
  obtain s1 :: "unit pf" where s1: "pf_text None 1024 c a' ?s = Some (Inr s1)" "p_args s1 = []" "p_ind s1 < 1024"
    using assms(3) a by (cases "a' = []") (auto simp: pf_text_def pf_put_def pf_copy_def mem_simps)
  have "pf_loop None 2147483647 1024 (a @ 37 # 115 # b) ?s = None"
    using assms(2) a sp s1 loop_missing_string [OF s1(2,3), of b]
    by (subst pf_loop.simps) (simp add: pf_flush_if_def pf_then_Inr)
  then show ?thesis by (simp add: xs_sprintf_len_def xs_sprintf_core_def)
qed

subsection \<open>Properties\<close>



text \<open>C36: The order of a listing. By name and by size, in either direction, the entries come out as a permutation
  in the order asked for, and directories before files; names are compared without regard to case.\<close>

theorem xs_dir_sort_orders:
  assumes "arr_wf (dl_dir dl)" "dir_sortinfo query = (s0, s1)" "s1 = 110 \<or> s1 = 115"
  shows "\<exists>fds cmp. dir_sort query dl = Some fds \<and> mset fds = mset (arr_contents (dl_dir dl)) \<and> dir_order s0 s1 = Some cmp \<and>
    (\<forall>a b. a < b \<and> b < length fds \<longrightarrow> cmp (dl_names dl) (fds ! a) (fds ! b) \<le> 0) \<and>
    (\<forall>a b. a < b \<and> b < length fds \<and> fi_isdir (fds ! b) \<longrightarrow> fi_isdir (fds ! a))"
proof -
  obtain cmp where cmp: "dir_order s0 s1 = Some cmp" using assms(3) by (auto simp: dir_order_def)
  have ord: "cmp_order (cmp (dl_names dl))" using dir_order_sorts [OF cmp] assms(3) by auto
  let ?fdp = "case aData (dl_dir dl) of None \<Rightarrow> [] | Some d \<Rightarrow> d" and ?cnt = "nat (aCount (dl_dir dl))"
  have cnt: "?cnt \<le> length ?fdp" "?cnt < 2 ^ 31" "arr_contents (dl_dir dl) = take ?cnt ?fdp"
    using assms(1) by (auto simp: arr_wf_def arr_contents_def split: option.splits)
  obtain ys where ys: "xs_ptr_qsort (cmp (dl_names dl)) ?fdp ?cnt = Some (ys, 0)" "seg_perm 0 ?cnt ?fdp ys"
    "sorted_seg (cmp (dl_names dl)) ys 0 ?cnt" using xs_ptr_qsort_spec [OF ord cnt(1,2)] by blast
  have m: "mset (take ?cnt ys) = mset (take ?cnt ?fdp)" by (rule seg_perm_take [OF ys(2)])
  have s: "cmp (dl_names dl) (take ?cnt ys ! a) (take ?cnt ys ! b) \<le> 0" if "a < b" "b < length (take ?cnt ys)" for a b
    using ys(3) that by (simp add: sorted_seg_def)
  have d: "fi_isdir y \<longrightarrow> fi_isdir x" if "cmp (dl_names dl) x y \<le> 0" for x y
    using that cmp by (auto simp: dir_order_def xs_dircompare_an_def xs_dircompare_dn_def xs_dircompare_as_def
        xs_dircompare_ds_def xs_dircompare_ad_def xs_dircompare_dd_def dirs_first_def Let_def split: if_splits)
  have "dir_sort query dl = Some (take ?cnt ys)" using assms(2) cmp ys(1) by (simp add: dir_sort_def)
  then show ?thesis using m cnt(3) s d cmp by metis
qed

theorem xs_dir_sort_orders_witness:
  "\<exists>fds. dir_sort (Some (bytes ''an'')) (xs_dirlist_create\<lparr>dl_dir :=
      \<lparr>aData = Some [fileinfo_zero, fileinfo_zero\<lparr>fi_isdir := True\<rparr>], aCount = 2, aSpace = 2\<rparr>\<rparr>) = Some fds \<and>
    mset fds = {#fileinfo_zero, fileinfo_zero\<lparr>fi_isdir := True\<rparr>#}"
proof -
  let ?dl = "xs_dirlist_create\<lparr>dl_dir := \<lparr>aData = Some [fileinfo_zero, fileinfo_zero\<lparr>fi_isdir := True\<rparr>], aCount = 2, aSpace = 2\<rparr>\<rparr>"
  have "arr_wf (dl_dir ?dl)" by (simp add: arr_wf_def)
  moreover have "dir_sortinfo (Some (bytes ''an'')) = (97, 110)" by (simp add: dir_sortinfo_def at0_def)
  ultimately show ?thesis using xs_dir_sort_orders [of ?dl "Some (bytes ''an'')" 97 110] by (auto simp: arr_contents_def)
qed

text \<open>The name of a directory as a format. When a directory cannot be opened, its path is used as the format of
  the error message: a conversion in it, as in a directory named \<open>%s\<close>, reads an argument that was not passed.\<close>

theorem xs_http_dirresponse_format:
  assumes "entries path = None" "path = a @ bytes ''%s'' @ b" "a \<noteq> []" "37 \<notin> set a" "length a < 1000"
  shows "xs_http_dirresponse room fs ct entries now timestr st conn origpath path = None"
proof -
  have "xs_conn_write_httperror room now conn 400 (bytes ''Bad Directory Request'') path [] = None"
    using assms length_missing_string [OF assms(3-5), of b] by (simp add: xs_conn_write_httperror_def)
  moreover have "xs_dirscan room fs ct entries st path = Some (st, None)" using assms(1) by (simp add: xs_dirscan_def)
  ultimately show ?thesis by (cases "xs_conn_getreq conn") (simp_all add: xs_http_dirresponse_def)
qed

theorem xs_http_dirresponse_format_witness:
  "xs_http_dirresponse (\<lambda>_. True) Map.empty 0 (\<lambda>_. None) [] (\<lambda>_. []) filecache_start xs_conn_create (Some (bytes ''/%s''))
    (bytes ''./%s'') = None"
  using xs_http_dirresponse_format [of "\<lambda>_. None" "bytes ''./%s''" "bytes ''./''" "[]"] by simp

end
