(* ===== verification/Filedata.thy ===== *)
theory Filedata
  imports Dir
begin

text \<open>
  Sending the contents of a file on a connection: \<open>xs_conn_write_filedata\<close> of \<open>xs/xs_connection.h\<close>.

  A socket made blocking takes everything it is given or fails. Reading outside a mapping is undefined. The
  fallback for files without a mapping may loop for ever; there \<open>None\<close> also stands for not returning.
\<close>

subsection \<open>Sending the data\<close>

definition sock_block :: "xs_conn \<Rightarrow> xs_conn" where
  \<comment> \<open>\<open>xs_sock_setnonblocking(sock, 0)\<close>\<close>
  "sock_block conn = conn\<lparr>e_send := filter (\<lambda>x. case x of Sent k \<Rightarrow> False | Send_again \<Rightarrow> False | _ \<Rightarrow> True) (e_send conn)\<rparr>"

datatype w_next = W_go | W_break | W_return

definition map_read :: "byte list \<Rightarrow> int \<Rightarrow> nat \<Rightarrow> byte list option" where
  "map_read d off n = (if off < 0 then None else rds d (nat off) n)"

definition filedata_step ::
  "(nat \<Rightarrow> bool) \<Rightarrow> bool \<Rightarrow> byte list \<Rightarrow> int \<Rightarrow> nat \<Rightarrow> xs_conn \<Rightarrow> nat \<Rightarrow> (xs_conn \<times> nat \<times> w_next) option" where
  \<comment> \<open>one round of the loop over a mapping\<close>
  "filedata_step room blocking d rs outtot conn tot =
     (let w = (if tot + 1048576 > outtot then outtot - tot else 1048576);
          (c1, ok) = xs_conn_writable conn
      in
      if \<not> ok \<and> \<not> blocking then Some (c1, tot, W_return)
      else do {
        x \<leftarrow> map_read d (rs + int tot) w;
        (c3, n) \<leftarrow> xs_conn_write_ex room (if ok then c1 else sock_block c1) x (tot + w < outtot);
        if c_errnum c3 = exs_Error_WriteBusy
        then if \<not> blocking then Some (c3, tot, W_return)
             else do { (c4, r) \<leftarrow> xs_conn_cachepurge room (sock_block c3); Some (c4, tot + n, W_go) }
        else if c_errnum c3 \<noteq> 0 \<or> n = 0 then Some (c3, tot, W_break)
        else Some (c3, tot + n, W_go) })"

definition file_step ::
  "(nat \<Rightarrow> bool) \<Rightarrow> bool \<Rightarrow> byte list \<Rightarrow> nat \<Rightarrow> xs_conn \<Rightarrow> nat \<Rightarrow> nat \<Rightarrow> (xs_conn \<times> nat \<times> nat \<times> w_next) option" where
  \<comment> \<open>one round of the loop that reads from the file at \<open>pos\<close>\<close>
  "file_step room blocking content outtot conn tot pos =
     (let bsize = (if room (min 262144 outtot) then min 262144 outtot else 8192);
          w = (if tot + bsize > outtot then outtot - tot else bsize);
          (c1, ok) = xs_conn_writable conn;
          x = take w (drop pos content)
      in
      if \<not> ok \<and> \<not> blocking then Some (c1, tot, pos, W_return)
      else do {
        (c3, n) \<leftarrow> xs_conn_write_ex room (if ok then c1 else sock_block c1) x (tot + length x < outtot);
        if c_errnum c3 = exs_Error_WriteBusy
        then if \<not> blocking then Some (c3, tot + n, pos + length x, W_return)
             else Some (sock_block c3, tot + n, pos + length x, W_go)
        else if c_errnum c3 \<noteq> 0 \<or> n = 0 then Some (c3, tot + n, pos + length x, W_break)
        else Some (c3, tot + n, pos + length x, W_go) })"

partial_function (option) file_loop ::
  "(nat \<Rightarrow> bool) \<Rightarrow> bool \<Rightarrow> byte list \<Rightarrow> nat \<Rightarrow> xs_conn \<Rightarrow> nat \<Rightarrow> nat \<Rightarrow> (xs_conn \<times> nat \<times> w_next) option" where
  "file_loop room blocking content outtot conn tot pos =
     Option.bind (file_step room blocking content outtot conn tot pos) (\<lambda>(c1, tot1, pos1, v).
       if v = W_go \<and> tot1 < outtot then file_loop room blocking content outtot c1 tot1 pos1 else Some (c1, tot1, v))"

subsection \<open>Lemmas: progress of the loop\<close>

lemma sock_send_length: "sock_send c x = (c', n, e) \<Longrightarrow> length (e_send c') \<le> length (e_send c) \<and> (x \<noteq> [] \<longrightarrow> n \<le> 0 \<longrightarrow> length (e_send c') < length (e_send c))"
  by (auto simp: sock_send_def split: list.splits sock_send.splits)

lemma cache_append_length: "cache_append room c x = Some (c', r) \<Longrightarrow> e_send c' = e_send c"
  by (auto simp: cache_append_def bind_eq_Some_conv Let_def split: if_splits option.splits)

interpretation fewer: write_relation "\<lambda>c c'. length (e_send c') \<le> length (e_send c)"
proof
  fix c c' d n e
  assume "sock_send c d = (c', n, e)"
  then show "length (e_send c') \<le> length (e_send c)" using sock_send_length by blast
next
  fix room c c' d r
  assume "cache_append room c d = Some (c', r)"
  then show "length (e_send c') \<le> length (e_send c)" using cache_append_length by fastforce
qed auto

lemma sock_block_length: "length (e_send (sock_block c)) \<le> length (e_send c)"
  by (simp add: sock_block_def)

lemma send_nothing_length:
  assumes "send_loop room own c d 0 = Some (c', 0, ret)" "d \<noteq> []" "length d \<le> INT_MAX"
  shows "length (e_send c') < length (e_send c)"
proof -
  obtain c1 k e where s: "sock_send c d = (c1, k, e)" by (metis prod_cases3)
  let ?X = "if own then Some (c1, 0) else cache_append room c1 (drop (nat (max k 0)) d)"
  show ?thesis
  proof (cases "k = 0")
    case True
    then have "c' = c1" using assms(1) s send_loop_once [OF assms(2,3), of room own c] by (simp add: Let_def)
    then show ?thesis using sock_send_length [OF s] assms(2) True by simp
  next
    case False
    have full: "k \<noteq> int (length d)" using assms(1,2) s send_loop_once [OF assms(2,3), of room own c] by (auto simp: Let_def)
    have eq: "send_loop room own c d 0 = Option.bind ?X (\<lambda>(c2, r). Some
          (if 0 < k then c2\<lparr>c_errnum := exs_Error_WriteBusy\<rparr>
           else let c3 = xs_conn_seterr c2 e in if c_errnum c3 = 0 then c3\<lparr>c_errnum := exs_Error_WriteBusy\<rparr> else c3,
           if r \<noteq> 0 then nat (max k 0) + (length d - nat (max k 0)) else nat (max k 0), False))"
      using send_loop_once [OF assms(2,3), of room own c] s False full by (simp only: Let_def prod.case if_False)
    obtain c2 r where c2: "?X = Some (c2, r)" using assms(1) unfolding eq by (cases ?X) auto
    have "e_send c2 = e_send c1" using c2 cache_append_length by (auto split: if_splits)
    moreover have "e_send c' = e_send c2" using assms(1) unfolding eq c2
      by (auto simp: xs_conn_seterr_def Let_def split: if_splits)
    moreover have "k \<le> 0" using assms(1,2) unfolding eq c2 by (auto split: if_splits)
    ultimately show ?thesis using sock_send_length [OF s] assms(2) by simp
  qed
qed

lemma write_nothing_length:
  assumes "xs_conn_write_ex room c d cork = Some (c', 0)" "d \<noteq> []" "length d \<le> INT_MAX"
  shows "length (e_send c') < length (e_send c)"
proof -
  obtain c1 r where f: "xs_conn_cachefill room False (c\<lparr>c_errnum := 0\<rparr>) d False = Some (c1, r)"
    using assms by (auto simp: xs_conn_write_ex_def bind_eq_Some_conv)
  have f1: "length (e_send c1) \<le> length (e_send c)" using fewer.rel_cachefill [OF f] by simp
  have w: "write_body room False c1 d cork = Some (c', 0)"
    using assms f by (auto simp: xs_conn_write_ex_def split: if_splits)
  let ?c = "if cork then c1\<lparr>c_corked := True\<rparr> else c1"
  obtain c2 ret where l: "send_loop room False ?c d 0 = Some (c2, 0, ret)" "e_send c' = e_send c2"
    using w by (auto simp: write_body_def bind_eq_Some_conv Let_def split: if_splits)
  then show ?thesis using send_nothing_length [OF l(1) assms(2,3)] f1 by (auto split: if_splits)
qed

lemma filedata_step_progress:
  assumes "filedata_step room blocking d rs outtot c tot = Some (c', tot', W_go)" "tot < outtot"
  shows "tot < tot' \<or> tot' = tot \<and> length (e_send c') < length (e_send c)"
proof -
  let ?w = "if tot + 1048576 > outtot then outtot - tot else 1048576"
  obtain c1 ok where w: "xs_conn_writable c = (c1, ok)" by force
  let ?c2 = "if ok then c1 else sock_block c1"
  obtain x where x: "map_read d (rs + int tot) ?w = Some x"
    using assms(1) w by (auto simp: filedata_step_def bind_eq_Some_conv Let_def split: if_splits)
  obtain c3 n where n: "xs_conn_write_ex room ?c2 x (tot + ?w < outtot) = Some (c3, n)"
    using assms(1) w x by (auto simp: filedata_step_def bind_eq_Some_conv Let_def split: if_splits)
  have len: "length x = ?w" using x by (auto simp: map_read_def rds_def split: if_splits)
  have x0: "x \<noteq> []" "length x \<le> INT_MAX" using len assms(2) by (auto split: if_splits)
  have l1: "length (e_send ?c2) \<le> length (e_send c)"
    using fewer.rel_writable [OF w] sock_block_length [of c1] by auto
  show ?thesis
  proof (cases "c_errnum c3 = exs_Error_WriteBusy")
    case False
    then show ?thesis using assms w x n by (auto simp: filedata_step_def Let_def split: if_splits)
  next
    case True
    then obtain r where p: "xs_conn_cachepurge room (sock_block c3) = Some (c', r)" "tot' = tot + n"
      using assms w x n by (auto simp: filedata_step_def bind_eq_Some_conv Let_def split: if_splits)
    have "length (e_send c') \<le> length (e_send c3)"
      using fewer.rel_cachepurge [OF p(1)] sock_block_length [of c3] by simp
    moreover have "n = 0 \<Longrightarrow> length (e_send c3) < length (e_send ?c2)" using write_nothing_length n x0 by blast
    ultimately show ?thesis using p(2) l1 by (cases "n = 0") auto
  qed
qed

function filedata_loop ::
  "(nat \<Rightarrow> bool) \<Rightarrow> bool \<Rightarrow> byte list \<Rightarrow> int \<Rightarrow> nat \<Rightarrow> xs_conn \<Rightarrow> nat \<Rightarrow> (xs_conn \<times> nat \<times> w_next) option" where
  \<comment> \<open>it ends: a round sends something, or the socket has answered once more\<close>
  "filedata_loop room blocking d rs outtot conn tot =
     (if tot < outtot then
        (case filedata_step room blocking d rs outtot conn tot of
           None \<Rightarrow> None
         | Some (c1, tot1, v) \<Rightarrow>
             if v = W_go then filedata_loop room blocking d rs outtot c1 tot1 else Some (c1, tot1, v))
      else Some (conn, tot, W_go))"
  by pat_completeness auto
termination
proof (relation "(\<lambda>(room, blocking, d, rs, outtot, conn, tot). outtot - tot) <*mlex*>
    measure (\<lambda>(room, blocking, d, rs, outtot, conn, tot). length (e_send conn))", goal_cases)
  case 1
  then show ?case by (simp add: wf_mlex)
next
  case (2 room blocking d rs outtot conn tot x c1 y tot1 v)
  then have "tot < tot1 \<or> tot1 = tot \<and> length (e_send c1) < length (e_send conn)"
    using filedata_step_progress by blast
  then show ?case using 2(1) by (auto simp: mlex_prod_def)
qed

declare filedata_loop.simps [simp del]

subsection \<open>Sending a file\<close>

definition filedata_finish :: "xs_conn \<Rightarrow> nat \<Rightarrow> nat \<Rightarrow> bool \<Rightarrow> xs_conn" where
  \<comment> \<open>the socket, if it was made blocking, stays so; a response that was cut short ends the connection\<close>
  "filedata_finish conn tot outtot blocking =
     (if tot \<noteq> outtot \<and> blocking
      then conn\<lparr>c_req := upd_undone (\<lambda>r. fst (xs_http_setint (fst (xs_http_setint r exs_Req_KeepAlive 0)) exs_Req_Status 0)) (c_req conn)\<rparr>
      else conn)"

definition xs_conn_write_filedata ::
  "(nat \<Rightarrow> bool) \<Rightarrow> file_system \<Rightarrow> xs_conn \<Rightarrow> byte list \<Rightarrow> xs_fileinfo \<Rightarrow> int \<Rightarrow> int \<Rightarrow> bool \<Rightarrow> (xs_conn \<times> int) option" where
  \<comment> \<open>\<open>rs\<close> and \<open>re\<close> are the \<open>size_t\<close> arguments before the conversion\<close>
  "xs_conn_write_filedata room fs conn path fd rs re blocking =
     (let outtot = nat (size64 (re - rs)) in
      if outtot = 0 then Some (conn, 0)
      else
        let (c0, ok) = xs_conn_writable conn in
        if \<not> ok \<and> \<not> blocking then Some (c0, 0)
        else do {
          (c1, tot, v) \<leftarrow> (case fi_data fd of
             Some d \<Rightarrow> filedata_loop room blocking d rs outtot c0 0
           | None \<Rightarrow>
               (case fs path of
                  Some (Fs_file content m True) \<Rightarrow> file_loop room blocking content outtot c0 0 (nat (max rs 0))
                | _ \<Rightarrow> None));
          Some (if v = W_return then c1 else filedata_finish c1 tot outtot blocking, int tot) })"

subsection \<open>Lemmas: delivery\<close>

definition no_send_error :: "xs_conn \<Rightarrow> bool" where
  \<comment> \<open>the socket never fails and never reports its end; it may take less than it is given, or nothing\<close>
  "no_send_error conn \<longleftrightarrow> (\<forall>x\<in>set (e_send conn). x = Send_again \<or> (\<exists>k. x = Sent k \<and> 0 < k))"

lemma no_error_open: "no_send_error c \<Longrightarrow> socket_open c"
  by (auto simp: no_send_error_def socket_open_def)

lemma no_error_frame: "write_frame c c' \<Longrightarrow> no_send_error c \<Longrightarrow> no_send_error c'"
  by (auto simp: write_frame_def no_send_error_def)

lemma block_no_error: "no_send_error c \<Longrightarrow> e_send (sock_block c) = []"
  by (auto simp: sock_block_def no_send_error_def filter_empty_conv split: sock_send.splits)

lemma block_fields [simp]:
  "cache_ok (sock_block c) = cache_ok c" "cached (sock_block c) = cached c" "e_wire (sock_block c) = e_wire c"
  "c_errnum (sock_block c) = c_errnum c" "c_wblocked (sock_block c) = c_wblocked c" "c_wcache (sock_block c) = c_wcache c"
  "conn_out (sock_block c) = conn_out c" "conn_room (sock_block c) = conn_room c" "reader_of (sock_block c) = reader_of c"
  by (simp_all add: sock_block_def cache_ok_def cached_def conn_out_def conn_room_def reader_of_def)

lemma block_frame: "write_frame c c' \<Longrightarrow> write_frame c (sock_block c')"
proof -
  assume f: "write_frame c c'"
  have "set (e_send (sock_block c')) \<subseteq> set (e_send c')" by (auto simp: sock_block_def)
  then show ?thesis using f by (auto simp: write_frame_def)
qed

lemma block_ready: "conn_ready c \<Longrightarrow> conn_ready (sock_block c)"
  by (auto simp: conn_ready_def socket_open_def sock_block_def cache_ok_def)

lemma purge_blocking:
  assumes "cache_ok c" "e_send c = []"
  shows "\<exists>c'. xs_conn_cachepurge room c = Some (c', 0) \<and> cached c' = [] \<and> e_wire c' = conn_out c \<and> cache_ok c' \<and> e_send c' = []"
proof -
  obtain c' r where c': "xs_conn_cachepurge room c = Some (c', r)" "e_wire c' @ cached c' = conn_out c" "cache_ok c'"
    "r = 0 \<longrightarrow> cached c' = []" using cachepurge_flow [OF assms(1), of room] unfolding conn_out_def by blast
  have "r = 0"
  proof (cases "aCount (c_wcache c) = 0")
    case True
    then show ?thesis using c'(1) by (simp add: xs_conn_cachepurge_def)
  next
    case False
    have wf: "arr_wf (c_wcache c)" using assms(1) by (simp add: cache_ok_def)
    have pos: "0 < aCount (c_wcache c)" using wf False by (auto simp: arr_wf_def)
    obtain d where d: "aData (c_wcache c) = Some d" "rds d 0 (nat (aCount (c_wcache c))) = Some (cached c)"
      using wf False by (auto simp: arr_wf_def cached_def arr_contents_def rds_def split: option.splits)
    have len: "length (cached c) = nat (aCount (c_wcache c))" using cached_length [OF assms(1)] by linarith
    have ne: "cached c \<noteq> []" "length (cached c) \<le> INT_MAX" using len pos assms(1) by (auto simp: cache_ok_def)
    have "send_loop room True (c\<lparr>c_errnum := 0, c_corked := True\<rparr>) (cached c) 0 =
        Some ((c\<lparr>c_errnum := 0, c_corked := True\<rparr>)\<lparr>e_wire := e_wire c @ cached c\<rparr>, length (cached c), False)"
      using send_loop_once [OF ne, of room True] assms(2) ne(1) by (simp add: sock_send_def)
    then show ?thesis using c'(1) False d len pos by (auto simp: xs_conn_cachepurge_def write_body_def Let_def)
  qed
  moreover have "e_send c' = []" using cachepurge_frame [OF c'(1)] assms(2) by (simp add: write_frame_def)
  ultimately show ?thesis using c' by simp
qed

abbreviation no_trouble :: "xs_conn \<Rightarrow> bool" where
  "no_trouble c \<equiv> c_errnum c = 0 \<or> c_errnum c = exs_Error_WriteBusy"

lemma send_loop_errnum:
  assumes "send_loop room own c x 0 = Some (c', n, ret)" "x \<noteq> []" "length x \<le> INT_MAX" "no_send_error c" "no_trouble c"
  shows "c_errnum c' = exs_Error_WriteBusy \<or> n = length x \<and> c_errnum c' = c_errnum c \<and> c_wcache c' = c_wcache c"
proof -
  obtain c1 k e where s: "sock_send c x = (c1, k, e)" by (metis prod_cases3)
  have k: "k \<noteq> 0" "e = 0" "c_errnum c1 = c_errnum c" "c_wcache c1 = c_wcache c"
    using s assms(2,4,5) by (auto simp: sock_send_def no_send_error_def min_def split: list.splits sock_send.splits if_splits)
  show ?thesis
  proof (cases "k = int (length x)")
    case True
    then show ?thesis using assms(1) s k send_loop_once [OF assms(2,3), of room own c] by (simp add: Let_def)
  next
    case False
    let ?X = "if own then Some (c1, 0) else cache_append room c1 (drop (nat (max k 0)) x)"
    have eq: "send_loop room own c x 0 = Option.bind ?X (\<lambda>(c2, r). Some
          (if 0 < k then c2\<lparr>c_errnum := exs_Error_WriteBusy\<rparr>
           else let c3 = xs_conn_seterr c2 e in if c_errnum c3 = 0 then c3\<lparr>c_errnum := exs_Error_WriteBusy\<rparr> else c3,
           if r \<noteq> 0 then nat (max k 0) + (length x - nat (max k 0)) else nat (max k 0), False))"
      using send_loop_once [OF assms(2,3), of room own c] s False k(1) by (simp only: Let_def prod.case if_False)
    obtain c2 r where c2: "?X = Some (c2, r)" using assms(1) unfolding eq by (cases ?X) auto
    show ?thesis using assms(1) k(2) unfolding eq c2 by (auto simp: xs_conn_seterr_def Let_def split: if_splits)
  qed
qed

lemma write_body_errnum:
  assumes "write_body room own c x cork = Some (c', n)" "x \<noteq> []" "length x \<le> INT_MAX" "no_send_error c" "no_trouble c"
  shows "c_errnum c' = exs_Error_WriteBusy \<or> n = length x \<and> c_errnum c' = c_errnum c \<and> c_wcache c' = c_wcache c"
proof -
  let ?c = "if cork then c\<lparr>c_corked := True\<rparr> else c"
  obtain c2 ret where l: "send_loop room own ?c x 0 = Some (c2, n, ret)" "c_errnum c' = c_errnum c2" "c_wcache c' = c_wcache c2"
    using assms(1) by (auto simp: write_body_def bind_eq_Some_conv Let_def split: if_splits)
  have c: "no_send_error ?c" "no_trouble ?c" "c_wcache ?c = c_wcache c" "c_errnum ?c = c_errnum c"
    using assms(4,5) by (simp_all add: no_send_error_def)
  show ?thesis using send_loop_errnum [OF l(1) assms(2,3) c(1,2)] l(2,3) c(3,4) by argo
qed

lemma purge_errnum:
  assumes "xs_conn_cachepurge room c = Some (c', r)" "cache_ok c" "no_send_error c" "no_trouble c"
  shows "no_trouble c'"
proof (cases "aCount (c_wcache c) = 0")
  case True
  then show ?thesis using assms(1,4) by (simp add: xs_conn_cachepurge_def)
next
  case False
  have wf: "arr_wf (c_wcache c)" using assms(2) by (simp add: cache_ok_def)
  have pos: "0 < aCount (c_wcache c)" using wf False by (auto simp: arr_wf_def)
  obtain d where d: "aData (c_wcache c) = Some d" "rds d 0 (nat (aCount (c_wcache c))) = Some (cached c)"
    using wf False by (auto simp: arr_wf_def cached_def arr_contents_def rds_def split: option.splits)
  have len: "length (cached c) = nat (aCount (c_wcache c))" using cached_length [OF assms(2)] by linarith
  have ne: "cached c \<noteq> []" "length (cached c) \<le> INT_MAX" using len pos assms(2) by (auto simp: cache_ok_def)
  obtain c1 n where w: "write_body room True (c\<lparr>c_errnum := 0\<rparr>) (cached c) True = Some (c1, n)"
    using assms(1) False d by (auto simp: xs_conn_cachepurge_def bind_eq_Some_conv Let_def)
  have nse: "no_send_error (c\<lparr>c_errnum := 0\<rparr>)" using assms(3) by (simp add: no_send_error_def)
  have t: "no_trouble c1" using write_body_errnum [OF w ne nse] by auto
  have "c_errnum c' = c_errnum c1"
    using assms(1) False d w by (auto simp: xs_conn_cachepurge_def bind_eq_Some_conv Let_def split: if_splits)
  then show ?thesis using t by simp
qed

lemma append_errnum:
  assumes "cache_append room c x = Some (c', r)" "int (length x) + aCount (c_wcache c) \<le> maxcache" "r \<noteq> 0"
  shows "no_trouble c \<Longrightarrow> no_trouble c'"
  using assms by (auto simp: cache_append_def bind_eq_Some_conv Let_def split: if_splits option.splits)

lemma cachefill_errnum:
  assumes "xs_conn_cachefill (\<lambda>_. True) False c x False = Some (c', r)" "cache_ok c" "no_send_error c" "no_trouble c"
    "\<not> c_wblocked c" "x \<noteq> []" "int (length x) + aCount (c_wcache c) \<le> maxcache"
  shows "no_trouble c'"
proof (cases "aCount (c_wcache c) = 0")
  case True
  then show ?thesis using assms by (simp add: xs_conn_cachefill_def)
next
  case False
  obtain c1 w where w: "xs_conn_writable c = (c1, w)" by force
  have c1: "cache_ok c1" "no_send_error c1" "no_trouble c1" "c_wcache c1 = c_wcache c"
    using w assms(2-4) by (auto simp: xs_conn_writable_def no_send_error_def cache_ok_def split: if_splits list.splits)
  have app: "no_trouble c3" if "cache_append (\<lambda>_. True) c2 x = Some (c3, q)" "cache_ok c2" "no_trouble c2"
      "int (length x) + aCount (c_wcache c2) \<le> maxcache" for c2 c3 q
    using cache_append_fits [where room = "\<lambda>_. True" and data = x, OF that(2) assms(6) that(4)] that append_errnum by fastforce
  obtain c2 q where p: "xs_conn_cachepurge (\<lambda>_. True) c1 = Some (c2, q)" "cache_ok c2" "aCount (c_wcache c2) \<le> aCount (c_wcache c1)"
    using cachepurge_flow [OF c1(1)] by blast
  have t2: "no_trouble c2" using purge_errnum [OF p(1) c1(1-3)] .
  have fit: "int (length x) + aCount (c_wcache c1) \<le> maxcache" "int (length x) + aCount (c_wcache c2) \<le> maxcache"
    using assms(7) p(3) c1(4) by simp_all
  show ?thesis
    using assms(1,5) False w p(1) t2 app [OF _ c1(1,3) fit(1)] app [OF _ p(2) t2 fit(2)]
    by (cases w; cases "q = 0") (auto simp: xs_conn_cachefill_def)
qed

lemma write_ex_errnum:
  assumes "xs_conn_write_ex (\<lambda>_. True) c x cork = Some (c', n)" "conn_ready c" "no_send_error c" "x \<noteq> []" "length x \<le> conn_room c"
  shows "no_trouble c'"
proof -
  let ?c = "c\<lparr>c_errnum := 0\<rparr>"
  have c: "cache_ok ?c" "no_send_error ?c" "no_trouble ?c" "\<not> c_wblocked ?c" "int (length x) + aCount (c_wcache ?c) \<le> maxcache"
    using assms(2-5) length_greater_0_conv [of x] by (auto simp: conn_ready_def cache_ok_def no_send_error_def conn_room_def)
  obtain c1 r where f: "xs_conn_cachefill (\<lambda>_. True) False ?c x False = Some (c1, r)"
    using assms(1) by (auto simp: xs_conn_write_ex_def bind_eq_Some_conv)
  have t: "no_trouble c1" using cachefill_errnum [OF f c(1-4) assms(4) c(5)] .
  have nse: "no_send_error c1" using no_error_frame frame.rel_cachefill [OF f] c(2) by blast
  have "0 \<le> aCount (c_wcache c)" using cached_length [OF c(1)] by (simp add: cache_ok_def)
  then have len: "length x \<le> INT_MAX" using assms(5) by (simp add: conn_room_def)
  show ?thesis
  proof (cases "r = 0")
    case True
    then have "write_body (\<lambda>_. True) False c1 x cork = Some (c', n)" using assms(1) f by (simp add: xs_conn_write_ex_def)
    then show ?thesis using write_body_errnum [OF _ assms(4) len nse t] t by fastforce
  next
    case False
    then show ?thesis using assms(1) f t by (simp add: xs_conn_write_ex_def)
  qed
qed

lemma writable_ready:
  assumes "xs_conn_writable c = (c1, ok)" "conn_ready c" "no_send_error c" "c2 = (if ok then c1 else sock_block c1)"
  shows "conn_ready c2" "no_send_error c2" "conn_out c2 = conn_out c" "cached c2 = cached c" "conn_room c2 = conn_room c"
    "write_frame c c2"
proof -
  have w: "c_wcache c1 = c_wcache c" "e_wire c1 = e_wire c" "e_send c1 = e_send c" "c_wblocked c1 = c_wblocked c"
    using assms(1) by (auto simp: xs_conn_writable_def split: if_splits list.splits)
  have f: "write_frame c c1" using frame.rel_writable [OF assms(1)] .
  then show f2: "write_frame c c2" using assms(4) block_frame by auto
  have "cache_ok c1" "cached c1 = cached c" using w(1) cache_ok_cong [OF w(1)] assms(2) by (simp_all add: conn_ready_def)
  then show "conn_ready c2" "cached c2 = cached c" "conn_out c2 = conn_out c" "conn_room c2 = conn_room c"
    using assms(4) conn_ready_frame [OF f2 assms(2)] w by (auto simp: conn_out_def conn_room_def)
  show "no_send_error c2" using no_error_frame [OF f2 assms(3)] .
qed

lemma map_read_slice: "0 \<le> rs \<Longrightarrow> nat rs + tot + w \<le> length d \<Longrightarrow> map_read d (rs + int tot) w = Some (take w (drop (nat rs + tot) d))"
  by (simp add: map_read_def rds_def nat_add_distrib)

lemma drained_write:
  assumes "conn_ready c" "cached c = []" "no_send_error c" "x \<noteq> []" "length x \<le> INT_MAX"
  obtains c' n where "xs_conn_write_ex (\<lambda>_. True) c x cork = Some (c', n)" "n \<le> length x" "conn_out c' = conn_out c @ take n x"
    "cache_ok c'" "c_errnum c' = exs_Error_WriteBusy \<or> c_errnum c' = 0 \<and> n = length x \<and> cached c' = []" "no_send_error c'"
    "write_frame c c'"
proof -
  let ?c = "c\<lparr>c_errnum := 0\<rparr>"
  have z: "aCount (c_wcache c) = 0" using cached_length [of c] assms(1,2) by (simp add: conn_ready_def)
  have ok: "cache_ok ?c" "cached ?c = []" "no_send_error ?c" "no_trouble ?c"
    using assms(1-3) by (simp_all add: conn_ready_def cache_ok_def cached_def no_send_error_def)
  have f: "xs_conn_cachefill (\<lambda>_. True) False ?c x False = Some (?c, 0)"
    using z assms(1) by (simp add: xs_conn_cachefill_def conn_ready_def)
  obtain c' n where w: "write_body (\<lambda>_. True) False ?c x cork = Some (c', n)" "n \<le> length x"
    "e_wire c' @ cached c' = e_wire ?c @ take n x" "cache_ok c'"
    using write_body_other [OF assms(4,5) ok(1,2), of "\<lambda>_. True" cork] by auto
  have e: "xs_conn_write_ex (\<lambda>_. True) c x cork = Some (c', n)" using f w(1) by (simp add: xs_conn_write_ex_def)
  have "c_errnum c' = exs_Error_WriteBusy \<or> n = length x \<and> c_errnum c' = 0 \<and> c_wcache c' = c_wcache ?c"
    using write_body_errnum [OF w(1) assms(4,5) ok(3,4)] by simp
  moreover have "c_wcache c' = c_wcache ?c \<Longrightarrow> cached c' = []" using cache_ok_cong [of c' ?c] ok(2) by simp
  moreover have "conn_out c' = conn_out c @ take n x" using w(3) assms(2) by (simp add: conn_out_def)
  ultimately show ?thesis
    using that [OF e w(2) _ w(4)] no_error_frame [OF write_ex_frame [OF e] assms(3)] write_ex_frame [OF e] by blast
qed

lemma filedata_step_drained:
  assumes c: "conn_ready c" "cached c = []" "no_send_error c" and t: "tot < outtot" "0 \<le> rs" "nat rs + outtot \<le> length d"
  obtains c' tot' where "filedata_step (\<lambda>_. True) True d rs outtot c tot = Some (c', tot', W_go)" "tot \<le> tot'" "tot' \<le> outtot"
    "conn_ready c'" "cached c' = []" "no_send_error c'" "write_frame c c'"
    "conn_out c' = conn_out c @ take (tot' - tot) (drop (nat rs + tot) d)"
proof -
  let ?w = "if tot + 1048576 > outtot then outtot - tot else 1048576"
  obtain c1 ok where w: "xs_conn_writable c = (c1, ok)" by force
  let ?c2 = "if ok then c1 else sock_block c1" and ?x = "take ?w (drop (nat rs + tot) d)"
  note c2 = writable_ready [OF w c(1,3) refl]
  have x: "map_read d (rs + int tot) ?w = Some ?x" using t by (intro map_read_slice) (auto split: if_splits)
  have len: "length ?x = ?w" using t by (auto split: if_splits)
  then have ne: "?x \<noteq> []" "length ?x \<le> INT_MAX" using t(1) length_greater_0_conv [of ?x] by (auto split: if_splits)
  have cd: "cached ?c2 = []" using c2(4) c(2) by simp
  obtain c3 n where n: "xs_conn_write_ex (\<lambda>_. True) ?c2 ?x (tot + ?w < outtot) = Some (c3, n)" "n \<le> length ?x"
    "conn_out c3 = conn_out ?c2 @ take n ?x" "cache_ok c3"
    "c_errnum c3 = exs_Error_WriteBusy \<or> c_errnum c3 = 0 \<and> n = length ?x \<and> cached c3 = []" "no_send_error c3" "write_frame ?c2 c3"
    using drained_write [OF c2(1) cd c2(2) ne] by blast
  have f3: "write_frame c c3" using c2(6) n(7) write_frame_trans by blast
  have tn: "tot \<le> tot + n" "tot + n \<le> outtot" using n(2) len t(1) by (auto split: if_splits)
  have out: "conn_out c3 = conn_out c @ take (tot + n - tot) (drop (nat rs + tot) d)"
    using n(2,3) c2(3) len by (simp add: min_absorb1)
  note step = filedata_step_def [of "\<lambda>_. True" True d rs outtot c tot, unfolded Let_def w prod.case x Option.bind.bind_lunit n(1)]
  show ?thesis
  proof (cases "c_errnum c3 = exs_Error_WriteBusy")
    case True
    obtain c4 where p: "xs_conn_cachepurge (\<lambda>_. True) (sock_block c3) = Some (c4, 0)" "cached c4 = []"
      "e_wire c4 = conn_out c3" "cache_ok c4" "e_send c4 = []"
      using purge_blocking [of "sock_block c3" "\<lambda>_. True"] n(4) block_no_error [OF n(6)] by auto
    have f4: "write_frame c c4"
      using block_frame [OF f3] cachepurge_frame [OF p(1)] write_frame_trans by blast
    have "filedata_step (\<lambda>_. True) True d rs outtot c tot = Some (c4, tot + n, W_go)"
      using True p(1) unfolding step by simp
    moreover have "conn_out c4 = conn_out c3" using p(2,3) by (simp add: conn_out_def)
    ultimately show ?thesis
      using that [of c4 "tot + n"] tn out p f4 conn_ready_frame [OF f4 c(1) p(4)] no_error_frame [OF f4 c(3)] by simp
  next
    case False
    then have e: "c_errnum c3 = 0" "n = length ?x" "cached c3 = []" using n(5) by auto
    have "filedata_step (\<lambda>_. True) True d rs outtot c tot = Some (c3, tot + n, W_go)"
      using e ne unfolding step by simp
    then show ?thesis using that [of c3 "tot + n"] tn out e(3) f3 conn_ready_frame [OF f3 c(1) n(4)] n(6) by simp
  qed
qed

lemma take_drop_split: "a \<le> b \<Longrightarrow> take (a - t) (drop (k + t) d) @ take (b - a) (drop (k + a) d) = take (b - t) (drop (k + t) d)"
  if "t \<le> a"
proof -
  assume "a \<le> b"
  then have "b - t = (a - t) + (b - a)" "k + a = (a - t) + (k + t)" using that by simp_all
  then show ?thesis by (metis drop_drop take_add)
qed

lemma filedata_loop_drained:
  assumes "conn_ready c" "cached c = []" "no_send_error c" "tot \<le> outtot" "0 \<le> rs" "nat rs + outtot \<le> length d"
  shows "\<exists>c'. filedata_loop (\<lambda>_. True) True d rs outtot c tot = Some (c', outtot, W_go) \<and> conn_ready c' \<and> no_send_error c' \<and>
    conn_out c' = conn_out c @ take (outtot - tot) (drop (nat rs + tot) d) \<and> write_frame c c'"
  using assms
proof (induction "\<lambda>_ :: nat. True" True d rs outtot c tot rule: filedata_loop.induct)
  case (1 d rs outtot c tot)
  show ?case
  proof (cases "tot < outtot")
    case False
    then show ?thesis using 1(2-) by (subst filedata_loop.simps) simp
  next
    case True
    obtain c1 tot1 where s: "filedata_step (\<lambda>_. True) True d rs outtot c tot = Some (c1, tot1, W_go)" "tot \<le> tot1" "tot1 \<le> outtot"
      "conn_ready c1" "cached c1 = []" "no_send_error c1" "write_frame c c1"
      "conn_out c1 = conn_out c @ take (tot1 - tot) (drop (nat rs + tot) d)"
      using filedata_step_drained [OF 1(2-4) True 1(6,7)] by blast
    obtain c' where c': "filedata_loop (\<lambda>_. True) True d rs outtot c1 tot1 = Some (c', outtot, W_go)" "conn_ready c'" "no_send_error c'"
      "conn_out c' = conn_out c1 @ take (outtot - tot1) (drop (nat rs + tot1) d)" "write_frame c1 c'"
      using 1(1) [OF True s(1) refl refl refl s(4-6) s(3) 1(6,7)] by blast
    have "filedata_loop (\<lambda>_. True) True d rs outtot c tot = Some (c', outtot, W_go)"
      using True s(1) c'(1) by (subst filedata_loop.simps) simp
    moreover have "conn_out c' = conn_out c @ take (outtot - tot) (drop (nat rs + tot) d)"
      using take_drop_split [OF s(2,3), of "nat rs" d] c'(4) s(8) by simp
    ultimately show ?thesis using c'(2,3,5) s(7) write_frame_trans by blast
  qed
qed

lemma filedata_loop_small:
  assumes "conn_ready c" "no_send_error c" "0 < outtot" "outtot \<le> conn_room c" "0 \<le> rs" "nat rs + outtot \<le> length d"
  shows "\<exists>c'. filedata_loop (\<lambda>_. True) True d rs outtot c 0 = Some (c', outtot, W_go) \<and> conn_ready c' \<and> no_send_error c' \<and>
    conn_out c' = conn_out c @ take outtot (drop (nat rs) d) \<and> write_frame c c'"
proof -
  obtain c1 ok where w: "xs_conn_writable c = (c1, ok)" by force
  let ?c2 = "if ok then c1 else sock_block c1" and ?x = "take outtot (drop (nat rs) d)"
  note c2 = writable_ready [OF w assms(1,2) refl]
  have le: "outtot \<le> 1000000" using assms(1,4) cached_length [of c] by (auto simp: conn_ready_def conn_room_def)
  have wd: "(if 0 + 1048576 > outtot then outtot - 0 else 1048576) = outtot" using le by simp
  have x: "map_read d (rs + int 0) outtot = Some ?x" using map_read_slice [OF assms(5), of 0 outtot d] assms(6) by simp
  have len: "length ?x = outtot" using assms(6) by simp
  then have ne: "?x \<noteq> []" using assms(3) length_greater_0_conv [of ?x] by linarith
  have room: "length ?x \<le> conn_room ?c2" using len assms(4) c2(5) by simp
  obtain c3 where n: "xs_conn_write_ex (\<lambda>_. True) ?c2 ?x (0 + outtot < outtot) = Some (c3, outtot)" "conn_ready c3"
    "conn_out c3 = conn_out ?c2 @ ?x" "write_frame ?c2 c3"
    using conn_write_ready [OF c2(1) room, of "\<lambda>_. True" "0 + outtot < outtot"] len by auto
  have t: "no_trouble c3" using write_ex_errnum [OF n(1) c2(1,2) ne room] .
  have f3: "write_frame c c3" using c2(6) n(4) write_frame_trans by blast
  note nse3 = no_error_frame [OF f3 assms(2)]
  note step = filedata_step_def [of "\<lambda>_. True" True d rs outtot c 0, unfolded wd Let_def w prod.case x Option.bind.bind_lunit n(1)]
  note loop = filedata_loop.simps [of "\<lambda>_. True" True d rs outtot]
  show ?thesis
  proof (cases "c_errnum c3 = exs_Error_WriteBusy")
    case True
    obtain c4 where p: "xs_conn_cachepurge (\<lambda>_. True) (sock_block c3) = Some (c4, 0)" "cached c4 = []"
      "e_wire c4 = conn_out c3" "cache_ok c4"
      using purge_blocking [of "sock_block c3" "\<lambda>_. True"] n(2) block_no_error [OF nse3] by (auto simp: conn_ready_def)
    have f4: "write_frame c c4" using block_frame [OF f3] cachepurge_frame [OF p(1)] write_frame_trans by blast
    have "filedata_step (\<lambda>_. True) True d rs outtot c 0 = Some (c4, outtot, W_go)" using True p(1) unfolding step by simp
    then have "filedata_loop (\<lambda>_. True) True d rs outtot c 0 = Some (c4, outtot, W_go)"
      using assms(3) loop [of c 0] loop [of c4 outtot] by simp
    moreover have "conn_out c4 = conn_out c3" using p(2,3) by (simp add: conn_out_def)
    ultimately show ?thesis
      using n(3) c2(3) p(4) f4 conn_ready_frame [OF f4 assms(1) p(4)] no_error_frame [OF f4 assms(2)] by auto
  next
    case False
    then have "filedata_step (\<lambda>_. True) True d rs outtot c 0 = Some (c3, outtot, W_go)" using t assms(3) unfolding step by simp
    then have "filedata_loop (\<lambda>_. True) True d rs outtot c 0 = Some (c3, outtot, W_go)"
      using assms(3) loop [of c 0] loop [of c3 outtot] by simp
    then show ?thesis using n(2,3) c2(3) f3 nse3 by auto
  qed
qed

lemma write_filedata_all:
  assumes c: "conn_ready c" "no_send_error c" and fd: "fi_data fd = Some d" and r: "0 \<le> rs" "rs < re" "re \<le> int (length d)" "re < 2 ^ 63"
    and big: "cached c = [] \<or> nat (re - rs) \<le> conn_room c"
  shows "\<exists>c'. xs_conn_write_filedata (\<lambda>_. True) fs c path fd rs re True = Some (c', re - rs) \<and> conn_ready c' \<and>
    conn_out c' = conn_out c @ take (nat (re - rs)) (drop (nat rs) d) \<and> write_frame c c'"
proof -
  let ?n = "nat (re - rs)"
  obtain c0 ok where w: "xs_conn_writable c = (c0, ok)" by force
  have w0: "c_wcache c0 = c_wcache c" "e_wire c0 = e_wire c" "e_send c0 = e_send c" "c_wblocked c0 = c_wblocked c"
    using w by (auto simp: xs_conn_writable_def split: if_splits list.splits)
  have f0: "write_frame c c0" using frame.rel_writable [OF w] .
  have r0: "conn_ready c0" "no_send_error c0" "conn_out c0 = conn_out c" "cached c0 = cached c" "conn_room c0 = conn_room c"
    using conn_ready_frame [OF f0 c(1)] no_error_frame [OF f0 c(2)] w0 cache_ok_cong [OF w0(1)] c(1)
    by (auto simp: conn_out_def conn_room_def conn_ready_def)
  have n: "size64 (re - rs) = re - rs" using r by (intro size64_id) auto
  have b: "0 < ?n" "nat rs + ?n \<le> length d" using r by (simp_all add: nat_diff_distrib)
  obtain c' where c': "filedata_loop (\<lambda>_. True) True d rs ?n c0 0 = Some (c', ?n, W_go)" "conn_ready c'" "no_send_error c'"
    "conn_out c' = conn_out c @ take ?n (drop (nat rs) d)" "write_frame c0 c'"
    using filedata_loop_drained [OF r0(1) _ r0(2), of 0 ?n rs d] filedata_loop_small [OF r0(1,2) b(1) _ r(1) b(2)] r0(3-5) big r(1) b(2)
    by auto
  have "xs_conn_write_filedata (\<lambda>_. True) fs c path fd rs re True = Some (c', re - rs)"
    using n b(1) w c'(1) fd by (simp add: xs_conn_write_filedata_def filedata_finish_def Let_def)
  then show ?thesis using c' f0 write_frame_trans by blast
qed

subsection \<open>Properties\<close>

text \<open>C12: The contents arrive. When \<open>xs_conn_write_filedata\<close> sends a mapped range of a file on a connection whose socket
  does not fail, but may take less than it is given or nothing at all, it returns, reports the whole length, and
  everything of the range, in order and once, follows what had been written before. This holds for every range
  when nothing waits in the write cache, and otherwise for a range that fits the cache.\<close>

theorem xs_conn_write_filedata_delivers:
  assumes "conn_ready conn" "no_send_error conn" "fi_data fd = Some d" "0 \<le> rs" "rs < re" "re \<le> int (length d)" "re < 2 ^ 63"
    "cached conn = [] \<or> nat (re - rs) \<le> conn_room conn"
  shows "\<exists>conn'. xs_conn_write_filedata (\<lambda>_. True) fs conn path fd rs re True = Some (conn', re - rs) \<and> conn_ready conn' \<and>
    conn_out conn' = conn_out conn @ take (nat (re - rs)) (drop (nat rs) d)"
  using write_filedata_all [OF assms, of fs path] by blast

theorem xs_conn_write_filedata_delivers_witness:
  "\<exists>conn'. xs_conn_write_filedata (\<lambda>_. True) Map.empty (xs_conn_create\<lparr>c_sock := 5, e_send := [Sent 2, Send_again], e_pollout := [False]\<rparr>)
      (bytes ''f'') (fileinfo_zero\<lparr>fi_data := Some (replicate 3000000 7)\<rparr>) 1 2999999 True = Some (conn', 2999998) \<and>
    conn_out conn' = replicate 2999998 7"
proof -
  let ?c = "xs_conn_create\<lparr>c_sock := 5, e_send := [Sent 2, Send_again], e_pollout := [False]\<rparr>"
  have c: "conn_ready ?c" "no_send_error ?c" "cached ?c = []" "conn_out ?c = []"
    by (simp_all add: xs_conn_create_def cache_ok_def arr_wf_def xs_arr_create_def cached_def arr_contents_def
        socket_open_def conn_ready_def conn_out_def no_send_error_def)
  have "take (nat (2999999 - 1)) (drop (nat 1) (replicate 3000000 7)) = replicate 2999998 (7 :: byte)"
    by simp
  then show ?thesis
    using xs_conn_write_filedata_delivers [OF c(1,2), of "fileinfo_zero\<lparr>fi_data := Some (replicate 3000000 7)\<rparr>" "replicate 3000000 7" 1 2999999 Map.empty "bytes ''f''"] c(3,4)
    by auto
qed

end
