(* ===== verification/FileServe.thy ===== *)
theory FileServe
  imports Filedata
begin

text \<open>
  Serving files (\<open>xs/xs_server.h\<close>): content types, entity tags, range requests and \<open>xs_http_fileresponse\<close>.

  \<open>sscanf\<close> is modelled for the directives the code uses; a number outside 64 bits is undefined, as in C.
\<close>

subsection \<open>Content types\<close>

definition gxs_builtin_mime_types :: "(byte list \<times> nat \<times> byte list) list" where
  "gxs_builtin_mime_types = [
    (bytes ''.html'', 5, bytes ''text/html''), (bytes ''.htm'', 4, bytes ''text/html''),
    (bytes ''.shtm'', 5, bytes ''text/html''), (bytes ''.shtml'', 6, bytes ''text/html''),
    (bytes ''.css'', 4, bytes ''text/css''), (bytes ''.js'', 3, bytes ''application/x-javascript''),
    (bytes ''.ico'', 4, bytes ''image/x-icon''), (bytes ''.gif'', 4, bytes ''image/gif''),
    (bytes ''.jpg'', 4, bytes ''image/jpeg''), (bytes ''.jpeg'', 5, bytes ''image/jpeg''),
    (bytes ''.png'', 4, bytes ''image/png''), (bytes ''.svg'', 4, bytes ''image/svg+xml''),
    (bytes ''.txt'', 4, bytes ''text/plain''), (bytes ''.torrent'', 8, bytes ''application/x-bittorrent''),
    (bytes ''.wav'', 4, bytes ''audio/x-wav''), (bytes ''.mp3'', 4, bytes ''audio/x-mp3''),
    (bytes ''.mid'', 4, bytes ''audio/mid''), (bytes ''.m3u'', 4, bytes ''audio/x-mpegurl''),
    (bytes ''.ogg'', 4, bytes ''audio/ogg''), (bytes ''.ram'', 4, bytes ''audio/x-pn-realaudio''),
    (bytes ''.xml'', 4, bytes ''application/xml''), (bytes ''.json'', 5, bytes ''text/json''),
    (bytes ''.xslt'', 5, bytes ''application/xml''), (bytes ''.xsl'', 4, bytes ''application/xml''),
    (bytes ''.ra'', 3, bytes ''audio/x-pn-realaudio''), (bytes ''.doc'', 4, bytes ''application/msword''),
    (bytes ''.exe'', 4, bytes ''application/octet-stream''), (bytes ''.zip'', 4, bytes ''application/x-zip-compressed''),
    (bytes ''.xls'', 4, bytes ''application/excel''), (bytes ''.tgz'', 4, bytes ''application/x-tar-gz''),
    (bytes ''.tar'', 4, bytes ''application/x-tar''), (bytes ''.gz'', 3, bytes ''application/x-gunzip''),
    (bytes ''.arj'', 4, bytes ''application/x-arj-compressed''), (bytes ''.rar'', 4, bytes ''application/x-arj-compressed''),
    (bytes ''.rtf'', 4, bytes ''application/rtf''), (bytes ''.pdf'', 4, bytes ''application/pdf''),
    (bytes ''.swf'', 4, bytes ''application/x-shockwave-flash''), (bytes ''.mpg'', 4, bytes ''video/mpeg''),
    (bytes ''.webm'', 5, bytes ''video/webm''), (bytes ''.mpeg'', 5, bytes ''video/mpeg''),
    (bytes ''.mov'', 4, bytes ''video/quicktime''), (bytes ''.mp4'', 4, bytes ''video/mp4''),
    (bytes ''.m4v'', 4, bytes ''video/x-m4v''), (bytes ''.asf'', 4, bytes ''video/x-ms-asf''),
    (bytes ''.avi'', 4, bytes ''video/x-msvideo''), (bytes ''.bmp'', 4, bytes ''image/bmp''),
    (bytes ''.ttf'', 4, bytes ''application/x-font-ttf'')]"

fun mime_scan :: "(byte list \<times> nat \<times> byte list) list \<Rightarrow> byte list \<Rightarrow> byte list" where
  "mime_scan [] path = bytes ''text/plain''"
| "mime_scan ((extension, ext_len, mime_type) # types) path =
     (let ext = drop (length path - ext_len) path in
      if length path > ext_len \<and> at0 ext 0 = 46 \<and> xs_strcmp_case (Some ext) (Some extension) = 0
      then mime_type else mime_scan types path)"

definition xs_find_mime_type :: "byte list \<Rightarrow> byte list" where
  "xs_find_mime_type path = mime_scan gxs_builtin_mime_types path"

subsection \<open>Entity tags\<close>

definition xs_http_etag :: "xs_fileinfo \<Rightarrow> byte list option" where
  "xs_http_etag fd = do {
     (b, r) \<leftarrow> xs_sprintf (Some (replicate 64 0)) 64 (Some (dq @ bytes ''%llx.%zx'' @ dq)) [Arg_int (fi_mtime fd), Arg_int (int (fi_size fd))];
     map_option cstr b }"

definition xs_http_notmodified :: "xs_httpreq option \<Rightarrow> xs_fileinfo \<Rightarrow> bool option" where
  "xs_http_notmodified req fd =
     (case xs_http_getheader req (bytes ''If-None-Match'') of
        None \<Rightarrow> Some False
      | Some h \<Rightarrow> do { e \<leftarrow> xs_http_etag fd; Some (xs_strcmp (Some h) (Some e) = 0) })"

subsection \<open>Range requests\<close>

datatype scan_dir = S_lit "byte list" | S_lld

definition scan_lld :: "byte list \<Rightarrow> (int \<times> byte list) option" where
  \<comment> \<open>\<open>%lld\<close>: white space, a sign, at least one digit\<close>
  "scan_lld s =
     (let r = dropWhile (\<lambda>c. c = 32 \<or> 9 \<le> c \<and> c \<le> 13) s;
          neg = (at0 r 0 = 45);
          r1 = (if at0 r 0 = 45 \<or> at0 r 0 = 43 then tl r else r);
          ds = takeWhile (\<lambda>c. 48 \<le> c \<and> c \<le> 57) r1;
          v = foldl (\<lambda>v c. v * 10 + (uint c - 48)) 0 ds
      in if ds = [] then None else Some (if neg then - v else v, drop (length ds) r1))"

fun sscanf :: "byte list \<Rightarrow> scan_dir list \<Rightarrow> int list option" where
  \<comment> \<open>the values assigned, in order\<close>
  "sscanf s [] = Some []"
| "sscanf s (S_lit l # ds) = (if take (length l) s = l then sscanf (drop (length l) s) ds else Some [])"
| "sscanf s (S_lld # ds) =
     (case scan_lld s of
        None \<Rightarrow> Some []
      | Some (v, r) \<Rightarrow> if - (2 ^ 63) \<le> v \<and> v < 2 ^ 63 then map_option (Cons v) (sscanf r ds) else None)"

definition range_header :: "byte list \<Rightarrow> int \<Rightarrow> (int \<times> int \<times> bool) option" where
  \<comment> \<open>\<open>rs\<close>, \<open>re\<close> and \<open>haverangehdr\<close> after the three attempts\<close>
  "range_header h len = do {
     v1 \<leftarrow> sscanf h [S_lit (bytes ''bytes=''), S_lld, S_lit (bytes ''-''), S_lld];
     let rs1 = (case v1 of [] \<Rightarrow> 0 | a # r \<Rightarrow> a);
     let re1 = (case v1 of [a, b] \<Rightarrow> b | _ \<Rightarrow> len);
     if length v1 = 2 then Some (rs1, re1, True)
     else do {
       v2 \<leftarrow> sscanf h [S_lit (bytes ''bytes=''), S_lld, S_lit (bytes ''-'')];
       let rs2 = (case v2 of [] \<Rightarrow> rs1 | a # r \<Rightarrow> a);
       if length v2 = 1 then Some (rs2, re1, True)
       else do {
         v3 \<leftarrow> sscanf h [S_lit (bytes ''bytes=-''), S_lld];
         let re3 = (case v3 of [] \<Rightarrow> re1 | a # r \<Rightarrow> a);
         Some (rs2, re3, length v3 = 1) } } }"

subsection \<open>The response\<close>

definition file_header_fmt :: "byte list" where
  "file_header_fmt =
     bytes ''HTTP/%s %d %s'' @ crlf @ bytes ''Content-Length: %zd'' @ crlf @ bytes ''Server: %s'' @ crlf @
     bytes ''Date: %s'' @ crlf @ bytes ''Etag: %s'' @ crlf @ bytes ''Content-Type: %s'' @ crlf @
     bytes ''Accept-Ranges: bytes'' @ crlf @ bytes ''Connection: %s'' @ crlf @ bytes ''%s''"

definition file_send ::
  "(nat \<Rightarrow> bool) \<Rightarrow> file_system \<Rightarrow> byte list \<Rightarrow> xs_conn \<Rightarrow> byte list \<Rightarrow> xs_fileinfo \<Rightarrow> int \<Rightarrow> int \<Rightarrow> int \<Rightarrow> int \<Rightarrow>
    byte list \<Rightarrow> byte list \<Rightarrow> (xs_conn \<times> int) option" where
  \<comment> \<open>the header and the body of a file response\<close>
  "file_send room fs now conn path fd dobody rs re statuscode statusmsg rangehdr = do {
     let req = xs_conn_getreq conn;
     let ver = (case xs_http_get req exs_Req_Version of None \<Rightarrow> None | Some v \<Rightarrow> if v = bytes ''1.0'' then None else Some v);
     etag \<leftarrow> xs_http_etag fd;
     (c1, n1) \<leftarrow> xs_conn_printf_header room conn file_header_fmt
       [Arg_str (case ver of None \<Rightarrow> bytes ''1.0'' | Some v \<Rightarrow> v), Arg_int statuscode, Arg_str statusmsg,
        Arg_int (if dobody \<noteq> 0 then re - rs else 0), Arg_str xs_server_name, Arg_str now, Arg_str etag,
        Arg_str (xs_find_mime_type path),
        Arg_str (if xs_http_getint req exs_Req_KeepAlive \<noteq> 0 \<and> dobody \<noteq> 2 then bytes ''keep-alive'' else bytes ''close''),
        Arg_str rangehdr];
     (c2, n2) \<leftarrow> xs_conn_header_done room c1 (dobody \<noteq> 0 \<and> re - rs \<noteq> 0);
     if dobody = 1 \<and> re - rs \<noteq> 0 then xs_conn_write_filedata room fs c2 path fd rs re True else Some (c2, 0) }"

definition range_print :: "int \<Rightarrow> int \<Rightarrow> int \<Rightarrow> byte list option" where
  "range_print rs re len = do {
     (b, r) \<leftarrow> xs_sprintf (Some (replicate 128 0)) 128 (Some (bytes ''Content-Range: bytes %zd-%zd/%zd'' @ crlf))
       [Arg_int rs, Arg_int re, Arg_int len];
     map_option cstr b }"

definition xs_http_fileresponse ::
  "(nat \<Rightarrow> bool) \<Rightarrow> file_system \<Rightarrow> int \<Rightarrow> (byte list \<Rightarrow> byte list list option) \<Rightarrow> byte list \<Rightarrow> (int \<Rightarrow> byte list) \<Rightarrow>
    filecache \<Rightarrow> xs_conn \<Rightarrow> byte list \<Rightarrow> int \<Rightarrow> (filecache \<times> xs_conn \<times> int) option" where
  "xs_http_fileresponse room fs ct entries now timestr st conn path dobody = do {
     let req = xs_conn_getreq conn;
     (st1, r) \<leftarrow> xs_fileinfo_get room fs ct st path True;
     fd \<leftarrow> (if r = - 108 then None else fileinfo_entry st1 path);
     if fi_stat_ret fd \<noteq> 0 then do {
       (c1, n) \<leftarrow> xs_conn_write_httperror room now conn 404 (bytes ''File not found'') (bytes ''Seriously. File not found.'' @ nl) [];
       Some (st1, c1, n) }
     else if fi_isdir fd then xs_http_dirresponse room fs ct entries now timestr st1 conn (xs_http_get req exs_Req_URI) path
     else do {
       same \<leftarrow> xs_http_notmodified req fd;
       if same then do {
         (c1, n) \<leftarrow> xs_conn_write_httperror room now conn 304 (bytes ''Not Modified'') [] [];
         Some (st1, c1, n) }
       else do {
         fd1 \<leftarrow> xs_fileinfo_lock fd;
         let len = int (fi_size fd1);
         (rs, re, have) \<leftarrow> (case xs_http_getheader req (bytes ''Range'') of
            None \<Rightarrow> Some (0, len, False)
          | Some h \<Rightarrow> do { (rs, re, have) \<leftarrow> range_header h len; Some (if have then (rs, re, True) else (0, len, False)) });
         (c1, result) \<leftarrow>
           (if \<not> have then file_send room fs now conn path fd1 dobody rs re 200 (bytes ''OK'') []
            else if rs > re \<or> size64 re > len
            then xs_conn_write_httperror room now conn 400 (bytes ''Bad Range Request'') (bytes ''Requested bytes %zd-%zd of %zd'')
                   [Arg_int rs, Arg_int re, Arg_int len]
            else do {
              rangehdr \<leftarrow> range_print rs re len;
              file_send room fs now conn path fd1 dobody rs re 206 (bytes ''Partial Content'') rangehdr });
         fd2 \<leftarrow> xs_fileinfo_unlock fd1;
         Some (fileinfo_set st1 path fd2, c1, result) } } }"

subsection \<open>Lemmas: the texts\<close>

lemma num_text_bound: "2 \<le> r \<Longrightarrow> 0 \<le> v \<Longrightarrow> v < r ^ n \<Longrightarrow> length (num_text r v) \<le> max 1 n"
proof (induction n arbitrary: v)
  case 0
  then show ?case by (simp add: num_text.simps)
next
  case (Suc n)
  show ?case
  proof (cases "v < r")
    case True
    then show ?thesis by (subst num_text.simps) simp
  next
    case False
    have q: "0 \<le> v div r" using Suc.prems by (simp add: pos_imp_zdiv_nonneg_iff)
    have "v div r * r \<le> v" using Suc.prems(1) pos_mod_sign [of r v] div_mult_mod_eq [of v r] by linarith
    moreover have "r ^ n \<le> v div r \<Longrightarrow> r ^ n * r \<le> v div r * r" using Suc.prems(1) by (intro mult_right_mono) auto
    ultimately have "v div r < r ^ n" using Suc.prems(3) by (fastforce simp: mult.commute)
    note q = q this
    have "n \<noteq> 0" using False Suc.prems(3) by (cases n) auto
    moreover have "num_text r v = num_text r (v div r) @ [xs_digit (v mod r)]" using False Suc.prems(1) by (subst num_text.simps) simp
    ultimately show ?thesis using Suc.IH [OF Suc.prems(1) q] by simp
  qed
qed

lemma int_text_bound: "2 \<le> r \<Longrightarrow> \<bar>i\<bar> < r ^ n \<Longrightarrow> 0 < n \<Longrightarrow> length (int_text r i) \<le> n + 1"
  using num_text_bound [of r "\<bar>i\<bar>" n] by (auto simp: int_text_def)

lemma num_text_digits: "2 \<le> r \<Longrightarrow> r \<le> 16 \<Longrightarrow> 0 \<le> v \<Longrightarrow> \<forall>c\<in>set (num_text r v). 48 \<le> c \<and> c \<le> 102"
proof (induction r v rule: num_text.induct)
  case (1 r v)
  have d: "48 \<le> xs_digit w \<and> xs_digit w \<le> 102" if "0 \<le> w" "w < 16" for w
  proof -
    have "w \<in> set [0..15]" using that by simp
    then have "w \<in> {0, 1, 2, 3, 4, 5, 6, 7, 8, 9, 10, 11, 12, 13, 14, 15}" by (simp add: upto_rec1)
    then show ?thesis by (elim insertE emptyE) (simp_all add: xs_digit_def)
  qed
  show ?case
  proof (cases "v < r")
    case True
    then show ?thesis using 1(2-) d [of v] by (subst num_text.simps) auto
  next
    case False
    have m: "0 \<le> v mod r" "v mod r < 16" using 1(2,3) pos_mod_bound [of r v] pos_mod_sign [of r v] by linarith+
    have "0 \<le> v div r" using 1(2,4) by (simp add: pos_imp_zdiv_nonneg_iff)
    then show ?thesis using 1 False d [OF m] by (subst num_text.simps) auto
  qed
qed

lemma int_text_cstr: "2 \<le> r \<Longrightarrow> r \<le> 16 \<Longrightarrow> is_cstr (int_text r i)"
  using num_text_digits [of r "\<bar>i\<bar>"] by (fastforce simp: int_text_def)

lemma sprintf_cstr:
  assumes "pieces_ok ps" "length (text_of ps) + 1 < n" "is_cstr (text_of ps)"
  shows "\<exists>b r. xs_sprintf (Some (replicate n 0)) (int n) (Some (fmt_of ps)) (args_of ps) = Some (Some b, r) \<and> cstr b = text_of ps"
proof -
  obtain b where b: "xs_sprintf (Some (replicate n 0)) (int n) (Some (fmt_of ps)) (args_of ps) = Some (Some b, int (length (text_of ps)))"
    "take (length (text_of ps) + 1) b = text_of ps @ [0]" using sprintf_text [OF assms(1,2), of "replicate n 0"] by auto
  have "b = text_of ps @ 0 # drop (length (text_of ps) + 1) b" using b(2) append_take_drop_id [of "length (text_of ps) + 1" b] by simp
  then have "cstr b = text_of ps" using cstr_terminated [OF assms(3)] by metis
  then show ?thesis using b(1) by blast
qed

abbreviation is_long :: "int \<Rightarrow> bool" where "is_long i \<equiv> - (2 ^ 63) \<le> i \<and> i < 2 ^ 63"

definition etag_text :: "int \<Rightarrow> int \<Rightarrow> byte list" where
  "etag_text m n = dq @ int_text 16 m @ bytes ''.'' @ int_text 16 n @ dq"

lemma etag_value:
  assumes "is_long (fi_mtime fd)" "int (fi_size fd) < 2 ^ 63"
  shows "xs_http_etag fd = Some (etag_text (fi_mtime fd) (int (fi_size fd)))"
proof -
  let ?ps = "[P_lit dq, P_xlong (fi_mtime fd), P_lit (bytes ''.''), P_xsize (int (fi_size fd)), P_lit dq]"
  have b: "length (int_text 16 (fi_mtime fd)) \<le> 17" "length (int_text 16 (int (fi_size fd))) \<le> 17"
    using int_text_bound [of 16 "fi_mtime fd" 16] int_text_bound [of 16 "int (fi_size fd)" 16] assms by auto
  have t: "text_of ?ps = etag_text (fi_mtime fd) (int (fi_size fd))" by (simp add: etag_text_def)
  have "pieces_ok ?ps" using assms by (simp add: is_lit_def)
  moreover have "length (text_of ?ps) + 1 < 64" using b by simp
  moreover have "is_cstr (text_of ?ps)" using int_text_cstr [of 16] by simp
  moreover have "fmt_of ?ps = dq @ bytes ''%llx.%zx'' @ dq" "args_of ?ps = [Arg_int (fi_mtime fd), Arg_int (int (fi_size fd))]" by simp_all
  ultimately show ?thesis using sprintf_cstr [of ?ps 64] t by (auto simp: xs_http_etag_def)
qed

definition range_text :: "int \<Rightarrow> int \<Rightarrow> int \<Rightarrow> byte list" where
  "range_text rs re len = bytes ''Content-Range: bytes '' @ int_text 10 rs @ bytes ''-'' @ int_text 10 re @ bytes ''/'' @ int_text 10 len @ crlf"

lemma range_print_value:
  assumes "is_long rs" "is_long re" "is_long len"
  shows "range_print rs re len = Some (range_text rs re len)"
proof -
  let ?ps = "[P_lit (bytes ''Content-Range: bytes ''), P_size rs, P_lit (bytes ''-''), P_size re, P_lit (bytes ''/''), P_size len, P_lit crlf]"
  have b: "length (int_text 10 i) \<le> 20" if "is_long i" for i using that int_text_bound [of 10 i 19] by auto
  have t: "text_of ?ps = range_text rs re len" by (simp add: range_text_def)
  have "pieces_ok ?ps" using assms by (simp add: is_lit_def crlf_def)
  moreover have "length (text_of ?ps) + 1 < 128" using b [OF assms(1)] b [OF assms(2)] b [OF assms(3)] by (simp add: crlf_def)
  moreover have "is_cstr (text_of ?ps)" using int_text_cstr [of 10] by (simp add: crlf_def)
  moreover have "fmt_of ?ps = bytes ''Content-Range: bytes %zd-%zd/%zd'' @ crlf" "args_of ?ps = [Arg_int rs, Arg_int re, Arg_int len]"
    by simp_all
  ultimately show ?thesis using sprintf_cstr [of ?ps 128] t by (auto simp: range_print_def)
qed

definition file_head ::
  "byte list \<Rightarrow> int \<Rightarrow> byte list \<Rightarrow> int \<Rightarrow> byte list \<Rightarrow> byte list \<Rightarrow> byte list \<Rightarrow> bool \<Rightarrow> byte list \<Rightarrow> byte list" where
  \<comment> \<open>the header of a file response, with the empty line that ends it\<close>
  "file_head ver status msg len now etag mime keep rangehdr =
     bytes ''HTTP/'' @ ver @ bytes '' '' @ int_text 10 status @ bytes '' '' @ msg @ crlf @
     bytes ''Content-Length: '' @ int_text 10 len @ crlf @ bytes ''Server: webxs/0.5'' @ crlf @
     bytes ''Date: '' @ now @ crlf @ bytes ''Etag: '' @ etag @ crlf @ bytes ''Content-Type: '' @ mime @ crlf @
     bytes ''Accept-Ranges: bytes'' @ crlf @
     bytes ''Connection: '' @ (if keep then bytes ''keep-alive'' else bytes ''close'') @ crlf @ rangehdr @ crlf"

subsection \<open>Lemmas: writing the header\<close>

definition steady :: "_ \<Rightarrow> xs_conn \<Rightarrow> bool" where
  \<comment> \<open>a connection that takes output, whose read side is as given\<close>
  "steady r conn \<longleftrightarrow> conn_ready conn \<and> no_send_error conn \<and> reader_of conn = r"

lemma steady_frame:
  assumes f: "write_frame c c'" and "steady r c" "conn_ready c'"
  shows "steady r c'"
proof -
  have "no_send_error c'" using no_error_frame [OF f] assms(2) by (simp add: steady_def)
  moreover have "reader_of c' = reader_of c" using f by (simp add: write_frame_def)
  ultimately show ?thesis using assms(2,3) by (simp add: steady_def)
qed

lemma steady_write:
  assumes "steady r c" "length d \<le> conn_room c"
  shows "\<exists>c'. xs_conn_write_ex (\<lambda>_. True) c d cork = Some (c', length d) \<and> steady r c' \<and> conn_out c' = conn_out c @ d \<and>
    conn_room c \<le> conn_room c' + length d"
proof -
  obtain c' where "xs_conn_write_ex (\<lambda>_. True) c d cork = Some (c', length d)" "conn_ready c'" "conn_out c' = conn_out c @ d"
    "conn_room c \<le> conn_room c' + length d" "write_frame c c'"
    using conn_write_ready [of c d "\<lambda>_. True" cork] assms by (auto simp: steady_def)
  then show ?thesis using steady_frame assms(1) by blast
qed

interpretation steady_cb: flusher "Some (xs_conn_print_header_cb (\<lambda>_. True))" conn_out "steady r" conn_room for r
proof
  fix g u and d :: "byte list"
  assume "Some (xs_conn_print_header_cb (\<lambda>_. True)) = Some g" "steady r u" "length d \<le> conn_room u"
  then show "\<exists>u'. g u d = Some (u', int (length d)) \<and> steady r u' \<and> conn_out u' = conn_out u @ d \<and>
      conn_room u \<le> conn_room u' + length d"
    using steady_write [of r u d True]
    by (force simp: xs_conn_print_header_cb_def xs_conn_write_header_def)
qed

lemma steady_print:
  assumes ok: "pieces_ok ps" "ps \<noteq> []" "steady r conn" and room: "length (text_of ps) + m \<le> conn_room conn"
  shows "\<exists>conn'. xs_conn_printf_header (\<lambda>_. True) conn (fmt_of ps) (args_of ps) = Some (conn', int (length (text_of ps))) \<and>
    steady r conn' \<and> conn_out conn' = conn_out conn @ text_of ps \<and> m \<le> conn_room conn'"
proof -
  have "0 \<le> aCount (c_wcache conn)" using ok(3) cached_length [of conn] by (simp add: steady_def conn_ready_def)
  then have "length (text_of ps) + m + 1024 < 2147483647" using room by (simp add: conn_room_def)
  then obtain s where "xs_sprintf_core (Some (xs_conn_print_header_cb (\<lambda>_. True))) conn None 0 (Some (fmt_of ps)) (args_of ps) =
      Some (s, int (length (text_of ps)))"
    "steady r (p_user s)" "conn_out (p_user s) = conn_out conn @ text_of ps" "m \<le> conn_room (p_user s)"
    using steady_cb.core_text [OF ok(1) refl ok(3) room] by blast
  moreover have "fmt_of ps \<noteq> []" using pieces_ok_Cons [of "hd ps" "tl ps"] ok by (cases ps; cases "hd ps") auto
  ultimately show ?thesis by (simp add: conn_print_with_def xs_conn_printf_header_def)
qed

lemma getreq_reader: "reader_of c = reader_of c' \<Longrightarrow> xs_conn_getreq c = xs_conn_getreq c'"
  by (simp add: reader_of_def xs_conn_getreq_def)

lemma file_header_text:
  fixes fd :: xs_fileinfo and req :: "xs_httpreq option"
  defines "ver \<equiv> case xs_http_get req exs_Req_Version of None \<Rightarrow> bytes ''1.0'' | Some v \<Rightarrow> v"
  defines "keep \<equiv> xs_http_getint req exs_Req_KeepAlive \<noteq> 0"
  defines "etag \<equiv> etag_text (fi_mtime fd) (int (fi_size fd))"
  assumes c: "steady r conn" "xs_conn_getreq conn = req" and body: "dobody = 0 \<and> n = 0 \<or> dobody = 1 \<and> n = re - rs"
    and fd: "is_long (fi_mtime fd)" "int (fi_size fd) < 2 ^ 63" and rg: "0 \<le> n" "n < 2 ^ 63" and sc: "0 \<le> statuscode" "statuscode < 2 ^ 31"
    and room: "length (file_head ver statuscode msg n now etag (xs_find_mime_type path) keep rangehdr) + m \<le> conn_room conn"
  shows "\<exists>c2. file_send (\<lambda>_. True) fs now conn path fd dobody rs re statuscode msg rangehdr =
      (if dobody = 1 \<and> re - rs \<noteq> 0 then xs_conn_write_filedata (\<lambda>_. True) fs c2 path fd rs re True else Some (c2, 0)) \<and>
    steady r c2 \<and> conn_out c2 = conn_out conn @ file_head ver statuscode msg n now etag (xs_find_mime_type path) keep rangehdr \<and>
    m \<le> conn_room c2"
proof -
  let ?keep = "if keep then bytes ''keep-alive'' else bytes ''close''"
  let ?ps = "[P_lit (bytes ''HTTP/''), P_str ver, P_lit (bytes '' ''), P_int statuscode, P_lit (bytes '' ''), P_str msg,
    P_lit (crlf @ bytes ''Content-Length: ''), P_size n, P_lit (crlf @ bytes ''Server: ''), P_str xs_server_name,
    P_lit (crlf @ bytes ''Date: ''), P_str now, P_lit (crlf @ bytes ''Etag: ''), P_str etag,
    P_lit (crlf @ bytes ''Content-Type: ''), P_str (xs_find_mime_type path),
    P_lit (crlf @ bytes ''Accept-Ranges: bytes'' @ crlf @ bytes ''Connection: ''), P_str ?keep, P_lit crlf, P_str rangehdr]"
  have ok: "pieces_ok ?ps" using rg sc by (simp add: is_lit_def crlf_def)
  have f: "fmt_of ?ps = file_header_fmt" by (simp add: file_header_fmt_def)
  have a: "args_of ?ps = [Arg_str ver, Arg_int statuscode, Arg_str msg, Arg_int n, Arg_str xs_server_name, Arg_str now,
      Arg_str etag, Arg_str (xs_find_mime_type path), Arg_str ?keep, Arg_str rangehdr]" by simp
  have t: "text_of ?ps @ crlf = file_head ver statuscode msg n now etag (xs_find_mime_type path) keep rangehdr"
    by (simp add: file_head_def xs_server_name_def)
  have l: "length (text_of ?ps) + (2 + m) \<le> conn_room conn" using room arg_cong [OF t, of length] by (simp add: crlf_def)
  obtain c1 where c1: "xs_conn_printf_header (\<lambda>_. True) conn file_header_fmt (args_of ?ps) = Some (c1, int (length (text_of ?ps)))"
    "steady r c1" "conn_out c1 = conn_out conn @ text_of ?ps" "2 + m \<le> conn_room c1"
    using steady_print [OF ok _ c(1) l] unfolding f by blast
  obtain c2 where c2: "xs_conn_header_done (\<lambda>_. True) c1 (dobody \<noteq> 0 \<and> re - rs \<noteq> 0) = Some (c2, 2)" "steady r c2"
    "conn_out c2 = conn_out c1 @ crlf" "conn_room c1 \<le> conn_room c2 + 2"
    using steady_write [OF c1(2), of "[13, 10]" "dobody \<noteq> 0 \<and> re - rs \<noteq> 0"] c1(4) by (auto simp: xs_conn_header_done_def crlf_def)
  have ver: "(case (case xs_http_get req exs_Req_Version of None \<Rightarrow> None | Some v \<Rightarrow> if v = bytes ''1.0'' then None else Some v) of
      None \<Rightarrow> bytes ''1.0'' | Some v \<Rightarrow> v) = ver" by (simp add: ver_def split: option.splits)
  have et: "xs_http_etag fd = Some etag" using etag_value [OF fd] by (simp add: etag_def)
  have n: "(if dobody \<noteq> 0 then re - rs else 0) = n" "dobody \<noteq> 2" using body by auto
  have "file_send (\<lambda>_. True) fs now conn path fd dobody rs re statuscode msg rangehdr =
      (if dobody = 1 \<and> re - rs \<noteq> 0 then xs_conn_write_filedata (\<lambda>_. True) fs c2 path fd rs re True else Some (c2, 0))"
    using c1(1) c2(1) et c(2) ver n unfolding a by (simp add: file_send_def Let_def keep_def)
  moreover have "conn_out c2 = conn_out conn @ file_head ver statuscode msg n now etag (xs_find_mime_type path) keep rangehdr"
    using c1(3) c2(3) t by simp
  ultimately show ?thesis using c2(2,4) c1(4) by auto
qed

lemma file_send_text:
  fixes fd :: xs_fileinfo and req :: "xs_httpreq option"
  defines "ver \<equiv> case xs_http_get req exs_Req_Version of None \<Rightarrow> bytes ''1.0'' | Some v \<Rightarrow> v"
  defines "keep \<equiv> xs_http_getint req exs_Req_KeepAlive \<noteq> 0"
  defines "etag \<equiv> etag_text (fi_mtime fd) (int (fi_size fd))"
  assumes c: "steady r conn" "xs_conn_getreq conn = req" and fd: "fi_data fd = Some d" "is_long (fi_mtime fd)" "fi_size fd = length d"
    and rg: "0 \<le> rs" "rs \<le> re" "re \<le> int (length d)" "int (length d) < 2 ^ 63" and sc: "0 \<le> statuscode" "statuscode < 2 ^ 31"
    and room: "length (file_head ver statuscode msg (re - rs) now etag (xs_find_mime_type path) keep rangehdr) + nat (re - rs) \<le> conn_room conn"
  shows "\<exists>conn'. file_send (\<lambda>_. True) fs now conn path fd 1 rs re statuscode msg rangehdr = Some (conn', re - rs) \<and> steady r conn' \<and>
    conn_out conn' = conn_out conn @ file_head ver statuscode msg (re - rs) now etag (xs_find_mime_type path) keep rangehdr @
      take (nat (re - rs)) (drop (nat rs) d)"
proof -
  let ?head = "file_head ver statuscode msg (re - rs) now etag (xs_find_mime_type path) keep rangehdr"
  obtain c2 where c2: "file_send (\<lambda>_. True) fs now conn path fd 1 rs re statuscode msg rangehdr =
      (if re - rs \<noteq> 0 then xs_conn_write_filedata (\<lambda>_. True) fs c2 path fd rs re True else Some (c2, 0))"
    "steady r c2" "conn_out c2 = conn_out conn @ ?head" "nat (re - rs) \<le> conn_room c2"
    using file_header_text [where dobody = 1 and n = "re - rs" and m = "nat (re - rs)" and req = req and msg = msg and rangehdr = rangehdr,
        OF c _ fd(2) _ _ _ sc] fd(3) rg room
    unfolding ver_def keep_def etag_def by force
  show ?thesis
  proof (cases "re = rs")
    case True
    then show ?thesis using c2 by simp
  next
    case False
    then obtain c3 where "xs_conn_write_filedata (\<lambda>_. True) fs c2 path fd rs re True = Some (c3, re - rs)" "conn_ready c3"
      "conn_out c3 = conn_out c2 @ take (nat (re - rs)) (drop (nat rs) d)" "write_frame c2 c3"
      using write_filedata_all [where c = c2 and fd = fd and d = d and rs = rs and re = re and fs = fs and path = path]
        c2(2,4) fd(1) rg by (auto simp: steady_def)
    moreover have "steady r c3" using steady_frame [OF calculation(4) c2(2)] calculation(2) by simp
    ultimately show ?thesis using c2(1,3) False by simp
  qed
qed

subsection \<open>Lemmas: reading numbers\<close>

definition dec_value :: "int \<Rightarrow> byte list \<Rightarrow> int" where
  "dec_value v ds = foldl (\<lambda>v c. v * 10 + (uint c - 48)) v ds"

lemma dec_text_value: "0 \<le> v \<Longrightarrow> (\<forall>c\<in>set (num_text 10 v). 48 \<le> c \<and> c \<le> 57) \<and> dec_value 0 (num_text 10 v) = v"
proof (induction "10 :: int" v rule: num_text.induct)
  case (1 v)
  have d: "48 \<le> xs_digit w \<and> xs_digit w \<le> 57 \<and> uint (xs_digit w) = 48 + w" if "0 \<le> w" "w < 10" for w
  proof -
    have "w \<in> set [0..9]" using that by simp
    then have "w \<in> {0, 1, 2, 3, 4, 5, 6, 7, 8, 9}" by (simp add: upto_rec1)
    then show ?thesis by (elim insertE emptyE) (simp_all add: xs_digit_def)
  qed
  show ?case
  proof (cases "v < 10")
    case True
    then show ?thesis using 1(2) d [of v] by (simp add: num_text.simps dec_value_def)
  next
    case False
    have t: "num_text 10 v = num_text 10 (v div 10) @ [xs_digit (v mod 10)]" using False by (subst num_text.simps) simp
    have ih: "(\<forall>c\<in>set (num_text 10 (v div 10)). 48 \<le> c \<and> c \<le> 57) \<and> dec_value 0 (num_text 10 (v div 10)) = v div 10"
      using 1 False by simp
    have "v div 10 * 10 + v mod 10 = v" by simp
    then show ?thesis using t ih d [of "v mod 10"] by (simp add: dec_value_def)
  qed
qed

lemma takeWhile_prefix: "(\<forall>c\<in>set ds. P c) \<Longrightarrow> (rest = [] \<or> \<not> P (hd rest)) \<Longrightarrow> takeWhile P (ds @ rest) = ds"
  by (cases rest) (auto simp: takeWhile_append)

lemma scan_lld_digits:
  assumes "ds \<noteq> []" "\<forall>c\<in>set ds. 48 \<le> c \<and> c \<le> 57" "rest = [] \<or> \<not> (48 \<le> hd rest \<and> hd rest \<le> 57)"
  shows "scan_lld (ds @ rest) = Some (dec_value 0 ds, rest)" "scan_lld (45 # ds @ rest) = Some (- dec_value 0 ds, rest)"
proof -
  obtain c cs where c: "ds = c # cs" "48 \<le> c" "c \<le> 57" using assms(1,2) by (cases ds) auto
  have ns: "\<not> (c = 32 \<or> 9 \<le> c \<and> c \<le> 13)" "c \<noteq> 45" "c \<noteq> 43" using c(2,3) by (auto simp: word_le_nat_alt)
  have t: "takeWhile (\<lambda>c. 48 \<le> c \<and> c \<le> 57) (ds @ rest) = ds" using takeWhile_prefix [OF assms(2)] assms(3) by blast
  have "dropWhile (\<lambda>c. c = 32 \<or> 9 \<le> c \<and> c \<le> 13) (ds @ rest) = ds @ rest" "at0 (ds @ rest) 0 = c"
    using c(1) ns(1) by (auto simp: at0_def)
  then show "scan_lld (ds @ rest) = Some (dec_value 0 ds, rest)"
    using t ns assms(1) unfolding scan_lld_def Let_def by (simp add: dec_value_def)
  show "scan_lld (45 # ds @ rest) = Some (- dec_value 0 ds, rest)"
    using t assms(1) unfolding scan_lld_def Let_def by (simp add: dec_value_def at0_def)
qed

lemma scan_lld_num:
  assumes "0 \<le> v" "rest = [] \<or> \<not> (48 \<le> hd rest \<and> hd rest \<le> 57)"
  shows "scan_lld (num_text 10 v @ rest) = Some (v, rest)" "scan_lld (45 # num_text 10 v @ rest) = Some (- v, rest)"
  using scan_lld_digits [OF num_text_nonempty _ assms(2), of 10 v] dec_text_value [OF assms(1)] by auto

lemma range_header_both:
  assumes "0 \<le> a" "a < 2 ^ 63" "0 \<le> b" "b < 2 ^ 63"
  shows "range_header (bytes ''bytes='' @ num_text 10 a @ 45 # num_text 10 b) len = Some (a, b, True)"
  using scan_lld_num(1) [OF assms(1), of "45 # num_text 10 b"] scan_lld_num(1) [OF assms(3), of "[]"] assms
  by (simp add: range_header_def)

lemma range_header_suffix:
  assumes "0 < a" "a < 2 ^ 63"
  shows "range_header (bytes ''bytes='' @ 45 # num_text 10 a) len = Some (- a, len, True)"
  using scan_lld_num(2) [of a "[]"] assms by (simp add: range_header_def)


subsection \<open>Lemmas: the file behind a path\<close>

definition serves :: "(int \<Rightarrow> file_system) \<Rightarrow> byte list \<Rightarrow> int \<Rightarrow> byte list \<Rightarrow> int \<Rightarrow> bool" where
  \<comment> \<open>the file has had these contents, and this modification time, for the two seconds the cache may lag behind\<close>
  "serves node path now content m \<longleftrightarrow> mtime_tells node \<and> content \<noteq> [] \<and> int (length content) < 2 ^ 63 \<and> is_long m \<and>
     (\<forall>t\<ge>now - 2. node t path = Some (Fs_file content m True))"

lemma fileresponse_file:
  fixes node :: "int \<Rightarrow> file_system" and content :: "byte list"
  assumes sv: "serves node path now content m"
    and gets: "fileinfo_gets node reqs (xs_fileinfo_init filecache_start) = Some st"
    and im: "xs_http_getheader (xs_conn_getreq conn) (bytes ''If-None-Match'') = None"
  shows "\<exists>st1 fd. xs_fileinfo_get (\<lambda>_. True) (node now) now st path True = Some (st1, 0) \<and> fileinfo_entry st1 path = Some fd \<and>
    xs_fileinfo_lock fd = Some (fd\<lparr>fi_readcount := 1\<rparr>) \<and> xs_fileinfo_unlock (fd\<lparr>fi_readcount := 1\<rparr>) = Some fd \<and>
    xs_http_notmodified (xs_conn_getreq conn) fd = Some False \<and> \<not> fi_isdir fd \<and> fi_stat_ret fd = 0 \<and>
    fi_data fd = Some content \<and> fi_mtime fd = m \<and> fi_size fd = length content"
proof -
  have tells: "mtime_tells node" and ne: "content \<noteq> []" and same: "\<forall>t\<ge>now - 2. node t path = Some (Fs_file content m True)"
    using sv by (auto simp: serves_def)
  have "cache_quiet node st" using fileinfo_gets_quiet [OF tells init_quiet, of reqs] gets by auto
  then obtain st1 fd where fd: "xs_fileinfo_get (\<lambda>_. True) (node now) now st path True = Some (st1, fi_stat_ret fd)"
    "fileinfo_entry st1 path = Some fd" "entry_ok node path fd" "now - fi_check_time fd \<le> 2"
    using fileinfo_get_quiet [OF tells, of st now path] by blast
  have n: "node (fi_check_time fd) path = Some (Fs_file content m True)" using same fd(4) by simp
  then have d: "fi_stat_ret fd = 0" "\<not> fi_isdir fd" "fi_data fd = Some content" "fi_mtime fd = m" "fi_size fd = length content"
      "fi_status fd = 10" "fi_readcount fd = 0"
    using fd(3) ne by (simp_all add: entry_ok_def describes_def node_mtime_def)
  then have "xs_fileinfo_lock fd = Some (fd\<lparr>fi_readcount := 1\<rparr>)" "xs_fileinfo_unlock (fd\<lparr>fi_readcount := 1\<rparr>) = Some fd"
    by (simp_all add: xs_fileinfo_lock_def xs_fileinfo_unlock_def)
  moreover have "xs_http_notmodified (xs_conn_getreq conn) fd = Some False" using im by (simp add: xs_http_notmodified_def)
  ultimately show ?thesis using fd(1,2) d by auto
qed


definition response_head :: "xs_httpreq option \<Rightarrow> byte list \<Rightarrow> byte list \<Rightarrow> int \<Rightarrow> nat \<Rightarrow> int \<Rightarrow> byte list \<Rightarrow> int \<Rightarrow> byte list \<Rightarrow> byte list" where
  \<comment> \<open>the header for the file at \<open>path\<close>, of size \<open>len\<close>, with \<open>n\<close> bytes of body\<close>
  "response_head req path now m len status msg n rangehdr =
     file_head (case xs_http_get req exs_Req_Version of None \<Rightarrow> bytes ''1.0'' | Some v \<Rightarrow> v) status msg n now
       (etag_text m (int len)) (xs_find_mime_type path) (xs_http_getint req exs_Req_KeepAlive \<noteq> 0) rangehdr"

subsection \<open>Lemmas: extensions\<close>

definition mime_entry :: "byte list \<times> nat \<times> byte list \<Rightarrow> bool" where
  "mime_entry = (\<lambda>(x, n, t). x \<noteq> [] \<and> n = length x \<and> hd x = 46 \<and> 46 \<notin> set (tl x) \<and> 0 \<notin> set x \<and> n < 2147483647)"

lemma suffix_from_dot:
  assumes "46 \<notin> set e" "46 \<notin> set (tl y)" "y \<noteq> []" "hd y = 46" "stem @ 46 # e = z @ y"
  shows "y = (46 :: byte) # e"
proof (cases "length y \<le> length e")
  case True
  then have "y = drop (length e - length y) e" using arg_cong [OF assms(5), of "\<lambda>l. drop (length l - length y) l"]
    by (simp add: drop_Cons')
  then have "set y \<subseteq> set e" using set_drop_subset by metis
  then show ?thesis using assms(1,3,4) hd_in_set by fastforce
next
  case False
  have "drop (length z - length stem) (46 # e) = y" "length z \<le> length stem"
  proof -
    have l: "length stem + 1 + length e = length z + length y" using arg_cong [OF assms(5), of length] by simp
    show zl: "length z \<le> length stem" using l False by simp
    have "drop (length z) (stem @ 46 # e) = y" using assms(5) by simp
    then have y: "drop (length z) stem @ 46 # e = y" using zl by simp
    then have "drop (length z) stem = []" using assms(2) by (cases "drop (length z) stem") auto
    then show "drop (length z - length stem) (46 # e) = y" using y zl by simp
  qed
  then show ?thesis by simp
qed

lemma lower_dot: "lower_byte c = 46 \<Longrightarrow> c = 46"
proof -
  assume "lower_byte c = 46"
  then have "schar c = schar 46" using xs_lower_byte [of c] by (auto split: if_splits)
  then show ?thesis by (rule signed_word_eqI)
qed

lemma mime_scan_find:
  assumes e: "46 \<notin> set e" "stem \<noteq> []" "is_cstr (stem @ 46 # e)" "length (stem @ 46 # e) < 2147483647"
    and types: "\<forall>x\<in>set types. mime_entry x"
  shows "mime_scan types (stem @ 46 # e) =
    (case find (\<lambda>(x, n, t). map lower_byte x = map lower_byte (46 # e)) types of None \<Rightarrow> bytes ''text/plain'' | Some (x, n, t) \<Rightarrow> t)"
  using types
proof (induction types)
  case (Cons a types)
  obtain x n t where a: "a = (x, n, t)" by (cases a)
  have x: "x \<noteq> []" "n = length x" "hd x = 46" "46 \<notin> set (tl x)" "is_cstr x" "length x < 2147483647"
    using Cons.prems by (auto simp: a mime_entry_def)
  let ?path = "stem @ 46 # e"
  obtain ext where ext: "drop (length ?path - n) ?path = ext" by blast
  have ce: "is_cstr ext" "length ext < 2147483647" using e(3,4) unfolding ext [symmetric] by (auto dest: in_set_dropD)
  have "length ?path > n \<and> at0 ext 0 = 46 \<and> xs_strcmp_case (Some ext) (Some x) = 0 \<longleftrightarrow>
      map lower_byte x = map lower_byte (46 # e)" (is "?l \<longleftrightarrow> ?r")
  proof
    assume l: ?l
    then have eq: "map lower_byte ext = map lower_byte x" using xs_strcmp_case_iff [OF ce(1) x(5) ce(2) x(6)] by blast
    have ne: "ext \<noteq> []" using eq x(1) by auto
    moreover have "hd ext = 46" using l ne by (cases ext) (simp_all add: at0_def)
    moreover have "46 \<notin> set (tl ext)"
    proof
      assume "46 \<in> set (tl ext)"
      moreover have "set (tl (map lower_byte ext)) = set (tl (map lower_byte x))" using arg_cong [OF eq, of "\<lambda>l. set (tl l)"] .
      ultimately have "lower_byte 46 \<in> lower_byte ` set (tl x)" by (simp only: map_tl [symmetric] set_map) (metis imageI)
      then obtain c where c: "c \<in> set (tl x)" "lower_byte c = lower_byte 46" by auto
      have "lower_byte 46 = 46" by (simp add: lower_eval)
      then have "c = 46" using lower_dot c(2) by (metis (full_types))
      then show False using x(4) c(1) by simp
    qed
    ultimately have "ext = 46 # e" using suffix_from_dot [OF e(1), of ext stem "take (length ?path - n) ?path"]
      append_take_drop_id [of "length ?path - n" ?path] ext by metis
    then show ?r using eq by simp
  next
    assume r: ?r
    then have "length x = length (46 # e)" by (rule map_eq_imp_length_eq)
    then have n: "n = length e + 1" using x(2) by simp
    then have "ext = 46 # e" using ext by simp
    then show ?l using r n e(2) xs_strcmp_case_iff [OF ce(1) x(5) ce(2) x(6)] by (simp add: at0_def)
  qed
  then show ?case using Cons ext unfolding a by (simp add: Let_def)
qed simp

lemma mime_type_found:
  assumes "46 \<notin> set e" "stem \<noteq> []" "is_cstr (stem @ 46 # e)" "length (stem @ 46 # e) < 2147483647"
  shows "xs_find_mime_type (stem @ 46 # e) =
    (case find (\<lambda>(x, n, t). map lower_byte x = map lower_byte (46 # e)) gxs_builtin_mime_types of
       None \<Rightarrow> bytes ''text/plain'' | Some (x, n, t) \<Rightarrow> t)"
proof -
  have "\<forall>x\<in>set gxs_builtin_mime_types. mime_entry x" by (simp add: gxs_builtin_mime_types_def mime_entry_def)
  then show ?thesis using mime_scan_find [OF assms] by (simp add: xs_find_mime_type_def)
qed

subsection \<open>Properties\<close>

text \<open>The content type is that of the extension after the last dot, in any case of letters.\<close>

theorem xs_find_mime_type_extension:
  assumes "46 \<notin> set e" "stem \<noteq> []" "is_cstr (stem @ 46 # e)" "length (stem @ 46 # e) < 2147483647"
  shows "xs_find_mime_type (stem @ 46 # e) =
    (case find (\<lambda>(x, n, t). map lower_byte x = map lower_byte (46 # e)) gxs_builtin_mime_types of
       None \<Rightarrow> bytes ''text/plain'' | Some (x, n, t) \<Rightarrow> t)"
  by (rule mime_type_found [OF assms])

theorem xs_find_mime_type_extension_witness: "xs_find_mime_type (bytes ''a.b/c.HtMl'') = bytes ''text/html''"
  using xs_find_mime_type_extension [of "bytes ''HtMl''" "bytes ''a.b/c''"]
  by (simp add: gxs_builtin_mime_types_def lower_eval)

lemma fileresponse_serves:
  assumes "serves node path now content m" "fileinfo_gets node reqs (xs_fileinfo_init filecache_start) = Some st"
    "conn_ready conn" "no_send_error conn"
    "xs_http_getheader (xs_conn_getreq conn) (bytes ''If-None-Match'') = None" "xs_http_getheader (xs_conn_getreq conn) (bytes ''Range'') = None"
    "length (response_head (xs_conn_getreq conn) path date m (length content) 200 (bytes ''OK'') (int (length content)) []) +
      length content \<le> conn_room conn"
  shows "\<exists>st' conn'. xs_http_fileresponse (\<lambda>_. True) (node now) now entries date timestr st conn path 1 =
      Some (st', conn', int (length content)) \<and> steady (reader_of conn) conn' \<and>
    conn_out conn' = conn_out conn @
      response_head (xs_conn_getreq conn) path date m (length content) 200 (bytes ''OK'') (int (length content)) [] @ content"
proof -
  obtain st1 fd where g: "xs_fileinfo_get (\<lambda>_. True) (node now) now st path True = Some (st1, 0)" "fileinfo_entry st1 path = Some fd"
    "xs_fileinfo_lock fd = Some (fd\<lparr>fi_readcount := 1\<rparr>)" "xs_fileinfo_unlock (fd\<lparr>fi_readcount := 1\<rparr>) = Some fd"
    "xs_http_notmodified (xs_conn_getreq conn) fd = Some False" "\<not> fi_isdir fd" "fi_stat_ret fd = 0"
    "fi_data fd = Some content" "fi_mtime fd = m" "fi_size fd = length content"
    using fileresponse_file [OF assms(1,2,5)] by blast
  have "steady (reader_of conn) conn" using assms(3,4) by (simp add: steady_def)
  then obtain conn' where "file_send (\<lambda>_. True) (node now) date conn path (fd\<lparr>fi_readcount := 1\<rparr>) 1 0 (int (length content)) 200 (bytes ''OK'') [] =
      Some (conn', int (length content))" "steady (reader_of conn) conn'"
    "conn_out conn' = conn_out conn @
      response_head (xs_conn_getreq conn) path date m (length content) 200 (bytes ''OK'') (int (length content)) [] @ content"
    using file_send_text [where r = "reader_of conn" and conn = conn and req = "xs_conn_getreq conn" and fd = "fd\<lparr>fi_readcount := 1\<rparr>" and
        d = content and rs = 0 and re = "int (length content)" and statuscode = 200 and msg = "bytes ''OK''" and rangehdr = "[]" and now = date and path = path]
      assms(1,7) g(8-10) by (auto simp: response_head_def serves_def)
  then show ?thesis using g assms(6) by (auto simp: xs_http_fileresponse_def Let_def)
qed

lemma fileresponse_head:
  assumes "serves node path now content m" "fileinfo_gets node reqs (xs_fileinfo_init filecache_start) = Some st"
    "conn_ready conn" "no_send_error conn"
    "xs_http_getheader (xs_conn_getreq conn) (bytes ''If-None-Match'') = None" "xs_http_getheader (xs_conn_getreq conn) (bytes ''Range'') = None"
    "length (response_head (xs_conn_getreq conn) path date m (length content) 200 (bytes ''OK'') 0 []) \<le> conn_room conn"
  shows "\<exists>st' conn'. xs_http_fileresponse (\<lambda>_. True) (node now) now entries date timestr st conn path 0 = Some (st', conn', 0) \<and>
    steady (reader_of conn) conn' \<and>
    conn_out conn' = conn_out conn @ response_head (xs_conn_getreq conn) path date m (length content) 200 (bytes ''OK'') 0 []"
proof -
  obtain st1 fd where g: "xs_fileinfo_get (\<lambda>_. True) (node now) now st path True = Some (st1, 0)" "fileinfo_entry st1 path = Some fd"
    "xs_fileinfo_lock fd = Some (fd\<lparr>fi_readcount := 1\<rparr>)" "xs_fileinfo_unlock (fd\<lparr>fi_readcount := 1\<rparr>) = Some fd"
    "xs_http_notmodified (xs_conn_getreq conn) fd = Some False" "\<not> fi_isdir fd" "fi_stat_ret fd = 0"
    "fi_data fd = Some content" "fi_mtime fd = m" "fi_size fd = length content"
    using fileresponse_file [OF assms(1,2,5)] by blast
  have "steady (reader_of conn) conn" using assms(3,4) by (simp add: steady_def)
  then obtain c2 where "file_send (\<lambda>_. True) (node now) date conn path (fd\<lparr>fi_readcount := 1\<rparr>) 0 0 (int (length content)) 200 (bytes ''OK'') [] =
      Some (c2, 0)" "steady (reader_of conn) c2"
    "conn_out c2 = conn_out conn @ response_head (xs_conn_getreq conn) path date m (length content) 200 (bytes ''OK'') 0 []"
    using file_header_text [where r = "reader_of conn" and conn = conn and req = "xs_conn_getreq conn" and fd = "fd\<lparr>fi_readcount := 1\<rparr>" and
        dobody = 0 and n = 0 and rs = 0 and re = "int (length content)" and statuscode = 200 and msg = "bytes ''OK''" and rangehdr = "[]" and
        now = date and path = path and m = 0]
      assms(1,7) g(8-10) by (auto simp: response_head_def serves_def)
  then show ?thesis using g assms(6) by (auto simp: xs_http_fileresponse_def Let_def)
qed

text \<open>A file that has not changed for two seconds is served whole, after any history of the cache.\<close>

theorem xs_http_fileresponse_serves:
  assumes "serves node path now content m" "fileinfo_gets node reqs (xs_fileinfo_init filecache_start) = Some st"
    "conn_ready conn" "no_send_error conn"
    "xs_http_getheader (xs_conn_getreq conn) (bytes ''If-None-Match'') = None" "xs_http_getheader (xs_conn_getreq conn) (bytes ''Range'') = None"
    "length (response_head (xs_conn_getreq conn) path date m (length content) 200 (bytes ''OK'') (int (length content)) []) +
      length content \<le> conn_room conn"
  shows "\<exists>st' conn'. xs_http_fileresponse (\<lambda>_. True) (node now) now entries date timestr st conn path 1 =
      Some (st', conn', int (length content)) \<and> conn_ready conn' \<and>
    conn_out conn' = conn_out conn @
      response_head (xs_conn_getreq conn) path date m (length content) 200 (bytes ''OK'') (int (length content)) [] @ content"
  using fileresponse_serves [OF assms, of entries timestr] by (auto simp: steady_def)


lemma bind_none: "Option.bind x (\<lambda>(a, b). None) = None" "Option.bind y (\<lambda>c. None) = None"
  by (cases x; simp) (cases y; simp)

lemma file_send_none:
  assumes "re - rs \<noteq> 0" "\<And>c. xs_conn_write_filedata room fs c path fd rs re True = None"
  shows "file_send room fs now conn path fd 1 rs re sc msg rh = None"
  unfolding file_send_def Let_def by (simp only: assms simp_thms if_True if_False bind_none cong: if_cong)

text \<open>C38: A request for the last bytes of a file (\<open>bytes=-n\<close>) reads in front of its mapping, whatever the connection does.\<close>

theorem xs_http_fileresponse_suffix_range:
  assumes "serves node path now content m" "fileinfo_gets node reqs (xs_fileinfo_init filecache_start) = Some st"
    "xs_http_getheader (xs_conn_getreq conn) (bytes ''If-None-Match'') = None" "0 < n" "n < 2 ^ 62" "int (length content) < 2 ^ 62"
    "xs_http_getheader (xs_conn_getreq conn) (bytes ''Range'') = Some (bytes ''bytes='' @ 45 # num_text 10 n)"
  shows "xs_http_fileresponse (\<lambda>_. True) (node now) now entries date timestr st conn path 1 = None"
proof -
  obtain st1 fd where g: "xs_fileinfo_get (\<lambda>_. True) (node now) now st path True = Some (st1, 0)" "fileinfo_entry st1 path = Some fd"
    "xs_fileinfo_lock fd = Some (fd\<lparr>fi_readcount := 1\<rparr>)" "\<not> fi_isdir fd" "fi_stat_ret fd = 0"
    "xs_http_notmodified (xs_conn_getreq conn) fd = Some False" "fi_data fd = Some content" "fi_size fd = length content"
    using fileresponse_file [OF assms(1,2,3)] by blast
  let ?len = "int (length content)"
  have out: "0 < nat (size64 (?len + n))" using assms(4-6) by (simp add: size64_def)
  have "filedata_step (\<lambda>_. True) True content (- n) k c 0 = None" for k c
    using assms(4) by (simp add: filedata_step_def map_read_def Let_def split: prod.splits)
  then have "filedata_loop (\<lambda>_. True) True content (- n) (nat (size64 (?len + n))) c 0 = None" for c
    using out by (subst filedata_loop.simps) simp
  then have "xs_conn_write_filedata (\<lambda>_. True) fs c path (fd\<lparr>fi_readcount := 1\<rparr>) (- n) ?len True = None" for fs c
    using out g(7) by (simp add: xs_conn_write_filedata_def Let_def split: prod.splits)
  then have "file_send (\<lambda>_. True) fs date conn path (fd\<lparr>fi_readcount := 1\<rparr>) 1 (- n) ?len 206 (bytes ''Partial Content'') rh = None" for fs rh
    using file_send_none [of "?len" "- n"] assms(4) by simp
  moreover have "range_header (bytes ''bytes='' @ 45 # num_text 10 n) ?len = Some (- n, ?len, True)"
    using range_header_suffix [of n] assms(4,5) by simp
  moreover have "size64 ?len = ?len" using assms(6) by (simp add: size64_def)
  ultimately show ?thesis using g assms(4,7) by (simp add: xs_http_fileresponse_def Let_def)
qed

definition file_example_req :: "byte list \<Rightarrow> xs_httpreq" where
  \<comment> \<open>a request with one header, \<open>Range\<close>\<close>
  "file_example_req v = (empty_req 0)\<lparr>
     q_buf := bytes ''GET'' @ 0 # bytes ''Range'' @ 0 # v @ [0], q_method := Some 0, q_headers := [(4, 10)]\<rparr>"

definition file_example :: "xs_httpreq \<Rightarrow> xs_conn" where
  "file_example req = xs_conn_create\<lparr>c_sock := 5, c_req := [req], e_send := [Sent 2, Send_again]\<rparr>"

lemma file_example_facts:
  assumes "\<not> q_done req"
  shows "conn_ready (file_example req)" "no_send_error (file_example req)" "conn_out (file_example req) = []"
    "conn_room (file_example req) = 1000000" "xs_conn_getreq (file_example req) = Some req"
  using assms by (simp_all add: file_example_def xs_conn_create_def cache_ok_def arr_wf_def xs_arr_create_def cached_def arr_contents_def
      socket_open_def conn_ready_def conn_out_def conn_room_def no_send_error_def xs_conn_getreq_def)

lemma file_example_header:
  assumes "is_cstr v"
  shows "\<not> q_done (file_example_req v)" "xs_http_getheader (Some (file_example_req v)) (bytes ''Range'') = Some v"
    "xs_http_getheader (Some (file_example_req v)) (bytes ''If-None-Match'') = None"
proof -
  have v: "hdr_value (file_example_req v) (4, 10) = v" "hdr_name (file_example_req v) (4, 10) = bytes ''Range''"
    using assms cstr_terminated [of v "[]"] by (simp_all add: file_example_req_def hdr_value_def hdr_name_def cstr_def)
  have hs: "map (\<lambda>h. (hdr_name (file_example_req v) h, hdr_value (file_example_req v) h)) (q_headers (file_example_req v)) =
      [(bytes ''Range'', v)]" using v by (simp add: file_example_req_def)
  show "\<not> q_done (file_example_req v)" by (simp add: file_example_req_def empty_req_def)
  show "xs_http_getheader (Some (file_example_req v)) (bytes ''Range'') = Some v"
    "xs_http_getheader (Some (file_example_req v)) (bytes ''If-None-Match'') = None"
    unfolding getheader_assoc hs by (simp_all add: xs_strcmp_case_iff lower_eval)
qed

definition file_example_node :: "int \<Rightarrow> file_system" where
  "file_example_node t = [bytes ''a.css'' \<mapsto> Fs_file [1, 2, 3, 4] 7 True]"

lemma file_example_serves: "serves file_example_node (bytes ''a.css'') now [1, 2, 3, 4] 7"
  by (simp add: serves_def mtime_tells_def file_example_node_def node_mtime_def)

lemma file_example_mime: "xs_find_mime_type (bytes ''a.css'') = bytes ''text/css''"
  using mime_type_found [of "bytes ''css''" "bytes ''a''"] by (simp add: gxs_builtin_mime_types_def lower_eval)

lemma file_example_head:
  assumes "length (int_text 10 n) \<le> 20" "length (int_text 10 status) \<le> 20" "q_version req = None"
  shows "length (response_head (Some req) (bytes ''a.css'') (bytes ''now'') 7 4 status msg n rh) \<le> 300 + length msg + length rh"
proof -
  have "xs_http_get (Some req) exs_Req_Version = None" using assms(3) by (simp add: req_str_def)
  then show ?thesis using assms(1,2) int_text_bound [of 16 7 1] int_text_bound [of 16 4 1]
    by (simp add: response_head_def file_head_def file_example_mime [simplified] etag_text_def crlf_def)
qed

lemma file_example_gets: "fileinfo_gets file_example_node [] (xs_fileinfo_init filecache_start) = Some (xs_fileinfo_init filecache_start)"
  by simp

theorem xs_http_fileresponse_serves_witness:
  "\<exists>st' conn'. xs_http_fileresponse (\<lambda>_. True) (file_example_node 9) 9 (\<lambda>_. None) (bytes ''now'') (\<lambda>_. [])
      (xs_fileinfo_init filecache_start) (file_example (empty_req 0)) (bytes ''a.css'') 1 = Some (st', conn', int (length [1 :: byte, 2, 3, 4])) \<and>
    (\<exists>h. conn_out conn' = h @ [1, 2, 3, 4])"
proof -
  let ?c = "file_example (empty_req 0)" and ?data = "[1 :: byte, 2, 3, 4]"
  have len: "length ?data = 4" by simp
  have "\<not> q_done (empty_req 0)" by (simp add: empty_req_def)
  note ex = file_example_facts [OF this]
  have nh: "xs_http_getheader (xs_conn_getreq ?c) n = None" for n unfolding ex(5) by (simp add: xs_http_getheader_def empty_req_def)
  have "length (response_head (xs_conn_getreq ?c) (bytes ''a.css'') (bytes ''now'') 7 4 200 (bytes ''OK'') 4 []) \<le> 900000"
    unfolding ex(5)
    using file_example_head [of 4 200 "empty_req 0" "bytes ''OK''" "[]"] int_text_bound [of 10 4 1] int_text_bound [of 10 200 3]
    by (simp add: empty_req_def)
  then have "length (response_head (xs_conn_getreq ?c) (bytes ''a.css'') (bytes ''now'') 7 (length ?data) 200 (bytes ''OK'')
      (int (length ?data)) []) + length ?data \<le> conn_room ?c" unfolding ex(4) len by simp
  from xs_http_fileresponse_serves [OF file_example_serves file_example_gets ex(1,2) nh nh this, of 9 "\<lambda>_. None" "\<lambda>_. []"] show ?thesis
    unfolding ex(3) append_Nil by blast
qed


theorem xs_http_fileresponse_suffix_range_witness:
  "xs_http_fileresponse (\<lambda>_. True) (file_example_node 9) 9 (\<lambda>_. None) (bytes ''now'') (\<lambda>_. [])
      (xs_fileinfo_init filecache_start) (file_example (file_example_req (bytes ''bytes='' @ 45 # num_text 10 2))) (bytes ''a.css'') 1 = None"
proof -
  have cs: "is_cstr (bytes ''bytes='' @ 45 # num_text 10 2)" by (simp add: num_text.simps xs_digit_def)
  note h = file_example_header [OF cs]
  note ex = file_example_facts [OF h(1)]
  note hs = h(2,3) [folded ex(5)]
  show ?thesis
    by (rule xs_http_fileresponse_suffix_range [OF file_example_serves file_example_gets hs(2) _ _ _ hs(1)]) simp_all
qed

end
