(* ===== verification/Server.thy ===== *)
theory Server
  imports FileServe Base64
begin

text \<open>
  The HTTP server of \<open>xs/xs_server.h\<close>: Basic authentication against a password file and the request handler that maps
  the URI to a file.

  \<open>crypt\<close> is OpenSSL's \<open>DES_crypt\<close>, a parameter: the hash of a password under a salt, or \<open>None\<close> when it returns
  NULL. Text that the code reads behind the end of a string is not followed: the result is \<open>None\<close>, as for an access
  outside a buffer.
\<close>

subsection \<open>Authentication\<close>

abbreviation is_eol :: "byte \<Rightarrow> bool" where
  "is_eol c \<equiv> c = 10 \<or> c = 13"

function strtok_lines :: "byte list \<Rightarrow> byte list list" where
  \<comment> \<open>the tokens of \<open>strtok (s, "\n\r")\<close>\<close>
  "strtok_lines s =
     (let t = dropWhile is_eol s in
      if t = [] then [] else takeWhile (\<lambda>c. \<not> is_eol c) t # strtok_lines (dropWhile (\<lambda>c. \<not> is_eol c) t))"
  by pat_completeness auto
termination
proof (relation "measure length", goal_cases)
  case (2 s t)
  then have "\<not> is_eol (hd t)" "t \<noteq> []" "length t \<le> length s"
    using hd_dropWhile [of is_eol s] length_dropWhile_le [of is_eol s] by blast+
  then show ?case using length_dropWhile_le [of "\<lambda>c. \<not> is_eol c" "tl t"] by (cases t) auto
qed simp

declare strtok_lines.simps [simp del]

fun auth_scan :: "(byte list \<Rightarrow> byte list \<Rightarrow> byte list option) \<Rightarrow> byte list \<Rightarrow> byte list \<Rightarrow> byte list list \<Rightarrow> int option" where
  \<comment> \<open>the loop over the lines of the password file\<close>
  "auth_scan crypt user pass [] = Some (- 1)"
| "auth_scan crypt user pass (cur # lines) =
     (if take (length user) cur = user then
        (case dropWhile (\<lambda>c. c \<noteq> 58) cur of
           [] \<Rightarrow> None
         | _ # stored \<Rightarrow> do {
             encrypted \<leftarrow> crypt pass (take 2 stored);
             if encrypted = stored then Some 0 else auth_scan crypt user pass lines })
      else auth_scan crypt user pass lines)"

definition split_plaintext :: "byte list \<Rightarrow> (byte list \<times> byte list) option option" where
  \<comment> \<open>\<open>strchr (plaintext, ':')\<close> in the decoded buffer: no colon, or the texts around the first one\<close>
  "split_plaintext buf =
     (if 0 \<notin> set buf then None
      else let p = cstr buf in
           if 58 \<notin> set p then Some None
           else Some (Some (takeWhile (\<lambda>c. c \<noteq> 58) p, tl (dropWhile (\<lambda>c. c \<noteq> 58) p))))"

record xs_server_ctx =
  server_name :: "byte list"
  document_root :: "byte list"
  auth_file :: "byte list option"

definition xs_server_auth_request ::
  "(byte list \<Rightarrow> byte list \<Rightarrow> byte list option) \<Rightarrow> byte list \<Rightarrow> xs_server_ctx \<Rightarrow> xs_conn \<Rightarrow> int option" where
  \<comment> \<open>\<open>stack\<close> is what the local \<open>plaintext[256]\<close> holds on entry\<close>
  "xs_server_auth_request crypt stack ctx conn =
     (case xs_http_getheader (xs_conn_getreq conn) (bytes ''Authorization'') of
        None \<Rightarrow> Some (- 1)
      | Some a \<Rightarrow>
          if take 5 a = bytes ''Basic'' then
            if length a < 6 then None
            else do {
              (plaintext, n) \<leftarrow> xs_b64_decode stack 256 (drop 6 a) (length (drop 6 a));
              sp \<leftarrow> split_plaintext plaintext;
              (case sp of
                 None \<Rightarrow> Some (- 1)
               | Some (user, pass) \<Rightarrow> do {
                   file \<leftarrow> auth_file ctx;
                   auth_scan crypt user pass (strtok_lines (cstr file)) }) }
          else Some (- 1))"

subsection \<open>Requests\<close>

definition request_path :: "byte list \<Rightarrow> byte list option \<Rightarrow> byte list option" where
  \<comment> \<open>the local \<open>path[PATH_MAX]\<close>; \<open>xs_strlcat\<close> is told it has \<open>sizeof (path)\<close> bytes from \<open>path + n\<close> on\<close>
  "request_path root uri = do {
     (p, n) \<leftarrow> xs_strappend (replicate PATH_MAX 0) 0 (int PATH_MAX) root;
     p1 \<leftarrow> xs_strlcat_at p (nat n) (case uri of None \<Rightarrow> [] | Some u \<Rightarrow> u) PATH_MAX;
     Some (cstr p1) }"

definition xs_server_handlerequest ::
  "(nat \<Rightarrow> bool) \<Rightarrow> file_system \<Rightarrow> int \<Rightarrow> (byte list \<Rightarrow> byte list list option) \<Rightarrow> byte list \<Rightarrow> (int \<Rightarrow> byte list) \<Rightarrow>
    (byte list \<Rightarrow> byte list \<Rightarrow> byte list option) \<Rightarrow> byte list \<Rightarrow> filecache \<Rightarrow> xs_server_ctx \<Rightarrow> xs_conn \<Rightarrow> (filecache \<times> xs_conn \<times> int) option" where
  "xs_server_handlerequest room fs ct entries now timestr crypt stack st ctx conn = do {
     let req = xs_conn_getreq conn;
     let h = (if xs_http_getint req exs_Req_Upgrade \<noteq> 0 then None else xs_http_get req exs_Req_Method);
     let is_get = (h = Some (bytes ''GET''));
     if is_get \<or> h = Some (bytes ''HEAD'') then do {
       denied \<leftarrow> (if auth_file ctx = None then Some 0 else xs_server_auth_request crypt stack ctx conn);
       if denied \<noteq> 0 then do {
         (c1, n) \<leftarrow> xs_conn_write_httperror room now conn 401 (bytes ''Not Authorized'' @ crlf @ bytes ''WWW-Authenticate: Basic'') [] [];
         Some (st, c1, exs_Conn_Close) }
       else do {
         path \<leftarrow> request_path (document_root ctx) (xs_http_get req exs_Req_URI);
         (st1, c1, n) \<leftarrow> xs_http_fileresponse room fs ct entries now timestr st conn path (if is_get then 1 else 0);
         Some (st1, c1, if xs_http_getint (xs_conn_getreq c1) exs_Req_KeepAlive = 0 then exs_Conn_Close else 0) } }
     else Some (st, conn, if xs_http_getint req exs_Req_KeepAlive = 0 then exs_Conn_Close else 0) }"


subsection \<open>Lemmas: the lines of the password file\<close>

definition line_accepts :: "(byte list \<Rightarrow> byte list \<Rightarrow> byte list option) \<Rightarrow> byte list \<Rightarrow> byte list \<Rightarrow> byte list \<Rightarrow> bool" where
  \<comment> \<open>the line starts with the user's name, and what follows its colon is the hash of the password\<close>
  "line_accepts crypt user pass line \<longleftrightarrow> take (length user) line = user \<and>
     (\<exists>stored. dropWhile (\<lambda>c. c \<noteq> 58) line = 58 # stored \<and> crypt pass (take 2 stored) = Some stored)"

lemma dropWhile_colon: "dropWhile (\<lambda>c. c \<noteq> 58) l = x # xs \<Longrightarrow> x = (58 :: byte)"
  using hd_dropWhile [of "\<lambda>c. c \<noteq> 58" l] by simp

lemma auth_scan_iff: "auth_scan crypt user pass lines = Some r \<Longrightarrow> (r = 0 \<or> r = - 1) \<and> (r = 0 \<longleftrightarrow> (\<exists>l\<in>set lines. line_accepts crypt user pass l))"
proof (induction lines)
  case (Cons cur lines)
  show ?case
  proof (cases "take (length user) cur = user")
    case True
    then obtain x stored e where s: "dropWhile (\<lambda>c. c \<noteq> 58) cur = x # stored" "crypt pass (take 2 stored) = Some e"
      using Cons.prems by (auto split: list.splits simp: bind_eq_Some_conv)
    note x = dropWhile_colon [OF s(1)]
    show ?thesis
      using Cons True s x by (cases "e = stored") (auto simp: line_accepts_def)
  next
    case False
    then show ?thesis using Cons by (auto simp: line_accepts_def)
  qed
qed simp

definition lines_ok :: "(byte list \<Rightarrow> byte list \<Rightarrow> byte list option) \<Rightarrow> byte list list \<Rightarrow> bool" where
  \<comment> \<open>every line has a colon, and every hash a salt\<close>
  "lines_ok crypt lines \<longleftrightarrow> (\<forall>l\<in>set lines. 58 \<in> set l) \<and> (\<forall>l\<in>set lines. \<forall>p. crypt p (take 2 (tl (dropWhile (\<lambda>c. c \<noteq> 58) l))) \<noteq> None)"

lemma auth_scan_total: "lines_ok crypt lines \<Longrightarrow> \<exists>r. auth_scan crypt user pass lines = Some r"
proof (induction lines)
  case (Cons cur lines)
  have "dropWhile (\<lambda>c. c \<noteq> 58) cur \<noteq> []" using Cons.prems by (simp add: lines_ok_def dropWhile_eq_Nil_conv)
  then obtain x stored where s: "dropWhile (\<lambda>c. c \<noteq> 58) cur = x # stored" using list.exhaust by blast
  moreover obtain e where "crypt pass (take 2 stored) = Some e" using Cons.prems s by (force simp: lines_ok_def)
  moreover have "lines_ok crypt lines" using Cons.prems by (simp add: lines_ok_def)
  ultimately show ?case using Cons.IH by simp
qed simp

lemma auth_scan_value:
  "lines_ok crypt lines \<Longrightarrow> auth_scan crypt user pass lines = Some (if \<exists>l\<in>set lines. line_accepts crypt user pass l then 0 else - 1)"
  using auth_scan_total [of crypt lines user pass] auth_scan_iff [of crypt user pass lines] by auto

subsection \<open>Lemmas: the credentials of a request\<close>

definition basic_header :: "byte list \<Rightarrow> byte list \<Rightarrow> byte list" where
  "basic_header user pass = bytes ''Basic '' @ b64_text (user @ 58 # pass)"

lemma tail_cstr: "is_cstr (b64_tail s)"
  by (induction s rule: b64_tail.induct) simp_all

lemma tail_no_colon: "58 \<notin> set (b64_tail s)"
  by (induction s rule: b64_tail.induct) simp_all

lemma split_plaintext_text:
  assumes "is_cstr user" "is_cstr pass" "58 \<notin> set user" "cstr buf = user @ 58 # pass" "0 \<in> set buf"
  shows "split_plaintext buf = Some (Some (user, pass))"
proof -
  have "takeWhile (\<lambda>c. c \<noteq> 58) (user @ 58 # pass) = user" "dropWhile (\<lambda>c. c \<noteq> 58) (user @ 58 # pass) = 58 # pass"
    using assms(3) by (induction user) auto
  then show ?thesis using assms(4,5) by (simp add: split_plaintext_def Let_def)
qed

lemma decoded_credentials:
  fixes stack :: "byte list"
  assumes s: "is_cstr user" "is_cstr pass" "58 \<notin> set user" "length user + length pass < 255" and st: "length stack = 256"
  shows "\<exists>d n. xs_b64_decode stack 256 (b64_text (user @ 58 # pass)) (length (b64_text (user @ 58 # pass))) = Some (d, n) \<and>
    split_plaintext d = Some (Some (user, pass @ b64_tail (user @ 58 # pass)))"
proof -
  let ?t = "user @ 58 # pass"
  let ?n = "3 * ((length ?t + 2) div 3)"
  have n: "?n \<le> 255" using s(4) by simp
  obtain d where d: "xs_b64_decode stack 256 (b64_text ?t) (length (b64_text ?t)) = Some (d, ?n)" "length d = 256"
    "take ?n d = ?t @ b64_tail ?t" "d ! ?n = 0"
    using xs_b64_decode_spec [of 256 stack ?t] n st by auto
  have "d = take ?n d @ d ! ?n # drop (Suc ?n) d" using n d(2) by (simp add: id_take_nth_drop)
  then have eq: "d = (user @ 58 # (pass @ b64_tail ?t)) @ 0 # drop (Suc ?n) d" unfolding d(3,4) by simp
  have cs: "is_cstr (user @ 58 # (pass @ b64_tail ?t))" using s(1,2) tail_cstr by simp
  have "cstr d = user @ 58 # (pass @ b64_tail ?t)" using cstr_terminated [OF cs] eq by metis
  moreover have "0 \<in> set d" by (subst eq) simp
  ultimately show ?thesis using split_plaintext_text [of user "pass @ b64_tail ?t" d] d(1) s(1-3) tail_cstr by auto
qed

lemma decode_overflow:
  assumes "i + length (b64_text s) = length src" "drop i src = b64_text s" "length dst = 256"
    "len \<le> 255" "len mod 3 = 0" "256 \<le> len + length s"
  shows "b64_decode_loop dst 256 src (length src) i len = None"
  using assms
proof (induction s arbitrary: i len dst rule: b64_text.induct)
  case (4 a b c r)
  have nth: "src ! (i + k) = b64_text (a # b # c # r) ! k" for k
    using "4.prems"(1,2) by (metis le_add1 nth_drop)
  show ?case
  proof (cases "len = 255")
    case True
    then show ?thesis using "4.prems" nth [of 0] nth [of 1] nth [of 2] nth [of 3]
      by (subst b64_decode_loop.simps) (simp add: mem_simps b64_dquad_bytes(1) split: prod.splits option.splits)
  next
    case False
    then have l: "len + 3 \<le> 255" using "4.prems"(4,5) by presburger
    have st: "b64_decode_loop dst 256 src (length src) i len =
        b64_decode_loop (take len dst @ [a, b, c] @ drop (len + 3) dst) 256 src (length src) (i + 4) (len + 3)"
      by (rule b64_quad_step [where ?c1.0 = "b64_char (sx1 a)" and ?c2.0 = "b64_char (sx2 a b)" and
            ?c3.0 = "b64_char (sx3 b c)" and ?c4.0 = "b64_char (sx4 c)", OF _ _ _ _ _ _ _ _ _ _ _ _ _ _ b64_dquad_bytes(1)])
        (use "4.prems" l nth [of 0] nth [of 1] nth [of 2] nth [of 3] in \<open>simp_all add: b64_pad\<close>)
    have dr: "drop (i + 4) src = b64_text r"
      using arg_cong [OF "4.prems"(2), of "drop 4"] by (simp add: add.commute)
    have "(len + 3) mod 3 = 0" using "4.prems"(5) by presburger
    then show ?thesis unfolding st by (intro "4.IH" [OF _ dr]) (use "4.prems" l in auto)
  qed
next
  case (2 a)
  then have "len = 255" by simp
  moreover have nth: "src ! (i + k) = b64_text [a] ! k" for k
    using "2.prems"(1,2) by (metis le_add1 nth_drop)
  ultimately show ?case using "2.prems" nth [of 0] nth [of 1] nth [of 2] nth [of 3]
    by (subst b64_decode_loop.simps) (simp add: mem_simps b64_pad split: prod.splits option.splits)
next
  case (3 a b)
  then have "len = 255" by (simp; presburger)
  moreover have nth: "src ! (i + k) = b64_text [a, b] ! k" for k
    using "3.prems"(1,2) by (metis le_add1 nth_drop)
  ultimately show ?case using "3.prems" nth [of 0] nth [of 1] nth [of 2] nth [of 3]
    by (subst b64_decode_loop.simps) (simp add: mem_simps b64_pad split: prod.splits option.splits)
qed simp


subsection \<open>Lemmas: the path of a request\<close>

lemma strlcpy_at_none: "1 \<le> n \<Longrightarrow> length d < i + min (length s + 1) n \<Longrightarrow> xs_strlcpy_at d i s n = None"
proof (induction d i s n rule: xs_strlcpy_at.induct)
  case (2 d i c s n)
  then show ?case by (cases "i < length d") (auto simp: wr_def)
qed (simp add: wr_def)

lemma strappend_start:
  assumes "length root < PATH_MAX"
  shows "xs_strappend (replicate PATH_MAX 0) 0 (int PATH_MAX) root =
    Some (root @ 0 # replicate (PATH_MAX - 1 - length root) 0, int (length root))"
proof -
  have "rds root 0 (length root) = Some root" by (simp add: rds_def)
  moreover have "blit (replicate PATH_MAX 0) 0 root = Some (root @ replicate (PATH_MAX - length root) 0)"
    using assms by (simp add: blit_def)
  moreover have "wr (root @ replicate (PATH_MAX - length root) 0) (length root) 0 = Some (root @ 0 # replicate (PATH_MAX - 1 - length root) 0)"
    using assms by (cases "PATH_MAX - length root") (auto simp: wr_def list_update_append)
  ultimately show ?thesis using assms by (simp add: xs_strappend_def xs_strlappend_def)
qed

lemma request_path_value:
  assumes "is_cstr root" "is_cstr uri" "length root + length uri < PATH_MAX"
  shows "request_path root (Some uri) = Some (root @ uri)"
proof -
  let ?r = "replicate (PATH_MAX - 1 - length root) (0 :: byte)"
  have "xs_strlcat_at (root @ [] @ 0 # ?r) (length root) uri PATH_MAX =
      Some (root @ [] @ take (PATH_MAX - length ([] :: byte list) - 1) uri @ 0 # drop (min (length uri) (PATH_MAX - length ([] :: byte list) - 1)) ?r)"
    using assms(3) by (intro xs_strlcat_at_spec) auto
  then have "xs_strlcat_at (root @ 0 # ?r) (length root) uri PATH_MAX = Some ((root @ uri) @ 0 # drop (length uri) ?r)"
    using assms(3) by simp
  moreover have "cstr ((root @ uri) @ 0 # drop (length uri) ?r) = root @ uri" using assms(1,2) by (intro cstr_terminated) simp
  ultimately show ?thesis using strappend_start [of root] assms(3) by (simp add: request_path_def)
qed

lemma request_path_none:
  assumes "length root < PATH_MAX" "PATH_MAX \<le> length root + length uri" "uri \<noteq> []" "root \<noteq> []"
  shows "request_path root (Some uri) = None"
proof -
  let ?d = "root @ 0 # replicate (PATH_MAX - 1 - length root) (0 :: byte)"
  have "rd ?d (length root) = Some 0" by (simp add: rd_def)
  moreover have "xs_strlcpy_at ?d (length root) uri PATH_MAX = None"
    using assms by (intro strlcpy_at_none) (auto simp: min_def Suc_le_eq)
  ultimately have "xs_strlcat_at ?d (length root) uri PATH_MAX = None"
    using assms(3) by (simp add: xs_strlcat_at_def numeral_nat)
  then show ?thesis using strappend_start [OF assms(1)] by (simp add: request_path_def)
qed

subsection \<open>Lemmas: refusing a request\<close>

definition error_head :: "xs_httpreq option \<Rightarrow> byte list \<Rightarrow> int \<Rightarrow> byte list \<Rightarrow> byte list" where
  \<comment> \<open>an error response without a body\<close>
  "error_head req now status description =
     bytes ''HTTP/'' @ (case xs_http_get req exs_Req_Version of None \<Rightarrow> bytes ''1.0'' | Some v \<Rightarrow> v) @ bytes '' '' @
     int_text 10 status @ bytes '' '' @ description @ crlf @ bytes ''Content-Length: 0'' @ crlf @
     bytes ''Connection: '' @ (if xs_http_getint req exs_Req_KeepAlive \<noteq> 0 then bytes ''keep-alive'' else bytes ''close'') @ crlf @
     bytes ''Server: webxs/0.5'' @ crlf @ bytes ''Date: '' @ now @ crlf @ crlf"

lemma httperror_text:
  assumes c: "steady r conn" "xs_conn_getreq conn = req" and sc: "0 \<le> status" "status < 2 ^ 31"
    and room: "length (error_head req now status description) \<le> conn_room conn"
  shows "\<exists>conn'. xs_conn_write_httperror (\<lambda>_. True) now conn status description [] [] = Some (conn', 0) \<and> steady r conn' \<and>
    conn_out conn' = conn_out conn @ error_head req now status description"
proof -
  let ?ver = "case xs_http_get req exs_Req_Version of None \<Rightarrow> bytes ''1.0'' | Some v \<Rightarrow> v"
  let ?keep = "if xs_http_getint req exs_Req_KeepAlive \<noteq> 0 then bytes ''keep-alive'' else bytes ''close''"
  let ?ps = "[P_lit (bytes ''HTTP/''), P_str ?ver, P_lit (bytes '' ''), P_int status, P_lit (bytes '' ''), P_str description,
    P_lit (crlf @ bytes ''Content-Length: ''), P_int 0, P_lit (crlf @ bytes ''Connection: ''), P_str ?keep,
    P_lit (crlf @ bytes ''Server: ''), P_str xs_server_name, P_lit (crlf @ bytes ''Date: ''), P_str now, P_lit crlf]"
  have ok: "pieces_ok ?ps" using sc by (simp add: is_lit_def crlf_def)
  have f: "fmt_of ?ps = bytes ''HTTP/%s %d %s'' @ crlf @ bytes ''Content-Length: %d'' @ crlf @ bytes ''Connection: %s'' @ crlf @
      bytes ''Server: %s'' @ crlf @ bytes ''Date: %s'' @ crlf" by simp
  have t: "text_of ?ps @ crlf = error_head req now status description"
    by (simp add: error_head_def xs_server_name_def int_text_def num_text.simps xs_digit_def)
  have "length (text_of ?ps) + 2 \<le> conn_room conn" using room arg_cong [OF t, of length] by (simp add: crlf_def)
  then obtain c1 where c1: "xs_conn_printf_header (\<lambda>_. True) conn (fmt_of ?ps) (args_of ?ps) = Some (c1, int (length (text_of ?ps)))"
    "steady r c1" "conn_out c1 = conn_out conn @ text_of ?ps" "2 \<le> conn_room c1"
    using steady_print [OF ok _ c(1), of 2] by blast
  obtain c2 where c2: "xs_conn_header_done (\<lambda>_. True) c1 False = Some (c2, 2)" "steady r c2" "conn_out c2 = conn_out c1 @ crlf"
    using steady_write [OF c1(2), of "[13, 10]" False] c1(4) by (auto simp: xs_conn_header_done_def crlf_def)
  have "xs_conn_write_httperror (\<lambda>_. True) now conn status description [] [] = Some (c2, 0)"
    using c1(1) c2(1) unfolding f by (simp add: xs_conn_write_httperror_def Let_def c(2))
  then show ?thesis using c2(2,3) c1(3) t by simp
qed


subsection \<open>Properties\<close>

definition allowed :: "(byte list \<Rightarrow> byte list \<Rightarrow> byte list option) \<Rightarrow> byte list \<Rightarrow> xs_server_ctx \<Rightarrow> xs_conn \<Rightarrow> bool" where
  \<comment> \<open>the server asks for no password, or the request has one that is accepted\<close>
  "allowed crypt stack ctx conn \<longleftrightarrow> auth_file ctx = None \<or> xs_server_auth_request crypt stack ctx conn = Some 0"

lemma auth_request_value:
  assumes "auth_file ctx = Some file" "lines_ok crypt (strtok_lines (cstr file))" "length stack = 256"
    "is_cstr user" "is_cstr pass" "58 \<notin> set user" "length user + length pass < 255"
    "xs_http_getheader (xs_conn_getreq conn) (bytes ''Authorization'') = Some (basic_header user pass)"
  shows "xs_server_auth_request crypt stack ctx conn =
    Some (if \<exists>l\<in>set (strtok_lines (cstr file)). line_accepts crypt user (pass @ b64_tail (user @ 58 # pass)) l then 0 else - 1)"
proof -
  obtain d n where "xs_b64_decode stack 256 (b64_text (user @ 58 # pass)) (length (b64_text (user @ 58 # pass))) = Some (d, n)"
    "split_plaintext d = Some (Some (user, pass @ b64_tail (user @ 58 # pass)))"
    using decoded_credentials assms(3-7) by blast
  then show ?thesis using assms(1,8) auth_scan_value [OF assms(2)]
    by (simp add: xs_server_auth_request_def basic_header_def)
qed

text \<open>C15: Basic authentication as it is: a request with user name and password is accepted exactly if some line of the
  password file starts with the user name and has, after its colon, the hash of the password extended by what
  \<open>xs_b64_decode\<close> makes of the padding.\<close>

theorem xs_server_auth_request_decides:
  assumes "auth_file ctx = Some file" "lines_ok crypt (strtok_lines (cstr file))" "length stack = 256"
    "is_cstr user" "is_cstr pass" "58 \<notin> set user" "length user + length pass < 255"
    "xs_http_getheader (xs_conn_getreq conn) (bytes ''Authorization'') = Some (basic_header user pass)"
  shows "xs_server_auth_request crypt stack ctx conn =
    Some (if \<exists>l\<in>set (strtok_lines (cstr file)). line_accepts crypt user (pass @ b64_tail (user @ 58 # pass)) l then 0 else - 1)"
  by (rule auth_request_value [OF assms])

text \<open>C37: credentials that decode to more than 255 bytes are written past the local buffer.\<close>

theorem xs_server_auth_request_overflows:
  assumes "length stack = 256" "255 \<le> length user + length pass"
    "xs_http_getheader (xs_conn_getreq conn) (bytes ''Authorization'') = Some (basic_header user pass)"
  shows "xs_server_auth_request crypt stack ctx conn = None"
proof -
  have "b64_decode_loop stack 256 (b64_text (user @ 58 # pass)) (length (b64_text (user @ 58 # pass))) 0 0 = None"
    using assms(1,2) by (intro decode_overflow) auto
  then show ?thesis using assms(3) by (simp add: xs_server_auth_request_def basic_header_def xs_b64_decode_def)
qed

text \<open>C10: without accepted credentials no file is looked at: the answer is 401, and the connection is closed.\<close>

theorem xs_server_handlerequest_refuses:
  assumes "xs_server_auth_request crypt stack ctx conn = Some (- 1)" "auth_file ctx \<noteq> None"
    "xs_http_getint (xs_conn_getreq conn) exs_Req_Upgrade = 0"
    "xs_http_get (xs_conn_getreq conn) exs_Req_Method \<in> {Some (bytes ''GET''), Some (bytes ''HEAD'')}"
    "conn_ready conn" "no_send_error conn"
    "length (error_head (xs_conn_getreq conn) now 401 (bytes ''Not Authorized'' @ crlf @ bytes ''WWW-Authenticate: Basic'')) \<le> conn_room conn"
  shows "\<exists>conn'. xs_server_handlerequest (\<lambda>_. True) fs ct entries now timestr crypt stack st ctx conn = Some (st, conn', exs_Conn_Close) \<and>
    conn_out conn' = conn_out conn @
      error_head (xs_conn_getreq conn) now 401 (bytes ''Not Authorized'' @ crlf @ bytes ''WWW-Authenticate: Basic'')"
proof -
  have "steady (reader_of conn) conn" using assms(5,6) by (simp add: steady_def)
  from httperror_text [OF this refl _ _ assms(7)] obtain c where "xs_conn_write_httperror (\<lambda>_. True) now conn 401 (bytes ''Not Authorized'' @ crlf @ bytes ''WWW-Authenticate: Basic'') [] [] = Some (c, 0)"
    "conn_out c = conn_out conn @ error_head (xs_conn_getreq conn) now 401 (bytes ''Not Authorized'' @ crlf @ bytes ''WWW-Authenticate: Basic'')"
    by fastforce
  then show ?thesis using assms(1-4) by (auto simp: xs_server_handlerequest_def Let_def)
qed

lemma handlerequest_serves:
  assumes "allowed crypt stack ctx conn" "xs_http_getint (xs_conn_getreq conn) exs_Req_Upgrade = 0"
    "xs_http_get (xs_conn_getreq conn) exs_Req_Method = Some (bytes ''GET'')" "xs_http_get (xs_conn_getreq conn) exs_Req_URI = Some uri"
    "is_cstr (document_root ctx)" "is_cstr uri" "length (document_root ctx) + length uri < PATH_MAX"
    "serves node (document_root ctx @ uri) ct content m" "fileinfo_gets node reqs (xs_fileinfo_init filecache_start) = Some st"
    "conn_ready conn" "no_send_error conn"
    "xs_http_getheader (xs_conn_getreq conn) (bytes ''If-None-Match'') = None" "xs_http_getheader (xs_conn_getreq conn) (bytes ''Range'') = None"
    "length (response_head (xs_conn_getreq conn) (document_root ctx @ uri) now m (length content) 200 (bytes ''OK'') (int (length content)) []) +
      length content \<le> conn_room conn"
  shows "\<exists>st' conn'. xs_server_handlerequest (\<lambda>_. True) (node ct) ct entries now timestr crypt stack st ctx conn =
      Some (st', conn', if xs_http_getint (xs_conn_getreq conn) exs_Req_KeepAlive = 0 then exs_Conn_Close else 0) \<and>
    conn_out conn' = conn_out conn @
      response_head (xs_conn_getreq conn) (document_root ctx @ uri) now m (length content) 200 (bytes ''OK'') (int (length content)) [] @ content"
proof -
  obtain st' c where c: "xs_http_fileresponse (\<lambda>_. True) (node ct) ct entries now timestr st conn (document_root ctx @ uri) 1 =
      Some (st', c, int (length content))" "steady (reader_of conn) c"
    "conn_out c = conn_out conn @
      response_head (xs_conn_getreq conn) (document_root ctx @ uri) now m (length content) 200 (bytes ''OK'') (int (length content)) [] @ content"
    using fileresponse_serves [OF assms(8-14), of entries timestr] by blast
  have "xs_conn_getreq c = xs_conn_getreq conn" using c(2) by (intro getreq_reader) (simp add: steady_def)
  then show ?thesis using assms(1-4) c request_path_value [OF assms(5-7)]
    by (cases "auth_file ctx") (auto simp: xs_server_handlerequest_def Let_def allowed_def)
qed


text \<open>A request whose URI does not fit behind the document root is written past the local path.\<close>

theorem xs_server_handlerequest_overflows:
  assumes "allowed crypt stack ctx conn" "xs_http_getint (xs_conn_getreq conn) exs_Req_Upgrade = 0"
    "xs_http_get (xs_conn_getreq conn) exs_Req_Method = Some (bytes ''GET'')" "xs_http_get (xs_conn_getreq conn) exs_Req_URI = Some uri"
    "document_root ctx \<noteq> []" "length (document_root ctx) < PATH_MAX" "PATH_MAX \<le> length (document_root ctx) + length uri"
  shows "xs_server_handlerequest (\<lambda>_. True) fs ct entries now timestr crypt stack st ctx conn = None"
proof -
  have "uri \<noteq> []" using assms(6,7) by auto
  then have "request_path (document_root ctx) (Some uri) = None" using request_path_none assms(5-7) by blast
  then show ?thesis using assms(1-4)
    by (cases "auth_file ctx") (auto simp: xs_server_handlerequest_def Let_def allowed_def)
qed

lemma tail_empty: "length s mod 3 = 0 \<Longrightarrow> b64_tail s = []"
proof (induction s rule: b64_tail.induct)
  case (4 a b c r)
  then have "length r mod 3 = 0" by (simp; presburger)
  then show ?case using 4 by simp
qed simp_all

text \<open>Whoever knows a password is accepted under every prefix of the name it belongs to, the empty one included.\<close>

theorem xs_server_auth_request_prefix:
  assumes "auth_file ctx = Some file" "lines_ok crypt (strtok_lines (cstr file))" "length stack = 256"
    "is_cstr user" "is_cstr pass" "58 \<notin> set user" "length user + length pass < 255" "(length user + 1 + length pass) mod 3 = 0"
    "xs_http_getheader (xs_conn_getreq conn) (bytes ''Authorization'') = Some (basic_header user pass)"
    "(user @ rest) @ 58 # stored \<in> set (strtok_lines (cstr file))" "58 \<notin> set rest" "crypt pass (take 2 stored) = Some stored"
  shows "xs_server_auth_request crypt stack ctx conn = Some 0"
proof -
  have "b64_tail (user @ 58 # pass) = []" using assms(8) by (intro tail_empty) simp
  moreover have "dropWhile (\<lambda>c. c \<noteq> 58) ((user @ rest) @ 58 # stored) = 58 # stored" using assms(6,11) by (auto simp: dropWhile_append)
  ultimately have "line_accepts crypt user (pass @ b64_tail (user @ 58 # pass)) ((user @ rest) @ 58 # stored)"
    using assms(12) by (simp add: line_accepts_def)
  then show ?thesis using auth_request_value [OF assms(1-7,9)] assms(10) by auto
qed

text \<open>The answer to a HEAD request has the header of the GET response, except that it says \<open>Content-Length: 0\<close>.\<close>

theorem xs_server_handlerequest_head:
  assumes "allowed crypt stack ctx conn" "xs_http_getint (xs_conn_getreq conn) exs_Req_Upgrade = 0"
    "xs_http_get (xs_conn_getreq conn) exs_Req_Method = Some (bytes ''HEAD'')" "xs_http_get (xs_conn_getreq conn) exs_Req_URI = Some uri"
    "is_cstr (document_root ctx)" "is_cstr uri" "length (document_root ctx) + length uri < PATH_MAX"
    "serves node (document_root ctx @ uri) ct content m" "fileinfo_gets node reqs (xs_fileinfo_init filecache_start) = Some st"
    "conn_ready conn" "no_send_error conn"
    "xs_http_getheader (xs_conn_getreq conn) (bytes ''If-None-Match'') = None" "xs_http_getheader (xs_conn_getreq conn) (bytes ''Range'') = None"
    "length (response_head (xs_conn_getreq conn) (document_root ctx @ uri) now m (length content) 200 (bytes ''OK'') 0 []) \<le> conn_room conn"
  shows "\<exists>st' conn'. xs_server_handlerequest (\<lambda>_. True) (node ct) ct entries now timestr crypt stack st ctx conn =
      Some (st', conn', if xs_http_getint (xs_conn_getreq conn) exs_Req_KeepAlive = 0 then exs_Conn_Close else 0) \<and>
    conn_out conn' = conn_out conn @
      response_head (xs_conn_getreq conn) (document_root ctx @ uri) now m (length content) 200 (bytes ''OK'') 0 []"
proof -
  obtain st' c where c: "xs_http_fileresponse (\<lambda>_. True) (node ct) ct entries now timestr st conn (document_root ctx @ uri) 0 = Some (st', c, 0)"
    "steady (reader_of conn) c"
    "conn_out c = conn_out conn @ response_head (xs_conn_getreq conn) (document_root ctx @ uri) now m (length content) 200 (bytes ''OK'') 0 []"
    using fileresponse_head [OF assms(8-14), of entries timestr] by blast
  have "xs_conn_getreq c = xs_conn_getreq conn" using c(2) by (intro getreq_reader) (simp add: steady_def)
  then show ?thesis using assms(1-4) c request_path_value [OF assms(5-7)]
    by (cases "auth_file ctx") (auto simp: xs_server_handlerequest_def Let_def allowed_def)
qed

subsection \<open>Examples\<close>

definition server_example_req :: "byte list \<Rightarrow> byte list \<Rightarrow> byte list \<Rightarrow> byte list \<Rightarrow> xs_httpreq" where
  \<comment> \<open>a parsed request with one header\<close>
  "server_example_req method uri name value = (empty_req 0)\<lparr>
     q_buf := method @ 0 # uri @ 0 # name @ 0 # value @ [0], q_method := Some 0, q_uri := Some (length method + 1),
     q_headers := [(length method + length uri + 2, length method + length uri + length name + 3)]\<rparr>"

lemma server_example_texts:
  assumes "is_cstr method" "is_cstr uri" "is_cstr name" "is_cstr value"
  shows "xs_http_get (Some (server_example_req method uri name value)) exs_Req_Method = Some method"
    "xs_http_get (Some (server_example_req method uri name value)) exs_Req_URI = Some uri"
    "xs_http_getheader (Some (server_example_req method uri name value)) n =
      (if xs_strcmp_case (Some n) (Some name) = 0 then Some value else None)"
    "xs_http_getint (Some (server_example_req method uri name value)) exs_Req_Upgrade = 0"
    "xs_http_getint (Some (server_example_req method uri name value)) exs_Req_KeepAlive = 0"
    "\<not> q_done (server_example_req method uri name value)" "q_version (server_example_req method uri name value) = None"
proof -
  let ?r = "server_example_req method uri name value"
  have b: "drop (length method + 1) (q_buf ?r) = uri @ 0 # name @ 0 # value @ [0]"
    "drop (length method + length uri + 2) (q_buf ?r) = name @ 0 # value @ [0]"
    "drop (length method + length uri + length name + 3) (q_buf ?r) = value @ [0]"
    by (simp_all add: server_example_req_def numeral_3_eq_3)
  show "xs_http_get (Some ?r) exs_Req_Method = Some method" "xs_http_get (Some ?r) exs_Req_URI = Some uri"
    using b(1) cstr_terminated [OF assms(1)] cstr_terminated [OF assms(2)] by (simp_all add: server_example_req_def req_str_def)
  have "map (\<lambda>h. (hdr_name ?r h, hdr_value ?r h)) (q_headers ?r) = [(name, value)]"
    using b(2,3) cstr_terminated [OF assms(3)] cstr_terminated [OF assms(4), of "[]"]
    by (simp add: hdr_name_def hdr_value_def) (simp add: server_example_req_def hdr_name_def hdr_value_def)
  then show "xs_http_getheader (Some ?r) n = (if xs_strcmp_case (Some n) (Some name) = 0 then Some value else None)"
    unfolding getheader_assoc by simp
qed (simp_all add: server_example_req_def empty_req_def)

definition example_crypt :: "byte list \<Rightarrow> byte list \<Rightarrow> byte list option" where
  \<comment> \<open>a hash that, like the one of DES, looks at eight bytes of the password\<close>
  "example_crypt p salt = Some (salt @ take 8 p)"

definition example_ctx :: xs_server_ctx where
  "example_ctx = \<lparr>server_name = [], document_root = bytes ''a'', auth_file = Some (bytes ''joe:XYpw'' @ [10] @ bytes ''ann:UVpwd'' @ [10])\<rparr>"

lemma example_lines: "strtok_lines (cstr (bytes ''joe:XYpw'' @ [10] @ bytes ''ann:UVpwd'' @ [10])) = [bytes ''joe:XYpw'', bytes ''ann:UVpwd'']"
  by (simp add: cstr_def strtok_lines.simps)

lemma example_lines_ok: "lines_ok example_crypt [bytes ''joe:XYpw'', bytes ''ann:UVpwd'']"
  by (simp add: lines_ok_def example_crypt_def)

abbreviation auth_name :: "byte list" where "auth_name \<equiv> bytes ''Authorization''"

definition example_conn :: "byte list \<Rightarrow> byte list \<Rightarrow> xs_conn" where
  "example_conn user pass = file_example (server_example_req (bytes ''GET'') (bytes ''.css'') auth_name (basic_header user pass))"


lemma example_conn_facts:
  shows "xs_conn_getreq (example_conn user pass) = Some (server_example_req (bytes ''GET'') (bytes ''.css'') auth_name (basic_header user pass))"
    "xs_http_getheader (xs_conn_getreq (example_conn user pass)) auth_name = Some (basic_header user pass)"
    "conn_ready (example_conn user pass)" "no_send_error (example_conn user pass)" "conn_out (example_conn user pass) = []"
    "conn_room (example_conn user pass) = 1000000"
    "xs_http_getint (xs_conn_getreq (example_conn user pass)) exs_Req_Upgrade = 0"
    "xs_http_get (xs_conn_getreq (example_conn user pass)) exs_Req_Method = Some (bytes ''GET'')"
    "xs_http_get (xs_conn_getreq (example_conn user pass)) exs_Req_URI = Some (bytes ''.css'')"
    "xs_http_getheader (xs_conn_getreq (example_conn user pass)) (bytes ''If-None-Match'') = None"
    "xs_http_getheader (xs_conn_getreq (example_conn user pass)) (bytes ''Range'') = None"
proof -
  let ?req = "server_example_req (bytes ''GET'') (bytes ''.css'') auth_name (basic_header user pass)"
  have "is_cstr (basic_header user pass)" using b64_text_cstr by (simp add: basic_header_def)
  note t = server_example_texts [OF _ _ _ this, of "bytes ''GET''" "bytes ''.css''" auth_name, simplified]
  note f = file_example_facts [of ?req]
  show "xs_conn_getreq (example_conn user pass) = Some ?req" "conn_ready (example_conn user pass)"
    "no_send_error (example_conn user pass)" "conn_out (example_conn user pass) = []" "conn_room (example_conn user pass) = 1000000"
    using f t(6) by (simp_all add: example_conn_def)
  then show "xs_http_getheader (xs_conn_getreq (example_conn user pass)) auth_name = Some (basic_header user pass)"
    "xs_http_getint (xs_conn_getreq (example_conn user pass)) exs_Req_Upgrade = 0"
    "xs_http_get (xs_conn_getreq (example_conn user pass)) exs_Req_Method = Some (bytes ''GET'')"
    "xs_http_get (xs_conn_getreq (example_conn user pass)) exs_Req_URI = Some (bytes ''.css'')"
    "xs_http_getheader (xs_conn_getreq (example_conn user pass)) (bytes ''If-None-Match'') = None"
    "xs_http_getheader (xs_conn_getreq (example_conn user pass)) (bytes ''Range'') = None"
    using t by (simp_all add: xs_strcmp_case_iff lower_eval)
qed

text \<open>The right password is refused: \<open>joe:pw\<close> would be accepted, but \<open>ann:pwd\<close> is encoded with padding.\<close>

theorem xs_server_auth_request_decides_witness:
  "xs_server_auth_request example_crypt (replicate 256 7) example_ctx (example_conn (bytes ''ann'') (bytes ''pwd'')) = Some (- 1)"
proof -
  have "\<not> (\<exists>l\<in>set [bytes ''joe:XYpw'', bytes ''ann:UVpwd'']. line_accepts example_crypt (bytes ''ann'')
      (bytes ''pwd'' @ b64_tail (bytes ''ann'' @ 58 # bytes ''pwd'')) l)"
    by (simp add: line_accepts_def example_crypt_def)
  then show ?thesis
    using xs_server_auth_request_decides [of example_ctx _ example_crypt "replicate 256 7" "bytes ''ann''" "bytes ''pwd''"]
      example_conn_facts(2) example_lines example_lines_ok
    by (simp add: example_ctx_def)
qed

theorem xs_server_auth_request_prefix_witness:
  "xs_server_auth_request example_crypt (replicate 256 7) example_ctx (example_conn (bytes ''an'') (bytes ''pwd'')) = Some 0"
proof (rule xs_server_auth_request_prefix [OF _ _ _ _ _ _ _ _ example_conn_facts(2), where rest = "bytes ''n''" and stored = "bytes ''UVpwd''"])
  show "auth_file example_ctx = Some (bytes ''joe:XYpw'' @ [10] @ bytes ''ann:UVpwd'' @ [10])" by (simp add: example_ctx_def)
qed (unfold example_lines, use example_lines_ok in \<open>simp_all add: example_crypt_def\<close>)

theorem xs_server_auth_request_overflows_witness:
  "xs_server_auth_request example_crypt (replicate 256 7) example_ctx (example_conn (replicate 200 97) (replicate 55 98)) = None"
  by (rule xs_server_auth_request_overflows [OF _ _ example_conn_facts(2)]) simp_all

lemma example_refused:
  "xs_server_auth_request example_crypt (replicate 256 7) example_ctx (example_conn (bytes ''ann'') (bytes ''x'')) = Some (- 1)"
proof -
  have "\<not> (\<exists>l\<in>set [bytes ''joe:XYpw'', bytes ''ann:UVpwd'']. line_accepts example_crypt (bytes ''ann'')
      (bytes ''x'' @ b64_tail (bytes ''ann'' @ 58 # bytes ''x'')) l)"
    by (simp add: line_accepts_def example_crypt_def)
  then show ?thesis
    using auth_request_value [of example_ctx _ example_crypt "replicate 256 7" "bytes ''ann''" "bytes ''x''"]
      example_conn_facts(2) example_lines example_lines_ok
    by (simp add: example_ctx_def)
qed

lemma example_allowed: "allowed example_crypt (replicate 256 7) example_ctx (example_conn (bytes ''joe'') (bytes ''pw''))"
proof -
  have "line_accepts example_crypt (bytes ''joe'') (bytes ''pw'' @ b64_tail (bytes ''joe'' @ 58 # bytes ''pw'')) (bytes ''joe:XYpw'')"
    by (simp add: line_accepts_def example_crypt_def)
  then show ?thesis
    using auth_request_value [of example_ctx _ example_crypt "replicate 256 7" "bytes ''joe''" "bytes ''pw''"]
      example_conn_facts(2) example_lines example_lines_ok
    by (simp add: example_ctx_def allowed_def)
qed

theorem xs_server_handlerequest_refuses_witness:
  "\<exists>conn'. xs_server_handlerequest (\<lambda>_. True) Map.empty 9 (\<lambda>_. None) (bytes ''now'') (\<lambda>_. []) example_crypt (replicate 256 7) filecache_start
      example_ctx (example_conn (bytes ''ann'') (bytes ''x'')) = Some (filecache_start, conn', exs_Conn_Close)"
proof -
  let ?c = "example_conn (bytes ''ann'') (bytes ''x'')"
  have "length (error_head (xs_conn_getreq ?c) (bytes ''now'') 401 (bytes ''Not Authorized'' @ crlf @ bytes ''WWW-Authenticate: Basic'')) \<le> conn_room ?c"
    using int_text_bound [of 10 401 3] unfolding example_conn_facts(1,6)
    by (simp add: error_head_def crlf_def server_example_req_def empty_req_def req_str_def)
  from xs_server_handlerequest_refuses [OF example_refused _ example_conn_facts(7) _ example_conn_facts(3,4) this] show ?thesis
    using example_conn_facts(8) by (force simp: example_ctx_def)
qed


lemma example_plain:
  fixes verb uri :: "byte list"
  assumes "is_cstr verb" "is_cstr uri"
  defines "c \<equiv> file_example (server_example_req verb uri (bytes ''Host'') (bytes ''h''))"
  shows "xs_conn_getreq c = Some (server_example_req verb uri (bytes ''Host'') (bytes ''h''))"
    "conn_ready c" "no_send_error c" "conn_out c = []" "conn_room c = 1000000"
    "xs_http_getint (xs_conn_getreq c) exs_Req_Upgrade = 0" "xs_http_get (xs_conn_getreq c) exs_Req_Method = Some verb"
    "xs_http_get (xs_conn_getreq c) exs_Req_URI = Some uri" "xs_http_getheader (xs_conn_getreq c) (bytes ''If-None-Match'') = None"
    "xs_http_getheader (xs_conn_getreq c) (bytes ''Range'') = None" "xs_http_getint (xs_conn_getreq c) exs_Req_KeepAlive = 0"
proof -
  note t = server_example_texts [OF assms(1,2), of "bytes ''Host''" "bytes ''h''", simplified]
  note f = file_example_facts [of "server_example_req verb uri (bytes ''Host'') (bytes ''h'')"]
  show g: "xs_conn_getreq c = Some (server_example_req verb uri (bytes ''Host'') (bytes ''h''))"
    and "conn_ready c" "no_send_error c" "conn_out c = []" "conn_room c = 1000000"
    using f t(6) by (simp_all add: c_def)
  show "xs_http_getint (xs_conn_getreq c) exs_Req_Upgrade = 0" "xs_http_get (xs_conn_getreq c) exs_Req_Method = Some verb"
    "xs_http_get (xs_conn_getreq c) exs_Req_URI = Some uri" "xs_http_getheader (xs_conn_getreq c) (bytes ''If-None-Match'') = None"
    "xs_http_getheader (xs_conn_getreq c) (bytes ''Range'') = None" "xs_http_getint (xs_conn_getreq c) exs_Req_KeepAlive = 0"
    unfolding g using t by (simp_all add: xs_strcmp_case_iff lower_eval)
qed

definition open_ctx :: xs_server_ctx where
  "open_ctx = \<lparr>server_name = [], document_root = bytes ''a'', auth_file = None\<rparr>"

theorem xs_server_handlerequest_overflows_witness:
  "xs_server_handlerequest (\<lambda>_. True) Map.empty 9 (\<lambda>_. None) (bytes ''now'') (\<lambda>_. []) example_crypt [] filecache_start open_ctx
    (file_example (server_example_req (bytes ''GET'') (replicate 4095 47) (bytes ''Host'') (bytes ''h''))) = None"
proof -
  have cs: "is_cstr (bytes ''GET'')" "is_cstr (replicate 4095 47)" by simp_all
  show ?thesis
    by (rule xs_server_handlerequest_overflows [OF _ example_plain(6-8) [OF cs]]) (simp_all add: open_ctx_def allowed_def)
qed

theorem xs_server_handlerequest_head_witness:
  "\<exists>st' conn'. xs_server_handlerequest (\<lambda>_. True) (file_example_node 9) 9 (\<lambda>_. None) (bytes ''now'') (\<lambda>_. []) example_crypt []
      (xs_fileinfo_init filecache_start) open_ctx (file_example (server_example_req (bytes ''HEAD'') (bytes ''.css'') (bytes ''Host'') (bytes ''h''))) =
    Some (st', conn', exs_Conn_Close)"
proof -
  let ?req = "server_example_req (bytes ''HEAD'') (bytes ''.css'') (bytes ''Host'') (bytes ''h'')" and ?data = "[1 :: byte, 2, 3, 4]"
  have cs: "is_cstr (bytes ''HEAD'')" "is_cstr (bytes ''.css'')" by simp_all
  note ex = example_plain [OF cs]
  have r: "document_root open_ctx = bytes ''a''" by (simp add: open_ctx_def)
  have p: "bytes ''a'' @ bytes ''.css'' = bytes ''a.css''" and len: "length ?data = 4" by simp_all
  have "length (response_head (Some ?req) (bytes ''a.css'') (bytes ''now'') 7 4 200 (bytes ''OK'') 0 []) \<le> 900000"
    using file_example_head [of 0 200 ?req "bytes ''OK''" "[]"] int_text_bound [of 10 0 1] int_text_bound [of 10 200 3]
    by (simp add: server_example_req_def empty_req_def)
  then have room: "length (response_head (xs_conn_getreq (file_example ?req)) (document_root open_ctx @ bytes ''.css'') (bytes ''now'') 7 (length ?data) 200
      (bytes ''OK'') 0 []) \<le> conn_room (file_example ?req)" unfolding ex(1,5) r p len by simp
  have sv: "serves file_example_node (document_root open_ctx @ bytes ''.css'') 9 ?data 7" unfolding r p by (rule file_example_serves)
  have al: "allowed example_crypt [] open_ctx (file_example ?req)" by (simp add: open_ctx_def allowed_def)
  have "is_cstr (document_root open_ctx)" "length (document_root open_ctx) + length (bytes ''.css'') < PATH_MAX" by (simp_all add: r)
  from xs_server_handlerequest_head [where entries = "\<lambda>_. None" and timestr = "\<lambda>_. []",
      OF al ex(6,7,8) this(1) cs(2) this(2) sv file_example_gets ex(2,3,9,10) room] show ?thesis
    unfolding ex(11) by (simp; blast)
qed

end
