(* ===== verification/Async.thy ===== *)
theory Async
  imports ConnWrite Pollfd Queue
begin

text \<open>
  The callback dispatcher of \<open>xs/xs_connection.h\<close>: \<open>xs_async_handler\<close>, which stands between a polling thread and the
  callbacks of the connections.

  Connections live in a heap, since the poll set, the queue and callbacks hold their addresses; 0 is \<open>NULL\<close>, and an access to
  a freed one is \<open>None\<close>, as an \<open>assert\<close> that fails is. What a callback does is a function of the heap and of a state of its own.
  The result of \<open>xs_conn_accept\<close> (memory, TLS) is an environment, as is the \<open>errno\<close> of a failed socket. The dispatcher changes the
  poll set through the commands it returns, so that it is a handler of \<open>Pollfd\<close>.
\<close>

abbreviation exs_Conn_New :: int where "exs_Conn_New \<equiv> 1000"
abbreviation exs_Conn_Read :: int where "exs_Conn_Read \<equiv> 1001"
abbreviation exs_Conn_Write :: int where "exs_Conn_Write \<equiv> 1002"
abbreviation exs_Conn_Idle :: int where "exs_Conn_Idle \<equiv> 1004"

subsection \<open>Connections\<close>

record async_conn =
  ac_conn :: xs_conn
  ac_token :: int
  ac_cb :: nat
  ac_port :: int
  ac_sa :: nat
  ac_xp :: bool

record xs_async_workdata =
  wd_message :: int
  wd_conn :: nat
  wd_proc :: nat

record 'u xas =
  as_heap :: "nat \<Rightarrow> async_conn option"
  as_next :: nat
  as_stop :: int
  as_cb :: nat
  as_q :: "xs_async_workdata xs_queue"
  as_user :: 'u

type_synonym 'u async_cb = "nat \<Rightarrow> 'u xas \<Rightarrow> int \<Rightarrow> nat \<Rightarrow> 'u xas \<times> int"

definition upd_conn :: "nat \<Rightarrow> (xs_conn \<Rightarrow> xs_conn) \<Rightarrow> 'u xas \<Rightarrow> 'u xas option" where
  "upd_conn a f st = do {
     c \<leftarrow> as_heap st a;
     Some (st\<lparr>as_heap := (as_heap st)(a \<mapsto> c\<lparr>ac_conn := f (ac_conn c)\<rparr>)\<rparr>) }"

definition async_notify :: "'u async_cb \<Rightarrow> nat \<Rightarrow> 'u xas \<Rightarrow> int \<Rightarrow> nat \<Rightarrow> 'u xas \<times> int" where
  \<comment> \<open>the callback, if there is one and the server is not stopping\<close>
  "async_notify cb f st msg a = (if f \<noteq> 0 \<and> as_stop st = 0 then cb f st msg a else (st, 0))"

definition xs_conn_accept :: "(int \<Rightarrow> int) \<Rightarrow> 'u xas \<Rightarrow> int \<Rightarrow> nat option \<Rightarrow> 'u xas \<times> nat \<times> int" where
  \<comment> \<open>the new connection, or \<open>NULL\<close> and an error\<close>
  "xs_conn_accept acc st sockfd addr =
     (if acc sockfd \<noteq> 0 then (st, 0, acc sockfd)
      else (st\<lparr>as_heap := (as_heap st)(as_next st \<mapsto>
             \<lparr>ac_conn = xs_conn_create\<lparr>c_sock := sockfd\<rparr>, ac_token = - 1, ac_cb = 0, ac_port = 0,
              ac_sa = (case addr of Some x \<Rightarrow> x | None \<Rightarrow> 0), ac_xp = False\<rparr>), as_next := as_next st + 1\<rparr>, as_next st, 0))"

definition async_dec :: "(nat \<Rightarrow> bool) \<Rightarrow> nat \<Rightarrow> 'u xas \<Rightarrow> 'u xas option" where
  \<comment> \<open>\<open>xs_conn_dec\<close>: the last reference frees the object\<close>
  "async_dec room a st = do {
     c \<leftarrow> as_heap st a;
     r \<leftarrow> xs_conn_dec room (ac_conn c);
     Some (st\<lparr>as_heap := (as_heap st)(a := map_option (\<lambda>x. c\<lparr>ac_conn := x\<rparr>) r)\<rparr>) }"

subsection \<open>The dispatcher\<close>

type_synonym 'u dispatch = "'u xas \<times> nat \<times> poll_cmd list \<times> int"

definition async_new :: "(int \<Rightarrow> int) \<Rightarrow> 'u async_cb \<Rightarrow> nat \<Rightarrow> 'u xas \<Rightarrow> xs_pollfd \<Rightarrow> int \<Rightarrow> int \<Rightarrow> nat \<Rightarrow> 'u dispatch option" where
  \<comment> \<open>a new socket: \<open>conn\<close> is the listening connection it came from, or its own\<close>
  "async_new acc cb f st xp sockfd tok conn = do {
     l \<leftarrow> as_heap st conn;
     (st1, a, err) \<leftarrow> (if c_sock (ac_conn l) = sockfd then Some (st, conn, 0)
       else do {
         addr \<leftarrow> xs_pollfd_getsocket_addr xp tok;
         let (s, a, err) = xs_conn_accept acc st sockfd addr;
         if err \<noteq> 0 then Some (s, a, err)
         else do {
           c \<leftarrow> as_heap s a;
           Some (s\<lparr>as_heap := (as_heap s)(a \<mapsto> c\<lparr>ac_port := ac_port l, ac_cb := f\<rparr>)\<rparr>, a, 0) } });
     if err \<noteq> 0 then Some (st1, a, [], err)
     else do {
       c \<leftarrow> as_heap st1 a;
       let st2 = st1\<lparr>as_heap := (as_heap st1)(a \<mapsto> c\<lparr>ac_conn := xs_conn_inc (ac_conn c), ac_token := tok, ac_xp := True\<rparr>)\<rparr>;
       let (st3, e) = async_notify cb f st2 exs_Conn_New a;
       Some (st3, a, [Set_userdata tok a], e) } }"

definition async_write :: "(nat \<Rightarrow> bool) \<Rightarrow> 'u async_cb \<Rightarrow> nat \<Rightarrow> 'u xas \<Rightarrow> int \<Rightarrow> nat \<Rightarrow> 'u dispatch option" where
  \<comment> \<open>room in the socket: first what waits in the cache\<close>
  "async_write room cb f st tok conn = do {
     (st1, r) \<leftarrow> (if conn = 0 then Some (st, 0)
       else do {
         c \<leftarrow> as_heap st conn;
         (x, r) \<leftarrow> xs_conn_cachepurge room (ac_conn c);
         Some (st\<lparr>as_heap := (as_heap st)(conn \<mapsto> c\<lparr>ac_conn := x\<rparr>)\<rparr>, r) });
     if r = 0 then
       let (st2, err) = async_notify cb f st1 exs_Conn_Write conn in
       Some (st2, conn, if err \<noteq> exs_Conn_Write then [Set_events tok POLLIN] else [], err)
     else Some (st1, conn, [], 0) }"

definition async_gone :: "int \<Rightarrow> 'u async_cb \<Rightarrow> nat \<Rightarrow> 'u xas \<Rightarrow> poll_msg \<Rightarrow> nat \<Rightarrow> 'u dispatch option" where
  \<comment> \<open>the socket failed or was closed\<close>
  "async_gone errno cb f st message conn = do {
     st1 \<leftarrow> (if conn = 0 then Some st
       else do {
         c \<leftarrow> as_heap st conn;
         if c_errnum (ac_conn c) = 0 then upd_conn conn (\<lambda>x. xs_conn_seterr x errno) st else Some st });
     let (st2, e) = (if f \<noteq> 0 then cb f st1 (if message = exs_pollfd_Error then exs_Conn_Error else exs_Conn_Close) conn else (st1, 0));
     Some (st2, conn, [], exs_Conn_Close) }"

definition async_close :: "(nat \<Rightarrow> bool) \<Rightarrow> 'u async_cb \<Rightarrow> nat \<Rightarrow> 'u xas \<Rightarrow> poll_msg \<Rightarrow> nat \<Rightarrow> 'u xas option" where
  \<comment> \<open>error and close messages, unless the handler has just sent one, and the reference of the poll set\<close>
  "async_close room cb f st message conn = do {
     c \<leftarrow> as_heap st conn;
     st1 \<leftarrow> (if c_errnum (ac_conn c) = 0 then upd_conn conn (\<lambda>x. x\<lparr>c_errnum := exs_Conn_Close\<rparr>) st else Some st);
     st2 \<leftarrow> (if message \<noteq> exs_pollfd_Error \<and> message \<noteq> exs_pollfd_Delete then
               if f = 0 then None
               else Some (fst (cb f (fst (cb f st1 exs_Conn_Error conn)) exs_Conn_Close conn))
             else Some st1);
     async_dec room conn st2 }"

definition async_finish :: "(nat \<Rightarrow> bool) \<Rightarrow> 'u async_cb \<Rightarrow> nat \<Rightarrow> xs_pollfd \<Rightarrow> poll_msg \<Rightarrow> int \<Rightarrow> 'u dispatch \<Rightarrow> ('u xas \<times> poll_cmd list) option" where
  \<comment> \<open>what the callback asked for\<close>
  "async_finish room cb f xp message tok d = (case d of (st, conn, cmds, err) \<Rightarrow> do {
     err1 \<leftarrow> (if err \<noteq> exs_Conn_Close \<and> conn \<noteq> 0 then do {
                c \<leftarrow> as_heap st conn;
                Some (if (err = 0 \<or> c_errnum (ac_conn c) = exs_Error_WriteBusy) \<and> xs_conn_writeblocked (ac_conn c) then exs_Conn_Write else err) }
              else Some err);
     if err1 = exs_Conn_Write then do {
       st1 \<leftarrow> upd_conn conn (\<lambda>x. x\<lparr>c_wblocked := True\<rparr>) st;
       Some (st1, cmds @ [Set_events tok (POLLIN OR POLLOUT)]) }
     else if err1 = exs_Conn_Close then do {
       x1 \<leftarrow> poll_dos cmds xp;
       ud \<leftarrow> xs_pollfd_getsocket_userdata x1 tok;
       if ud = 0 then Some (st, cmds)
       else do {
         st1 \<leftarrow> (if conn = 0 then Some st else async_close room cb f st message conn);
         Some (st1, cmds @ [Clear tok]) } }
     else Some (st, cmds) })"

definition xs_async_handler ::
  "(nat \<Rightarrow> bool) \<Rightarrow> (int \<Rightarrow> int) \<Rightarrow> int \<Rightarrow> 'u async_cb \<Rightarrow> 'u xas \<Rightarrow> xs_pollfd \<Rightarrow> poll_msg \<Rightarrow> int \<Rightarrow> int \<Rightarrow> nat \<Rightarrow> ('u xas \<times> poll_cmd list) option" where
  "xs_async_handler room acc errno cb st xp message sockfd tok userdata = do {
     (f, own) \<leftarrow> (if userdata = 0 then Some (0, tok) else do { c \<leftarrow> as_heap st userdata; Some (ac_cb c, ac_token c) });
     if own \<noteq> tok \<and> message \<noteq> exs_pollfd_New then None
     else do {
       d \<leftarrow> (case message of
            exs_pollfd_New \<Rightarrow> async_new acc cb f st xp sockfd tok userdata
          | exs_pollfd_Idle \<Rightarrow> (let (st1, e) = async_notify cb f st exs_Conn_Idle userdata in Some (st1, userdata, [], e))
          | exs_pollfd_Read \<Rightarrow> (let (st1, e) = async_notify cb f st exs_Conn_Read userdata in Some (st1, userdata, [], e))
          | exs_pollfd_Write \<Rightarrow> async_write room cb f st tok userdata
          | exs_pollfd_Error \<Rightarrow> async_gone errno cb f st message userdata
          | exs_pollfd_Delete \<Rightarrow> async_gone errno cb f st message userdata);
       async_finish room cb f xp message tok d } }"

definition async_proc :: "(nat \<Rightarrow> bool) \<Rightarrow> (int \<Rightarrow> int) \<Rightarrow> int \<Rightarrow> 'u async_cb \<Rightarrow> ('u xas option) handler" where
  \<comment> \<open>as the handler of a polling thread; once \<open>None\<close>, always \<open>None\<close>\<close>
  "async_proc room acc errno cb st xp message sockfd tok userdata =
     (case Option.bind st (\<lambda>s. xs_async_handler room acc errno cb s xp message sockfd tok userdata) of
        None \<Rightarrow> (None, [])
      | Some (s, cmds) \<Rightarrow> (Some s, cmds))"

subsection \<open>Lemmas: one message\<close>

lemma handler_own:
  assumes "as_heap st conn = Some c" "conn \<noteq> 0" "ac_token c = tok" "message \<noteq> exs_pollfd_New"
  shows "xs_async_handler room acc errno cb st xp message sockfd tok conn = (case message of
      exs_pollfd_Idle \<Rightarrow> (let (st1, e) = async_notify cb (ac_cb c) st exs_Conn_Idle conn in async_finish room cb (ac_cb c) xp message tok (st1, conn, [], e))
    | exs_pollfd_Read \<Rightarrow> (let (st1, e) = async_notify cb (ac_cb c) st exs_Conn_Read conn in async_finish room cb (ac_cb c) xp message tok (st1, conn, [], e))
    | exs_pollfd_Write \<Rightarrow> Option.bind (async_write room cb (ac_cb c) st tok conn) (async_finish room cb (ac_cb c) xp message tok)
    | _ \<Rightarrow> Option.bind (async_gone errno cb (ac_cb c) st message conn) (async_finish room cb (ac_cb c) xp message tok))"
  using assms by (cases message) (auto simp: xs_async_handler_def Let_def split: prod.splits)

lemma conn_dec_frees:
  assumes "cache_ok c" "c_refcount c \<le> 1"
  shows "xs_conn_dec room c = Some None"
proof -
  let ?c = "c\<lparr>c_refcount := c_refcount c - 1\<rparr>"
  have ok: "cache_ok ?c" using assms(1) by (simp add: cache_ok_def)
  obtain c1 where "xs_conn_close room ?c = Some c1" "c_refcount c1 = c_refcount c - 1"
  proof (cases "aCount (c_wcache ?c) = 0")
    case True
    then show thesis using that by (simp add: xs_conn_close_def)
  next
    case False
    obtain c1 r where p: "xs_conn_cachepurge room ?c = Some (c1, r)" using cachepurge_flow [OF ok, of room] by blast
    have "reader_of c1 = reader_of ?c" using cachepurge_frame [OF p] by (simp add: write_frame_def)
    then show thesis using that p False by (simp add: xs_conn_close_def reader_of_def)
  qed
  then show ?thesis using assms(2) by (simp add: xs_conn_dec_def xs_conn_destroy_def Let_def)
qed

definition closing :: "nat \<Rightarrow> 'u xas \<Rightarrow> 'u xas" where
  \<comment> \<open>with an error number, for the messages that follow\<close>
  "closing conn st = (case as_heap st conn of None \<Rightarrow> st
     | Some c \<Rightarrow> if c_errnum (ac_conn c) = 0 then st\<lparr>as_heap := (as_heap st)(conn \<mapsto> c\<lparr>ac_conn := (ac_conn c)\<lparr>c_errnum := exs_Conn_Close\<rparr>\<rparr>)\<rparr> else st)"

definition said_goodbye :: "'u async_cb \<Rightarrow> nat \<Rightarrow> nat \<Rightarrow> 'u xas \<Rightarrow> 'u xas" where
  \<comment> \<open>the error message and the close message\<close>
  "said_goodbye cb f conn st = fst (cb f (fst (cb f (closing conn st) exs_Conn_Error conn)) exs_Conn_Close conn)"

lemma handler_closes:
  assumes own: "as_heap st conn = Some c" "conn \<noteq> 0" "ac_token c = tok" and f: "ac_cb c \<noteq> 0" "as_stop st = 0"
    and r: "cb (ac_cb c) st exs_Conn_Read conn = (st1, exs_Conn_Close)" "as_heap st1 conn = Some c1"
    and e: "as_heap (said_goodbye cb (ac_cb c) conn st1) conn = Some c2" "cache_ok (ac_conn c2)" "c_refcount (ac_conn c2) \<le> 1"
    and u: "xs_pollfd_getsocket_userdata xp tok = Some conn"
  defines "st2 \<equiv> said_goodbye cb (ac_cb c) conn st1"
  shows "xs_async_handler room acc errno cb st xp exs_pollfd_Read sockfd tok conn = Some (st2\<lparr>as_heap := (as_heap st2)(conn := None)\<rparr>, [Clear tok])"
proof -
  have "async_close room cb (ac_cb c) st1 exs_pollfd_Read conn = Some (st2\<lparr>as_heap := (as_heap st2)(conn := None)\<rparr>)"
    using e conn_dec_frees [OF e(2,3), of room] f(1) r(2)
    by (auto simp: async_close_def async_dec_def st2_def said_goodbye_def closing_def upd_conn_def)
  then have "async_finish room cb (ac_cb c) xp exs_pollfd_Read tok (st1, conn, [], exs_Conn_Close) =
      Some (st2\<lparr>as_heap := (as_heap st2)(conn := None)\<rparr>, [Clear tok])"
    using u own(2) by (simp add: async_finish_def)
  then show ?thesis using handler_own [OF own, of exs_pollfd_Read room acc errno cb xp sockfd] r(1) f by (simp add: async_notify_def)
qed

lemma handler_accepts:
  assumes l: "as_heap st l = Some lc" "l \<noteq> 0" "c_sock (ac_conn lc) \<noteq> sockfd" "acc sockfd = 0" "xs_pollfd_getsocket_addr xp tok = Some addr"
  defines "st2 \<equiv> st\<lparr>as_next := as_next st + 1, as_heap := (as_heap st)(as_next st \<mapsto> \<lparr>ac_conn = xs_conn_create\<lparr>c_sock := sockfd, c_refcount := 1\<rparr>, ac_token = tok,
      ac_cb = ac_cb lc, ac_port = ac_port lc, ac_sa = (case addr of Some x \<Rightarrow> x | None \<Rightarrow> 0), ac_xp = True\<rparr>)\<rparr>"
  assumes n: "async_notify cb (ac_cb lc) st2 exs_Conn_New (as_next st) = (st3, 0)" "as_heap st3 (as_next st) = Some c3"
    "\<not> xs_conn_writeblocked (ac_conn c3)"
  shows "xs_async_handler room acc errno cb st xp exs_pollfd_New sockfd tok l = Some (st3, [Set_userdata tok (as_next st)])"
proof -
  have "async_new acc cb (ac_cb lc) st xp sockfd tok l = Some (st3, as_next st, [Set_userdata tok (as_next st)], 0)"
    using l n(1) by (simp add: async_new_def xs_conn_accept_def Let_def xs_conn_inc_def st2_def xs_conn_create_def)
  then show ?thesis using l(1,2) n(2,3) by (simp add: xs_async_handler_def async_finish_def)
qed

lemma handler_null:
  assumes "xs_pollfd_getsocket_userdata xp tok = Some 0" "message \<noteq> exs_pollfd_New"
  shows "xs_async_handler room acc errno cb st xp message sockfd tok 0 = Some (st, if message = exs_pollfd_Write then [Set_events tok POLLIN] else [])"
  using assms by (cases message) (simp_all add: xs_async_handler_def async_notify_def async_write_def async_gone_def async_finish_def Let_def)

lemma handler_accept_fails:
  assumes "as_heap st l = Some lc" "l \<noteq> 0" "c_sock (ac_conn lc) \<noteq> sockfd" "acc sockfd \<noteq> 0" "acc sockfd \<noteq> exs_Conn_Write" "acc sockfd \<noteq> exs_Conn_Close"
    "xs_pollfd_getsocket_addr xp tok = Some addr"
  shows "xs_async_handler room acc errno cb st xp exs_pollfd_New sockfd tok l = Some (st, [])"
  using assms by (simp add: xs_async_handler_def async_new_def xs_conn_accept_def async_finish_def Let_def)

lemma handler_write:
  assumes own: "as_heap st conn = Some c" "conn \<noteq> 0" "ac_token c = tok" and ok: "cache_ok (ac_conn c)"
    and quiet: "\<And>x. async_notify cb (ac_cb c) (st\<lparr>as_heap := (as_heap st)(conn \<mapsto> c\<lparr>ac_conn := x\<rparr>)\<rparr>) exs_Conn_Write conn =
      (st\<lparr>as_heap := (as_heap st)(conn \<mapsto> c\<lparr>ac_conn := x\<rparr>)\<rparr>, 0)"
  shows "\<exists>st' c'. xs_async_handler room acc errno cb st xp exs_pollfd_Write sockfd tok conn =
      Some (st', [Set_events tok (if cached (ac_conn c') = [] then POLLIN else POLLIN OR POLLOUT)]) \<and> as_heap st' conn = Some c' \<and>
    e_wire (ac_conn c') @ cached (ac_conn c') = e_wire (ac_conn c) @ cached (ac_conn c)"
proof -
  obtain x r where p: "xs_conn_cachepurge room (ac_conn c) = Some (x, r)" "e_wire x @ cached x = e_wire (ac_conn c) @ cached (ac_conn c)"
    "cache_ok x" "r = 0 \<longrightarrow> cached x = []" "r = 0 \<or> cached x \<noteq> []"
    using cachepurge_flow [OF ok, of room] by blast
  have b: "xs_conn_writeblocked x \<longleftrightarrow> cached x \<noteq> []"
    using p(3) by (auto simp: xs_conn_writeblocked_def cache_ok_def cached_def arr_contents_def arr_wf_def split: option.splits)
  let ?st1 = "st\<lparr>as_heap := (as_heap st)(conn \<mapsto> c\<lparr>ac_conn := x\<rparr>)\<rparr>"
  show ?thesis
  proof (cases "r = 0")
    case True
    then have "async_write room cb (ac_cb c) st tok conn = Some (?st1, conn, [Set_events tok POLLIN], 0)"
      using own p(1) quiet [of x] by (simp add: async_write_def)
    then show ?thesis using True handler_own [OF own, of exs_pollfd_Write room acc errno cb xp sockfd] own(2) b p(2,4)
      by (simp add: async_finish_def)
  next
    case False
    then have w: "async_write room cb (ac_cb c) st tok conn = Some (?st1, conn, [], 0)" using own p(1) by (simp add: async_write_def)
    let ?y = "x\<lparr>c_wblocked := True\<rparr>"
    have "cached ?y = cached x" by (simp add: cached_def)
    then show ?thesis using False handler_own [OF own, of exs_pollfd_Write room acc errno cb xp sockfd] own(2) b p(2,5) w
      by (simp add: async_finish_def upd_conn_def)
  qed
qed

subsection \<open>Lemmas: the dispatcher in the polling loop\<close>

lemma own_token:
  assumes "pass_ok xp i ip fl" "i < pfdCount xp"
  shows "xptok_ind (xs_pollfd_setrunning xp r) (int (sid (pss xp ! i))) = Some (int i)"
  using pass_entry [OF assms] assms(2) by (simp add: xptok_ind_def sizes_ok_def mem_simps)

lemma own_userdata:
  assumes "pass_ok xp i ip fl" "i < pfdCount xp"
  shows "xs_pollfd_getsocket_userdata (xs_pollfd_setrunning xp r) (int (sid (pss xp ! i))) = Some (cfd (pss xp ! i))"
  using own_token [OF assms] pass_entry(3,4) [OF assms] by (simp add: xs_pollfd_getsocket_userdata_def sizes_ok_def mem_simps)

lemma own_clear:
  assumes "pass_ok xp i ip fl" "i < pfdCount xp"
  shows "\<exists>xp'. poll_dos [Clear (int (sid (pss xp ! i)))] (xs_pollfd_setrunning xp r) = Some xp' \<and> fd (pfd xp' ! i) = 0"
  using own_token [OF assms] pass_entry(3,4) [OF assms]
  by (simp add: xs_pollfd_clear_def upd_pfd_def upd_pss_def sizes_ok_def mem_simps)

lemma read_served:
  assumes ok: "pass_ok (ps_xp ps) i ip fl" "i < pfdCount (ps_xp ps)" "listenCount (ps_xp ps) \<le> i"
    and ev: "0 < fd (pfd (ps_xp ps) ! i)" "revents (pfd (ps_xp ps) ! i) = POLLIN" and st: "ps_user ps = Some st"
    and h: "xs_async_handler room acc errno cb st (xs_pollfd_setrunning (ps_xp ps) 3) exs_pollfd_Read (fd (pfd (ps_xp ps) ! i))
      (int (sid (pss (ps_xp ps) ! i))) (cfd (pss (ps_xp ps) ! i)) = Some (st', cmds)"
  shows "\<exists>x4. poll_dos cmds (xs_pollfd_setrunning (ps_xp ps) 3) = Some x4 \<and>
    poll_serve (async_proc room acc errno cb) ps i = Some (ps\<lparr>ps_user := Some st', ps_xp := xs_pollfd_setrunning x4 1\<rparr>)"
proof -
  let ?xp = "ps_xp ps" and ?proc = "async_proc room acc errno cb"
  note e = pass_entry [OF ok(1,2)]
  have "sizes_ok (xs_pollfd_setrunning ?xp 3)" using e(4) by (simp add: sizes_ok_def)
  then obtain x4 where x4: "poll_dos cmds (xs_pollfd_setrunning ?xp 3) = Some x4" using poll_dos_some by blast
  have r: "rd (pfd ?xp) i = Some (pfd ?xp ! i)" "rd (pss ?xp) i = Some (pss ?xp ! i)" "rd (sidmap ?xp) (sid (pss ?xp ! i)) = Some (int i)"
    using e by (simp_all add: sizes_ok_def mem_simps)
  have "poll_call ?proc (Some st) ?xp exs_pollfd_Read (fd (pfd ?xp ! i)) (int (sid (pss ?xp ! i))) (cfd (pss ?xp ! i)) = Some (Some st', x4)"
    using h x4 by (simp add: poll_call_def async_proc_def)
  then have ev1: "poll_event ?proc (Some st) ?xp True exs_pollfd_Read i (fd (pfd ?xp ! i)) = Some (Some st', xs_pollfd_setrunning x4 1)"
    using r by (simp add: poll_event_def)
  have "poll_serve ?proc ps i = Some (ps\<lparr>ps_user := Some st', ps_xp := xs_pollfd_setrunning x4 1\<rparr>)"
    using r ev ev1 st ok(3) by (simp add: poll_serve_def Let_def poll_event_def [where flag = False])
  then show ?thesis using x4 by blast
qed

lemma closed_leaves:
  assumes ok: "pass_ok (ps_xp ps) i ip fl" "i < pfdCount (ps_xp ps)" "listenCount (ps_xp ps) \<le> i"
    and ev: "0 < fd (pfd (ps_xp ps) ! i)" "revents (pfd (ps_xp ps) ! i) = POLLIN" and st: "ps_user ps = Some st"
    and h: "xs_async_handler room acc errno cb st (xs_pollfd_setrunning (ps_xp ps) 3) exs_pollfd_Read (fd (pfd (ps_xp ps) ! i))
      (int (sid (pss (ps_xp ps) ! i))) (cfd (pss (ps_xp ps) ! i)) = Some (st', [Clear (int (sid (pss (ps_xp ps) ! i)))])"
  shows "\<exists>ps1 xp2. poll_serve (async_proc room acc errno cb) ps i = Some ps1 \<and> ps_user ps1 = Some st' \<and> poll_keep (ps_xp ps1) i ip = Some (xp2, ip)"
proof -
  obtain x4 where x4: "poll_dos [Clear (int (sid (pss (ps_xp ps) ! i)))] (xs_pollfd_setrunning (ps_xp ps) 3) = Some x4"
    and serve: "poll_serve (async_proc room acc errno cb) ps i = Some (ps\<lparr>ps_user := Some st', ps_xp := xs_pollfd_setrunning x4 1\<rparr>)"
    using read_served [OF ok ev st h] by blast
  have cleared: "fd (pfd x4 ! i) = 0" using own_clear [OF ok(1,2), of 3] x4 by auto
  have k: "tokens_kept (ps_xp ps) (xs_pollfd_setrunning x4 1)" using poll_dos_kept [OF x4] by simp
  have "pass_ok (xs_pollfd_setrunning x4 1) i ip fl" "i < pfdCount (xs_pollfd_setrunning x4 1)"
    using pass_kept [OF kept_listeners [OF k]] ok(1,2) k by (simp, simp add: tokens_kept_def)
  from poll_keep_ok [OF this] obtain xp2 where "poll_keep (xs_pollfd_setrunning x4 1) i ip = Some (xp2, ip)" using cleared by (auto split: if_split_asm)
  then show ?thesis using serve by auto
qed

lemma handler_reads:
  assumes own: "as_heap st conn = Some c" "conn \<noteq> 0" "ac_token c = tok" and f: "ac_cb c \<noteq> 0" "as_stop st = 0"
    and r: "cb (ac_cb c) st exs_Conn_Read conn = (st1, 0)" "as_heap st1 conn = Some c1"
  shows "\<exists>cmds st2 c2. xs_async_handler room acc errno cb st xp exs_pollfd_Read sockfd tok conn = Some (st2, cmds) \<and> as_heap st2 conn = Some c2 \<and>
    (c2 = c1 \<or> c2 = c1\<lparr>ac_conn := (ac_conn c1)\<lparr>c_wblocked := True\<rparr>\<rparr>)"
  using handler_own [OF own, of exs_pollfd_Read room acc errno cb xp sockfd] r f own(2)
  by (simp add: async_notify_def async_finish_def upd_conn_def)

subsection \<open>What the dispatcher does\<close>

text \<open>C95: a connection that its callback closes is gone within the pass. When the socket of an entry is readable and the callback
  answers with \<open>exs_Conn_Close\<close>, it gets the error and the close message, the last reference frees the connection, and the polling
  loop takes the entry out of the table.\<close>

theorem xs_async_handler_leaves:
  fixes ps :: "'u xas option poll_state"
  defines "p \<equiv> pfd (ps_xp ps)" and "s \<equiv> pss (ps_xp ps)"
  assumes "pass_ok (ps_xp ps) i ip fl" "i < pfdCount (ps_xp ps)" "listenCount (ps_xp ps) \<le> i" "0 < fd (p ! i)" "revents (p ! i) = POLLIN"
    and "ps_user ps = Some st" "as_heap st (cfd (s ! i)) = Some c" "cfd (s ! i) \<noteq> 0" "ac_token c = int (sid (s ! i))" "ac_cb c \<noteq> 0" "as_stop st = 0"
    and "cb (ac_cb c) st exs_Conn_Read (cfd (s ! i)) = (st1, exs_Conn_Close)" "as_heap st1 (cfd (s ! i)) = Some c1"
  defines "st2 \<equiv> said_goodbye cb (ac_cb c) (cfd (s ! i)) st1"
  assumes "as_heap st2 (cfd (s ! i)) = Some c2" "cache_ok (ac_conn c2)" "c_refcount (ac_conn c2) \<le> 1"
  shows "\<exists>ps1 xp2. poll_serve (async_proc room acc errno cb) ps i = Some ps1 \<and>
    ps_user ps1 = Some (st2\<lparr>as_heap := (as_heap st2)(cfd (s ! i) := None)\<rparr>) \<and> poll_keep (ps_xp ps1) i ip = Some (xp2, ip)"
proof -
  note u = own_userdata [OF assms(3,4), of 3]
  have "xs_async_handler room acc errno cb st (xs_pollfd_setrunning (ps_xp ps) 3) exs_pollfd_Read (fd (p ! i)) (int (sid (s ! i))) (cfd (s ! i)) =
      Some (st2\<lparr>as_heap := (as_heap st2)(cfd (s ! i) := None)\<rparr>, [Clear (int (sid (s ! i)))])"
    unfolding st2_def
    by (rule handler_closes [OF assms(9-15) assms(17-19) [unfolded st2_def]]) (simp add: u s_def)
  from closed_leaves [OF assms(3-5) _ _ assms(8) this [unfolded p_def s_def]] assms(6,7) show ?thesis by (simp add: p_def s_def)
qed

text \<open>C96: a new connection. For a socket that came from a listening connection, the dispatcher creates a connection with one
  reference, the callback and the port of the listening one and the address of the peer, tells the callback of it, and makes it
  the user data of the token.\<close>

theorem xs_async_handler_accepts:
  assumes "as_heap st l = Some lc" "l \<noteq> 0" "c_sock (ac_conn lc) \<noteq> sockfd" "acc sockfd = 0" "xs_pollfd_getsocket_addr xp tok = Some addr"
  defines "st2 \<equiv> st\<lparr>as_next := as_next st + 1, as_heap := (as_heap st)(as_next st \<mapsto> \<lparr>ac_conn = xs_conn_create\<lparr>c_sock := sockfd, c_refcount := 1\<rparr>,
      ac_token = tok, ac_cb = ac_cb lc, ac_port = ac_port lc, ac_sa = (case addr of Some x \<Rightarrow> x | None \<Rightarrow> 0), ac_xp = True\<rparr>)\<rparr>"
  assumes "async_notify cb (ac_cb lc) st2 exs_Conn_New (as_next st) = (st3, 0)" "as_heap st3 (as_next st) = Some c3"
    "\<not> xs_conn_writeblocked (ac_conn c3)"
  shows "xs_async_handler room acc errno cb st xp exs_pollfd_New sockfd tok l = Some (st3, [Set_userdata tok (as_next st)])"
  by (rule handler_accepts [where lc = lc and acc = acc and addr = addr]) (use assms in simp_all)

text \<open>C97: interest in writing. When the socket of a connection has room, what waits in its write cache is sent, and the poll set asks
  for room again exactly when something is still waiting.\<close>

theorem xs_async_handler_writes:
  assumes "as_heap st conn = Some c" "conn \<noteq> 0" "ac_token c = tok" "cache_ok (ac_conn c)"
    and "\<And>x. async_notify cb (ac_cb c) (st\<lparr>as_heap := (as_heap st)(conn \<mapsto> c\<lparr>ac_conn := x\<rparr>)\<rparr>) exs_Conn_Write conn =
      (st\<lparr>as_heap := (as_heap st)(conn \<mapsto> c\<lparr>ac_conn := x\<rparr>)\<rparr>, 0)"
  shows "\<exists>st' c'. xs_async_handler room acc errno cb st xp exs_pollfd_Write sockfd tok conn =
      Some (st', [Set_events tok (if cached (ac_conn c') = [] then POLLIN else POLLIN OR POLLOUT)]) \<and> as_heap st' conn = Some c' \<and>
    e_wire (ac_conn c') @ cached (ac_conn c') = e_wire (ac_conn c) @ cached (ac_conn c)"
  by (rule handler_write [OF assms])

text \<open>C98: a socket whose connection could not be created is never dropped. When \<open>xs_conn_accept\<close> fails, the token keeps the user data
  0 that its entry had, and with it no later message, not even an error of the socket, makes the dispatcher clear the entry.\<close>

theorem xs_async_handler_dead_entry:
  assumes "as_heap st l = Some lc" "l \<noteq> 0" "c_sock (ac_conn lc) \<noteq> sockfd" "acc sockfd \<notin> {0, exs_Conn_Write, exs_Conn_Close}"
    "xs_pollfd_getsocket_addr xp tok = Some addr"
    and "xs_pollfd_getsocket_userdata xp' tok = Some 0" "message \<noteq> exs_pollfd_New"
  shows "xs_async_handler room acc errno cb st xp exs_pollfd_New sockfd tok l = Some (st, []) \<and>
    (\<exists>cmds. xs_async_handler room acc errno cb st' xp' message sockfd tok 0 = Some (st', cmds) \<and> Clear tok \<notin> set cmds)"
proof
  show "xs_async_handler room acc errno cb st xp exs_pollfd_New sockfd tok l = Some (st, [])"
    using handler_accept_fails [OF assms(1-3) _ _ _ assms(5)] assms(4) by simp
  show "\<exists>cmds. xs_async_handler room acc errno cb st' xp' message sockfd tok 0 = Some (st', cmds) \<and> Clear tok \<notin> set cmds"
    by (auto simp: handler_null [OF assms(6,7)])
qed

subsection \<open>Examples\<close>

definition logging :: "int list async_cb" where
  \<comment> \<open>a callback that keeps the messages and closes what it is to read\<close>
  "logging f st msg a = (st\<lparr>as_user := as_user st @ [msg]\<rparr>, if msg = exs_Conn_Read then exs_Conn_Close else 0)"

definition plain_conn :: "int \<Rightarrow> int \<Rightarrow> async_conn" where
  "plain_conn s t = \<lparr>ac_conn = xs_conn_create\<lparr>c_sock := s, c_refcount := 1\<rparr>, ac_token = t, ac_cb = 1, ac_port = 80, ac_sa = 0, ac_xp = True\<rparr>"

definition one_conn :: "int list xas" where
  "one_conn = \<lparr>as_heap = [7 \<mapsto> plain_conn 5 0], as_next = 8, as_stop = 0, as_cb = 1, as_q = xs_queue_zero, as_user = []\<rparr>"

definition one_entry :: "nat \<Rightarrow> xs_pollfd" where
  \<comment> \<open>a table with room for two and one socket that is readable\<close>
  "one_entry listening = (xs_pollfd_Init 2)\<lparr>xp_running := 1, listenCount := listening, pfdCount := 1, pfdMax := 1,
     pfd := [\<lparr>fd = 5, events = POLLIN, revents = POLLIN\<rparr>, \<lparr>fd = 0, events = 0, revents = 0\<rparr>],
     pss := [\<lparr>sid = 0, sa = 3, cfd = 7\<rparr>, \<lparr>sid = 0, sa = 4, cfd = 0\<rparr>]\<rparr>"

lemma one_entry_ok: "pass_ok (one_entry l) 0 0 []"
  by (simp add: one_entry_def xs_pollfd_Init_def pass_ok_def sizes_ok_def between_def Let_def lessThan_Suc)

lemma plain_cache: "cache_ok (xs_conn_create\<lparr>c_sock := s, c_refcount := 1\<rparr>)" "cache_ok (xs_conn_create\<lparr>c_sock := s, c_refcount := 1, c_errnum := e\<rparr>)"
  by (simp_all add: xs_conn_create_def cache_ok_def arr_wf_def xs_arr_create_def)

theorem xs_async_handler_leaves_witness:
  "\<exists>ps1 st' xp2. poll_serve (async_proc (\<lambda>_. True) (\<lambda>_. 0) 0 logging) \<lparr>ps_user = Some one_conn, ps_xp = one_entry 0, ps_accept = [], ps_queue = [], ps_closed = []\<rparr> 0 =
      Some ps1 \<and> ps_user ps1 = Some st' \<and> as_user st' = [exs_Conn_Read, exs_Conn_Error, exs_Conn_Close] \<and> as_heap st' 7 = None \<and>
    poll_keep (ps_xp ps1) 0 0 = Some (xp2, 0)"
proof -
  let ?ps = "\<lparr>ps_user = Some one_conn, ps_xp = one_entry 0, ps_accept = [], ps_queue = [], ps_closed = []\<rparr> :: int list xas option poll_state"
  let ?st1 = "one_conn\<lparr>as_user := [exs_Conn_Read]\<rparr>"
  have f: "as_heap one_conn 7 = Some (plain_conn 5 0)" "as_heap ?st1 7 = Some (plain_conn 5 0)" "as_stop one_conn = 0"
    "logging (ac_cb (plain_conn 5 0)) one_conn exs_Conn_Read 7 = (?st1, exs_Conn_Close)"
    by (simp_all add: one_conn_def logging_def)
  let ?c2 = "(plain_conn 5 0)\<lparr>ac_conn := (ac_conn (plain_conn 5 0))\<lparr>c_errnum := exs_Conn_Close\<rparr>\<rparr>"
  have g: "as_heap (said_goodbye logging (ac_cb (plain_conn 5 0)) 7 ?st1) 7 = Some ?c2" "cache_ok (ac_conn ?c2)" "c_refcount (ac_conn ?c2) \<le> 1"
    "as_user (said_goodbye logging (ac_cb (plain_conn 5 0)) 7 ?st1) = [exs_Conn_Read, exs_Conn_Error, exs_Conn_Close]"
    using plain_cache(2) [of exs_Conn_Close 5]
    by (simp_all add: said_goodbye_def logging_def closing_def one_conn_def plain_conn_def xs_conn_create_def)
  have e: "cfd (pss (ps_xp ?ps) ! 0) = 7" "sid (pss (ps_xp ?ps) ! 0) = 0" "0 < fd (pfd (ps_xp ?ps) ! 0)" "revents (pfd (ps_xp ?ps) ! 0) = POLLIN"
    "0 < pfdCount (ps_xp ?ps)" "listenCount (ps_xp ?ps) = 0" by (simp_all add: one_entry_def)
  from xs_async_handler_leaves [where ps = ?ps and i = 0 and ip = 0 and fl = "[]" and cb = logging and st = one_conn and c = "plain_conn 5 0"
      and ?st1.0 = ?st1 and ?c1.0 = "plain_conn 5 0" and ?c2.0 = ?c2 and room = "\<lambda>_. True" and acc = "\<lambda>_. 0" and errno = 0, unfolded e]
  show ?thesis using one_entry_ok f g e by (auto simp: plain_conn_def)
qed

definition silent :: "int list async_cb" where
  "silent f st msg a = (st\<lparr>as_user := as_user st @ [msg]\<rparr>, 0)"

theorem xs_async_handler_accepts_witness:
  "\<exists>st' c. xs_async_handler (\<lambda>_. True) (\<lambda>_. 0) 0 silent one_conn (one_entry 1) exs_pollfd_New 9 0 7 = Some (st', [Set_userdata 0 8]) \<and>
    as_heap st' 8 = Some c \<and> c_sock (ac_conn c) = 9 \<and> ac_port c = 80"
proof -
  have a: "xs_pollfd_getsocket_addr (one_entry 1) 0 = Some (Some 3)"
    by (simp add: xs_pollfd_getsocket_addr_def xptok_ind_def one_entry_def xs_pollfd_Init_def mem_simps)
  have f: "as_heap one_conn 7 = Some (plain_conn 5 0)" "c_sock (ac_conn (plain_conn 5 0)) \<noteq> 9" "as_next one_conn = 8"
    "ac_cb (plain_conn 5 0) = 1" "ac_port (plain_conn 5 0) = 80" by (simp_all add: one_conn_def plain_conn_def xs_conn_create_def)
  let ?n = "\<lparr>ac_conn = xs_conn_create\<lparr>c_sock := 9, c_refcount := 1\<rparr>, ac_token = 0, ac_cb = 1, ac_port = 80, ac_sa = 3, ac_xp = True\<rparr>"
  let ?st3 = "one_conn\<lparr>as_next := 9, as_heap := (as_heap one_conn)(8 \<mapsto> ?n), as_user := [exs_Conn_New]\<rparr>"
  have "xs_async_handler (\<lambda>_. True) (\<lambda>_. 0) 0 silent one_conn (one_entry 1) exs_pollfd_New 9 0 7 = Some (?st3, [Set_userdata 0 (as_next one_conn)])"
    by (rule xs_async_handler_accepts [where lc = "plain_conn 5 0" and addr = "Some 3" and ?c3.0 = ?n])
      (simp_all add: f a [simplified] async_notify_def silent_def one_conn_def plain_conn_def xs_conn_create_def xs_conn_writeblocked_def xs_arr_create_def)
  then show ?thesis by (auto simp: f(3) xs_conn_create_def)
qed

theorem xs_async_handler_writes_witness:
  "\<exists>st' c'. xs_async_handler (\<lambda>_. True) (\<lambda>_. 0) 0 silent (one_conn\<lparr>as_stop := - 2\<rparr>) (one_entry 0) exs_pollfd_Write 5 0 7 =
      Some (st', [Set_events 0 (if cached (ac_conn c') = [] then POLLIN else POLLIN OR POLLOUT)]) \<and> as_heap st' 7 = Some c'"
proof -
  have f: "as_heap (one_conn\<lparr>as_stop := - 2\<rparr>) 7 = Some (plain_conn 5 0)" "ac_token (plain_conn 5 0) = 0" "cache_ok (ac_conn (plain_conn 5 0))"
    using plain_cache(1) [of 5] by (simp_all add: one_conn_def plain_conn_def)
  have "\<exists>st' c'. xs_async_handler (\<lambda>_. True) (\<lambda>_. 0) 0 silent (one_conn\<lparr>as_stop := - 2\<rparr>) (one_entry 0) exs_pollfd_Write 5 0 7 =
      Some (st', [Set_events 0 (if cached (ac_conn c') = [] then POLLIN else POLLIN OR POLLOUT)]) \<and> as_heap st' 7 = Some c' \<and>
    e_wire (ac_conn c') @ cached (ac_conn c') = e_wire (ac_conn (plain_conn 5 0)) @ cached (ac_conn (plain_conn 5 0))"
    by (rule xs_async_handler_writes [OF f(1) _ f(2,3)]) (simp_all add: async_notify_def)
  then show ?thesis by blast
qed

theorem xs_async_handler_dead_entry_witness:
  "xs_async_handler (\<lambda>_. True) (\<lambda>_. - 1) 0 silent one_conn (one_entry 1) exs_pollfd_New 9 0 7 = Some (one_conn, []) \<and>
    (\<exists>cmds. xs_async_handler (\<lambda>_. True) (\<lambda>_. - 1) 0 silent one_conn ((one_entry 0)\<lparr>pss := [\<lparr>sid = 0, sa = 3, cfd = 0\<rparr>, \<lparr>sid = 0, sa = 4, cfd = 0\<rparr>]\<rparr>)
      exs_pollfd_Error 9 0 0 = Some (one_conn, cmds) \<and> Clear 0 \<notin> set cmds)"
  by (rule xs_async_handler_dead_entry [where lc = "plain_conn 5 0" and addr = "Some 3"])
    (simp_all add: one_conn_def plain_conn_def xs_conn_create_def xs_pollfd_getsocket_addr_def xs_pollfd_getsocket_userdata_def xptok_ind_def
      one_entry_def xs_pollfd_Init_def mem_simps)

lemma queued_socket_outlives_listener:
  \<comment> \<open>a socket waits in the queue while the table is full, its listening connection fails and is freed, and then the dispatcher reads it\<close>
  "(do {
     let proc = async_proc (\<lambda>_. True) (\<lambda>_. 0) 0 silent;
     let xp = (xs_pollfd_Init 1)\<lparr>xp_running := 1, listenCount := 1, pfdCount := 1, pfdMax := 1,
       pfd := [\<lparr>fd = 5, events = POLLIN, revents = 0\<rparr>], pss := [\<lparr>sid = 0, sa = 3, cfd = 7\<rparr>]\<rparr>;
     r1 \<leftarrow> poll_round proc \<lparr>ps_user = Some one_conn, ps_xp = xp, ps_accept = [(9, 3)], ps_queue = [], ps_closed = []\<rparr> 1 (\<lambda>_. POLLIN);
     r2 \<leftarrow> poll_round proc r1 1 (\<lambda>_. POLLERR);
     r3 \<leftarrow> poll_round proc r2 0 (\<lambda>_. 0);
     Some (Option.is_none (ps_user r2), Option.is_none (ps_user r3)) }) = Some (False, True)"
  by code_simp

end
