(* ===== verification/Webxs.thy ===== *)
theory Webxs
  imports Server ConnRead Async
begin


text \<open>
  The server program of \<open>webxs.c\<close>: the callback \<open>server_handler\<close>, which reads what a connection has received and answers each
  complete message, over \<open>ConnRead\<close>, \<open>Websocket\<close> and \<open>Server\<close>.

  What the components below take from outside the program is collected in one record. The list of redirections \<open>gurlarr\<close> and its
  counter are the program's globals. A loop that does not end is \<open>None\<close>.
\<close>

abbreviation exs_Conn_WSNew :: int where "exs_Conn_WSNew \<equiv> exs_Conn_Header OR 0x800 OR 0x1000"
abbreviation exs_Conn_WSFrameRead :: int where "exs_Conn_WSFrameRead \<equiv> exs_Conn_Response OR 0x800"
abbreviation exs_Conn_WSFrameEnd :: int where "exs_Conn_WSFrameEnd \<equiv> exs_Conn_Complete OR 0x800"
abbreviation (input) exs_WS_TEXT :: nat where "exs_WS_TEXT \<equiv> 1"

record world =
  w_room :: "nat \<Rightarrow> bool"
  w_big :: bool
  w_sha :: SHA1_CTX
  w_fs :: file_system
  w_ct :: int
  w_entries :: "byte list \<Rightarrow> byte list list option"
  w_now :: "byte list"
  w_timestr :: "int \<Rightarrow> byte list"
  w_crypt :: "byte list \<Rightarrow> byte list \<Rightarrow> byte list option"
  w_stack :: "byte list"

record webxs =
  gurlarr :: "byte list list"
  gredir :: nat
  g_cache :: filecache

definition redirect_text :: "byte list \<Rightarrow> byte list option" where
  \<comment> \<open>the local \<open>str[1024]\<close>\<close>
  "redirect_text url = do {
     (b, r) \<leftarrow> xs_sprintf (Some (replicate 1024 0)) 1024 (Some (bytes ''Moved'' @ crlf @ bytes ''Location: %.*s''))
       [Arg_int (int (length url)), Arg_str url];
     map_option cstr b }"

definition server_complete :: "world \<Rightarrow> xs_server_ctx \<Rightarrow> webxs \<Rightarrow> xs_conn \<Rightarrow> (webxs \<times> xs_conn \<times> int) option" where
  \<comment> \<open>a complete request; \<open>req\<close> is read before it is answered, which does not change it\<close>
  "server_complete w ctx g conn =
     (if gurlarr g \<noteq> [] then do {
        str \<leftarrow> redirect_text (gurlarr g ! (gredir g mod length (gurlarr g)));
        (c1, n) \<leftarrow> xs_conn_write_httperror (w_room w) (w_now w) conn 302 str [] [];
        Some (g\<lparr>gredir := gredir g + 1\<rparr>, c1, exs_Conn_Close) }
      else do {
        (st, c1, err) \<leftarrow> xs_server_handlerequest (w_room w) (w_fs w) (w_ct w) (w_entries w) (w_now w) (w_timestr w) (w_crypt w)
          (w_stack w) (g_cache g) ctx conn;
        Some (g\<lparr>g_cache := st\<rparr>, c1, if xs_http_getint (xs_conn_getreq conn) exs_Req_KeepAlive = 0 then exs_Conn_Close else err) })"

definition server_frame :: "world \<Rightarrow> xs_conn \<Rightarrow> byte list \<Rightarrow> xs_conn option" where
  \<comment> \<open>the payload of a frame comes back, and \<open>exit\<close> closes\<close>
  "server_frame w conn d = do {
     (c1, n1) \<leftarrow> (if d \<noteq> [] then map_option (\<lambda>(c, n, r). (c, n)) (xs_conn_write_websocket (w_room w) 0 0 conn exs_WS_TEXT d False)
                  else Some (conn, 0));
     if take 4 d = bytes ''exit''
     then map_option fst (xs_conn_write_websocket (w_room w) 0 0 c1 exs_WS_CONNECTION_CLOSE [] False)
     else Some c1 }"

definition server_step :: "world \<Rightarrow> xs_server_ctx \<Rightarrow> webxs \<Rightarrow> xs_conn \<Rightarrow> (webxs \<times> xs_conn \<times> int \<times> bool) option" where
  \<comment> \<open>once through the loop: the globals, the connection, \<open>err\<close> and \<open>rr\<close>\<close>
  "server_step w ctx g conn = do {
     (c1, n, d, rr) \<leftarrow> xs_conn_httpread (w_room w) (w_big w) (w_sha w) (w_now w) conn 1023;
     let s = xs_conn_state c1;
     if c_errnum c1 \<noteq> 0 then Some (g, c1, exs_Conn_Close, rr)
     else if n < 0 then Some (g, c1, 0, rr)
     else if s = exs_Conn_Complete then do {
       (g1, c2, err) \<leftarrow> server_complete w ctx g c1;
       Some (g1, c2, err, rr) }
     else if s = exs_Conn_WSNew then do {
       (c2, m, r) \<leftarrow> xs_conn_write_websocket (w_room w) 0 0 c1 exs_WS_TEXT (bytes ''server ready'') False;
       Some (g, c2, 0, rr) }
     else if s = exs_Conn_WSFrameEnd \<or> s = exs_Conn_WSFrameRead then do {
       c2 \<leftarrow> server_frame w c1 d;
       Some (g, c2, 0, rr) }
     else Some (g, c1, 0, rr) }"

partial_function (option) server_loop :: "world \<Rightarrow> xs_server_ctx \<Rightarrow> webxs \<Rightarrow> xs_conn \<Rightarrow> (webxs \<times> xs_conn \<times> int) option" where
  "server_loop w ctx g conn = do {
     (g1, c1, err, rr) \<leftarrow> server_step w ctx g conn;
     if err = 0 \<and> rr then server_loop w ctx g1 c1 else Some (g1, c1, err) }"

declare server_loop.simps [code]

definition server_handler :: "world \<Rightarrow> xs_server_ctx \<Rightarrow> webxs \<Rightarrow> int \<Rightarrow> xs_conn \<Rightarrow> (webxs \<times> xs_conn \<times> int) option" where
  "server_handler w ctx g message conn =
     (if message = exs_Conn_Read then server_loop w ctx g conn else Some (g, conn, 0))"

subsection \<open>Lemmas: the end of a header\<close>

lemma valid_scan_skip:
  assumes "s \<le> j" "Suc j < n" "n \<le> length b"
    and "\<And>k. s \<le> k \<Longrightarrow> k < j \<Longrightarrow> xs_http_okchar (schar (b ! k)) \<and> (b ! k = 10 \<longrightarrow> b ! Suc k \<noteq> 10 \<and> b ! Suc k \<noteq> 13)"
  shows "valid_scan b n s = valid_scan b n j"
  using assms
proof (induction "j - s" arbitrary: s)
  case (Suc d)
  then have s: "s < j" "s + 1 < n" by auto
  have "valid_scan b n s = valid_scan b n (Suc s)"
    using s Suc.prems(3) Suc.prems(4) [of s] by (subst valid_scan.simps) (auto simp: mem_simps)
  also have "\<dots> = valid_scan b n j" using Suc.hyps(2) s Suc.prems by (intro Suc.hyps(1)) auto
  finally show ?case .
qed simp

definition no_blank :: "byte list \<Rightarrow> bool" where
  \<comment> \<open>lines, of which none is empty\<close>
  "no_blank a \<longleftrightarrow> a \<noteq> [] \<and> last a = 10 \<and> (\<forall>k. Suc k < length a \<longrightarrow> a ! k = 10 \<longrightarrow> a ! Suc k \<noteq> 10 \<and> a ! Suc k \<noteq> 13)"

lemma no_blank_line: "10 \<notin> set x \<Longrightarrow> no_blank (x @ [13, 10])"
  by (auto simp: no_blank_def nth_append less_Suc_eq split: if_splits) (metis Suc_lessD nth_mem, metis Suc_lessD nth_mem, metis lessI nth_mem)

lemma no_blank_append:
  assumes "no_blank x" "no_blank y" "hd y \<noteq> 10" "hd y \<noteq> 13"
  shows "no_blank (x @ y)"
  unfolding no_blank_def
proof (intro conjI allI impI)
  have ne: "x \<noteq> []" "y \<noteq> []" using assms by (auto simp: no_blank_def)
  then show "x @ y \<noteq> []" "last (x @ y) = 10" using assms by (auto simp: no_blank_def)
  fix k assume k: "Suc k < length (x @ y)" "(x @ y) ! k = 10"
  consider "Suc k < length x" | "Suc k = length x" | "length x \<le> k" by linarith
  then have "(x @ y) ! Suc k \<noteq> 10 \<and> (x @ y) ! Suc k \<noteq> 13"
  proof cases
    case 2
    then have "(x @ y) ! Suc k = hd y" using ne by (simp add: nth_append hd_conv_nth)
    then show ?thesis using assms(3,4) by simp
  qed (use k assms(1,2) in \<open>auto simp: no_blank_def nth_append Suc_diff_le\<close>)
  then show "(x @ y) ! Suc k \<noteq> 10" "(x @ y) ! Suc k \<noteq> 13" by auto
qed

lemma valid_text:
  assumes "no_blank a" "\<forall>x\<in>set a. xs_http_okchar (schar x)"
  shows "xs_http_validrequest ((a @ [13, 10]) @ r) (length (a @ [13, 10])) = Some (int (length (a @ [13, 10])))"
proof -
  let ?b = "(a @ [13, 10]) @ r" and ?n = "length (a @ [13, 10])" and ?j = "length a - 1"
  have ne: "a \<noteq> []" using assms(1) by (simp add: no_blank_def)
  have at: "?b ! ?j = 10" "?b ! Suc ?j = 13" "?b ! (?j + 2) = 10" "xs_http_okchar (schar (?b ! ?j))"
    using assms ne by (simp_all add: no_blank_def nth_append last_conv_nth xs_http_okchar_def)
  have "xs_http_okchar (schar (?b ! k)) \<and> (?b ! k = 10 \<longrightarrow> ?b ! Suc k \<noteq> 10 \<and> ?b ! Suc k \<noteq> 13)" if "k < ?j" for k
    using that assms by (auto simp: no_blank_def nth_append)
  then have "valid_scan ?b ?n 0 = valid_scan ?b ?n ?j" using ne by (intro valid_scan_skip) auto
  also have "\<dots> = Some (int ?j + 3)" using at ne by (subst valid_scan.simps) (simp add: mem_simps)
  finally have "valid_scan ?b ?n 0 = Some (int ?j + 3)" .
  moreover have "int ?j + 3 = int ?n" using ne by (cases a) auto
  ultimately show ?thesis by (simp add: xs_http_validrequest_def)
qed

lemma request_lines:
  assumes "10 \<notin> set m" "10 \<notin> set u" "10 \<notin> set ver" "\<forall>(n, v)\<in>set hs. token n \<and> field_value v"
  shows "no_blank (m @ 32 # u @ 32 # bytes ''HTTP/'' @ ver @ 13 # 10 # concat (map header_line hs))"
  using assms(4)
proof (induction hs rule: rev_induct)
  case Nil
  have "10 \<notin> set (m @ 32 # u @ 32 # bytes ''HTTP/'' @ ver)" using assms(1-3) by simp
  from no_blank_line [OF this] show ?case by simp
next
  case (snoc h hs)
  obtain n v where h: "h = (n, v)" by force
  have tv: "token n" "field_value v" using snoc.prems h by auto
  have "\<forall>x\<in>set n. x \<noteq> 10 \<and> x \<noteq> 13" using tv(1) token_char by (auto simp: token_def)
  then have "hd (header_line h) \<noteq> 10" "hd (header_line h) \<noteq> 13" "10 \<notin> set (n @ [58, 32] @ v)"
    using tv(2) by (cases n; auto simp: header_line_def h field_value_def)+
  moreover from no_blank_line [OF this(3)] have "no_blank (header_line h)" by (simp add: header_line_def h)
  moreover have "no_blank (m @ 32 # u @ 32 # bytes ''HTTP/'' @ ver @ 13 # 10 # concat (map header_line hs))" using snoc by simp
  ultimately show ?case using no_blank_append by fastforce
qed

subsection \<open>Lemmas: parsing in a larger buffer\<close>

lemma skip_while_take: "n \<le> m \<Longrightarrow> m \<le> length b \<Longrightarrow> skip_while P (take m b) n c = skip_while P b n c"
proof (induction "n - c" arbitrary: c)
  case 0
  then show ?case by (simp add: skip_while.simps [of P _ n c])
next
  case (Suc d)
  then have "skip_while P (take m b) n (Suc c) = skip_while P b n (Suc c)" by (intro Suc.hyps(1)) auto
  then show ?case using Suc by (simp add: skip_while.simps [of P _ n c] mem_simps)
qed

lemma parse_take: "n \<le> length b \<Longrightarrow> xs_http_parse req b n = xs_http_parse req (take n b) n"
  by (cases "xs_http_skipspace b n 0")
    (auto simp: xs_http_parse_def xs_http_skipspace_def skip_while_take rds_def Let_def drop_take min_def)

subsection \<open>Lemmas: what parsing leaves alone\<close>

lemma bindE: "Option.bind x f = Some y \<Longrightarrow> (\<And>a. x = Some a \<Longrightarrow> f a = Some y \<Longrightarrow> P) \<Longrightarrow> P"
  by (cases x) auto

definition parse_frame :: "xs_httpreq \<Rightarrow> xs_httpreq \<Rightarrow> bool" where
  "parse_frame r r' \<longleftrightarrow> q_done r' = q_done r \<and> q_header r' = q_header r \<and> q_opcode r' = q_opcode r \<and> q_datamask r' = q_datamask r \<and>
     q_reqlen r' = q_reqlen r \<and> q_method r' = q_method r \<and> q_statuscode r' = q_statuscode r"

lemma parse_frame_trans: "parse_frame x y \<Longrightarrow> parse_frame y z \<Longrightarrow> parse_frame x z"
  by (simp add: parse_frame_def)

lemma preparse_frame: "parse_frame req (preparse_header req na va ver)"
  by (simp add: parse_frame_def preparse_header_def Let_def)

lemma parse_headers_frame: "parse_headers req e c = Some r \<Longrightarrow> parse_frame req r"
proof (induction req e c rule: parse_headers.induct)
  case (1 req e c)
  show ?case
  proof (cases "parse_frame req r")
    case False
    then have ne: "req \<noteq> r" by (auto simp: parse_frame_def)
    then obtain na c2 x b1 va c4 b2 name vl ver where s:
      "length (q_headers req) < exs_Max_Headers \<and> c < e" "skip_while (\<lambda>x. schar x \<le> 32) (q_buf req) e c = Some na" "\<not> e \<le> na"
      "xs_http_skiptoken (q_buf req) e na = Some c2" "rd (q_buf req) (c2 - 1) = Some x" "\<not> x \<noteq> 58" "wr (q_buf req) (c2 - 1) 0 = Some b1"
      "xs_http_skipspace b1 e c2 = Some va" "xs_http_skiptoEOL b1 e va = Some c4" "wr b1 c4 0 = Some b2" "cstr_at b2 na = Some name"
      "cstr_at b2 va = Some vl" "(case q_version req of None \<Rightarrow> Some None | Some i \<Rightarrow> map_option Some (cstr_at b2 i)) = Some ver"
      "parse_headers (preparse_header (req\<lparr>q_buf := b2, q_headers := q_headers req @ [(na, va)]\<rparr>) name vl ver) e c4 = Some r"
      using 1(2) by (subst (asm) parse_headers.simps) (auto simp: bind_eq_Some_conv split: if_split_asm)
    have "parse_frame (preparse_header (req\<lparr>q_buf := b2, q_headers := q_headers req @ [(na, va)]\<rparr>) name vl ver) r"
      by (rule 1(1) [OF s])
    moreover have "parse_frame (req\<lparr>q_buf := b2, q_headers := q_headers req @ [(na, va)]\<rparr>)
        (preparse_header (req\<lparr>q_buf := b2, q_headers := q_headers req @ [(na, va)]\<rparr>) name vl ver)" by (rule preparse_frame)
    ultimately show ?thesis by (simp add: parse_frame_def)
  qed
qed

lemma split_uri_frame: "split_uri req = Some r \<Longrightarrow> parse_frame req r"
  by (auto simp: split_uri_def parse_frame_def bind_eq_Some_conv split: option.splits)

lemma request_line_frame:
  "request_line req b m u v = Some (r, err) \<Longrightarrow> q_method r \<noteq> None \<Longrightarrow> parse_frame (req\<lparr>q_method := q_method r\<rparr>) r"
  unfolding request_line_def by (elim bindE) (auto simp: parse_frame_def Let_def simp del: bytes_simps elim!: bindE split: if_split_asm)

lemma parse_request_frame:
  assumes p: "xs_http_parse req b n = Some (r, 0)" and m: "q_method r \<noteq> None"
  shows "\<not> q_done r" "q_header r = q_header req" "q_reqlen r = q_reqlen req" "q_statuscode r = 0" "q_opcode r = 0" "q_datamask r = [0, 0, 0, 0]"
proof -
  let ?r0 = "(xs_req_clear req)\<lparr>q_status := None, q_hash := None, q_query := None\<rparr>"
  obtain c0 where c0: "xs_http_skipspace b n 0 = Some c0" "\<not> n \<le> c0"
    using p by (auto simp: xs_http_parse_def Let_def bind_eq_Some_conv split: if_split_asm)
  define G where "G c = (\<lambda>(r1, err). if err \<noteq> 0 then Some (r1, err)
       else do {
         (b2, k1) \<leftarrow> xs_http_terminatetoken (q_buf r1) (q_status r1);
         (b3, k2) \<leftarrow> xs_http_terminatetoken b2 (q_version r1);
         r2 \<leftarrow> split_uri (r1\<lparr>q_buf := b3\<rparr>);
         xs_http_parseheaders r2 (c + 1) (n - c0) })" for c
  obtain b' u v x c where "request_line ?r0 b' 0 u v = Some x" "G c x = Some (r, 0)"
    using p [unfolded xs_http_parse_def c0(1) bind.bind_lunit Let_def if_not_P [OF c0(2)], folded G_def] by (elim bindE)
  then obtain r1 err where l: "request_line ?r0 b' 0 u v = Some (r1, err)" "G c (r1, err) = Some (r, 0)" by (cases x) auto
  then have e: "err = 0" by (auto simp: G_def split: if_split_asm)
  then obtain b3 r2 where s: "request_line ?r0 b' 0 u v = Some (r1, 0)" "split_uri (r1\<lparr>q_buf := b3\<rparr>) = Some r2"
    "xs_http_parseheaders r2 (c + 1) (n - c0) = Some (r, 0)"
    using l by (auto simp: G_def bind_eq_Some_conv)
  have h: "parse_frame r2 r" using s(3) parse_headers_frame by (auto simp: xs_http_parseheaders_def bind_eq_Some_conv)
  have u: "parse_frame (r1\<lparr>q_buf := b3\<rparr>) r2" using s(2) by (rule split_uri_frame)
  have "q_method r1 \<noteq> None" using h u m by (simp add: parse_frame_def)
  from request_line_frame [OF s(1) this] have "parse_frame (?r0\<lparr>q_method := q_method r1\<rparr>) r1" .
  with h u have "parse_frame (?r0\<lparr>q_method := q_method r1\<rparr>) r" by (simp add: parse_frame_def)
  then show "\<not> q_done r" "q_header r = q_header req" "q_reqlen r = q_reqlen req" "q_statuscode r = 0" "q_opcode r = 0" "q_datamask r = [0, 0, 0, 0]"
    by (simp_all add: parse_frame_def xs_req_clear_def)
qed

subsection \<open>Lemmas: the first request of a connection\<close>

definition fresh_conn :: "xs_conn \<Rightarrow> bool" where
  \<comment> \<open>as accepted: nothing read, nothing waiting to be sent\<close>
  "fresh_conn conn \<longleftrightarrow> c_req conn = [] \<and> c_freereq conn = [] \<and> c_buf conn = None \<and> c_datalen conn = 0 \<and> c_consumed conn = 0 \<and>
     c_bufsize conn = 0 \<and> c_upgrade conn = 0 \<and> 0 < c_sock conn \<and> aCount (c_wcache conn) = 0"

definition received :: "xs_conn \<Rightarrow> byte list \<Rightarrow> sock_recv list \<Rightarrow> xs_conn" where
  \<comment> \<open>the connection with the first block in its buffer\<close>
  "received conn t rs = conn\<lparr>c_rcount := c_rcount conn + 1, c_buf := Some (t @ replicate (1024 - length t) 0), c_bufsize := 1024,
     c_datalen := int (length t), e_recv := rs, c_errnum := 0, c_proto := True\<rparr>"

lemma headerready_fresh:
  assumes f: "fresh_conn conn" "c_errnum conn = 0" and t: "e_recv conn = Recv t # rs" "t \<noteq> []" "length t < 1024"
    and v: "xs_http_validrequest (t @ replicate (1024 - length t) 0) (length t) = Some (int (length t))"
  shows "xs_conn_headerready (\<lambda>_. True) conn = Some (received conn t rs, int (length t))"
proof -
  let ?c0 = "conn\<lparr>c_buf := Some (replicate 1024 0), c_bufsize := 1024\<rparr>"
  have b: "xs_conn_bufresize (\<lambda>_. True) conn = Some ?c0" using f by (simp add: xs_conn_bufresize_def fresh_conn_def)
  let ?c1 = "?c0\<lparr>c_rcount := c_rcount conn + 1, e_recv := rs, c_errnum := 0, c_proto := True\<rparr>"
  have n: "0 < length t" using t by simp
  have "\<exists>rr. xs_conn_read (\<lambda>_. True) ?c0 1024 = Some (?c1, int (length t), t, rr)"
    using f t n by (auto simp: xs_conn_read_def fresh_conn_def sock_recv_call_def Let_def intro: exI [of _ False])
  then have r: "conn_fill (\<lambda>_. True) ?c0 = Some (received conn t rs, int (length t))"
    using f t n by (auto simp: conn_fill_def fresh_conn_def received_def blit_def)
  have h: "conn_headerlen (received conn t rs) = Some (int (length t))"
    using f v by (simp add: conn_headerlen_def received_def fresh_conn_def)
  have "c_datalen (received conn t rs) \<le> 131072" using t(3) by (simp add: received_def)
  then show ?thesis using b r h f n t(3) by (simp add: xs_conn_headerready_def fresh_conn_def)
qed

definition plain_get :: "byte list \<Rightarrow> xs_httpreq \<Rightarrow> bool" where
  \<comment> \<open>a parsed GET request without body and without upgrade\<close>
  "plain_get uri r \<longleftrightarrow> xs_http_get (Some r) exs_Req_Method = Some (bytes ''GET'') \<and> xs_http_get (Some r) exs_Req_URI = Some uri \<and>
     q_contentlen r = 0 \<and> \<not> q_chunked r \<and> q_upgrade r = 0 \<and> q_consumed r = 0 \<and> \<not> q_done r \<and> q_statuscode r = 0"

definition with_request :: "xs_conn \<Rightarrow> byte list \<Rightarrow> sock_recv list \<Rightarrow> xs_httpreq \<Rightarrow> bool \<Rightarrow> xs_conn" where
  "with_request conn t rs r head = (received conn t rs)\<lparr>c_req := [r\<lparr>q_reqlen := int (length t), q_header := head\<rparr>], c_consumed := int (length t)\<rparr>"

lemma plain_get_method: "plain_get uri r \<Longrightarrow> q_method r \<noteq> None"
  by (auto simp: plain_get_def req_str_def split: option.splits)

lemma getters_marked:
  "xs_http_get (Some (r\<lparr>q_reqlen := l, q_header := h\<rparr>)) a = xs_http_get (Some r) a"
  "xs_http_getheader (Some (r\<lparr>q_reqlen := l, q_header := h\<rparr>)) n = xs_http_getheader (Some r) n"
proof -
  have "hdr_name (r\<lparr>q_reqlen := l, q_header := h\<rparr>) = hdr_name r" "hdr_value (r\<lparr>q_reqlen := l, q_header := h\<rparr>) = hdr_value r"
    by (simp_all add: fun_eq_iff hdr_name_def hdr_value_def)
  then show "xs_http_getheader (Some (r\<lparr>q_reqlen := l, q_header := h\<rparr>)) n = xs_http_getheader (Some r) n" by (simp add: xs_http_getheader_def)
  show "xs_http_get (Some (r\<lparr>q_reqlen := l, q_header := h\<rparr>)) a = xs_http_get (Some r) a"
    by (cases a) (simp_all add: req_str_def split: option.splits)
qed

lemma with_request_state:
  assumes "fresh_conn conn" "plain_get uri r" "t \<noteq> []"
  shows "xs_conn_state (with_request conn t rs r head) = (if head then exs_Conn_Header else exs_Conn_Complete)"
    "xs_conn_getreq (with_request conn t rs r head) = Some (r\<lparr>q_reqlen := int (length t), q_header := head\<rparr>)"
    "c_errnum (with_request conn t rs r head) = 0"
  using assms
  by (auto simp: with_request_def received_def fresh_conn_def plain_get_def xs_conn_state_def xs_http_state_def head_req_def xs_conn_getreq_def)

lemma httpread_header_fresh:
  assumes f: "fresh_conn conn" and t: "e_recv conn = Recv t # rs" "t \<noteq> []" "length t < 1024"
    and v: "xs_http_validrequest (t @ replicate (1024 - length t) 0) (length t) = Some (int (length t))"
    and p: "xs_http_parse (empty_req (Suc (length t))) t (length t) = Some (r, 0)" "plain_get uri r"
  shows "xs_conn_httpread (\<lambda>_. True) big sha now conn 1023 = Some (with_request conn t rs r True, 0, [], True)"
proof -
  let ?c1 = "conn\<lparr>c_errnum := 0\<rparr>"
  have f1: "fresh_conn ?c1" "c_errnum ?c1 = 0" "e_recv ?c1 = Recv t # rs" using f t by (simp_all add: fresh_conn_def)
  have rec: "received ?c1 t rs = received conn t rs" by (simp add: received_def)
  have s0: "conn_state_bits ?c1 = exs_Conn_Pending" "head_req ?c1 = None"
    using f by (simp_all add: conn_state_bits_def xs_conn_state_def xs_http_state_def fresh_conn_def head_req_def)
  note h = headerready_fresh [OF f1(1-3) t(2,3) v, unfolded rec]
  have c: "c_req (received conn t rs) = []" "c_errnum (received conn t rs) = 0" "c_upgrade (received conn t rs) = 0"
    "c_freereq (received conn t rs) = []" "c_consumed (received conn t rs) = 0" "c_buf (received conn t rs) = Some (t @ replicate (1024 - length t) 0)"
    using f by (simp_all add: received_def fresh_conn_def)
  have n: "0 < length t" using t by simp
  have pp: "xs_http_parse (empty_req (Suc (length t))) (t @ replicate (1024 - length t) 0) (length t) = Some (r, 0)"
    using parse_take [of "length t" "t @ replicate (1024 - length t) 0" "empty_req (Suc (length t))"] p(1) by simp
  let ?c3 = "(received conn t rs)\<lparr>c_req := [r\<lparr>q_reqlen := int (length t)\<rparr>], c_consumed := int (length t)\<rparr>"
  have cr: "xs_http_createreq (\<lambda>_. True) (received conn t rs) (int (length t)) = Some (?c3, 0)"
    using c n pp by (simp add: xs_http_createreq_def Let_def req_alloc_def)
  obtain y where m: "q_method r = Some y" using plain_get_method [OF p(2)] by auto
  have q: "q_contentlen r = 0" "\<not> q_chunked r" "q_upgrade r = 0" using p(2) by (simp_all add: plain_get_def)
  have w: "upd_head (\<lambda>r. r\<lparr>q_header := True\<rparr>) ?c3 = with_request conn t rs r True" by (simp add: upd_head_def with_request_def)
  have "read_retvalue exs_Conn_Pending (with_request conn t rs r True) = 0"
    using with_request_state(1) [OF f p(2) t(2), of rs True] by (simp add: read_retvalue_def conn_state_bits_def)
  then have "httpread_header (\<lambda>_. True) big sha now exs_Conn_Pending ?c1 = Some (with_request conn t rs r True, 0, [], True)"
    using h c n cr q m w by (simp add: httpread_header_def Let_def head_req_def)
  then show ?thesis using s0 by (simp add: xs_conn_httpread_def Let_def)
qed

lemma httpread_complete:
  assumes f: "fresh_conn conn" and t: "t \<noteq> []" and p: "plain_get uri r"
  shows "xs_conn_httpread (\<lambda>_. True) big sha now (with_request conn t rs r True) 1023 = Some (with_request conn t rs r False, 0, [], False)"
proof -
  let ?c = "with_request conn t rs r True" and ?d = "with_request conn t rs r False"
  have e: "?c\<lparr>c_errnum := 0\<rparr> = ?c" by (simp add: with_request_def received_def)
  have s: "conn_state_bits ?c = exs_Conn_Header" "conn_state_bits ?d = exs_Conn_Complete"
    using with_request_state(1) [OF f p t, of rs] by (simp_all add: conn_state_bits_def)
  have h: "head_req ?c = Some (r\<lparr>q_reqlen := int (length t), q_header := True\<rparr>)" "upd_head (\<lambda>r. r\<lparr>q_header := False\<rparr>) ?c = ?d"
    "more_buffered ?d = False"
    by (simp_all add: head_req_def with_request_def upd_head_def more_buffered_def received_def)
  show ?thesis using s h by (simp add: xs_conn_httpread_def e Let_def read_retvalue_def)
qed

subsection \<open>Lemmas: a GET request\<close>

definition no_field :: "(byte list \<times> byte list) list \<Rightarrow> byte list \<Rightarrow> bool" where
  "no_field hs name \<longleftrightarrow> (\<forall>(n, v)\<in>set hs. map lower_byte n \<noteq> map lower_byte name)"

definition keep_alive :: "byte list \<Rightarrow> (byte list \<times> byte list) list \<Rightarrow> bool" where
  \<comment> \<open>what the header fields say of the connection\<close>
  "keep_alive ver hs = q_keepalive (preparse_all (empty_req 0) ver hs)"

definition short_fields :: "(byte list \<times> byte list) list \<Rightarrow> bool" where
  "short_fields hs \<longleftrightarrow> (\<forall>(n, v)\<in>set hs. token n \<and> field_value v \<and> length n < 2147483647)"

lemma no_field_differs:
  assumes "short_fields hs" "no_field hs name" "(n, v) \<in> set hs" "is_cstr name" "length name < 2147483647"
  shows "xs_strcmp_case (Some n) (Some name) \<noteq> 0" "xs_strcmp_case (Some name) (Some n) \<noteq> 0"
proof -
  have n: "is_cstr n" "length n < 2147483647" "map lower_byte n \<noteq> map lower_byte name"
    using assms(1-3) token_cstr by (fastforce simp: short_fields_def no_field_def)+
  show "xs_strcmp_case (Some n) (Some name) \<noteq> 0" "xs_strcmp_case (Some name) (Some n) \<noteq> 0"
    using xs_strcmp_case_iff [OF n(1) assms(4) n(2) assms(5)] xs_strcmp_case_iff [OF assms(4) n(1) assms(5) n(2)] n(3) by auto
qed

lemma preparse_plain:
  assumes "short_fields hs" "no_field hs (bytes ''Content-Length'')" "no_field hs (bytes ''Transfer-Encoding'')" "no_field hs (bytes ''Upgrade'')"
    and "hflags r = (0, False, k, 0)"
  shows "\<exists>k'. hflags (preparse_all r ver hs) = (0, False, k', 0)"
  using assms
proof (induction hs arbitrary: r k)
  case (Cons h hs)
  obtain n v where h: "h = (n, v)" by force
  have hs: "short_fields hs" "no_field hs (bytes ''Content-Length'')" "no_field hs (bytes ''Transfer-Encoding'')" "no_field hs (bytes ''Upgrade'')"
    using Cons.prems(1-4) by (simp_all add: short_fields_def no_field_def)
  have c: "is_cstr (bytes ''Content-Length'')" "is_cstr (bytes ''Transfer-Encoding'')" "is_cstr (bytes ''Upgrade'')"
    "length (bytes ''Content-Length'') < 2147483647" "length (bytes ''Transfer-Encoding'') < 2147483647" "length (bytes ''Upgrade'') < 2147483647"
    by simp_all
  have "(n, v) \<in> set (h # hs)" by (simp add: h)
  note d = no_field_differs(1) [OF Cons.prems(1,2) this c(1,4)] no_field_differs(1) [OF Cons.prems(1,3) this c(2,5)]
    no_field_differs(1) [OF Cons.prems(1,4) this c(3,6)]
  have "\<exists>k'. hflags (preparse_header r n v (Some ver)) = (0, False, k', 0)"
    using d Cons.prems(5) unfolding preparse_header_def Let_def hflags_def by (simp del: bytes_simps)
  then obtain k' where "hflags (preparse_header r n v (Some ver)) = (0, False, k', 0)" by blast
  from Cons.IH [OF hs this] show ?case by (simp add: preparse_all_def h)
qed (simp add: preparse_all_def)

lemma getheader_none:
  assumes "map (\<lambda>h. (hdr_name r h, hdr_value r h)) (q_headers r) = hs" "short_fields hs" "no_field hs name" "is_cstr name" "length name < 2147483647"
  shows "xs_http_getheader (Some r) name = None"
proof -
  have "find (\<lambda>(n, v). xs_strcmp_case (Some name) (Some n) = 0) hs = None"
    using no_field_differs(2) [OF assms(2,3) _ assms(4,5)] by (auto simp: find_None_iff)
  then show ?thesis by (simp add: getheader_assoc assms(1))
qed

definition get_request :: "byte list \<Rightarrow> byte list \<Rightarrow> (byte list \<times> byte list) list \<Rightarrow> bool" where
  \<comment> \<open>a GET request in one block, for a file, without body, upgrade, range and condition\<close>
  "get_request u ver hs \<longleftrightarrow> token u \<and> u \<noteq> [] \<and> hd u = 47 \<and> 35 \<notin> set u \<and> 63 \<notin> set u \<and> pct_ok 0 u \<and> token ver \<and>
     short_fields hs \<and> length hs \<le> exs_Max_Headers \<and> length (request_text (bytes ''GET'') u ver hs) < 1024 \<and>
     (\<forall>x\<in>set (request_text (bytes ''GET'') u ver hs). xs_http_okchar (schar x)) \<and>
     no_field hs (bytes ''Content-Length'') \<and> no_field hs (bytes ''Transfer-Encoding'') \<and> no_field hs (bytes ''Upgrade'') \<and>
     no_field hs (bytes ''If-None-Match'') \<and> no_field hs (bytes ''Range'')"

lemma get_request_parsed:
  assumes "get_request u ver hs"
  defines "t \<equiv> request_text (bytes ''GET'') u ver hs"
  shows "\<exists>r. xs_http_parse (empty_req (Suc (length t))) t (length t) = Some (r, 0) \<and> plain_get (cstr (pct_decode 0 u)) r \<and>
    xs_http_get (Some r) exs_Req_Version = Some ver \<and> q_keepalive r = keep_alive ver hs \<and>
    xs_http_getheader (Some r) (bytes ''If-None-Match'') = None \<and> xs_http_getheader (Some r) (bytes ''Range'') = None"
proof -
  note g = assms(1) [unfolded get_request_def]
  have m: "xs_http_validmethod (bytes ''GET'')" by (simp add: xs_http_validmethod_def)
  have hs: "\<forall>(n, v)\<in>set hs. token n \<and> field_value v" "short_fields hs" using g by (auto simp: short_fields_def)
  have room: "length t < length (q_buf (empty_req (Suc (length t))))" by (simp add: empty_req_def)
  obtain r where r: "xs_http_parse (empty_req (Suc (length t))) t (length t) = Some (r, 0)"
    "xs_http_get (Some r) exs_Req_Method = Some (bytes ''GET'')" "xs_http_get (Some r) exs_Req_URI = Some (cstr (pct_decode 0 u))"
    "xs_http_get (Some r) exs_Req_Version = Some ver" "map (\<lambda>h. (hdr_name r h, hdr_value r h)) (q_headers r) = hs" "q_consumed r = 0"
    "hflags r = hflags (preparse_all (xs_req_clear (empty_req (Suc (length t)))) ver hs)"
    using parse_request_text [OF m _ _ _ _ _ _ _ hs(1) _ room [unfolded t_def]] g unfolding t_def by blast
  have e: "hflags (xs_req_clear (empty_req (Suc (length t)))) = hflags (empty_req 0)" "hflags (empty_req 0) = (0, False, False, 0)"
    by (simp_all add: hflags_def xs_req_clear_def empty_req_def)
  have h: "hflags r = hflags (preparse_all (empty_req 0) ver hs)" using r(7) hflags_preparse_all [OF e(1)] by simp
  obtain k where k: "hflags (preparse_all (empty_req 0) ver hs) = (0, False, k, 0)"
    using preparse_plain [OF hs(2) _ _ _ e(2)] g by blast
  have flags: "q_contentlen r = 0" "\<not> q_chunked r" "q_upgrade r = 0" "q_keepalive r = keep_alive ver hs"
    using h k by (auto simp: hflags_def keep_alive_def)
  have "q_method r \<noteq> None" using r(2) by (auto simp: req_str_def split: option.splits)
  note f = parse_request_frame [OF r(1) this]
  have c: "is_cstr (bytes ''If-None-Match'')" "is_cstr (bytes ''Range'')" "length (bytes ''If-None-Match'') < 2147483647"
    "length (bytes ''Range'') < 2147483647" by simp_all
  have "plain_get (cstr (pct_decode 0 u)) r" using r(2,3,6) flags f by (simp add: plain_get_def)
  moreover have "xs_http_getheader (Some r) (bytes ''If-None-Match'') = None" "xs_http_getheader (Some r) (bytes ''Range'') = None"
    using getheader_none [OF r(5) hs(2) _ c(1,3)] getheader_none [OF r(5) hs(2) _ c(2,4)] g by blast+
  ultimately show ?thesis using r(1,4) flags(4) by blast
qed

lemma get_request_valid:
  assumes "get_request u ver hs"
  defines "t \<equiv> request_text (bytes ''GET'') u ver hs"
  shows "xs_http_validrequest (t @ replicate (1024 - length t) 0) (length t) = Some (int (length t))" "t \<noteq> []" "length t < 1024"
proof -
  let ?a = "bytes ''GET'' @ 32 # u @ 32 # bytes ''HTTP/'' @ ver @ 13 # 10 # concat (map header_line hs)"
  note g = assms(1) [unfolded get_request_def]
  have t: "t = ?a @ [13, 10]" by (simp add: t_def request_text_def)
  have "10 \<notin> set u" "10 \<notin> set ver" using g token_char by (auto simp: token_def)
  then have "no_blank ?a" using g by (intro request_lines) (auto simp: short_fields_def)
  moreover have "\<forall>x\<in>set ?a. xs_http_okchar (schar x)" using g t by (auto simp: t_def [symmetric] simp del: bytes_simps)
  ultimately show "xs_http_validrequest (t @ replicate (1024 - length t) 0) (length t) = Some (int (length t))"
    using valid_text [of ?a "replicate (1024 - length t) 0"] unfolding t by blast
  show "t \<noteq> []" "length t < 1024" using g t by (simp_all add: t_def)
qed

subsection \<open>A request, from the socket to the socket\<close>

definition file_at ::
  "world \<Rightarrow> xs_server_ctx \<Rightarrow> webxs \<Rightarrow> (int \<Rightarrow> file_system) \<Rightarrow> (int \<times> byte list) list \<Rightarrow> byte list \<Rightarrow> byte list \<Rightarrow> int \<Rightarrow> bool" where
  \<comment> \<open>a server without passwords and redirections, which has answered some requests, and a file that has not changed of late\<close>
  "file_at w ctx g node reqs path content m \<longleftrightarrow> gurlarr g = [] \<and> auth_file ctx = None \<and> is_cstr (document_root ctx) \<and> length path < PATH_MAX \<and>
     w_room w = (\<lambda>_. True) \<and> w_fs w = node (w_ct w) \<and> serves node path (w_ct w) content m \<and>
     fileinfo_gets node reqs (xs_fileinfo_init filecache_start) = Some (g_cache g)"

lemma handler_serves_get:
  fixes ctx :: xs_server_ctx and w :: world and content :: "byte list" and m :: int
  assumes "fresh_conn conn" "conn_ready conn" "no_send_error conn" and "e_recv conn = Recv (request_text (bytes ''GET'') u ver hs) # rs"
    and "get_request u ver hs"
  defines "path \<equiv> document_root ctx @ cstr (pct_decode 0 u)"
  assumes "file_at w ctx g node reqs path content m"
  defines "head \<equiv> file_head ver 200 (bytes ''OK'') (int (length content)) (w_now w) (etag_text m (int (length content))) (xs_find_mime_type path)
    (keep_alive ver hs) []"
  assumes "length head + length content \<le> conn_room conn"
  shows "\<exists>g' conn'. server_handler w ctx g exs_Conn_Read conn = Some (g', conn', if keep_alive ver hs then 0 else exs_Conn_Close) \<and>
    conn_out conn' = conn_out conn @ head @ content"
proof -
  have F: "gurlarr g = []" "auth_file ctx = None" "is_cstr (document_root ctx)" "length path < PATH_MAX" "w_room w = (\<lambda>_. True)"
    "w_fs w = node (w_ct w)" "serves node path (w_ct w) content m" "fileinfo_gets node reqs (xs_fileinfo_init filecache_start) = Some (g_cache g)"
    using assms(7) by (simp_all add: file_at_def)
  define t where "t = request_text (bytes ''GET'') u ver hs"
  obtain r where r: "xs_http_parse (empty_req (Suc (length t))) t (length t) = Some (r, 0)" "plain_get (cstr (pct_decode 0 u)) r"
    "xs_http_get (Some r) exs_Req_Version = Some ver" "q_keepalive r = keep_alive ver hs"
    "xs_http_getheader (Some r) (bytes ''If-None-Match'') = None" "xs_http_getheader (Some r) (bytes ''Range'') = None"
    using get_request_parsed [OF assms(5)] unfolding t_def by blast
  note v = get_request_valid [OF assms(5), folded t_def]
  let ?c = "with_request conn t rs r True" and ?d = "with_request conn t rs r False" and ?q = "r\<lparr>q_reqlen := int (length t), q_header := False\<rparr>"
  note rd1 = httpread_header_fresh [OF assms(1,4) [folded t_def] v(2,3,1) r(1,2)]
  note rd2 = httpread_complete [OF assms(1) v(2) r(2)]
  note st = with_request_state [OF assms(1) r(2) v(2), of rs]
  note q = getters_marked [where r = r and l = "int (length t)" and h = False]
  have step1: "server_step w ctx g conn = Some (g, ?c, 0, True)"
    using rd1 st(1,3) [of True] F(5) by (simp add: server_step_def Let_def)
  have rd: "conn_ready ?d" "no_send_error ?d" "conn_room ?d = conn_room conn" "conn_out ?d = conn_out conn"
    using assms(2,3)
    by (simp_all add: with_request_def received_def conn_ready_def cache_ok_def socket_open_def no_send_error_def conn_room_def conn_out_def cached_def)
  have h: "response_head (xs_conn_getreq ?d) path (w_now w) m (length content) 200 (bytes ''OK'') (int (length content)) [] = head"
    unfolding st(2) response_head_def q r(3) by (simp add: head_def r(4))
  have get: "xs_http_get (xs_conn_getreq ?d) exs_Req_Method = Some (bytes ''GET'')" "xs_http_get (xs_conn_getreq ?d) exs_Req_URI = Some (cstr (pct_decode 0 u))"
    "xs_http_getint (xs_conn_getreq ?d) exs_Req_Upgrade = 0" "xs_http_getheader (xs_conn_getreq ?d) (bytes ''If-None-Match'') = None"
    "xs_http_getheader (xs_conn_getreq ?d) (bytes ''Range'') = None" "xs_http_getint (xs_conn_getreq ?d) exs_Req_KeepAlive = (if keep_alive ver hs then 1 else 0)"
    unfolding st(2) q using r(2,4-6) by (simp_all add: plain_get_def)
  have al: "allowed (w_crypt w) (w_stack w) ctx ?d" using F(2) by (simp add: allowed_def)
  have len: "length (document_root ctx) + length (cstr (pct_decode 0 u)) < PATH_MAX" using F(4) by (simp add: path_def)
  obtain st' conn' where c: "xs_server_handlerequest (\<lambda>_. True) (node (w_ct w)) (w_ct w) (w_entries w) (w_now w) (w_timestr w) (w_crypt w)
      (w_stack w) (g_cache g) ctx ?d = Some (st', conn', if xs_http_getint (xs_conn_getreq ?d) exs_Req_KeepAlive = 0 then exs_Conn_Close else 0)"
    "conn_out conn' = conn_out ?d @ head @ content"
    using handlerequest_serves [where now = "w_now w" and entries = "w_entries w" and timestr = "w_timestr w", OF al get(3,1,2) F(3) cstr_is_cstr len F(7) [unfolded path_def] F(8) rd(1,2) get(4,5), folded path_def,
        unfolded h rd(3), OF assms(9)] by blast
  have "server_complete w ctx g ?d = Some (g\<lparr>g_cache := st'\<rparr>, conn', if keep_alive ver hs then 0 else exs_Conn_Close)"
    using c(1) get(6) F(1,5,6) by (simp add: server_complete_def)
  then have step2: "server_step w ctx g ?c = Some (g\<lparr>g_cache := st'\<rparr>, conn', if keep_alive ver hs then 0 else exs_Conn_Close, False)"
    using rd2 st(1,3) [of False] F(5) by (simp add: server_step_def Let_def)
  have "server_handler w ctx g exs_Conn_Read conn = Some (g\<lparr>g_cache := st'\<rparr>, conn', if keep_alive ver hs then 0 else exs_Conn_Close)"
    using step1 step2 by (simp add: server_handler_def server_loop.simps [of w ctx g conn] server_loop.simps [of w ctx g ?c])
  then show ?thesis using c(2) rd(4) by simp
qed


definition server_cb :: "world \<Rightarrow> xs_server_ctx \<Rightarrow> webxs option async_cb" where
  \<comment> \<open>\<open>server_handler\<close> as a callback of the dispatcher\<close>
  "server_cb w ctx f st msg a =
     (case (as_heap st a, as_user st) of
        (Some c, Some g) \<Rightarrow>
          (case server_handler w ctx g msg (ac_conn c) of
             Some (g1, x, err) \<Rightarrow> (st\<lparr>as_user := Some g1, as_heap := (as_heap st)(a \<mapsto> c\<lparr>ac_conn := x\<rparr>)\<rparr>, err)
           | None \<Rightarrow> (st\<lparr>as_user := None\<rparr>, 0))
      | _ \<Rightarrow> (st\<lparr>as_user := None\<rparr>, 0))"

lemma pass_serves_get:
  fixes ps :: "webxs option xas option poll_state"
  defines "p \<equiv> pfd (ps_xp ps)" and "s \<equiv> pss (ps_xp ps)"
  assumes ok: "pass_ok (ps_xp ps) i ip fl" "i < pfdCount (ps_xp ps)" "listenCount (ps_xp ps) \<le> i" "0 < fd (p ! i)" "revents (p ! i) = POLLIN"
    and st: "ps_user ps = Some st" "as_heap st (cfd (s ! i)) = Some c" "cfd (s ! i) \<noteq> 0" "ac_token c = int (sid (s ! i))" "ac_cb c \<noteq> 0" "as_stop st = 0"
    "as_user st = Some g"
    and conn: "fresh_conn (ac_conn c)" "conn_ready (ac_conn c)" "no_send_error (ac_conn c)"
    "e_recv (ac_conn c) = Recv (request_text (bytes ''GET'') u ver hs) # rs" "get_request u ver hs" "keep_alive ver hs"
    and fa: "file_at w ctx g node reqs (document_root ctx @ cstr (pct_decode 0 u)) content m"
  defines "head \<equiv> file_head ver 200 (bytes ''OK'') (int (length content)) (w_now w) (etag_text m (int (length content)))
    (xs_find_mime_type (document_root ctx @ cstr (pct_decode 0 u))) True []"
  assumes room: "length head + length content \<le> conn_room (ac_conn c)"
  shows "\<exists>ps1 st1 c1. poll_serve (async_proc rm acc errno (server_cb w ctx)) ps i = Some ps1 \<and> ps_user ps1 = Some st1 \<and>
    as_heap st1 (cfd (s ! i)) = Some c1 \<and> conn_out (ac_conn c1) = conn_out (ac_conn c) @ head @ content"
proof -
  obtain g' x where h: "server_handler w ctx g exs_Conn_Read (ac_conn c) = Some (g', x, 0)" "conn_out x = conn_out (ac_conn c) @ head @ content"
    using handler_serves_get [OF conn(1-5) fa] room conn(6) unfolding head_def by auto
  let ?st1 = "st\<lparr>as_user := Some g', as_heap := (as_heap st)(cfd (s ! i) \<mapsto> c\<lparr>ac_conn := x\<rparr>)\<rparr>"
  have cb: "server_cb w ctx (ac_cb c) st exs_Conn_Read (cfd (s ! i)) = (?st1, 0)" "as_heap ?st1 (cfd (s ! i)) = Some (c\<lparr>ac_conn := x\<rparr>)"
    using st h(1) by (simp_all add: server_cb_def)
  from handler_reads [where cb = "server_cb w ctx" and st = st and c = c and conn = "cfd (s ! i)" and tok = "int (sid (s ! i))" and ?st1.0 = ?st1
      and room = rm and acc = acc and errno = errno and xp = "xs_pollfd_setrunning (ps_xp ps) 3" and sockfd = "fd (p ! i)", OF st(2-6) cb]
  obtain cmds st2 c2 where r: "xs_async_handler rm acc errno (server_cb w ctx) st (xs_pollfd_setrunning (ps_xp ps) 3) exs_pollfd_Read (fd (p ! i))
      (int (sid (s ! i))) (cfd (s ! i)) = Some (st2, cmds)" "as_heap st2 (cfd (s ! i)) = Some c2"
    "conn_out (ac_conn c2) = conn_out x" by (auto simp: conn_out_def cached_def)
  from read_served [OF ok(1-3) _ _ st(1) r(1) [unfolded p_def s_def]] ok(4,5) r(2,3) h(2) show ?thesis by (auto simp: p_def s_def)
qed

text \<open>C99: one pass of the polling loop serves a request. The socket of a connection that was just accepted is readable and holds a GET
  request that keeps the connection alive: the polling loop calls the dispatcher, the dispatcher the server's callback, and after
  the pass the response with the file has been written to this connection.\<close>

theorem server_pass_serves_get:
  fixes ps :: "webxs option xas option poll_state"
  defines "p \<equiv> pfd (ps_xp ps)" and "s \<equiv> pss (ps_xp ps)"
  assumes "pass_ok (ps_xp ps) i ip fl" "i < pfdCount (ps_xp ps)" "listenCount (ps_xp ps) \<le> i" "0 < fd (p ! i)" "revents (p ! i) = POLLIN"
    and "ps_user ps = Some st" "as_heap st (cfd (s ! i)) = Some c" "cfd (s ! i) \<noteq> 0" "ac_token c = int (sid (s ! i))" "ac_cb c \<noteq> 0" "as_stop st = 0"
    "as_user st = Some g"
    and "fresh_conn (ac_conn c)" "conn_ready (ac_conn c)" "no_send_error (ac_conn c)"
    "e_recv (ac_conn c) = Recv (request_text (bytes ''GET'') u ver hs) # rs" "get_request u ver hs" "keep_alive ver hs"
    and "file_at w ctx g node reqs (document_root ctx @ cstr (pct_decode 0 u)) content m"
  defines "head \<equiv> file_head ver 200 (bytes ''OK'') (int (length content)) (w_now w) (etag_text m (int (length content)))
    (xs_find_mime_type (document_root ctx @ cstr (pct_decode 0 u))) True []"
  assumes "length head + length content \<le> conn_room (ac_conn c)"
  shows "\<exists>ps1 st1 c1. poll_serve (async_proc rm acc errno (server_cb w ctx)) ps i = Some ps1 \<and> ps_user ps1 = Some st1 \<and>
    as_heap st1 (cfd (s ! i)) = Some c1 \<and> conn_out (ac_conn c1) = conn_out (ac_conn c) @ head @ content"
  unfolding head_def p_def s_def
  by (rule pass_serves_get [OF assms(3-5) assms(6-21) [unfolded p_def s_def] assms(23) [unfolded head_def]])

definition web_node :: "int \<Rightarrow> file_system" where
  "web_node t = [bytes ''w/a.css'' \<mapsto> Fs_file [1, 2, 3, 4] 7 True]"

definition web_world :: world where
  "web_world = \<lparr>w_room = (\<lambda>_. True), w_big = False, w_sha = SHA1Init \<lparr>sstate = [], scount0 = 0, scount1 = 0, sbuffer = replicate 64 0\<rparr>,
     w_fs = web_node 9, w_ct = 9, w_entries = (\<lambda>_. None), w_now = bytes ''now'', w_timestr = (\<lambda>_. []), w_crypt = (\<lambda>_ _. None), w_stack = []\<rparr>"

definition web_ctx :: xs_server_ctx where
  "web_ctx = \<lparr>server_name = [], document_root = bytes ''w'', auth_file = None\<rparr>"

definition web_state :: webxs where
  "web_state = \<lparr>gurlarr = [], gredir = 0, g_cache = xs_fileinfo_init filecache_start\<rparr>"

definition web_conn :: xs_conn where
  "web_conn = xs_conn_create\<lparr>c_sock := 5,
     e_recv := [Recv (request_text (bytes ''GET'') (bytes ''/a.css'') (bytes ''1.1'') [(bytes ''Host'', bytes ''h'')])]\<rparr>"

lemma web_request: "get_request (bytes ''/a.css'') (bytes ''1.1'') [(bytes ''Host'', bytes ''h'')]"
  by (simp add: get_request_def token_def short_fields_def field_value_def no_field_def request_text_def header_line_def xs_http_okchar_def
      uint32_def lower_eval)

lemma web_conn_facts: "fresh_conn web_conn" "conn_ready web_conn" "no_send_error web_conn" "conn_room web_conn = 1000000" "conn_out web_conn = []"
  by (simp_all add: web_conn_def xs_conn_create_def fresh_conn_def conn_ready_def cache_ok_def socket_open_def no_send_error_def conn_room_def
      conn_out_def cached_def arr_wf_def xs_arr_create_def arr_contents_def)

lemma web_serves: "serves web_node (bytes ''w/a.css'') now [1, 2, 3, 4] 7"
  by (simp add: serves_def mtime_tells_def web_node_def node_mtime_def)

lemma web_uri: "cstr (pct_decode 0 (bytes ''/a.css'')) = bytes ''/a.css''"
  by (simp add: cstr_def)

lemma web_keeps: "keep_alive (bytes ''1.1'') [(bytes ''Host'', bytes ''h'')]"
  by (simp add: keep_alive_def preparse_all_def preparse_header_def Let_def xs_strcmp_case_iff)

lemma web_path: "document_root web_ctx @ cstr (pct_decode 0 (bytes ''/a.css'')) = bytes ''w/a.css''"
  unfolding web_uri by (simp add: web_ctx_def)

lemma web_room:
  "length (file_head (bytes ''1.1'') 200 (bytes ''OK'') (int (length [1 :: byte, 2, 3, 4])) (w_now web_world)
    (etag_text 7 (int (length [1 :: byte, 2, 3, 4]))) (xs_find_mime_type (bytes ''w/a.css'')) True []) + length [1 :: byte, 2, 3, 4] \<le> conn_room web_conn"
proof -
  have mime: "xs_find_mime_type (bytes ''w/a.css'') = bytes ''text/css''"
    using mime_type_found [of "bytes ''css''" "bytes ''w/a''"] by (simp add: gxs_builtin_mime_types_def lower_eval)
  show ?thesis
    unfolding mime web_conn_facts(4) using int_text_bound [of 16 7 1] int_text_bound [of 16 4 1] int_text_bound [of 10 4 1] int_text_bound [of 10 200 3]
    by (simp add: file_head_def etag_text_def crlf_def web_world_def)
qed

lemma web_file: "file_at web_world web_ctx web_state web_node [] (document_root web_ctx @ cstr (pct_decode 0 (bytes ''/a.css''))) [1, 2, 3, 4] 7"
  unfolding web_path using web_serves [of 9] by (simp add: file_at_def web_state_def web_ctx_def web_world_def)

lemma web_recv: "e_recv web_conn = Recv (request_text (bytes ''GET'') (bytes ''/a.css'') (bytes ''1.1'') [(bytes ''Host'', bytes ''h'')]) # []"
  by (simp add: web_conn_def del: bytes_simps)


definition web_thread :: "webxs option xas option poll_state" where
  \<comment> \<open>a thread that polls one connection\<close>
  "web_thread = \<lparr>ps_user = Some \<lparr>as_heap = [7 \<mapsto> \<lparr>ac_conn = web_conn, ac_token = 0, ac_cb = 1, ac_port = 80, ac_sa = 0, ac_xp = True\<rparr>],
     as_next = 8, as_stop = 0, as_cb = 1, as_q = xs_queue_zero, as_user = Some web_state\<rparr>, ps_xp = one_entry 0, ps_accept = [], ps_queue = [], ps_closed = []\<rparr>"

theorem server_pass_serves_get_witness:
  "\<exists>ps1 st1 c1 h. poll_serve (async_proc (\<lambda>_. True) (\<lambda>_. 0) 0 (server_cb web_world web_ctx)) web_thread 0 = Some ps1 \<and> ps_user ps1 = Some st1 \<and>
    as_heap st1 7 = Some c1 \<and> conn_out (ac_conn c1) = h @ [1, 2, 3, 4]"
proof -
  let ?st = "\<lparr>as_heap = [7 \<mapsto> \<lparr>ac_conn = web_conn, ac_token = 0, ac_cb = 1, ac_port = 80, ac_sa = 0, ac_xp = True\<rparr>],
     as_next = 8, as_stop = 0, as_cb = 1, as_q = xs_queue_zero, as_user = Some web_state\<rparr>" and ?c = "\<lparr>ac_conn = web_conn, ac_token = 0, ac_cb = 1, ac_port = 80, ac_sa = 0, ac_xp = True\<rparr>"
  have t: "pass_ok (ps_xp web_thread) 0 0 []" "0 < pfdCount (ps_xp web_thread)" "listenCount (ps_xp web_thread) \<le> 0"
    "0 < fd (pfd (ps_xp web_thread) ! 0)" "revents (pfd (ps_xp web_thread) ! 0) = POLLIN" "ps_user web_thread = Some ?st"
    "as_heap ?st (cfd (pss (ps_xp web_thread) ! 0)) = Some ?c" "cfd (pss (ps_xp web_thread) ! 0) \<noteq> 0"
    "ac_token ?c = int (sid (pss (ps_xp web_thread) ! 0))" "ac_cb ?c \<noteq> 0" "as_stop ?st = 0" "as_user ?st = Some web_state" "ac_conn ?c = web_conn"
    "cfd (pss (ps_xp web_thread) ! 0) = 7"
    using one_entry_ok [of 0] by (simp_all add: web_thread_def) (simp_all add: one_entry_def)
  have "\<exists>ps1 st1 c1. poll_serve (async_proc (\<lambda>_. True) (\<lambda>_. 0) 0 (server_cb web_world web_ctx)) web_thread 0 = Some ps1 \<and> ps_user ps1 = Some st1 \<and>
    as_heap st1 (cfd (pss (ps_xp web_thread) ! 0)) = Some c1 \<and> conn_out (ac_conn c1) = conn_out (ac_conn ?c) @
      file_head (bytes ''1.1'') 200 (bytes ''OK'') (int (length [1 :: byte, 2, 3, 4])) (w_now web_world)
        (etag_text 7 (int (length [1 :: byte, 2, 3, 4])))
        (xs_find_mime_type (document_root web_ctx @ cstr (pct_decode 0 (bytes ''/a.css'')))) True [] @ [1, 2, 3, 4]"
    by (rule server_pass_serves_get [OF t(1-12) _ _ _ _ web_request web_keeps web_file])
      (use web_conn_facts web_recv web_room in \<open>simp_all only: t(13) web_path\<close>)
  then show ?thesis unfolding t(14) by (metis append.assoc)
qed

end
