(* ===== verification/Spec2Isabelle.thy ===== *)
theory Spec2Isabelle
  imports Utils Arrays Base64 Crc32 Sha1 Md5 Websocket ConnRead Queue Json Pollfd Webxs
begin

text \<open>
  A model of \<open>cxs\<close>, the C libraries and HTTP server under \<open>src/xs/\<close>, with the theorems that make its parts correct
  and those that show where they are not.

  \<^bold>\<open>The program.\<close> A server keeps a set of connections (\<open>xs_connection.h\<close>). Bytes that a socket delivers go through a
  receive buffer, the HTTP parser and the message state machine \<open>xs_conn_httpread\<close>; a complete request is handed to
  \<open>xs_server_handlerequest\<close> (\<open>xs_server.h\<close>), which checks credentials and answers with a file from the file cache
  (\<open>xs_fileinfo.h\<close>) or a directory page. Answers are formatted by \<open>xs_printf.h\<close>, whose callbacks write to the connection;
  what the socket does not take waits in the connection's write cache, an \<open>xs_arr\<close> array. Upgraded connections carry
  WebSocket frames. Work is passed between threads through \<open>xs_queue.h\<close>. Hashes, base 64, CRC, JSON, URIs and strings are
  libraries of their own.

  \<^bold>\<open>The theories\<close>, in the order they build on each other, and what their lemmas show:

  \<^item> \<open>Prelude\<close>: bytes, C strings, bounds-checked memory (an access outside a buffer is \<open>None\<close>), C integer conversions, and the
    collections \<open>mem_simps\<close> and \<open>byte_simps\<close>.
  \<^item> \<open>Utils\<close> (\<open>xs_utils.h\<close>): string functions, comparison, numbers to text, random numbers. Every copy stays in its buffer;
    comparison without case is equality of lower-case texts; \<open>xs_itoa\<close> prints positional digits.
  \<^item> \<open>Base64\<close> (\<open>xs_utils.h\<close>, \<open>xs_base64.h\<close>): the encoder, the whole-text decoder and the streaming decoder invert each other, up
    to the bytes the decoder makes of the padding.
  \<^item> \<open>BlockHash\<close>, \<open>Sha1\<close>, \<open>Md5\<close> (\<open>xs_sha1.h\<close>, \<open>xs_md5.h\<close>): the contract of a hash that collects blocks, as a locale that both
    hashes interpret; the incremental functions give the standard digest of the concatenated input.
  \<^item> \<open>Crc32\<close> (\<open>xs_crc.h\<close>): eight bytes at a time through the tables equal the register shifted bit by bit.
  \<^item> \<open>Arrays\<close> (\<open>xs_arr.h\<close>): the growable array refines a list; the sort terminates in bounds with a sorted permutation; the binary
    search reads outside the array.
  \<^item> \<open>Uri\<close>, \<open>Http\<close> (\<open>xs_connection.h\<close>): splitting and decoding URIs, the request parser. Parsing reads and writes only the received
    header, and the text of a request parses to its parts.
  \<^item> \<open>Pipe\<close>: the abstract specification of a connection's write side, bytes in flight in order.
  \<^item> \<open>Conn\<close>: the connection object, its counted references and the write path (\<open>xs_conn_write_\<close>, \<open>xs_conn_cachefill\<close>,
    \<open>xs_conn_cachepurge\<close>), which refine the pipe below the cache limit.
  \<^item> \<open>Printf\<close> (\<open>xs_printf.h\<close>): the format interpreter. The locale \<open>flusher\<close> is the contract of its output callback; for every format
    made of the modelled pieces the output is their text.
  \<^item> \<open>ConnWrite\<close>: formatted output, chunks, error responses and client requests on a connection. The locale \<open>write_relation\<close> lifts a
    relation from one send to the whole write path; its interpretations give the frame of a write and its progress.
  \<^item> \<open>Websocket\<close>: handshake and frames. \<open>ConnRead\<close>: receive buffer, chunk headers and \<open>xs_conn_httpread\<close>, which delivers exactly
    the body.
  \<^item> \<open>Queue\<close> (\<open>xs_queue.h\<close>): the ring of a work queue, with every shared access a step that any number of threads interleave. For one
    producer and one consumer the steps simulate a bounded FIFO; with more, counterexamples.
  \<^item> \<open>Json\<close> (\<open>xs_json.h\<close>): the pull parser, against the token list of a printed value.
  \<^item> \<open>Fileinfo\<close> (\<open>xs_fileinfo.h\<close>): the file cache and its locks. An entry describes its file as of at most two seconds ago; the table
    has one writer under any interleaving; two upgrades block each other.
  \<^item> \<open>Dir\<close>, \<open>Filedata\<close>, \<open>FileServe\<close>, \<open>Server\<close> (\<open>xs_server.h\<close>, \<open>xs_conn_write_filedata\<close>): directory pages, the loop that sends a
    file, ranges and file responses, authentication and the request handler, ending in the theorem that an allowed GET request
    is answered with the file at document root followed by URI.

  \<^bold>\<open>How the code is read.\<close> A struct is a record, an output parameter a component of the result, an access outside an object the
  result \<open>None\<close>. A pointer into a buffer is an index. \<open>room\<close> answers each request for memory. System calls are an environment: a
  connection carries what its socket will deliver and take (\<open>e_recv\<close>, \<open>e_send\<close>, \<open>e_pollout\<close>) and records what went on the wire
  (\<open>e_wire\<close>); the file system, the clock and OpenSSL's \<open>DES_crypt\<close> are parameters. The POSIX build on a 64-bit little or big
  endian machine is modelled.

  \<^bold>\<open>Bounds and fuel.\<close> Loops over memory are recursive functions with a measure. A loop that can run for ever is a
  \<open>partial_function\<close> whose value \<open>None\<close> is not returning (\<open>file_loop\<close>, the blocking loops of the queue in \<open>Queue\<close>), or takes fuel
  with a lemma that some amount suffices (\<open>xs_ptr_binsearch\<close>). A wait for another thread in a function modelled for one thread is
  \<open>None\<close>. Sizes are assumed below \<open>2 ^ 63\<close>, strings below \<open>2 ^ 31\<close> bytes where the code keeps their length in an \<open>int\<close>.

  \<^bold>\<open>Not modelled.\<close> Sockets, polling threads and the callback dispatcher (\<open>xs_socket.h\<close>, \<open>xs_async_*\<close>): their work is system calls,
  of which the model keeps what they deliver. The logger, processes, pipes, signal handling and the Windows emulation are input and
  output only. TLS is OpenSSL, loaded at run time. \<open>zlib\<close>, \<open>miniz\<close>, \<open>khash\<close>, \<open>mdnsd\<close> and \<open>tinysvcmdns\<close> are other projects' code. In
  \<open>webxs.c\<close> there is nothing but a command line and example handlers.
\<close>

end
